(* ===== verification/Anima_Prelude.thy ===== *)
theory Anima_Prelude
  imports Complex_Main "HOL-Library.AList" "HOL-Library.Char_ord" "HOL-Library.List_Lexorder"
begin

text \<open>
  Shared vocabulary of the development: the JSON values that the program stores and sends,
  Python's truth test on them, Python dictionaries as association lists in insertion order,
  the exceptions the modelled code raises, generic operations on tables with a primary key
  (the way the code uses SQLite), and the generic facts on reachable states.

  Strings are lists of characters; a Python string outside ASCII is its UTF-8 encoding.
  Floating point seconds are rationals: no theorem below depends on rounding.
\<close>

named_theorems table_simps \<open>facts that move lookups through table updates\<close>

section \<open>JSON values and Python dictionaries\<close>

datatype json =
    JNull
  | JBool bool
  | JInt int
  | JFloat rat
  | JNonFinite
  | JStr string
  | JArr "json list"
  | JObj "(string \<times> json) list"

type_synonym dict = "(string \<times> json) list"

text \<open>\<^verbatim>\<open>bool(value)\<close> on a decoded JSON value.\<close>

fun truthy :: "json \<Rightarrow> bool" where
  "truthy JNull = False"
| "truthy (JBool b) = b"
| "truthy (JInt i) = (i \<noteq> 0)"
| "truthy (JFloat q) = (q \<noteq> 0)"
| "truthy JNonFinite = True"
| "truthy (JStr s) = (s \<noteq> [])"
| "truthy (JArr xs) = (xs \<noteq> [])"
| "truthy (JObj d) = (d \<noteq> [])"

text \<open>\<^verbatim>\<open>d.get(key)\<close> used for its truth value, and \<^verbatim>\<open>bool(x)\<close> for an optional string.\<close>

definition dict_truthy :: "dict \<Rightarrow> string \<Rightarrow> bool" where
  "dict_truthy d k = (case map_of d k of None \<Rightarrow> False | Some v \<Rightarrow> truthy v)"

definition opt_truthy :: "string option \<Rightarrow> bool" where
  "opt_truthy o' = (case o' of None \<Rightarrow> False | Some s \<Rightarrow> s \<noteq> [])"

text \<open>\<^verbatim>\<open>d.get(key, default)\<close>.\<close>

definition opt_or :: "'a option \<Rightarrow> 'a \<Rightarrow> 'a" where
  "opt_or o' d = (case o' of None \<Rightarrow> d | Some v \<Rightarrow> v)"

lemma opt_or_simps [simp]: "opt_or None d = d" "opt_or (Some v) d = v"
  by (simp_all add: opt_or_def)

text \<open>\<^verbatim>\<open>{**d, **e}\<close>: the entries of \<open>e\<close> win, the order is the insertion order.\<close>

fun dict_merge :: "('k \<times> 'v) list \<Rightarrow> ('k \<times> 'v) list \<Rightarrow> ('k \<times> 'v) list" where
  "dict_merge d [] = d"
| "dict_merge d ((k, v) # e) = dict_merge (AList.update k v d) e"

text \<open>Successive \<^verbatim>\<open>d.pop(key, None)\<close>.\<close>

fun dict_pops :: "('k \<times> 'v) list \<Rightarrow> 'k list \<Rightarrow> ('k \<times> 'v) list" where
  "dict_pops d [] = d"
| "dict_pops d (k # ks) = dict_pops (AList.delete k d) ks"

text \<open>Decimal rendering, \<^verbatim>\<open>str(n)\<close>.\<close>

fun nat_str :: "nat \<Rightarrow> string" where
  "nat_str n = (if n < 10 then [char_of (48 + n)] else nat_str (n div 10) @ [char_of (48 + n mod 10)])"

declare nat_str.simps [simp del]

definition int_str :: "int \<Rightarrow> string" where
  "int_str i = (if i < 0 then CHR ''-'' # nat_str (nat (- i)) else nat_str (nat i))"

text \<open>
  \<^verbatim>\<open>str(value)\<close> on a decoded JSON scalar. Python's rendering of floats and containers is not
  modelled: \<open>None\<close>, which the callers turn into an explicit error.
\<close>

fun str_of :: "json \<Rightarrow> string option" where
  "str_of (JStr s) = Some s"
| "str_of (JInt i) = Some (int_str i)"
| "str_of (JBool b) = Some (if b then ''True'' else ''False'')"
| "str_of JNull = Some ''None''"
| "str_of _ = None"

text \<open>
  \<^verbatim>\<open>isinstance(v, (int, float))\<close> with the number, and \<^verbatim>\<open>isinstance(v, int)\<close>; a \<^verbatim>\<open>bool\<close> is an \<^verbatim>\<open>int\<close> in Python.
  The infinities and NaN, which \<^verbatim>\<open>json\<close> may decode, count as no number here.
\<close>

fun json_num :: "json \<Rightarrow> rat option" where
  "json_num (JInt i) = Some (of_int i)"
| "json_num (JFloat q) = Some q"
| "json_num (JBool b) = Some (if b then 1 else 0)"
| "json_num _ = None"

fun json_int :: "json \<Rightarrow> int option" where
  "json_int (JInt i) = Some i"
| "json_int (JBool b) = Some (if b then 1 else 0)"
| "json_int _ = None"

text \<open>\<^verbatim>\<open>str.strip\<close>, \<^verbatim>\<open>str.startswith\<close>, \<^verbatim>\<open>p in s\<close>, \<^verbatim>\<open>str.lower\<close> on ASCII, and \<^verbatim>\<open>xs[-n:]\<close> for a positive \<open>n\<close>.\<close>

definition is_space :: "char \<Rightarrow> bool" where
  "is_space c = (of_char c \<in> {9, 10, 11, 12, 13, 28, 29, 30, 31, 32 :: nat})"

definition py_strip :: "string \<Rightarrow> string" where
  "py_strip s = rev (dropWhile is_space (rev (dropWhile is_space s)))"

definition starts_with :: "string \<Rightarrow> string \<Rightarrow> bool" where
  "starts_with s p = (take (length p) s = p)"

fun occurs_in :: "string \<Rightarrow> string \<Rightarrow> bool" where
  "occurs_in p [] = (p = [])"
| "occurs_in p (c # cs) = (starts_with (c # cs) p \<or> occurs_in p cs)"

definition str_lower :: "string \<Rightarrow> string" where
  "str_lower s = map (\<lambda>c. if 65 \<le> (of_char c :: nat) \<and> of_char c \<le> (90 :: nat) then char_of (of_char c + 32 :: nat) else c) s"

definition last_n :: "nat \<Rightarrow> 'a list \<Rightarrow> 'a list" where
  "last_n n xs = drop (length xs - n) xs"

section \<open>Exceptions\<close>

datatype py_error =
    ValueError string
  | RuntimeError string
  | TypeError string
  | KeyError string
  | IntegrityError string
  | FileExistsError string
  | AttributeError string
  | ProgrammingError string
  | PermissionDenied string
  | TaskPersistenceError string
  | StorageError string
  | TransportError
  | HTTPStatusError int

section \<open>Tables with a primary key\<close>

text \<open>
  A table is the list of its rows in \<^verbatim>\<open>rowid\<close> order and \<open>key\<close> reads the primary key of a row.
  \<open>row_find\<close> is \<^verbatim>\<open>SELECT ... WHERE key=?\<close> with \<^verbatim>\<open>fetchone\<close>, \<open>row_update\<close> is
  \<^verbatim>\<open>UPDATE ... WHERE key=?\<close>, \<open>row_upsert\<close> is \<^verbatim>\<open>INSERT ... ON CONFLICT(key) DO UPDATE\<close>
  (the first argument is the inserted row, the second the assignment on conflict) and
  \<open>row_insert_ignore\<close> is \<^verbatim>\<open>INSERT OR IGNORE\<close>.
\<close>

definition row_find :: "('r \<Rightarrow> 'k) \<Rightarrow> 'k \<Rightarrow> 'r list \<Rightarrow> 'r option" where
  "row_find key k rows = find (\<lambda>r. key r = k) rows"

definition row_update :: "('r \<Rightarrow> 'k) \<Rightarrow> 'k \<Rightarrow> ('r \<Rightarrow> 'r) \<Rightarrow> 'r list \<Rightarrow> 'r list" where
  "row_update key k f rows = map (\<lambda>r. if key r = k then f r else r) rows"

definition row_upsert :: "('r \<Rightarrow> 'k) \<Rightarrow> 'r \<Rightarrow> ('r \<Rightarrow> 'r) \<Rightarrow> 'r list \<Rightarrow> 'r list" where
  "row_upsert key new f rows =
     (if row_find key (key new) rows = None then rows @ [new]
      else row_update key (key new) f rows)"

definition row_insert_ignore :: "('r \<Rightarrow> 'k) \<Rightarrow> 'r \<Rightarrow> 'r list \<Rightarrow> 'r list" where
  "row_insert_ignore key new rows =
     (if row_find key (key new) rows = None then rows @ [new] else rows)"

definition pk_unique :: "('r \<Rightarrow> 'k) \<Rightarrow> 'r list \<Rightarrow> bool" where
  "pk_unique key rows = distinct (map key rows)"

section \<open>Facts on dictionaries\<close>

lemma option_eqI: "(\<And>v. x = Some v \<longleftrightarrow> y = Some v) \<Longrightarrow> x = y"
  by (cases x; cases y) auto

lemma map_of_dict_merge:
  "map_of (dict_merge d e) k = (case map_of (rev e) k of None \<Rightarrow> map_of d k | Some v \<Rightarrow> Some v)"
  by (induction d e rule: dict_merge.induct)
     (auto simp: update_conv map_add_def split: option.splits)

lemma map_of_rev_distinct:
  assumes "distinct (map fst e)"
  shows "map_of (rev e) k = map_of e k"
proof (cases "map_of e k")
  case None
  then have "map_of (rev e) k = None" by (simp add: map_of_eq_None_iff)
  with None show ?thesis by simp
next
  case (Some v)
  with assms show ?thesis by (simp add: map_of_eq_Some_iff rev_map [symmetric])
qed

lemma map_of_dict_merge_distinct:
  "distinct (map fst e) \<Longrightarrow>
   map_of (dict_merge d e) k = (case map_of e k of None \<Rightarrow> map_of d k | Some v \<Rightarrow> Some v)"
  by (simp add: map_of_dict_merge map_of_rev_distinct)

lemma distinct_dict_merge [simp]:
  "distinct (map fst d) \<Longrightarrow> distinct (map fst (dict_merge d e))"
  by (induction d e rule: dict_merge.induct) (auto simp: distinct_update)

lemma map_of_dict_pops:
  "map_of (dict_pops d ks) k = (if k \<in> set ks then None else map_of d k)"
  by (induction d ks rule: dict_pops.induct) (auto simp: delete_conv)

section \<open>Facts on tables\<close>

lemma row_find_Some: "row_find key k rows = Some r \<Longrightarrow> r \<in> set rows \<and> key r = k"
  by (auto simp: row_find_def find_Some_iff)

lemma row_find_None: "row_find key k rows = None \<longleftrightarrow> (\<forall>r \<in> set rows. key r \<noteq> k)"
  by (auto simp: row_find_def find_None_iff)

lemma row_find_eq_Some_iff:
  "pk_unique key rows \<Longrightarrow> row_find key k rows = Some r \<longleftrightarrow> r \<in> set rows \<and> key r = k"
proof (induction rows)
  case Nil
  then show ?case by (simp add: row_find_def)
next
  case (Cons a rows)
  then show ?case
    by (auto simp: row_find_def pk_unique_def)
qed

lemma pk_unique_eq:
  "pk_unique key rows \<Longrightarrow> r \<in> set rows \<Longrightarrow> r' \<in> set rows \<Longrightarrow> key r = key r' \<Longrightarrow> r = r'"
  by (auto simp: pk_unique_def distinct_map inj_on_def)

lemma set_row_update:
  "set (row_update key k f rows) = (\<lambda>r. if key r = k then f r else r) ` set rows"
  by (simp add: row_update_def)

lemma map_key_row_update [table_simps]:
  "(\<And>r. key r = k \<Longrightarrow> key (f r) = k) \<Longrightarrow> map key (row_update key k f rows) = map key rows"
  by (induction rows) (auto simp: row_update_def)

lemma row_find_update [table_simps]:
  "(\<And>r. key r = k \<Longrightarrow> key (f r) = k) \<Longrightarrow>
   row_find key k' (row_update key k f rows) =
     (if k' = k then map_option f (row_find key k rows) else row_find key k' rows)"
  by (induction rows) (auto simp: row_find_def row_update_def)

lemma row_find_append [table_simps]:
  "row_find key k (rows @ rows') =
     (case row_find key k rows of None \<Rightarrow> row_find key k rows' | Some r \<Rightarrow> Some r)"
  by (induction rows) (auto simp: row_find_def)

lemma row_find_single [table_simps]:
  "row_find key k [r] = (if key r = k then Some r else None)"
  by (simp add: row_find_def)

lemma row_find_upsert [table_simps]:
  assumes "\<And>r. key r = key new \<Longrightarrow> key (f r) = key new"
  shows "row_find key k (row_upsert key new f rows) =
     (if k = key new then Some (case row_find key (key new) rows of None \<Rightarrow> new | Some r \<Rightarrow> f r)
      else row_find key k rows)"
  using assms
  by (auto simp: row_upsert_def row_find_update row_find_append row_find_single split: option.splits)

lemma row_find_insert_ignore [table_simps]:
  "row_find key k (row_insert_ignore key new rows) =
     (if k = key new then Some (case row_find key (key new) rows of None \<Rightarrow> new | Some r \<Rightarrow> r)
      else row_find key k rows)"
  by (auto simp: row_insert_ignore_def row_find_append row_find_single split: option.splits)

lemma pk_unique_update [intro]:
  "pk_unique key rows \<Longrightarrow> (\<And>r. key r = k \<Longrightarrow> key (f r) = k) \<Longrightarrow>
   pk_unique key (row_update key k f rows)"
  by (simp add: pk_unique_def map_key_row_update)

lemma pk_unique_snoc:
  "pk_unique key rows \<Longrightarrow> row_find key (key new) rows = None \<Longrightarrow> pk_unique key (rows @ [new])"
  by (auto simp: pk_unique_def row_find_None)

lemma pk_unique_upsert [intro]:
  "pk_unique key rows \<Longrightarrow> (\<And>r. key r = key new \<Longrightarrow> key (f r) = key new) \<Longrightarrow>
   pk_unique key (row_upsert key new f rows)"
  by (auto simp: row_upsert_def intro: pk_unique_snoc)

lemma pk_unique_insert_ignore [intro]:
  "pk_unique key rows \<Longrightarrow> pk_unique key (row_insert_ignore key new rows)"
  by (auto simp: row_insert_ignore_def intro: pk_unique_snoc)

section \<open>Reachable states\<close>

text \<open>
  Every component with state is a step relation. The interface below is what its invariant
  has to promise; the lemma is the induction every component would otherwise repeat.
\<close>

locale step_invariant =
  fixes init :: "'s \<Rightarrow> bool"
    and step :: "'s \<Rightarrow> 's \<Rightarrow> bool"
    and inv :: "'s \<Rightarrow> bool"
  assumes inv_init: "init s \<Longrightarrow> inv s"
    and inv_step: "step s t \<Longrightarrow> inv s \<Longrightarrow> inv t"
begin

lemma inv_steps: "rtranclp step s t \<Longrightarrow> inv s \<Longrightarrow> inv t"
  by (induction rule: rtranclp_induct) (auto intro: inv_step)

lemma inv_reachable: "init s \<Longrightarrow> rtranclp step s t \<Longrightarrow> inv t"
  by (blast intro: inv_steps inv_init)

end

text \<open>
  Refinement of one machine by another: every operation of the detailed machine is an operation of the
  specification, as far as the relation \<open>rel\<close> between their states shows.
\<close>

locale simulation =
  fixes step :: "'o \<Rightarrow> 's \<Rightarrow> 's"
    and spec :: "'o \<Rightarrow> 'a \<Rightarrow> 'a"
    and rel :: "'s \<Rightarrow> 'a \<Rightarrow> bool"
    and ok :: "'o \<Rightarrow> bool"
  assumes sim_step: "ok op \<Longrightarrow> rel s a \<Longrightarrow> rel (step op s) (spec op a)"
begin

lemma sim_run: "list_all ok ops \<Longrightarrow> rel s a \<Longrightarrow> rel (fold step ops s) (fold spec ops a)"
  by (induction ops arbitrary: s a) (auto intro: sim_step)

end

section \<open>Limits on a sliding window\<close>

text \<open>
  Several limiters refuse an action while too many time stamps lie in a window that ends now.
  \<open>recent now t\<close> is the limiter's own test of a stamp, \<open>refuses n now\<close> its verdict on the list of
  stamps; what the clients rely on follows from the two laws.
\<close>

locale window_limit =
  fixes recent :: "rat \<Rightarrow> rat \<Rightarrow> bool"
    and threshold :: int
    and refuses :: "rat list \<Rightarrow> rat \<Rightarrow> bool"
  assumes recent_anti: "now \<le> now' \<Longrightarrow> recent now' t \<Longrightarrow> recent now t"
    and refuses_iff: "refuses ts now \<longleftrightarrow> threshold \<le> int (length (filter (recent now) ts))"
begin

lemma recent_count_anti:
  "now \<le> now' \<Longrightarrow> length (filter (recent now') ts) \<le> length (filter (recent now) ts)"
  by (induction ts) (auto dest: recent_anti)

lemma stays_open: "\<not> refuses ts now \<Longrightarrow> now \<le> now' \<Longrightarrow> \<not> refuses ts now'"
  using recent_count_anti [of now now' ts] by (auto simp: refuses_iff)

lemma opens_after_window: "0 < threshold \<Longrightarrow> (\<And>t. t \<in> set ts \<Longrightarrow> \<not> recent now t) \<Longrightarrow> \<not> refuses ts now"
  by (simp add: refuses_iff)

lemma refuses_burst: "(\<And>t. t \<in> set ts \<Longrightarrow> recent now t) \<Longrightarrow> threshold \<le> int (length ts) \<Longrightarrow> refuses ts now"
  by (simp add: refuses_iff)

lemma refuses_mono: "refuses ts now \<Longrightarrow> refuses (ts @ us) now"
  by (simp add: refuses_iff)

end

end
