(* ===== verification/Task_Store.thy ===== *)
theory Task_Store
  imports Anima_Prelude
begin

text \<open>
  The durable task store of \<^verbatim>\<open>core/taskboard/tasks.py\<close>, class \<^verbatim>\<open>TaskStore\<close>: the SQLite tables as
  lists of rows, and every operation as a function on the database. An operation runs inside
  one \<^verbatim>\<open>BEGIN IMMEDIATE\<close> transaction; it returns \<open>Inl\<close> of the exception (the transaction is
  rolled back and there is no new database) or \<open>Inr\<close> of the result and the new database.
  \<^verbatim>\<open>entry_json\<close> and \<^verbatim>\<open>input_json\<close> hold the decoded values. The clock readings \<^verbatim>\<open>now_iso()\<close>, the
  fresh \<^verbatim>\<open>uuid4\<close> token and the ambient attempt identity are arguments. Where SQL leaves the row
  order open the rows come in \<^verbatim>\<open>rowid\<close> order.
\<close>

section \<open>Data\<close>

record task_entry =
  te_task_id :: string
  te_ts :: string
  te_source :: string
  te_original_instruction :: string
  te_assignee :: string
  te_status :: string
  te_summary :: string
  te_relay_chain :: "string list"
  te_updated_at :: string
  te_meta :: dict

text \<open>Pydantic validation of the one field whose type is not \<^verbatim>\<open>str\<close>: \<^verbatim>\<open>Literal["human", "anima"]\<close>.\<close>

definition entry_valid :: "task_entry \<Rightarrow> bool" where
  "entry_valid e = (te_source e \<in> {''human'', ''anima''})"

record task_row =
  row_anima :: string
  row_task_id :: string
  row_entry :: task_entry
  row_input :: "dict option"
  row_ready :: bool
  row_attempt :: "string option"
  row_archived :: bool

record attempt_row =
  at_token :: string
  at_anima :: string
  at_task_id :: string
  at_number :: nat
  at_identity :: dict
  at_started :: string
  at_ended :: "string option"
  at_stop_kind :: "string option"
  at_result_ref :: "string option"

record alias_row =
  al_viewer :: string
  al_alias :: string
  al_anima :: string
  al_task_id :: string

record wakeup_row =
  wk_anima :: string
  wk_task_id :: string
  wk_token :: string
  wk_reason :: string
  wk_created :: string
  wk_ack :: "string option"

record import_row =
  im_anima :: string
  im_at :: string
  im_source :: string
  im_report :: dict

record control_row =
  ct_anima :: string
  ct_paused :: bool

record task_db =
  db_tasks :: "task_row list"
  db_attempts :: "attempt_row list"
  db_aliases :: "alias_row list"
  db_imports :: "import_row list"
  db_wakeups :: "wakeup_row list"
  db_control :: "control_row list"

record attempt_identity =
  id_anima :: string
  id_task_id :: string
  id_token :: string

definition empty_db :: task_db where
  "empty_db = \<lparr>db_tasks = [], db_attempts = [], db_aliases = [], db_imports = [],
     db_wakeups = [], db_control = []\<rparr>"

text \<open>Primary keys of the schema.\<close>

definition task_key :: "task_row \<Rightarrow> string \<times> string" where
  "task_key r = (row_anima r, row_task_id r)"

definition alias_key :: "alias_row \<Rightarrow> string \<times> string" where
  "alias_key r = (al_viewer r, al_alias r)"

definition wakeup_key :: "wakeup_row \<Rightarrow> string \<times> string \<times> string" where
  "wakeup_key r = (wk_anima r, wk_task_id r, wk_token r)"

definition attempt_number_key :: "attempt_row \<Rightarrow> string \<times> string \<times> nat" where
  "attempt_number_key r = (at_anima r, at_task_id r, at_number r)"

definition get_row :: "task_db \<Rightarrow> string \<Rightarrow> string \<Rightarrow> task_row option" where
  "get_row db anima tid = row_find task_key (anima, tid) (db_tasks db)"

definition set_row :: "string \<Rightarrow> string \<Rightarrow> (task_row \<Rightarrow> task_row) \<Rightarrow> task_db \<Rightarrow> task_db" where
  "set_row anima tid f db = db\<lparr>db_tasks := row_update task_key (anima, tid) f (db_tasks db)\<rparr>"

definition row_status :: "task_row \<Rightarrow> string" where
  "row_status r = te_status (row_entry r)"

definition add_wakeup :: "wakeup_row \<Rightarrow> task_db \<Rightarrow> task_db" where
  "add_wakeup w db = db\<lparr>db_wakeups := row_insert_ignore wakeup_key w (db_wakeups db)\<rparr>"

text \<open>\<^verbatim>\<open>UPDATE task_wakeups SET acknowledged_at=? WHERE anima=? AND task_id=? AND acknowledged_at IS NULL\<close>\<close>

definition ack_task_wakeups :: "string \<Rightarrow> string \<Rightarrow> string \<Rightarrow> task_db \<Rightarrow> task_db" where
  "ack_task_wakeups now anima tid db = db\<lparr>db_wakeups :=
     map (\<lambda>w. if wk_anima w = anima \<and> wk_task_id w = tid \<and> wk_ack w = None
              then w\<lparr>wk_ack := Some now\<rparr> else w) (db_wakeups db)\<rparr>"

section \<open>Attempt identity\<close>

text \<open>
  \<^verbatim>\<open>current_attempt_identity\<close>: the context variable wins; otherwise the environment variable is
  decoded (\<open>loads\<close> stands for \<^verbatim>\<open>json.loads\<close>, \<open>None\<close> when the text is not JSON) and all three fields
  must be non-empty strings.
\<close>

definition nonempty_str :: "dict \<Rightarrow> string \<Rightarrow> string option" where
  "nonempty_str d k =
     (case map_of d k of Some (JStr s) \<Rightarrow> (if s = [] then None else Some s) | _ \<Rightarrow> None)"

definition current_attempt_identity ::
  "(string \<Rightarrow> json option) \<Rightarrow> attempt_identity option \<Rightarrow> string
   \<Rightarrow> py_error + attempt_identity option" where
  "current_attempt_identity loads ctx raw =
     (case ctx of Some i \<Rightarrow> Inr (Some i)
      | None \<Rightarrow> if raw = [] then Inr None
        else case loads raw of
          None \<Rightarrow> Inl (ValueError ''JSONDecodeError'')
        | Some (JObj d) \<Rightarrow>
            (case (nonempty_str d ''anima'', nonempty_str d ''task_id'', nonempty_str d ''token'') of
               (Some a, Some t, Some k) \<Rightarrow> Inr (Some \<lparr>id_anima = a, id_task_id = t, id_token = k\<rparr>)
             | _ \<Rightarrow> Inl (ValueError ''Invalid task execution identity''))
        | Some _ \<Rightarrow> Inl (ValueError ''Invalid task execution identity''))"

text \<open>The fence every writer applies: the caller runs as an attempt of this very task, and that
  attempt is not the task's current one.\<close>

definition stale_identity ::
  "attempt_identity option \<Rightarrow> string \<Rightarrow> string \<Rightarrow> task_row option \<Rightarrow> bool" where
  "stale_identity ident anima tid row =
     (case ident of None \<Rightarrow> False
      | Some i \<Rightarrow> id_anima i = anima \<and> id_task_id i = tid \<and>
          (case row of None \<Rightarrow> True | Some r \<Rightarrow> row_attempt r \<noteq> Some (id_token i)))"

section \<open>Name resolution and reading\<close>

definition resolve :: "task_db \<Rightarrow> string \<Rightarrow> string \<Rightarrow> string \<times> string" where
  "resolve db anima tid =
     (case row_find alias_key (anima, tid) (db_aliases db) of
        Some al \<Rightarrow> (al_anima al, al_task_id al)
      | None \<Rightarrow>
        if get_row db anima tid \<noteq> None then (anima, tid)
        else case find (\<lambda>al. al_anima al = anima \<and> al_alias al = tid) (db_aliases db) of
          Some al \<Rightarrow> (anima, al_task_id al)
        | None \<Rightarrow>
          (case find (\<lambda>al. al_viewer al = anima \<and> al_task_id al = tid) (db_aliases db) of
             Some al \<Rightarrow> (al_anima al, al_task_id al)
           | None \<Rightarrow> (anima, tid)))"

text \<open>How the requester sees a task that another anima owns.\<close>

definition delegated_view :: "string \<Rightarrow> string \<Rightarrow> string \<Rightarrow> task_entry \<Rightarrow> task_entry" where
  "delegated_view shown owner tid e =
     e\<lparr>te_task_id := shown,
       te_status := (if te_status e \<in> {''pending'', ''in_progress''} then ''delegated'' else te_status e),
       te_meta := dict_merge (te_meta e)
         [(''delegated_to'', JStr owner), (''delegated_task_id'', JStr tid),
          (''delegated_status'', JStr (te_status e))]\<rparr>"

definition store_read :: "string \<Rightarrow> bool \<Rightarrow> task_db \<Rightarrow> (string \<times> task_entry) list" where
  "store_read anima archived db =
     (let own = [(te_task_id (row_entry r), row_entry r).
                   r \<leftarrow> db_tasks db, row_anima r = anima \<and> (archived \<or> \<not> row_archived r)];
          shared = [(al_alias al, delegated_view (al_alias al) (al_anima al) (al_task_id al) (row_entry r)).
                   al \<leftarrow> db_aliases db, al_viewer al = anima,
                   r \<leftarrow> db_tasks db, task_key r = (al_anima al, al_task_id al) \<and>
                                      (archived \<or> \<not> row_archived r)]
      in dict_merge (dict_merge [] own) shared)"

definition store_get :: "string \<Rightarrow> string \<Rightarrow> task_db \<Rightarrow> task_entry option" where
  "store_get anima tid db =
     (case resolve db anima tid of (owner, resolved) \<Rightarrow>
        (case get_row db owner resolved of
           None \<Rightarrow> None
         | Some r \<Rightarrow> Some (if owner \<noteq> anima then delegated_view tid owner resolved (row_entry r)
                           else row_entry r)))"

section \<open>Writing entries\<close>

definition store_alias ::
  "string \<Rightarrow> string \<Rightarrow> string \<Rightarrow> string \<Rightarrow> task_db \<Rightarrow> py_error + task_db" where
  "store_alias viewer alias anima tid db =
     (let new = \<lparr>al_viewer = viewer, al_alias = alias, al_anima = anima, al_task_id = tid\<rparr>
      in case row_find alias_key (viewer, alias) (db_aliases db) of
           Some al \<Rightarrow> (if (al_anima al, al_task_id al) \<noteq> (anima, tid)
                      then Inl (ValueError ''Task alias already names another task'')
                      else Inr (db\<lparr>db_aliases := row_insert_ignore alias_key new (db_aliases db)\<rparr>))
         | None \<Rightarrow> Inr (db\<lparr>db_aliases := row_insert_ignore alias_key new (db_aliases db)\<rparr>))"

text \<open>The two shapes of the event dictionary: an update (absent keys are \<open>None\<close>) or a whole entry.\<close>

record update_event =
  ue_task_id :: string
  ue_status :: "string option"
  ue_summary :: "string option"
  ue_updated_at :: "string option"
  ue_meta :: "dict option"

datatype task_event = UpdateEvent update_event | EntryEvent task_entry

fun event_task_id :: "task_event \<Rightarrow> string" where
  "event_task_id (UpdateEvent u) = ue_task_id u"
| "event_task_id (EntryEvent e) = te_task_id e"

definition merge_update :: "update_event \<Rightarrow> task_entry \<Rightarrow> task_entry" where
  "merge_update u e =
     e\<lparr>te_status := opt_or (ue_status u) (te_status e),
       te_summary := opt_or (ue_summary u) (te_summary e),
       te_updated_at := opt_or (ue_updated_at u) (te_updated_at e),
       te_meta := (case ue_meta u of None \<Rightarrow> te_meta e | Some m \<Rightarrow> dict_merge (te_meta e) m)\<rparr>"

definition terminal :: "string \<Rightarrow> bool" where
  "terminal s = (s \<in> {''done'', ''cancelled''})"

definition blank_row :: "string \<Rightarrow> task_entry \<Rightarrow> task_row" where
  "blank_row anima e = \<lparr>row_anima = anima, row_task_id = te_task_id e, row_entry = e,
     row_input = None, row_ready = False, row_attempt = None, row_archived = False\<rparr>"

definition apply_update ::
  "string \<Rightarrow> string \<Rightarrow> task_row option \<Rightarrow> update_event \<Rightarrow> task_db \<Rightarrow> py_error + task_db" where
  "apply_update owner tid existing u db =
     (case existing of None \<Rightarrow> Inr db
      | Some r \<Rightarrow>
        let new_status = opt_or (ue_status u) (row_status r)
        in if row_status r = ''cancelled'' \<and> new_status = ''pending'' \<and> opt_truthy (row_attempt r)
           then Inl (ValueError ''Cannot reopen a cancelled task until its active attempt stops'')
           else if row_status r = ''cancelled'' \<and> new_status \<notin> {''cancelled'', ''pending''}
           then Inr db
           else Inr (set_row owner tid (\<lambda>x. x\<lparr>row_entry := merge_update u (row_entry r),
                       row_archived := False,
                       row_ready := (if terminal new_status then False else row_ready x)\<rparr>) db))"

definition insert_entry :: "string \<Rightarrow> task_entry \<Rightarrow> task_db \<Rightarrow> task_db" where
  "insert_entry anima e db =
     db\<lparr>db_tasks := row_upsert task_key (blank_row anima e)
          (\<lambda>x. x\<lparr>row_entry := e, row_archived := False\<rparr>) (db_tasks db)\<rparr>"

definition apply_entry ::
  "string \<Rightarrow> string \<Rightarrow> task_row option \<Rightarrow> task_entry \<Rightarrow> task_db \<Rightarrow> py_error + task_db" where
  "apply_entry anima tid existing e db =
     (if \<not> entry_valid e then Inl (ValueError ''TaskEntry'')
      else if te_status e = ''delegated'' \<and> dict_truthy (te_meta e) ''delegated_to'' \<and>
              dict_truthy (te_meta e) ''delegated_task_id''
      then (case (Option.bind (map_of (te_meta e) ''delegated_to'') str_of,
                  Option.bind (map_of (te_meta e) ''delegated_task_id'') str_of) of
              (Some target, Some child) \<Rightarrow> store_alias anima (te_task_id e) target child db
            | _ \<Rightarrow> Inl (TypeError ''str''))
      else case existing of
          None \<Rightarrow> Inr (insert_entry anima e db)
        | Some r \<Rightarrow>
            if opt_truthy (row_attempt r)
            then Inl (ValueError (''Task '' @ tid @ '' is running; cannot replace its input''))
            else if row_input r \<noteq> None
            then Inl (ValueError (''Task '' @ tid @ '' already has execution input; use update or explicit resume''))
            else Inr (insert_entry anima e db))"

definition store_apply ::
  "attempt_identity option \<Rightarrow> string \<Rightarrow> task_event \<Rightarrow> task_db \<Rightarrow> py_error + task_db" where
  "store_apply ident anima ev db =
     (case resolve db anima (event_task_id ev) of (owner, tid) \<Rightarrow>
        let existing = get_row db owner tid
        in if stale_identity ident owner tid existing
           then Inl (ValueError ''Stale task attempt cannot change the current task'')
           else case ev of
               UpdateEvent u \<Rightarrow> apply_update owner tid existing u db
             | EntryEvent e \<Rightarrow> apply_entry anima tid existing e db)"

section \<open>Publishing execution input\<close>

definition publish_row :: "string \<Rightarrow> task_entry \<Rightarrow> dict \<Rightarrow> task_db \<Rightarrow> task_db" where
  "publish_row anima e payload db =
     db\<lparr>db_tasks := row_upsert task_key
          ((blank_row anima e)\<lparr>row_input := Some payload, row_ready := True\<rparr>)
          (\<lambda>x. x\<lparr>row_entry := e, row_input := Some payload, row_ready := True, row_archived := False\<rparr>)
          (db_tasks db)\<rparr>"

definition store_submit ::
  "attempt_identity option \<Rightarrow> string \<Rightarrow> string \<Rightarrow> string \<Rightarrow> task_entry \<Rightarrow> dict \<Rightarrow> bool
   \<Rightarrow> task_db \<Rightarrow> py_error + bool \<times> task_db" where
  "store_submit ident now now' anima entry payload resume db =
     (if map_of payload ''task_id'' \<noteq> Some (JStr (te_task_id entry))
      then Inl (ValueError ''Task input ID differs from task entry ID'')
      else
        let previous = get_row db anima (te_task_id entry);
            publish = Inr (True, ack_task_wakeups now' anima (te_task_id entry)
              (publish_row anima (entry\<lparr>te_status := ''pending'', te_updated_at := now\<rparr>) payload db))
        in if stale_identity ident anima (te_task_id entry) previous
           then Inl (ValueError ''Stale task attempt cannot publish or resume itself'')
           else case previous of
               None \<Rightarrow> publish
             | Some p \<Rightarrow>
                 if opt_truthy (row_attempt p)
                 then (if resume then Inl (ValueError ''Cannot resume an active attempt'')
                       else Inr (False, db))
                 else if row_input p \<noteq> None \<and> \<not> resume then Inr (False, db)
                 else if resume \<and> terminal (row_status p)
                 then Inl (ValueError ''A terminal task cannot be resumed; create a new task'')
                 else publish)"

definition store_resume ::
  "attempt_identity option \<Rightarrow> string \<Rightarrow> string \<Rightarrow> string \<Rightarrow> string
   \<Rightarrow> task_db \<Rightarrow> py_error + task_entry \<times> task_db" where
  "store_resume ident now now' anima tid db =
     (case resolve db anima tid of (owner, rid) \<Rightarrow>
        (case get_row db owner rid of
           None \<Rightarrow> Inl (ValueError (''Task not found: '' @ tid))
         | Some r \<Rightarrow>
             if stale_identity ident owner rid (Some r)
             then Inl (ValueError ''Stale task attempt cannot resume itself'')
             else if opt_truthy (row_attempt r)
             then Inl (ValueError ''Cannot resume an active attempt; stop it first'')
             else if row_input r = None
             then Inl (ValueError ''Task has no saved execution input; it is a backlog entry. Publish it with submit_tasks.'')
             else let updated = (row_entry r)\<lparr>te_status := ''pending'', te_updated_at := now\<rparr>
               in Inr (updated, ack_task_wakeups now' owner rid
                    (set_row owner rid (\<lambda>x. x\<lparr>row_entry := updated, row_ready := True,
                                             row_archived := False\<rparr>) db))))"

definition store_pending :: "string \<Rightarrow> task_db \<Rightarrow> dict option list" where
  "store_pending anima db =
     [row_input r. r \<leftarrow> db_tasks db,
        row_anima r = anima \<and> row_ready r \<and> row_attempt r = None \<and> \<not> row_archived r]"

definition store_executable_ids :: "string \<Rightarrow> task_db \<Rightarrow> string list" where
  "store_executable_ids anima db =
     [row_task_id r. r \<leftarrow> db_tasks db,
        row_anima r = anima \<and> row_input r \<noteq> None \<and> \<not> row_archived r]"

section \<open>Claiming and finishing attempts\<close>

text \<open>\<^verbatim>\<open>payload.get("depends_on", [])\<close>; the validation of payloads admits lists of strings only.\<close>

fun json_strs :: "json list \<Rightarrow> string list" where
  "json_strs [] = []"
| "json_strs (JStr s # xs) = s # json_strs xs"
| "json_strs (_ # xs) = json_strs xs"

definition depends_on :: "dict \<Rightarrow> string list" where
  "depends_on payload =
     (case map_of payload ''depends_on'' of Some (JArr xs) \<Rightarrow> json_strs xs | _ \<Rightarrow> [])"

datatype dep_check = DepsDone | DepCancelled string | DepUnmet

fun check_deps :: "task_db \<Rightarrow> string \<Rightarrow> string list \<Rightarrow> dep_check" where
  "check_deps db anima [] = DepsDone"
| "check_deps db anima (d # ds) =
     (case resolve db anima d of (owner, tid) \<Rightarrow>
        (case get_row db owner tid of
           None \<Rightarrow> DepUnmet
         | Some r \<Rightarrow>
             if row_status r = ''cancelled'' then DepCancelled d
             else if opt_truthy (row_attempt r) \<or> row_status r \<noteq> ''done'' then DepUnmet
             else check_deps db anima ds))"

definition claims_paused :: "task_db \<Rightarrow> string \<Rightarrow> bool" where
  "claims_paused db anima =
     (case row_find ct_anima anima (db_control db) of None \<Rightarrow> False | Some c \<Rightarrow> ct_paused c)"

definition active_rows :: "task_db \<Rightarrow> string \<Rightarrow> task_row list" where
  "active_rows db anima = [r \<leftarrow> db_tasks db. row_anima r = anima \<and> row_attempt r \<noteq> None]"

text \<open>Running tasks of the payload's batch, and whether the batch rules exclude this claim.\<close>

definition same_batch :: "dict \<Rightarrow> dict list \<Rightarrow> dict list" where
  "same_batch payload active =
     [p \<leftarrow> active. dict_truthy p ''batch_id'' \<and> map_of p ''batch_id'' = map_of payload ''batch_id'']"

definition batch_excludes :: "dict \<Rightarrow> dict list \<Rightarrow> bool" where
  "batch_excludes payload active =
     (let is_serial = dict_truthy payload ''batch_id'' \<and> \<not> dict_truthy payload ''parallel'';
          same = same_batch payload active
      in same \<noteq> [] \<and> (is_serial \<or> (\<exists>p \<in> set same. \<not> dict_truthy p ''parallel'')))"

definition next_number :: "task_db \<Rightarrow> string \<Rightarrow> string \<Rightarrow> nat" where
  "next_number db anima tid =
     foldr max [at_number a. a \<leftarrow> db_attempts db, at_anima a = anima \<and> at_task_id a = tid] 0 + 1"

definition claimed_entry :: "string \<Rightarrow> task_entry \<Rightarrow> task_entry" where
  "claimed_entry started e =
     e\<lparr>te_status := ''in_progress'', te_updated_at := started,
       te_meta := dict_pops (te_meta e) [''last_run_stop_kind'', ''last_run_ended_at'', ''last_run_note'']\<rparr>"

text \<open>The writes of a successful claim; the primary key and the \<^verbatim>\<open>UNIQUE\<close> constraint of
  \<^verbatim>\<open>task_attempts\<close> reject a token or an attempt number that is already there.\<close>

definition start_attempt ::
  "string \<Rightarrow> string \<Rightarrow> dict \<Rightarrow> string \<Rightarrow> string \<Rightarrow> task_row \<Rightarrow> dict \<Rightarrow> task_db
   \<Rightarrow> py_error + dict option \<times> task_db" where
  "start_attempt token started identity anima tid r payload db =
     (let number = next_number db anima tid;
          att = \<lparr>at_token = token, at_anima = anima, at_task_id = tid, at_number = number,
                 at_identity = identity, at_started = started, at_ended = None,
                 at_stop_kind = None, at_result_ref = None\<rparr>
      in if row_find at_token token (db_attempts db) \<noteq> None \<or>
            row_find attempt_number_key (anima, tid, number) (db_attempts db) \<noteq> None
         then Inl (IntegrityError ''task_attempts'')
         else Inr (Some (dict_merge payload
                     [(''_attempt_token'', JStr token), (''_attempt_number'', JInt (int number))]),
                   set_row anima tid (\<lambda>x. x\<lparr>row_attempt := Some token, row_ready := False,
                                             row_entry := claimed_entry started (row_entry r)\<rparr>)
                     (db\<lparr>db_attempts := db_attempts db @ [att]\<rparr>)))"

definition store_claim ::
  "string \<Rightarrow> string \<Rightarrow> dict \<Rightarrow> nat \<Rightarrow> string \<Rightarrow> string \<Rightarrow> task_db
   \<Rightarrow> py_error + dict option \<times> task_db" where
  "store_claim token now identity max_active anima tid db =
     (if claims_paused db anima then Inr (None, db)
      else case get_row db anima tid of
        None \<Rightarrow> Inr (None, db)
      | Some r \<Rightarrow>
        (case row_input r of
           None \<Rightarrow> Inr (None, db)
         | Some payload \<Rightarrow>
           if \<not> row_ready r \<or> opt_truthy (row_attempt r) then Inr (None, db)
           else if row_status r \<noteq> ''pending'' then Inr (None, db)
           else
             let active = active_rows db anima
             in if max_active \<le> length active then Inr (None, db)
                else if \<exists>x \<in> set active. row_input x = None then Inl (TypeError ''json.loads'')
                else if batch_excludes payload (map (\<lambda>x. opt_or (row_input x) []) active) then Inr (None, db)
                else case check_deps db anima (depends_on payload) of
                    DepUnmet \<Rightarrow> Inr (None, db)
                  | DepCancelled d \<Rightarrow>
                      Inr (None, add_wakeup
                        \<lparr>wk_anima = anima, wk_task_id = tid,
                         wk_token = ''dependency-'' @ tid @ ''-'' @ d,
                         wk_reason = ''dependency_cancelled'', wk_created = now, wk_ack = None\<rparr>
                        (set_row anima tid (\<lambda>x. x\<lparr>row_ready := False\<rparr>) db))
                  | DepsDone \<Rightarrow> start_attempt token now identity anima tid r payload db))"

definition store_pause_claims :: "string \<Rightarrow> bool \<Rightarrow> task_db \<Rightarrow> task_db" where
  "store_pause_claims anima paused db =
     db\<lparr>db_control := row_upsert ct_anima \<lparr>ct_anima = anima, ct_paused = paused\<rparr>
          (\<lambda>c. c\<lparr>ct_paused := paused\<rparr>) (db_control db)\<rparr>"

definition store_get_input :: "string \<Rightarrow> string \<Rightarrow> task_db \<Rightarrow> dict option" where
  "store_get_input anima tid db =
     (case resolve db anima tid of (owner, rid) \<Rightarrow>
        Option.bind (get_row db owner rid) row_input)"

definition live_attempt :: "task_db \<Rightarrow> string \<Rightarrow> attempt_row option" where
  "live_attempt db token = find (\<lambda>a. at_token a = token \<and> at_ended a = None) (db_attempts db)"

definition store_set_identity :: "string \<Rightarrow> dict \<Rightarrow> task_db \<Rightarrow> bool \<times> task_db" where
  "store_set_identity token identity db =
     (case live_attempt db token of
        None \<Rightarrow> (False, db)
      | Some a \<Rightarrow> (True, db\<lparr>db_attempts := row_update at_token token
                   (\<lambda>x. x\<lparr>at_identity := dict_merge (at_identity a) identity\<rparr>) (db_attempts db)\<rparr>))"

definition finished_entry ::
  "string \<Rightarrow> string \<Rightarrow> string \<Rightarrow> string \<Rightarrow> string option \<Rightarrow> task_entry \<Rightarrow> task_entry" where
  "finished_entry now token status stop_kind summary e =
     e\<lparr>te_status := status, te_updated_at := now,
       te_summary := opt_or summary (te_summary e),
       te_meta := dict_merge (te_meta e)
         [(''last_run_stop_kind'', JStr stop_kind), (''last_attempt_token'', JStr token)]\<rparr>"

definition close_attempt ::
  "string \<Rightarrow> string \<Rightarrow> string \<Rightarrow> string \<Rightarrow> task_row \<Rightarrow> task_entry \<Rightarrow> task_db \<Rightarrow> task_db" where
  "close_attempt now token stop_kind result_ref r entry db =
     set_row (row_anima r) (row_task_id r)
       (\<lambda>x. x\<lparr>row_entry := entry, row_attempt := None, row_ready := False\<rparr>)
       (db\<lparr>db_attempts := row_update at_token token
          (\<lambda>a. a\<lparr>at_ended := Some now, at_stop_kind := Some stop_kind,
                 at_result_ref := Some result_ref\<rparr>) (db_attempts db)\<rparr>)"

definition finish_wakeup ::
  "string \<Rightarrow> string \<Rightarrow> string \<Rightarrow> string \<Rightarrow> task_row \<Rightarrow> task_db \<Rightarrow> task_db" where
  "finish_wakeup now token status stop_kind r db =
     (let wake = (\<lambda>reason. add_wakeup \<lparr>wk_anima = row_anima r, wk_task_id = row_task_id r,
            wk_token = token, wk_reason = reason, wk_created = now, wk_ack = None\<rparr> db)
      in if status = ''pending'' then wake stop_kind
         else if status = ''done'' \<and>
                 (case row_input r of None \<Rightarrow> False | Some p \<Rightarrow> dict_truthy p ''reply_to'')
         then wake ''completion''
         else db)"

definition store_finish ::
  "string \<Rightarrow> string \<Rightarrow> string \<Rightarrow> string \<Rightarrow> string option \<Rightarrow> string \<Rightarrow> task_db
   \<Rightarrow> py_error + bool \<times> task_db" where
  "store_finish now token status0 stop_kind summary result_ref db =
     (if status0 \<notin> {''pending'', ''done'', ''cancelled''}
      then Inl (ValueError (''Invalid attempt outcome: '' @ status0))
      else case live_attempt db token of
        None \<Rightarrow> Inr (False, db)
      | Some _ \<Rightarrow>
        (case find (\<lambda>r. row_attempt r = Some token) (db_tasks db) of
           None \<Rightarrow> Inr (False, db)
         | Some r \<Rightarrow>
           let status = (if row_status r = ''cancelled'' then ''cancelled'' else status0);
               entry = finished_entry now token status stop_kind summary (row_entry r)
           in Inr (True, finish_wakeup now token status stop_kind r
                (close_attempt now token stop_kind result_ref r entry db))))"

definition store_active_attempts :: "string \<Rightarrow> task_db \<Rightarrow> attempt_row list" where
  "store_active_attempts anima db = [a \<leftarrow> db_attempts db. at_anima a = anima \<and> at_ended a = None]"

definition store_wakeups :: "string \<Rightarrow> task_db \<Rightarrow> wakeup_row list" where
  "store_wakeups anima db =
     sort_key wk_created [w \<leftarrow> db_wakeups db. wk_anima w = anima \<and> wk_ack w = None]"

definition store_acknowledge_wakeup :: "string \<Rightarrow> string \<Rightarrow> string \<Rightarrow> task_db \<Rightarrow> task_db" where
  "store_acknowledge_wakeup now anima token db = db\<lparr>db_wakeups :=
     map (\<lambda>w. if wk_anima w = anima \<and> wk_token w = token then w\<lparr>wk_ack := Some now\<rparr> else w)
       (db_wakeups db)\<rparr>"

section \<open>Maintenance\<close>

definition compactable :: "string \<Rightarrow> task_row \<Rightarrow> bool" where
  "compactable anima r =
     (row_anima r = anima \<and> \<not> row_archived r \<and> row_attempt r = None \<and> terminal (row_status r))"

definition store_compact :: "string \<Rightarrow> task_db \<Rightarrow> nat \<times> task_db" where
  "store_compact anima db =
     (length (filter (compactable anima) (db_tasks db)),
      db\<lparr>db_tasks := map (\<lambda>r. if compactable anima r then r\<lparr>row_archived := True\<rparr> else r) (db_tasks db)\<rparr>)"

definition store_reference_records ::
  "string \<Rightarrow> task_db \<Rightarrow> (string \<times> task_entry \<times> dict option) list" where
  "store_reference_records anima db =
     [(row_task_id r, row_entry r, row_input r). r \<leftarrow> db_tasks db,
        row_anima r = anima \<and> \<not> row_archived r \<and> \<not> terminal (row_status r)]"

text \<open>\<^verbatim>\<open>(input or {}).get("task_id")\<close>: a missing key and \<^verbatim>\<open>null\<close> are both Python's \<^verbatim>\<open>None\<close>.\<close>

definition input_id :: "dict option \<Rightarrow> json option" where
  "input_id p =
     (case p of None \<Rightarrow> None
      | Some d \<Rightarrow> (case map_of d ''task_id'' of Some JNull \<Rightarrow> None | v \<Rightarrow> v))"

fun rewrite_loop ::
  "string \<Rightarrow> (task_entry \<times> dict option \<Rightarrow> task_entry \<times> dict option)
   \<Rightarrow> (string \<times> task_entry \<times> dict option) list \<Rightarrow> task_db
   \<Rightarrow> py_error + (string \<times> (task_entry \<times> dict option) \<times> (task_entry \<times> dict option)) list \<times> task_db" where
  "rewrite_loop anima transform [] db = Inr ([], db)"
| "rewrite_loop anima transform ((tid, before) # recs) db =
     (let after = transform before
      in if before = after then rewrite_loop anima transform recs db
         else if te_task_id (fst after) \<noteq> te_task_id (fst before)
         then Inl (ValueError ''Reference rewrite cannot change task_id'')
         else if te_assignee (fst after) \<noteq> te_assignee (fst before)
         then Inl (ValueError ''Reference rewrite cannot change assignee'')
         else if te_status (fst after) \<noteq> te_status (fst before)
         then Inl (ValueError ''Reference rewrite cannot change status'')
         else if te_original_instruction (fst after) \<noteq> te_original_instruction (fst before)
         then Inl (ValueError ''Reference rewrite cannot change original_instruction'')
         else if input_id (snd after) \<noteq> input_id (snd before)
         then Inl (ValueError ''Reference rewrite cannot change input task ID'')
         else if opt_truthy (Option.bind (get_row db anima tid) row_attempt)
         then Inl (RuntimeError ''Cannot rewrite references for an active task attempt'')
         else if \<not> entry_valid (fst after) then Inl (ValueError ''TaskEntry'')
         else case rewrite_loop anima transform recs
                (set_row anima tid (\<lambda>x. x\<lparr>row_entry := fst after, row_input := snd after\<rparr>) db) of
              Inl e \<Rightarrow> Inl e
            | Inr (changes, db') \<Rightarrow> Inr ((tid, before, after) # changes, db'))"

definition store_rewrite_references ::
  "string \<Rightarrow> (task_entry \<times> dict option \<Rightarrow> task_entry \<times> dict option) \<Rightarrow> task_db
   \<Rightarrow> py_error + (string \<times> (task_entry \<times> dict option) \<times> (task_entry \<times> dict option)) list \<times> task_db" where
  "store_rewrite_references anima transform db =
     rewrite_loop anima transform (store_reference_records anima db) db"

record maintenance =
  mt_anima :: string
  mt_quiesced :: bool
  mt_invalid_import_rows :: json
  mt_active_attempts :: nat
  mt_owned_tasks :: nat
  mt_ready_tasks :: nat

definition store_maintenance_status :: "string \<Rightarrow> task_db \<Rightarrow> maintenance" where
  "store_maintenance_status anima db =
     \<lparr>mt_anima = anima,
      mt_quiesced = claims_paused db anima,
      mt_invalid_import_rows =
        (case row_find im_anima anima (db_imports db) of
           None \<Rightarrow> JInt 0
         | Some i \<Rightarrow> opt_or (map_of (im_report i) ''invalid_rows'') (JInt 0)),
      mt_active_attempts = length (store_active_attempts anima db),
      mt_owned_tasks = length [r \<leftarrow> db_tasks db. row_anima r = anima],
      mt_ready_tasks = length [r \<leftarrow> db_tasks db. row_anima r = anima \<and> row_ready r]\<rparr>"

end
