(* ===== verification/Task_Store_Inv.thy ===== *)
theory Task_Store_Inv
  imports Task_Store
begin

text \<open>
  The invariant of the task store: primary keys are unique, the task rows and the live attempts
  name each other (the fence), and a row that is ready or running carries its execution input.
  Every operation keeps it, so it holds in every reachable database.
\<close>

section \<open>The invariant and the step relation\<close>

text \<open>Running tasks and live attempts name each other.\<close>

definition fence :: "task_row set \<Rightarrow> attempt_row set \<Rightarrow> bool" where
  "fence rows atts =
     ((\<forall>r \<in> rows. \<forall>k. row_attempt r = Some k \<longrightarrow>
         (\<exists>a \<in> atts. at_token a = k \<and> at_ended a = None \<and> (at_anima a, at_task_id a) = task_key r)) \<and>
      (\<forall>a \<in> atts. at_ended a = None \<longrightarrow>
         (\<exists>r \<in> rows. task_key r = (at_anima a, at_task_id a) \<and> row_attempt r = Some (at_token a))))"

definition row_ok :: "task_row \<Rightarrow> bool" where
  "row_ok r = ((row_ready r \<longrightarrow> row_attempt r = None) \<and>
               (row_ready r \<or> row_attempt r \<noteq> None \<longrightarrow> row_input r \<noteq> None) \<and>
               (row_input r \<noteq> None \<longrightarrow> input_id (row_input r) \<noteq> None))"

definition keys_inv :: "task_db \<Rightarrow> bool" where
  "keys_inv db = (pk_unique task_key (db_tasks db) \<and> pk_unique at_token (db_attempts db) \<and>
     pk_unique attempt_number_key (db_attempts db) \<and> pk_unique alias_key (db_aliases db) \<and>
     pk_unique wakeup_key (db_wakeups db))"

definition store_inv :: "task_db \<Rightarrow> bool" where
  "store_inv db = (keys_inv db \<and> (\<forall>a \<in> set (db_attempts db). at_token a \<noteq> []) \<and>
     fence (set (db_tasks db)) (set (db_attempts db)) \<and>
     (\<forall>r \<in> set (db_tasks db). row_ok r))"

text \<open>
  One transaction of any client: the operations that write, with any arguments. A claim brings a
  token that is not empty (\<^verbatim>\<open>uuid4().hex\<close>); a reference rewrite does not invent an input for a
  task that has none; a failed operation is rolled back and is no step.
\<close>

inductive store_step :: "task_db \<Rightarrow> task_db \<Rightarrow> bool" where
  step_apply: "store_apply ident anima ev db = Inr db' \<Longrightarrow> store_step db db'"
| step_alias: "store_alias viewer alias anima tid db = Inr db' \<Longrightarrow> store_step db db'"
| step_submit: "store_submit ident now now' anima entry payload resume db = Inr (b, db') \<Longrightarrow> store_step db db'"
| step_resume: "store_resume ident now now' anima tid db = Inr (e, db') \<Longrightarrow> store_step db db'"
| step_claim: "token \<noteq> [] \<Longrightarrow> store_claim token now identity m anima tid db = Inr (p, db') \<Longrightarrow> store_step db db'"
| step_pause: "store_pause_claims anima paused db = db' \<Longrightarrow> store_step db db'"
| step_identity: "store_set_identity token identity db = (b, db') \<Longrightarrow> store_step db db'"
| step_finish: "store_finish now token st kind summary ref db = Inr (b, db') \<Longrightarrow> store_step db db'"
| step_ack: "store_acknowledge_wakeup now anima token db = db' \<Longrightarrow> store_step db db'"
| step_compact: "store_compact anima db = (n, db') \<Longrightarrow> store_step db db'"
| step_rewrite: "(\<And>e. snd (transform (e, None)) = None) \<Longrightarrow>
    store_rewrite_references anima transform db = Inr (ch, db') \<Longrightarrow> store_step db db'"

section \<open>Row updates keep the invariant\<close>

lemma task_key_simps [simp]:
  "task_key (r\<lparr>row_entry := e\<rparr>) = task_key r"
  "task_key (r\<lparr>row_input := i\<rparr>) = task_key r"
  "task_key (r\<lparr>row_ready := b\<rparr>) = task_key r"
  "task_key (r\<lparr>row_attempt := k\<rparr>) = task_key r"
  "task_key (r\<lparr>row_archived := b\<rparr>) = task_key r"
  by (simp_all add: task_key_def)

lemma get_row_Some: "get_row db a t = Some r \<Longrightarrow> r \<in> set (db_tasks db) \<and> task_key r = (a, t)"
  unfolding get_row_def by (rule row_find_Some)

lemma get_row_iff:
  "keys_inv db \<Longrightarrow> get_row db a t = Some r \<longleftrightarrow> r \<in> set (db_tasks db) \<and> task_key r = (a, t)"
  by (simp add: get_row_def keys_inv_def row_find_eq_Some_iff)

lemma get_row_set_row:
  "(\<And>x. task_key (f x) = task_key x) \<Longrightarrow>
   get_row (set_row a t f db) a' t' =
     (if (a', t') = (a, t) then map_option f (get_row db a t) else get_row db a' t')"
  by (auto simp: get_row_def set_row_def row_find_update)

lemma set_row_sel [simp]:
  "db_attempts (set_row a t f db) = db_attempts db"
  "db_aliases (set_row a t f db) = db_aliases db"
  "db_wakeups (set_row a t f db) = db_wakeups db"
  "db_imports (set_row a t f db) = db_imports db"
  "db_control (set_row a t f db) = db_control db"
  by (simp_all add: set_row_def)

lemma set_db_tasks_set_row:
  "set (db_tasks (set_row a t f db)) =
     (\<lambda>r. if task_key r = (a, t) then f r else r) ` set (db_tasks db)"
  by (simp add: set_row_def set_row_update)

lemma keys_inv_set_row:
  "keys_inv db \<Longrightarrow> (\<And>x. task_key (f x) = task_key x) \<Longrightarrow> keys_inv (set_row a t f db)"
  by (auto simp: keys_inv_def set_row_def)

lemma fence_image:
  "(\<And>x. task_key (g x) = task_key x) \<Longrightarrow> (\<And>x. row_attempt (g x) = row_attempt x) \<Longrightarrow>
   fence (g ` rows) atts = fence rows atts"
  by (simp add: fence_def)

lemma map_task_key:
  "(\<And>x. task_key (g x) = task_key x) \<Longrightarrow> map task_key (map g rows) = map task_key rows"
  by simp

lemma store_inv_map_tasks:
  assumes inv: "store_inv db"
    and key: "\<And>x. task_key (g x) = task_key x"
    and att: "\<And>x. row_attempt (g x) = row_attempt x"
    and ok: "\<And>x. x \<in> set (db_tasks db) \<Longrightarrow> row_ok x \<Longrightarrow> row_ok (g x)"
  shows "store_inv (db\<lparr>db_tasks := map g (db_tasks db)\<rparr>)"
proof -
  have "pk_unique task_key (map g (db_tasks db))"
    using inv by (simp only: pk_unique_def map_task_key [OF key] store_inv_def keys_inv_def)
  moreover have "fence (set (map g (db_tasks db))) A = fence (set (db_tasks db)) A" for A
    unfolding set_map by (rule fence_image [OF key att])
  moreover have "\<forall>r \<in> set (map g (db_tasks db)). row_ok r"
    using inv ok by (force simp: store_inv_def)
  ultimately show ?thesis
    using inv by (simp add: store_inv_def keys_inv_def)
qed

lemma store_inv_set_row:
  assumes inv: "store_inv db"
    and key: "\<And>x. task_key (f x) = task_key x"
    and att: "\<And>x. row_attempt (f x) = row_attempt x"
    and ok: "\<And>x. get_row db a t = Some x \<Longrightarrow> row_ok x \<Longrightarrow> row_ok (f x)"
  shows "store_inv (set_row a t f db)"
  unfolding set_row_def row_update_def
proof (rule store_inv_map_tasks [OF inv])
  have k: "keys_inv db" using inv by (simp add: store_inv_def)
  show "row_ok (if task_key x = (a, t) then f x else x)"
    if "x \<in> set (db_tasks db)" "row_ok x" for x
    using that ok k by (simp add: get_row_iff)
qed (simp_all add: key att)

text \<open>Changes outside the tasks and attempts tables.\<close>

lemma store_inv_wakeups:
  "store_inv db \<Longrightarrow> pk_unique wakeup_key ws \<Longrightarrow> store_inv (db\<lparr>db_wakeups := ws\<rparr>)"
  by (simp add: store_inv_def keys_inv_def)

lemma store_inv_aliases:
  "store_inv db \<Longrightarrow> pk_unique alias_key als \<Longrightarrow> store_inv (db\<lparr>db_aliases := als\<rparr>)"
  by (simp add: store_inv_def keys_inv_def)

lemma store_inv_control: "store_inv db \<Longrightarrow> store_inv (db\<lparr>db_control := cs\<rparr>)"
  by (simp add: store_inv_def keys_inv_def)

lemma store_inv_wakeup_keys: "store_inv db \<Longrightarrow> pk_unique wakeup_key (db_wakeups db)"
  by (simp add: store_inv_def keys_inv_def)

lemma pk_unique_map_wakeups:
  "pk_unique wakeup_key ws \<Longrightarrow>
   pk_unique wakeup_key (map (\<lambda>w. if P w then w\<lparr>wk_ack := v\<rparr> else w) ws)"
proof -
  have "wakeup_key \<circ> (\<lambda>w. if P w then w\<lparr>wk_ack := v\<rparr> else w) = wakeup_key"
    by (auto simp: wakeup_key_def)
  then show "pk_unique wakeup_key ws \<Longrightarrow>
    pk_unique wakeup_key (map (\<lambda>w. if P w then w\<lparr>wk_ack := v\<rparr> else w) ws)"
    by (simp add: pk_unique_def)
qed

lemma store_inv_ack_task [intro]: "store_inv db \<Longrightarrow> store_inv (ack_task_wakeups now a t db)"
  by (auto simp: ack_task_wakeups_def
      intro!: store_inv_wakeups pk_unique_map_wakeups store_inv_wakeup_keys)

lemma store_inv_add_wakeup [intro]: "store_inv db \<Longrightarrow> store_inv (add_wakeup w db)"
  by (auto simp: add_wakeup_def intro!: store_inv_wakeups store_inv_wakeup_keys)

text \<open>Inserting a row, or overwriting the row with the same key.\<close>

lemma store_inv_upsert:
  assumes inv: "store_inv db"
    and new: "row_attempt new = None" "row_ok new"
    and key: "\<And>x. task_key (f x) = task_key x"
    and att: "\<And>x. row_attempt (f x) = row_attempt x"
    and ok: "\<And>x. row_find task_key (task_key new) (db_tasks db) = Some x \<Longrightarrow> row_ok x \<Longrightarrow> row_ok (f x)"
  shows "store_inv (db\<lparr>db_tasks := row_upsert task_key new f (db_tasks db)\<rparr>)"
proof (cases "row_find task_key (task_key new) (db_tasks db)")
  case None
  have "fence (set (db_tasks db @ [new])) (set (db_attempts db))"
    using inv new(1) by (auto simp: store_inv_def fence_def)
  with inv new None show ?thesis
    by (auto simp: store_inv_def keys_inv_def row_upsert_def intro: pk_unique_snoc)
next
  case (Some x)
  obtain a t where at: "task_key new = (a, t)" by fastforce
  have "store_inv (set_row a t f db)"
    by (rule store_inv_set_row [OF inv key att]) (simp add: ok get_row_def at [symmetric])
  with Some show ?thesis by (simp add: row_upsert_def set_row_def at)
qed

section \<open>Operations that do not start or end an attempt\<close>

lemma store_alias_inv: "store_alias v al a t db = Inr db' \<Longrightarrow> store_inv db \<Longrightarrow> store_inv db'"
  by (auto simp: store_alias_def Let_def store_inv_def keys_inv_def split: option.splits if_splits)

lemma apply_update_inv:
  "apply_update owner tid (get_row db owner tid) u db = Inr db' \<Longrightarrow> store_inv db \<Longrightarrow> store_inv db'"
  by (auto simp: apply_update_def Let_def row_ok_def
      split: option.splits if_splits intro!: store_inv_set_row)

lemma blank_row_ok [simp]: "row_ok (blank_row a e)" "row_attempt (blank_row a e) = None"
  by (simp_all add: row_ok_def blank_row_def)

lemma insert_entry_inv: "store_inv db \<Longrightarrow> store_inv (insert_entry a e db)"
  unfolding insert_entry_def by (rule store_inv_upsert) (simp_all, simp add: row_ok_def)

lemma apply_entry_inv: "apply_entry a t x e db = Inr db' \<Longrightarrow> store_inv db \<Longrightarrow> store_inv db'"
  by (auto simp: apply_entry_def insert_entry_inv store_alias_inv split: option.splits if_splits)

lemma store_apply_inv: "store_apply ident a ev db = Inr db' \<Longrightarrow> store_inv db \<Longrightarrow> store_inv db'"
  by (auto simp: store_apply_def Let_def
      split: prod.splits if_splits task_event.splits dest: apply_update_inv apply_entry_inv)

lemma publish_row_inv:
  assumes "store_inv db" "map_of payload ''task_id'' = Some (JStr s)"
    and "\<And>p. get_row db a (te_task_id e) = Some p \<Longrightarrow> row_attempt p = None"
  shows "store_inv (publish_row a e payload db)"
  unfolding publish_row_def
  using assms
  by (intro store_inv_upsert)
     (auto simp: row_ok_def input_id_def blank_row_def get_row_def task_key_def)

text \<open>In a reachable database the truth test on \<^verbatim>\<open>current_attempt\<close> is the test against NULL.\<close>

lemma opt_truthy_attempt:
  assumes "store_inv db" "r \<in> set (db_tasks db)"
  shows "opt_truthy (row_attempt r) \<longleftrightarrow> row_attempt r \<noteq> None"
proof (cases "row_attempt r")
  case None
  then show ?thesis by (simp add: opt_truthy_def)
next
  case (Some k)
  with assms have "k \<noteq> []"
    by (auto simp: store_inv_def fence_def)
  with Some show ?thesis by (simp add: opt_truthy_def)
qed

lemma store_submit_inv:
  assumes "store_submit ident now now' a e payload resume db = Inr (b, db')" "store_inv db"
  shows "store_inv db'"
proof -
  have idle: "\<lbrakk>get_row db a t = Some p; \<not> opt_truthy (row_attempt p)\<rbrakk> \<Longrightarrow> row_attempt p = None" for t p
    using opt_truthy_attempt [OF assms(2)] get_row_Some by blast
  show ?thesis
    using assms
    by (auto simp: store_submit_def Let_def split: if_splits option.splits
        intro!: store_inv_ack_task publish_row_inv dest: idle)
qed

lemma store_resume_inv:
  assumes "store_resume ident now now' a t db = Inr (e, db')" "store_inv db"
  shows "store_inv db'"
proof -
  have idle: "\<lbrakk>get_row db o' r = Some p; \<not> opt_truthy (row_attempt p)\<rbrakk> \<Longrightarrow> row_attempt p = None" for o' r p
    using opt_truthy_attempt [OF assms(2)] get_row_Some by blast
  show ?thesis
    using assms
    by (auto simp: store_resume_def Let_def row_ok_def split: if_splits option.splits prod.splits
        intro!: store_inv_ack_task store_inv_set_row dest: idle)
qed

lemma store_pause_inv: "store_inv db \<Longrightarrow> store_inv (store_pause_claims a p db)"
  by (simp add: store_pause_claims_def store_inv_control)

lemma store_ack_inv: "store_inv db \<Longrightarrow> store_inv (store_acknowledge_wakeup now a k db)"
  by (auto simp: store_acknowledge_wakeup_def
      intro!: store_inv_wakeups pk_unique_map_wakeups store_inv_wakeup_keys)

lemma fence_image_attempts:
  "(\<And>x. at_token (g x) = at_token x \<and> at_ended (g x) = at_ended x \<and>
        at_anima (g x) = at_anima x \<and> at_task_id (g x) = at_task_id x) \<Longrightarrow>
   fence rows (g ` atts) = fence rows atts"
  by (simp add: fence_def)

lemma store_inv_map_attempts:
  assumes inv: "store_inv db"
    and g: "\<And>x. at_token (g x) = at_token x \<and> at_ended (g x) = at_ended x \<and>
        at_anima (g x) = at_anima x \<and> at_task_id (g x) = at_task_id x \<and> at_number (g x) = at_number x"
  shows "store_inv (db\<lparr>db_attempts := map g (db_attempts db)\<rparr>)"
proof -
  have "map at_token (map g l) = map at_token l"
    "map attempt_number_key (map g l) = map attempt_number_key l" for l
    using g by (simp_all add: attempt_number_key_def)
  then have "pk_unique at_token (map g (db_attempts db))"
    "pk_unique attempt_number_key (map g (db_attempts db))"
    using inv by (simp_all only: pk_unique_def store_inv_def keys_inv_def)
  moreover have "fence R (set (map g (db_attempts db))) = fence R (set (db_attempts db))" for R
    unfolding set_map by (rule fence_image_attempts) (simp add: g)
  moreover have "\<forall>x \<in> set (map g (db_attempts db)). at_token x \<noteq> []"
    using inv g by (force simp: store_inv_def)
  ultimately show ?thesis
    using inv by (simp add: store_inv_def keys_inv_def)
qed

lemma store_set_identity_inv:
  assumes "store_set_identity k i db = (b, db')" "store_inv db"
  shows "store_inv db'"
proof (cases "live_attempt db k")
  case None
  with assms show ?thesis by (simp add: store_set_identity_def)
next
  case (Some x)
  with assms(1) have "db' = db\<lparr>db_attempts := map (\<lambda>a. if at_token a = k
      then a\<lparr>at_identity := dict_merge (at_identity x) i\<rparr> else a) (db_attempts db)\<rparr>"
    by (simp add: store_set_identity_def row_update_def)
  then show ?thesis by (simp only:) (rule store_inv_map_attempts [OF assms(2)], simp)
qed

lemma store_compact_inv: "store_compact a db = (n, db') \<Longrightarrow> store_inv db \<Longrightarrow> store_inv db'"
  by (auto simp: store_compact_def row_ok_def intro!: store_inv_map_tasks)

lemma rewrite_loop_inv:
  "rewrite_loop a tr recs db = Inr (ch, db') \<Longrightarrow> store_inv db \<Longrightarrow>
   (\<And>e. snd (tr (e, None)) = None) \<Longrightarrow>
   (\<And>t e i. (t, e, i) \<in> set recs \<Longrightarrow> (\<exists>r. get_row db a t = Some r \<and> row_input r = i)) \<Longrightarrow>
   distinct (map fst recs) \<Longrightarrow> store_inv db'"
proof (induction a tr recs db arbitrary: ch rule: rewrite_loop.induct)
  case (1 a tr db)
  then show ?case by simp
next
  case (2 a tr tid before recs db)
  note loop = "2.prems"(1) and inv = "2.prems"(2) and tr = "2.prems"(3)
    and rows = "2.prems"(4) and dist = "2.prems"(5)
  show ?case
  proof (cases "before = tr before")
    case True
    then have "rewrite_loop a tr recs db = Inr (ch, db')" using loop by (simp add: Let_def)
    then show ?thesis
      using inv tr dist by (intro "2.IH"(1) [OF refl True]) (auto intro: rows)
  next
    case False
    let ?after = "tr before"
    let ?db1 = "set_row a tid (\<lambda>x. x\<lparr>row_entry := fst ?after, row_input := snd ?after\<rparr>) db"
    from loop False obtain ch' where
      id: "input_id (snd ?after) = input_id (snd before)" and
      rec: "rewrite_loop a tr recs ?db1 = Inr (ch', db')"
      by (auto simp: Let_def split: if_splits sum.splits)
    obtain r where r: "get_row db a tid = Some r" "row_input r = snd before"
      using rows [of tid "fst before" "snd before"] by auto
    have none: "snd before = None \<Longrightarrow> snd ?after = None"
      using tr [of "fst before"] by (metis prod.collapse)
    have inv1: "store_inv ?db1"
      by (rule store_inv_set_row [OF inv])
         (use r id none in \<open>auto simp: row_ok_def input_id_def split: option.splits\<close>)
    have same: "\<exists>r. get_row ?db1 a t = Some r \<and> row_input r = i" if "(t, e, i) \<in> set recs" for t e i
      using that rows [of t e i] dist by (force simp: get_row_set_row)
    show ?thesis
      using loop dist
      by (intro "2.IH"(2) [OF refl False _ _ _ _ _ _ _ rec inv1 tr same])
         (auto simp: Let_def False split: if_splits)
  qed
qed

lemma rewrite_references_inv:
  assumes "store_rewrite_references a tr db = Inr (ch, db')" "store_inv db"
    and "\<And>e. snd (tr (e, None)) = None"
  shows "store_inv db'"
proof (rule rewrite_loop_inv [OF _ assms(2)])
  from assms(2) have k: "keys_inv db" by (simp add: store_inv_def)
  show "rewrite_loop a tr (store_reference_records a db) db = Inr (ch, db')"
    using assms(1) by (simp add: store_rewrite_references_def)
  show "\<exists>r. get_row db a t = Some r \<and> row_input r = i"
    if "(t, e, i) \<in> set (store_reference_records a db)" for t e i
    using that k by (auto simp: store_reference_records_def get_row_iff task_key_def)
  show "distinct (map fst (store_reference_records a db))"
  proof -
    let ?rows = "filter (\<lambda>r. row_anima r = a \<and> \<not> row_archived r \<and> \<not> terminal (row_status r)) (db_tasks db)"
    have eq: "map fst (store_reference_records a db) = map row_task_id ?rows"
      unfolding store_reference_records_def by (induction rule: list.induct [of _ "db_tasks db"]) auto
    have "inj_on row_task_id (set ?rows)" "distinct ?rows"
      using k by (auto simp: keys_inv_def pk_unique_def distinct_map inj_on_def task_key_def)
    then show ?thesis by (simp add: eq distinct_map)
  qed
qed (rule assms(3))

section \<open>Starting and ending an attempt\<close>

lemma fenceD_row:
  "fence rows atts \<Longrightarrow> r \<in> rows \<Longrightarrow> row_attempt r = Some k \<Longrightarrow>
   \<exists>a \<in> atts. at_token a = k \<and> at_ended a = None \<and> (at_anima a, at_task_id a) = task_key r"
  by (simp add: fence_def)

lemma fenceD_att:
  "fence rows atts \<Longrightarrow> a \<in> atts \<Longrightarrow> at_ended a = None \<Longrightarrow>
   \<exists>r \<in> rows. task_key r = (at_anima a, at_task_id a) \<and> row_attempt r = Some (at_token a)"
  by (simp add: fence_def)

text \<open>The fence after a claim: the idle row \<open>r\<close> now runs the new attempt \<open>att\<close>.\<close>

lemma fence_start:
  assumes f: "fence rows atts"
    and idle: "\<And>x. x \<in> rows \<Longrightarrow> task_key x = k \<Longrightarrow> row_attempt x = None"
    and ex: "\<exists>x \<in> rows. task_key x = k"
    and att: "(at_anima att, at_task_id att) = k" "at_ended att = None"
    and g: "\<And>x. task_key (g x) = task_key x" "\<And>x. row_attempt (g x) = Some (at_token att)"
  shows "fence ((\<lambda>x. if task_key x = k then g x else x) ` rows) (insert att atts)"
proof -
  have "\<exists>a \<in> insert att atts. at_token a = tok \<and> at_ended a = None \<and> (at_anima a, at_task_id a) = task_key (if task_key x = k then g x else x)"
    if "x \<in> rows" "row_attempt (if task_key x = k then g x else x) = Some tok" for x tok
    using that att g fenceD_row [OF f that(1)] by (auto split: if_splits)
  moreover have "\<exists>x \<in> rows. task_key (if task_key x = k then g x else x) = (at_anima a, at_task_id a) \<and>
      row_attempt (if task_key x = k then g x else x) = Some (at_token a)"
    if "a \<in> insert att atts" "at_ended a = None" for a
  proof (cases "a = att")
    case True
    with ex att g show ?thesis by auto
  next
    case False
    with that obtain x where "x \<in> rows" "task_key x = (at_anima a, at_task_id a)" "row_attempt x = Some (at_token a)"
      using fenceD_att [OF f] by auto
    moreover from this idle [of x] have "task_key x \<noteq> k" by auto
    ultimately show ?thesis by (intro bexI [of _ x]) auto
  qed
  ultimately show ?thesis unfolding fence_def ball_simps(9) bex_simps(7) by blast
qed

text \<open>The fence after an attempt ends: its row is idle again.\<close>

lemma fence_end:
  assumes f: "fence rows atts"
    and one: "\<And>x. x \<in> rows \<Longrightarrow> row_attempt x = Some tok \<longleftrightarrow> task_key x = k"
    and g: "\<And>x. task_key (g x) = task_key x" "\<And>x. row_attempt (g x) = None"
    and h: "\<And>a. at_ended (h a) \<noteq> None"
  shows "fence ((\<lambda>x. if task_key x = k then g x else x) ` rows)
           ((\<lambda>a. if at_token a = tok then h a else a) ` atts)"
proof -
  let ?h = "\<lambda>a. if at_token a = tok then h a else a"
  let ?g = "\<lambda>x. if task_key x = k then g x else x"
  have "\<exists>a \<in> atts. at_token (?h a) = t \<and> at_ended (?h a) = None \<and> (at_anima (?h a), at_task_id (?h a)) = task_key (?g x)"
    if x: "x \<in> rows" "row_attempt (?g x) = Some t" for x t
  proof -
    from x g have nk: "task_key x \<noteq> k" and t: "row_attempt x = Some t" by (auto split: if_splits)
    from nk one [OF x(1)] t have "t \<noteq> tok" by auto
    with fenceD_row [OF f x(1) t] nk show ?thesis by force
  qed
  moreover have "\<exists>x \<in> rows. task_key (?g x) = (at_anima (?h a), at_task_id (?h a)) \<and> row_attempt (?g x) = Some (at_token (?h a))"
    if a: "a \<in> atts" "at_ended (?h a) = None" for a
  proof -
    from a(2) h [of a] have nt: "at_token a \<noteq> tok" and e: "at_ended a = None"
      by (auto split: if_splits)
    obtain x where x: "x \<in> rows" "task_key x = (at_anima a, at_task_id a)" "row_attempt x = Some (at_token a)"
      using fenceD_att [OF f a(1) e] by blast
    with one [OF x(1)] nt have "task_key x \<noteq> k" by auto
    with x nt show ?thesis by (intro bexI [of _ x]) auto
  qed
  ultimately show ?thesis unfolding fence_def ball_simps(9) bex_simps(7) by blast
qed

lemma start_attempt_inv:
  assumes inv: "store_inv db" and r: "get_row db a t = Some r" "row_attempt r = None" "row_input r = Some pl"
    and tok: "token \<noteq> []"
    and ok: "start_attempt token now i a t r pl db = Inr (p, db')"
  shows "store_inv db'"
proof -
  let ?n = "next_number db a t"
  define att where "att = \<lparr>at_token = token, at_anima = a, at_task_id = t, at_number = ?n,
    at_identity = i, at_started = now, at_ended = None, at_stop_kind = None, at_result_ref = None\<rparr>"
  define g where "g = (\<lambda>x :: task_row. x\<lparr>row_attempt := Some token, row_ready := False,
    row_entry := claimed_entry now (row_entry r)\<rparr>)"
  have keys: "keys_inv db" and fe: "fence (set (db_tasks db)) (set (db_attempts db))"
    using inv by (simp_all add: store_inv_def)
  have row: "x = r" if "x \<in> set (db_tasks db)" "task_key x = (a, t)" for x
    using that keys r(1) by (simp add: get_row_iff) (metis get_row_iff keys option.inject)
  have fresh: "row_find at_token token (db_attempts db) = None"
    "row_find attempt_number_key (a, t, ?n) (db_attempts db) = None"
    and db': "db' = set_row a t g (db\<lparr>db_attempts := db_attempts db @ [att]\<rparr>)"
    using ok by (auto simp: start_attempt_def Let_def g_def att_def split: if_splits)
  have gk: "task_key (g x) = task_key x" "row_attempt (g x) = Some (at_token att)" for x
    by (simp_all add: g_def att_def)
  have "keys_inv db'"
    unfolding db' using keys fresh gk(1)
    by (intro keys_inv_set_row) (auto simp: keys_inv_def att_def attempt_number_key_def intro!: pk_unique_snoc)
  moreover have "fence (set (db_tasks db')) (set (db_attempts db'))"
  proof -
    have "fence ((\<lambda>x. if task_key x = (a, t) then g x else x) ` set (db_tasks db)) (insert att (set (db_attempts db)))"
      by (rule fence_start [OF fe]) (use row r get_row_Some [OF r(1)] gk in \<open>auto simp: att_def\<close>)
    then show ?thesis by (simp only: db' set_db_tasks_set_row set_row_sel) simp
  qed
  moreover have "\<forall>x \<in> set (db_tasks db'). row_ok x"
  proof -
    have "row_ok (g r)" using inv r get_row_Some [OF r(1)] by (auto simp: row_ok_def g_def store_inv_def)
    with inv row show ?thesis
      unfolding db' set_db_tasks_set_row by (auto simp: store_inv_def)
  qed
  ultimately show ?thesis using inv tok by (simp add: store_inv_def db' att_def)
qed

lemma store_claim_inv:
  assumes ok: "store_claim token now i m a t db = Inr (p, db')" and inv: "store_inv db" and tok: "token \<noteq> []"
  shows "store_inv db'"
proof -
  have idle: "\<lbrakk>get_row db a t = Some r; \<not> opt_truthy (row_attempt r)\<rbrakk> \<Longrightarrow> row_attempt r = None" for r
    using opt_truthy_attempt [OF inv] get_row_Some by blast
  show ?thesis
    using ok inv tok
    by (auto simp: store_claim_def Let_def row_ok_def split: if_splits option.splits dep_check.splits
        intro!: store_inv_add_wakeup store_inv_set_row dest: idle start_attempt_inv)
qed

lemma live_attempt_Some:
  "live_attempt db k = Some a \<Longrightarrow> a \<in> set (db_attempts db) \<and> at_token a = k \<and> at_ended a = None"
  by (auto simp: live_attempt_def find_Some_iff)

text \<open>The row that runs an attempt is determined by the attempt.\<close>

lemma running_row_unique:
  assumes inv: "store_inv db" and r: "r \<in> set (db_tasks db)" "row_attempt r = Some k"
    and x: "x \<in> set (db_tasks db)"
  shows "row_attempt x = Some k \<longleftrightarrow> task_key x = task_key r"
proof -
  have keys: "keys_inv db" and fe: "fence (set (db_tasks db)) (set (db_attempts db))"
    using inv by (simp_all add: store_inv_def)
  obtain b where b: "b \<in> set (db_attempts db)" "at_token b = k" "(at_anima b, at_task_id b) = task_key r"
    using fenceD_row [OF fe r] by blast
  show ?thesis
  proof
    assume "row_attempt x = Some k"
    then obtain c where c: "c \<in> set (db_attempts db)" "at_token c = k" "(at_anima c, at_task_id c) = task_key x"
      using fenceD_row [OF fe x] by blast
    have "b = c" using keys b c by (auto simp: keys_inv_def dest: pk_unique_eq)
    with b c show "task_key x = task_key r" by simp
  next
    assume "task_key x = task_key r"
    then have "x = r" using keys r x by (auto simp: keys_inv_def dest: pk_unique_eq)
    with r show "row_attempt x = Some k" by simp
  qed
qed

lemma close_attempt_inv:
  assumes inv: "store_inv db" and r: "r \<in> set (db_tasks db)" "row_attempt r = Some token"
  shows "store_inv (close_attempt now token sk rr r e db)" (is "store_inv ?db'")
proof -
  let ?h = "\<lambda>a :: attempt_row. a\<lparr>at_ended := Some now, at_stop_kind := Some sk, at_result_ref := Some rr\<rparr>"
  let ?g = "\<lambda>x :: task_row. x\<lparr>row_entry := e, row_attempt := None, row_ready := False\<rparr>"
  have keys: "keys_inv db" and fe: "fence (set (db_tasks db)) (set (db_attempts db))"
    using inv by (simp_all add: store_inv_def)
  have "map at_token (row_update at_token token ?h l) = map at_token l"
    "map attempt_number_key (row_update at_token token ?h l) = map attempt_number_key l" for l
    by (simp_all add: row_update_def attempt_number_key_def)
  then have "keys_inv ?db'"
    unfolding close_attempt_def using keys by (intro keys_inv_set_row) (simp_all add: keys_inv_def pk_unique_def)
  moreover have "fence (set (db_tasks ?db')) (set (db_attempts ?db'))"
  proof -
    have k: "(row_anima r, row_task_id r) = task_key r" by (simp add: task_key_def)
    have "fence ((\<lambda>x. if task_key x = task_key r then ?g x else x) ` set (db_tasks db))
        ((\<lambda>a. if at_token a = token then ?h a else a) ` set (db_attempts db))"
      by (rule fence_end [OF fe running_row_unique [OF inv r]]) simp_all
    then show ?thesis
      by (simp only: close_attempt_def set_db_tasks_set_row set_row_sel k) (simp add: set_row_update)
  qed
  moreover have "\<forall>x \<in> set (db_tasks ?db'). row_ok x"
    using inv unfolding close_attempt_def set_db_tasks_set_row by (auto simp: store_inv_def row_ok_def)
  moreover have "\<forall>a \<in> set (db_attempts ?db'). at_token a \<noteq> []"
    using inv by (auto simp: close_attempt_def store_inv_def set_row_update)
  ultimately show ?thesis by (simp add: store_inv_def)
qed

lemma store_finish_inv:
  assumes ok: "store_finish now token st kind summary ref db = Inr (b, db')" and inv: "store_inv db"
  shows "store_inv db'"
  using ok inv
  by (auto simp: store_finish_def finish_wakeup_def Let_def find_Some_iff split: if_splits option.splits
      intro!: store_inv_add_wakeup close_attempt_inv)

section \<open>Reachable databases\<close>

lemma store_inv_empty: "store_inv empty_db"
  by (simp add: store_inv_def keys_inv_def pk_unique_def fence_def empty_db_def)

lemma store_step_inv: "store_step db db' \<Longrightarrow> store_inv db \<Longrightarrow> store_inv db'"
  by (induction rule: store_step.induct)
     (auto intro: store_apply_inv store_alias_inv store_submit_inv store_resume_inv store_claim_inv
       store_pause_inv store_set_identity_inv store_finish_inv store_ack_inv store_compact_inv
       rewrite_references_inv)

interpretation store: step_invariant "\<lambda>db. db = empty_db" store_step store_inv
  by unfold_locales (auto simp: store_inv_empty intro: store_step_inv)

end
