(* ===== verification/Task_Store_Props.thy ===== *)
theory Task_Store_Props
  imports Task_Store_Inv
begin

text \<open>
  What the task store promises its clients: mutual exclusion of attempts, exactly which claims
  succeed, the fence around a finished attempt, sticky cancellation, idempotent publication and
  the durable outbox of wakeups.
\<close>

section \<open>Specification of a claim\<close>

text \<open>A dependency is met when the row it resolves to is done and nobody is running it.\<close>

definition dep_done :: "task_db \<Rightarrow> string \<Rightarrow> string \<Rightarrow> bool" where
  "dep_done db anima d =
     (case resolve db anima d of (owner, tid) \<Rightarrow>
        (case get_row db owner tid of None \<Rightarrow> False
         | Some r \<Rightarrow> row_status r = ''done'' \<and> row_attempt r = None))"

text \<open>Two tasks of one batch may run together only when both are parallel.\<close>

definition batch_conflict :: "dict \<Rightarrow> dict \<Rightarrow> bool" where
  "batch_conflict p q =
     (dict_truthy p ''batch_id'' \<and> map_of q ''batch_id'' = map_of p ''batch_id'' \<and>
      \<not> (dict_truthy p ''parallel'' \<and> dict_truthy q ''parallel''))"

text \<open>The abstract contract of \<^verbatim>\<open>claim\<close>: when the task may start.\<close>

definition claimable :: "nat \<Rightarrow> string \<Rightarrow> string \<Rightarrow> task_db \<Rightarrow> bool" where
  "claimable m anima tid db =
     (\<not> claims_paused db anima \<and>
      (case get_row db anima tid of None \<Rightarrow> False
       | Some r \<Rightarrow>
          (case row_input r of None \<Rightarrow> False
           | Some payload \<Rightarrow>
              row_ready r \<and> row_status r = ''pending'' \<and>
              length (active_rows db anima) < m \<and>
              (\<forall>x \<in> set (active_rows db anima). \<forall>q. row_input x = Some q \<longrightarrow> \<not> batch_conflict q payload) \<and>
              (\<forall>d \<in> set (depends_on payload). dep_done db anima d))))"

text \<open>
  The one update that may bring a cancelled task back: setting it to pending while no attempt of it
  runs. It is the owner's deliberate reopening; a runner that returns a task to pending looks at the
  status first (\<^verbatim>\<open>_return_task_to_pending\<close>, \<^verbatim>\<open>_sync_task_queue\<close> of \<^verbatim>\<open>pending_executor.py\<close>) and does
  not send the update for a cancelled task.
\<close>

definition reopens_idle :: "task_db \<Rightarrow> string \<Rightarrow> update_event \<Rightarrow> bool" where
  "reopens_idle db x u =
     (ue_status u = Some ''pending'' \<and>
      (case resolve db x (ue_task_id u) of (owner, tid) \<Rightarrow>
         (case get_row db owner tid of None \<Rightarrow> False
          | Some r \<Rightarrow> row_status r = ''cancelled'' \<and> \<not> opt_truthy (row_attempt r))))"

text \<open>
  What runners do: status and metadata updates with any status, to pending as well (also of a task
  that was cancelled under a running attempt: the runner's look at the status and its update are two
  transactions), claims, finishing, identity updates and acknowledgements.
\<close>

inductive runner_step :: "task_db \<Rightarrow> task_db \<Rightarrow> bool" where
  runner_update: "\<not> reopens_idle db x u \<Longrightarrow> store_apply ident x (UpdateEvent u) db = Inr db' \<Longrightarrow> runner_step db db'"
| runner_claim: "token \<noteq> [] \<Longrightarrow> store_claim token now i m x t db = Inr (p, db') \<Longrightarrow> runner_step db db'"
| runner_finish: "store_finish now k st kind summary ref db = Inr (b, db') \<Longrightarrow> runner_step db db'"
| runner_identity: "store_set_identity k i db = (b, db') \<Longrightarrow> runner_step db db'"
| runner_ack: "store_acknowledge_wakeup now x k db = db' \<Longrightarrow> runner_step db db'"

section \<open>A concrete run\<close>

text \<open>The requester's task \<^verbatim>\<open>t1\<close> of anima \<^verbatim>\<open>rin\<close>: published, then claimed with token \<^verbatim>\<open>k1\<close>.\<close>

definition demo_entry :: task_entry where
  "demo_entry = \<lparr>te_task_id = ''t1'', te_ts = ''2026-01-01'', te_source = ''anima'',
     te_original_instruction = ''do it'', te_assignee = ''rin'', te_status = ''pending'',
     te_summary = ''work'', te_relay_chain = [], te_updated_at = ''2026-01-01'', te_meta = []\<rparr>"

definition demo_payload :: dict where
  "demo_payload = [(''task_id'', JStr ''t1''), (''title'', JStr ''work''), (''reply_to'', JStr ''sora'')]"

definition demo_published :: task_db where
  "demo_published = publish_row ''rin'' demo_entry demo_payload empty_db"

definition demo_attempt :: attempt_row where
  "demo_attempt = \<lparr>at_token = ''k1'', at_anima = ''rin'', at_task_id = ''t1'', at_number = 1,
     at_identity = [], at_started = ''2026-01-02'', at_ended = None, at_stop_kind = None,
     at_result_ref = None\<rparr>"

definition demo_running :: task_db where
  "demo_running = set_row ''rin'' ''t1''
     (\<lambda>x. x\<lparr>row_attempt := Some ''k1'', row_ready := False,
            row_entry := claimed_entry ''2026-01-02'' demo_entry\<rparr>)
     (demo_published\<lparr>db_attempts := [demo_attempt]\<rparr>)"

text \<open>The owner cancels the running task.\<close>

definition demo_cancel :: update_event where
  "demo_cancel = \<lparr>ue_task_id = ''t1'', ue_status = Some ''cancelled'', ue_summary = None,
     ue_updated_at = Some ''2026-01-03'', ue_meta = None\<rparr>"

definition demo_cancelled_entry :: task_entry where
  "demo_cancelled_entry = merge_update demo_cancel (claimed_entry ''2026-01-02'' demo_entry)"

definition demo_cancelled :: task_db where
  "demo_cancelled = set_row ''rin'' ''t1''
     (\<lambda>x. x\<lparr>row_entry := demo_cancelled_entry, row_archived := False, row_ready := False\<rparr>) demo_running"

section \<open>Helper lemmas\<close>

lemma active_row_input:
  "store_inv db \<Longrightarrow> x \<in> set (active_rows db a) \<Longrightarrow> row_input x \<noteq> None"
  by (auto simp: active_rows_def store_inv_def row_ok_def)

lemma check_deps_iff:
  assumes "store_inv db"
  shows "check_deps db a ds = DepsDone \<longleftrightarrow> (\<forall>d \<in> set ds. dep_done db a d)"
proof (induction ds)
  case Nil
  then show ?case by simp
next
  case (Cons d ds)
  have "opt_truthy (row_attempt r) \<longleftrightarrow> row_attempt r \<noteq> None" if "get_row db o' t = Some r" for o' t r
    using opt_truthy_attempt [OF assms] get_row_Some [OF that] by blast
  with Cons show ?case
    by (auto simp: dep_done_def split: prod.splits option.splits)
qed

lemma same_batch_conflict:
  "batch_excludes p qs \<longleftrightarrow> (\<exists>q \<in> set qs. batch_conflict q p)"
proof -
  have eq: "dict_truthy p ''batch_id'' \<longleftrightarrow> dict_truthy q ''batch_id''"
    if "map_of q ''batch_id'' = map_of p ''batch_id''" for q
    using that by (simp add: dict_truthy_def)
  show ?thesis
    unfolding batch_excludes_def batch_conflict_def same_batch_def Let_def
    by (auto simp: filter_empty_conv dest: eq) (metis eq)+
qed

lemma idle_row:
  "store_inv db \<Longrightarrow> get_row db a t = Some r \<Longrightarrow> opt_truthy (row_attempt r) \<longleftrightarrow> row_attempt r \<noteq> None"
  using opt_truthy_attempt get_row_Some by blast

lemma foldr_max_ge: "x \<in> set xs \<Longrightarrow> x \<le> foldr max xs (b :: nat)"
  by (induction xs) auto

lemma next_number_greater:
  "x \<in> set (db_attempts db) \<Longrightarrow> at_anima x = a \<Longrightarrow> at_task_id x = t \<Longrightarrow> at_number x < next_number db a t"
  by (auto simp: next_number_def less_Suc_eq_le intro!: foldr_max_ge)

lemma next_number_fresh: "row_find attempt_number_key (a, t, next_number db a t) (db_attempts db) = None"
  by (auto simp: row_find_None attempt_number_key_def dest: next_number_greater)

lemma start_attempt_ok:
  assumes "row_find at_token token (db_attempts db) = None"
  shows "start_attempt token now i a t r p db =
    Inr (Some (dict_merge p [(''_attempt_token'', JStr token),
                             (''_attempt_number'', JInt (int (next_number db a t)))]),
         set_row a t (\<lambda>x. x\<lparr>row_attempt := Some token, row_ready := False,
                           row_entry := claimed_entry now (row_entry r)\<rparr>)
           (db\<lparr>db_attempts := db_attempts db @
             [\<lparr>at_token = token, at_anima = a, at_task_id = t, at_number = next_number db a t,
               at_identity = i, at_started = now, at_ended = None, at_stop_kind = None,
               at_result_ref = None\<rparr>]\<rparr>))"
  using assms by (simp add: start_attempt_def Let_def next_number_fresh)

lemma claim_unfold:
  assumes inv: "store_inv db" and fresh: "row_find at_token token (db_attempts db) = None"
    and c: "claimable m a t db"
  obtains r p where "get_row db a t = Some r" "row_input r = Some p"
    "store_claim token now i m a t db = start_attempt token now i a t r p db"
proof -
  from c obtain r p where r: "get_row db a t = Some r" "row_input r = Some p"
    by (auto simp: claimable_def split: option.splits)
  have ok: "row_ok r" using inv get_row_Some [OF r(1)] by (simp add: store_inv_def)
  have "\<not> opt_truthy (row_attempt r)"
    using c r ok idle_row [OF inv r(1)] by (simp add: claimable_def row_ok_def)
  moreover have "\<not> batch_excludes p (map (\<lambda>x. opt_or (row_input x) []) (active_rows db a))"
    using c r active_row_input [OF inv]
    by (fastforce simp: same_batch_conflict claimable_def opt_or_def split: option.splits)
  moreover have "check_deps db a (depends_on p) = DepsDone"
    using c r by (simp add: claimable_def check_deps_iff [OF inv])
  moreover have "\<not> (\<exists>x \<in> set (active_rows db a). row_input x = None)"
    using active_row_input [OF inv] by blast
  ultimately have "store_claim token now i m a t db = start_attempt token now i a t r p db"
    using c r by (auto simp: store_claim_def claimable_def Let_def)
  with r show ?thesis by (rule that)
qed

lemma claim_Some_claimable:
  assumes inv: "store_inv db" and ok: "store_claim token now i m a t db = Inr (Some p, db')"
  shows "claimable m a t db"
proof -
  have b: "\<not> batch_excludes payload (map (\<lambda>x. opt_or (row_input x) []) xs) \<Longrightarrow>
      x \<in> set xs \<Longrightarrow> row_input x = Some q \<Longrightarrow> \<not> batch_conflict q payload" for payload xs x q
    by (auto simp: same_batch_conflict opt_or_def split: option.splits)
  show ?thesis
    using ok
    by (auto simp: store_claim_def claimable_def Let_def check_deps_iff [OF inv]
        split: if_splits option.splits dep_check.splits dest: b)
qed

lemma set_row_key_other: "(a', t') \<noteq> (a, t) \<Longrightarrow> (\<And>x. task_key (f x) = task_key x) \<Longrightarrow>
  get_row (set_row a t f db) a' t' = get_row db a' t'"
  by (auto simp: get_row_set_row)

lemma get_row_other_tables [simp]:
  "get_row (db\<lparr>db_attempts := x\<rparr>) a t = get_row db a t"
  "get_row (db\<lparr>db_wakeups := w\<rparr>) a t = get_row db a t"
  "get_row (db\<lparr>db_aliases := l\<rparr>) a t = get_row db a t"
  "get_row (add_wakeup w' db) a t = get_row db a t"
  "get_row (ack_task_wakeups n a' t' db) a t = get_row db a t"
  by (simp_all add: get_row_def add_wakeup_def ack_task_wakeups_def)

lemma find_running:
  assumes inv: "store_inv db" and r: "r \<in> set (db_tasks db)" "row_attempt r = Some k"
  shows "find (\<lambda>x. row_attempt x = Some k) (db_tasks db) = Some r"
proof (cases "find (\<lambda>x. row_attempt x = Some k) (db_tasks db)")
  case None
  with r show ?thesis by (auto simp: find_None_iff)
next
  case (Some x)
  then have x: "x \<in> set (db_tasks db)" "row_attempt x = Some k" by (auto simp: find_Some_iff)
  then have "task_key x = task_key r" using running_row_unique [OF inv r x(1)] by simp
  with x r inv have "x = r" by (auto simp: store_inv_def keys_inv_def dest: pk_unique_eq)
  with Some show ?thesis by simp
qed

lemma live_attempt_running:
  assumes inv: "store_inv db" and r: "r \<in> set (db_tasks db)" "row_attempt r = Some k"
  obtains a where "live_attempt db k = Some a"
proof -
  have "\<exists>a \<in> set (db_attempts db). at_token a = k \<and> at_ended a = None"
    using inv r fenceD_row [of _ _ r k] by (auto simp: store_inv_def)
  then show ?thesis
    using that by (cases "live_attempt db k") (auto simp: live_attempt_def find_None_iff)
qed

text \<open>Updating the row of one key adds at most one row to a selection.\<close>

lemma filter_row_update_le:
  "pk_unique key rows \<Longrightarrow>
   length (filter P (row_update key k f rows)) \<le> Suc (length (filter P rows))"
proof (induction rows)
  case Nil
  then show ?case by (simp add: row_update_def)
next
  case (Cons x rows)
  have "row_update key k f rows = rows" if "key x = k"
  proof -
    have "key y \<noteq> k" if "y \<in> set rows" for y
      using Cons.prems that \<open>key x = k\<close> by (force simp: pk_unique_def image_iff)
    then show ?thesis by (simp add: row_update_def map_idI)
  qed
  moreover have "row_update key k f (x # rows) = (if key x = k then f x else x) # row_update key k f rows"
    by (simp add: row_update_def)
  ultimately show ?case
    using Cons by (auto simp: pk_unique_def)
qed

lemma demo_submit:
  "store_submit None ''2026-01-01'' ''2026-01-01'' ''rin'' demo_entry demo_payload False empty_db
   = Inr (True, demo_published)"
  by code_simp

lemma demo_claim:
  "store_claim ''k1'' ''2026-01-02'' [] 1 ''rin'' ''t1'' demo_published =
   Inr (Some (demo_payload @ [(''_attempt_token'', JStr ''k1''), (''_attempt_number'', JInt 1)]), demo_running)"
  by code_simp

lemma demo_published_reachable: "rtranclp store_step empty_db demo_published"
  using step_submit [OF demo_submit] by blast

lemma demo_running_reachable: "rtranclp store_step empty_db demo_running"
  using demo_published_reachable step_claim [OF _ demo_claim] by (auto intro: rtranclp.rtrancl_into_rtrancl)

lemma demo_fresh: "row_find at_token ''k1'' (db_attempts demo_published) = None"
  by code_simp

lemma finish_wakeup_sel [simp]:
  "db_tasks (finish_wakeup now k s kind r db) = db_tasks db"
  "db_attempts (finish_wakeup now k s kind r db) = db_attempts db"
  "get_row (finish_wakeup now k s kind r db) a t = get_row db a t"
  by (simp_all add: finish_wakeup_def Let_def add_wakeup_def get_row_def)

lemma live_attempt_finish_wakeup: "live_attempt (finish_wakeup now k s kind r db) k' = live_attempt db k'"
  by (simp add: live_attempt_def)

lemma live_attempt_closed: "live_attempt (close_attempt now k kind ref r e db) k = None"
proof -
  have "find (\<lambda>a. at_token a = k \<and> at_ended a = None) (row_update at_token k
      (\<lambda>a. a\<lparr>at_ended := Some now, at_stop_kind := Some kind, at_result_ref := Some ref\<rparr>) rows) = None" for rows
    by (induction rows) (simp_all add: row_update_def)
  then show ?thesis by (simp add: live_attempt_def close_attempt_def)
qed

lemma finish_running:
  assumes inv: "store_inv db" and r: "r \<in> set (db_tasks db)" "row_attempt r = Some k"
    and st: "st \<in> {''pending'', ''done'', ''cancelled''}"
    and s: "s = (if row_status r = ''cancelled'' then ''cancelled'' else st)"
  shows "store_finish now k st kind summary ref db = Inr (True, finish_wakeup now k s kind r
          (close_attempt now k kind ref r (finished_entry now k s kind summary (row_entry r)) db))"
proof -
  obtain x where "live_attempt db k = Some x" by (rule live_attempt_running [OF inv r])
  with st find_running [OF inv r] show ?thesis unfolding s by (simp add: store_finish_def Let_def)
qed

lemma runner_step_store_step: "runner_step db db' \<Longrightarrow> store_step db db'"
  by (induction rule: runner_step.induct) (auto intro: store_step.intros)

lemma runner_step_inv: "runner_step db db' \<Longrightarrow> store_inv db \<Longrightarrow> store_inv db'"
  by (blast intro: store_step_inv runner_step_store_step)

lemma finish_keeps_cancelled:
  assumes inv: "store_inv db" and r: "get_row db a t = Some r" "row_status r = ''cancelled''"
    and ok: "store_finish now k st kind summary ref db = Inr (b, db')"
  shows "\<exists>r'. get_row db' a t = Some r' \<and> row_status r' = ''cancelled''"
proof (cases "db' = db")
  case True
  with r show ?thesis by simp
next
  case False
  then obtain x where x: "find (\<lambda>r. row_attempt r = Some k) (db_tasks db) = Some x"
    and st: "st \<in> {''pending'', ''done'', ''cancelled''}"
    using ok by (auto simp: store_finish_def split: if_splits option.splits)
  then have xs: "x \<in> set (db_tasks db)" "row_attempt x = Some k" by (auto simp: find_Some_iff)
  have gx: "get_row db (row_anima x) (row_task_id x) = Some x"
    using inv xs by (simp add: store_inv_def get_row_iff task_key_def)
  have "db' = finish_wakeup now k (if row_status x = ''cancelled'' then ''cancelled'' else st) kind x
      (close_attempt now k kind ref x (finished_entry now k
        (if row_status x = ''cancelled'' then ''cancelled'' else st) kind summary (row_entry x)) db)"
    using ok finish_running [OF inv xs st refl] by simp
  with r gx show ?thesis
    by (auto simp: close_attempt_def get_row_set_row row_status_def finished_entry_def)
qed

lemma runner_step_keeps_cancelled:
  assumes "runner_step db db'" "store_inv db" "get_row db a t = Some r" "row_status r = ''cancelled''"
  shows "\<exists>r'. get_row db' a t = Some r' \<and> row_status r' = ''cancelled''"
  using assms
proof (induction rule: runner_step.induct)
  case (runner_update db x u ident db')
  then show ?case
    by (auto simp: reopens_idle_def store_apply_def apply_update_def Let_def get_row_set_row row_status_def merge_update_def
        opt_or_def split: prod.splits if_splits option.splits)
next
  case (runner_claim token now i m x tid db p db')
  have "tid \<noteq> t \<or> x \<noteq> a" if "get_row db x tid = Some q" "row_status q = ''pending''" for q
    using that runner_claim.prems by auto
  with runner_claim show ?case
    by (auto simp: store_claim_def Let_def start_attempt_def get_row_set_row row_status_def
        split: if_splits option.splits dep_check.splits)
next
  case (runner_finish now k st kind summary ref db b db')
  then show ?case by (blast intro: finish_keeps_cancelled)
next
  case (runner_identity k i db b db')
  then show ?case by (auto simp: store_set_identity_def split: option.splits)
next
  case (runner_ack now x k db db')
  then show ?case by (auto simp: store_acknowledge_wakeup_def)
qed

lemma publish_row_other:
  "(a, t) \<noteq> (x, te_task_id e) \<Longrightarrow> get_row (publish_row x e p db) a t = get_row db a t"
proof -
  assume "(a, t) \<noteq> (x, te_task_id e)"
  moreover have "task_key ((blank_row x e)\<lparr>row_input := Some p, row_ready := True\<rparr>) = (x, te_task_id e)"
    by (simp add: blank_row_def task_key_def)
  ultimately show ?thesis
    unfolding get_row_def publish_row_def task_db.simps by (auto simp: row_find_upsert)
qed

lemma insert_entry_other:
  "(a, t) \<noteq> (x, te_task_id e) \<Longrightarrow> get_row (insert_entry x e db) a t = get_row db a t"
proof -
  assume "(a, t) \<noteq> (x, te_task_id e)"
  moreover have "task_key (blank_row x e) = (x, te_task_id e)" by (simp add: blank_row_def task_key_def)
  ultimately show ?thesis
    unfolding get_row_def insert_entry_def task_db.simps by (auto simp: row_find_upsert)
qed

lemma apply_update_other_row:
  "apply_update o' t' r u db = Inr db' \<Longrightarrow> (a, t) \<noteq> (o', t') \<Longrightarrow> get_row db' a t = get_row db a t"
  by (auto simp: apply_update_def Let_def get_row_set_row split: option.splits if_splits)

lemma apply_entry_other_row:
  "apply_entry x t' r e db = Inr db' \<Longrightarrow> (a, t) \<noteq> (x, te_task_id e) \<Longrightarrow> get_row db' a t = get_row db a t"
  by (auto simp: apply_entry_def store_alias_def Let_def insert_entry_other split: option.splits if_splits)

lemma publish_row_get:
  "get_row (publish_row a e p db) a (te_task_id e) =
     Some (case get_row db a (te_task_id e) of
             None \<Rightarrow> (blank_row a e)\<lparr>row_input := Some p, row_ready := True\<rparr>
           | Some x \<Rightarrow> x\<lparr>row_entry := e, row_input := Some p, row_ready := True, row_archived := False\<rparr>)"
proof -
  have "task_key ((blank_row a e)\<lparr>row_input := Some p, row_ready := True\<rparr>) = (a, te_task_id e)"
    by (simp add: blank_row_def task_key_def)
  then show ?thesis
    unfolding get_row_def publish_row_def task_db.simps
    by (simp add: row_find_upsert)
qed

lemma demo_cancel_apply:
  "store_apply None ''rin'' (UpdateEvent demo_cancel) demo_running = Inr demo_cancelled"
  by code_simp

lemma demo_cancelled_reachable: "rtranclp store_step empty_db demo_cancelled"
  using demo_running_reachable step_apply [OF demo_cancel_apply] by (rule rtranclp.rtrancl_into_rtrancl)

lemma demo_cancelled_row:
  "get_row demo_cancelled ''rin'' ''t1'' = Some (the (get_row demo_cancelled ''rin'' ''t1''))"
  "row_status (the (get_row demo_cancelled ''rin'' ''t1'')) = ''cancelled''"
  by code_simp+

lemma map_sum_fst_Inr: "map_sum f fst x = Inr b \<Longrightarrow> \<exists>y. x = Inr (b, y)"
  by (cases x) auto

lemma demo_cancelled_finish:
  "\<exists>db'. store_finish ''n'' ''k1'' ''done'' ''normal'' None [] demo_cancelled = Inr (True, db')"
proof (rule map_sum_fst_Inr)
  show "map_sum id fst (store_finish ''n'' ''k1'' ''done'' ''normal'' None [] demo_cancelled) = Inr True"
    by code_simp
qed

lemma demo_running_row:
  "\<exists>r. get_row demo_running ''rin'' ''t1'' = Some r \<and> row_attempt r = Some ''k1'' \<and> row_status r = ''in_progress''"
proof -
  have "map_option (\<lambda>r. (row_attempt r, row_status r)) (get_row demo_running ''rin'' ''t1'') =
      Some (Some ''k1'', ''in_progress'')" by code_simp
  then show ?thesis by auto
qed

lemma demo_running_finish:
  "\<exists>db'. store_finish ''n'' ''k1'' ''pending'' ''crash'' None [] demo_running = Inr (True, db')"
proof (rule map_sum_fst_Inr)
  show "map_sum id fst (store_finish ''n'' ''k1'' ''pending'' ''crash'' None [] demo_running) = Inr True"
    by code_simp
qed

section \<open>Properties\<close>

text \<open>
  C1. Every database that any sequence of store transactions can produce from an empty one keeps
  the store invariant: unique primary keys, running tasks and live attempts name each other, and
  a task that is ready or running has its execution input.
\<close>

theorem store_reachable_inv: "rtranclp store_step empty_db db \<Longrightarrow> store_inv db"
  by (rule store.inv_reachable [OF refl])

theorem store_reachable_inv_witness:
  "rtranclp store_step empty_db demo_running \<and> store_inv demo_running"
  using demo_running_reachable store_reachable_inv [OF demo_running_reachable] by simp

text \<open>
  C5. Mutual exclusion: in every reachable database two live attempts of the same task are the
  same attempt, and it is the one the task row names as its current attempt.
\<close>

theorem one_live_attempt:
  assumes "rtranclp store_step empty_db db"
    and a: "a \<in> set (db_attempts db)" "at_ended a = None"
    and b: "b \<in> set (db_attempts db)" "at_ended b = None"
    and same: "at_anima a = at_anima b" "at_task_id a = at_task_id b"
  shows "a = b \<and> Option.bind (get_row db (at_anima a) (at_task_id a)) row_attempt = Some (at_token a)"
proof -
  have inv: "store_inv db" by (rule store.inv_reachable [OF refl assms(1)])
  then have fe: "fence (set (db_tasks db)) (set (db_attempts db))" and k: "keys_inv db"
    by (simp_all add: store_inv_def)
  obtain r where r: "get_row db (at_anima a) (at_task_id a) = Some r" "row_attempt r = Some (at_token a)"
    using fenceD_att [OF fe a] by (auto simp: get_row_iff [OF k])
  obtain r' where "get_row db (at_anima b) (at_task_id b) = Some r'" "row_attempt r' = Some (at_token b)"
    using fenceD_att [OF fe b] by (auto simp: get_row_iff [OF k])
  with r same have "at_token a = at_token b" by simp
  with a b k r show ?thesis by (auto simp: keys_inv_def dest: pk_unique_eq)
qed

theorem one_live_attempt_witness:
  "demo_attempt \<in> set (db_attempts demo_running) \<and>
   Option.bind (get_row demo_running ''rin'' ''t1'') row_attempt = Some ''k1''"
proof -
  have h: "demo_attempt \<in> set (db_attempts demo_running)" "at_ended demo_attempt = None"
    by (simp_all add: demo_running_def demo_attempt_def)
  show ?thesis
    using h(1) one_live_attempt [OF demo_running_reachable h h refl refl] by (simp add: demo_attempt_def)
qed

text \<open>
  C2. A claim with a fresh token starts the task exactly when the contract \<open>claimable\<close> allows it:
  claims are not paused, the task is ready and pending, a worker is free, no running task of its
  batch excludes it and every dependency is done. It never raises.
\<close>

theorem claim_iff_claimable:
  assumes "rtranclp store_step empty_db db"
    and "row_find at_token token (db_attempts db) = None"
  shows "(\<exists>p db'. store_claim token now i m a t db = Inr (Some p, db')) \<longleftrightarrow> claimable m a t db"
proof
  have inv: "store_inv db" by (rule store.inv_reachable [OF refl assms(1)])
  {
    assume "\<exists>p db'. store_claim token now i m a t db = Inr (Some p, db')"
    then show "claimable m a t db" using claim_Some_claimable [OF inv] by blast
  next
    assume "claimable m a t db"
    then obtain r p where "store_claim token now i m a t db = start_attempt token now i a t r p db"
      using claim_unfold [OF inv assms(2)] by blast
    then show "\<exists>p db'. store_claim token now i m a t db = Inr (Some p, db')"
      by (simp add: start_attempt_ok [OF assms(2)])
  }
qed

theorem claim_iff_claimable_witness: "claimable 1 ''rin'' ''t1'' demo_published"
  using claim_iff_claimable [OF demo_published_reachable demo_fresh, of "''2026-01-02''" "[]" 1 "''rin''" "''t1''"]
    demo_claim by blast

text \<open>
  Effect of a successful claim: the caller gets the saved input plus the token and the attempt
  number, the number is larger than every earlier attempt's, the task runs under the token, is no
  longer ready, is in progress without the previous run's stop fields, and no other task changes.
\<close>

theorem claim_effect:
  assumes reach: "rtranclp store_step empty_db db"
    and ok: "store_claim token now i m a t db = Inr (Some q, db')"
    and fresh: "row_find at_token token (db_attempts db) = None"
  shows "\<exists>r p n. get_row db a t = Some r \<and> row_input r = Some p \<and>
     q = dict_merge p [(''_attempt_token'', JStr token), (''_attempt_number'', JInt (int n))] \<and>
     (\<forall>x \<in> set (db_attempts db). at_anima x = a \<longrightarrow> at_task_id x = t \<longrightarrow> at_number x < n) \<and>
     get_row db' a t = Some (r\<lparr>row_attempt := Some token, row_ready := False,
                               row_entry := claimed_entry now (row_entry r)\<rparr>) \<and>
     (\<forall>a' t'. (a', t') \<noteq> (a, t) \<longrightarrow> get_row db' a' t' = get_row db a' t')"
proof -
  have inv: "store_inv db" by (rule store.inv_reachable [OF refl reach])
  obtain r p where r: "get_row db a t = Some r" "row_input r = Some p"
    and c: "store_claim token now i m a t db = start_attempt token now i a t r p db"
    using claim_unfold [OF inv fresh claim_Some_claimable [OF inv ok]] by blast
  show ?thesis
    using ok r c
    by (intro exI [of _ r] exI [of _ p] exI [of _ "next_number db a t"])
       (auto simp: start_attempt_ok [OF fresh] get_row_set_row next_number_greater)
qed

theorem claim_effect_witness:
  "\<exists>r. get_row demo_published ''rin'' ''t1'' = Some r \<and>
    get_row demo_running ''rin'' ''t1'' = Some (r\<lparr>row_attempt := Some ''k1'', row_ready := False,
      row_entry := claimed_entry ''2026-01-02'' (row_entry r)\<rparr>)"
  using claim_effect [OF demo_published_reachable demo_claim demo_fresh] by blast

text \<open>
  The worker limit: a successful claim leaves at most \<open>max_active\<close> running tasks of that anima.
\<close>

theorem claim_respects_worker_limit:
  assumes reach: "rtranclp store_step empty_db db"
    and ok: "store_claim token now i m a t db = Inr (Some q, db')"
    and fresh: "row_find at_token token (db_attempts db) = None"
  shows "length (active_rows db' a) \<le> m"
proof -
  have inv: "store_inv db" by (rule store.inv_reachable [OF refl reach])
  have c: "claimable m a t db" by (rule claim_Some_claimable [OF inv ok])
  then have lt: "length (active_rows db a) < m"
    by (auto simp: claimable_def split: option.splits)
  obtain r p where "store_claim token now i m a t db = start_attempt token now i a t r p db"
    using claim_unfold [OF inv fresh c] by blast
  with ok have db': "db_tasks db' = row_update task_key (a, t)
      (\<lambda>x. x\<lparr>row_attempt := Some token, row_ready := False,
             row_entry := claimed_entry now (row_entry r)\<rparr>) (db_tasks db)"
    by (auto simp: start_attempt_ok [OF fresh] set_row_def)
  have "pk_unique task_key (db_tasks db)" using inv by (simp add: store_inv_def keys_inv_def)
  then have "length (active_rows db' a) \<le> Suc (length (active_rows db a))"
    unfolding active_rows_def db' by (rule filter_row_update_le)
  with lt show ?thesis by simp
qed

theorem claim_respects_worker_limit_witness: "length (active_rows demo_running ''rin'') \<le> 1"
  by (rule claim_respects_worker_limit [OF demo_published_reachable demo_claim demo_fresh])

text \<open>
  The fence around a finished attempt: finishing succeeds exactly for the token that some
  task names as its current attempt; for any other token nothing changes.
\<close>

theorem finish_iff_current:
  assumes reach: "rtranclp store_step empty_db db" and st: "st \<in> {''pending'', ''done'', ''cancelled''}"
  shows "if \<exists>r \<in> set (db_tasks db). row_attempt r = Some k
         then \<exists>db'. store_finish now k st kind summary ref db = Inr (True, db')
         else store_finish now k st kind summary ref db = Inr (False, db)"
proof (cases "\<exists>r \<in> set (db_tasks db). row_attempt r = Some k")
  case True
  then obtain r where r: "r \<in> set (db_tasks db)" "row_attempt r = Some k" by blast
  have inv: "store_inv db" by (rule store.inv_reachable [OF refl reach])
  have "\<exists>db'. store_finish now k st kind summary ref db = Inr (True, db')"
    by (rule exI, rule finish_running [OF inv r st refl])
  with True show ?thesis by simp
next
  case False
  with st show ?thesis by (auto simp: store_finish_def find_Some_iff split: option.splits)
qed

theorem finish_iff_current_witness:
  "(\<exists>db'. store_finish ''n'' ''k1'' ''done'' ''normal'' None [] demo_running = Inr (True, db')) \<and>
   store_finish ''n'' ''k2'' ''done'' ''normal'' None [] demo_running = Inr (False, demo_running)"
proof -
  have "\<exists>r \<in> set (db_tasks demo_running). row_attempt r = Some ''k1''"
    "\<not> (\<exists>r \<in> set (db_tasks demo_running). row_attempt r = Some ''k2'')"
    by code_simp+
  then show ?thesis
    using finish_iff_current [OF demo_running_reachable, of "''done''" "''k1''" "''n''" "''normal''" None "[]"]
      finish_iff_current [OF demo_running_reachable, of "''done''" "''k2''" "''n''" "''normal''" None "[]"]
    by auto
qed

text \<open>
  C3. Effect of finishing: the row that ran the attempt is idle and not ready, its status is the
  declared outcome unless the owner cancelled it meanwhile (then it stays cancelled), the attempt is
  closed, finishing the same token again is refused and changes nothing.
\<close>

theorem finish_effect:
  assumes reach: "rtranclp store_step empty_db db"
    and r: "get_row db a t = Some r" "row_attempt r = Some k"
    and st: "st \<in> {''pending'', ''done'', ''cancelled''}"
  shows "\<exists>db' r'. store_finish now k st kind summary ref db = Inr (True, db') \<and>
     get_row db' a t = Some r' \<and> row_attempt r' = None \<and> \<not> row_ready r' \<and>
     row_input r' = row_input r \<and>
     row_status r' = (if row_status r = ''cancelled'' then ''cancelled'' else st) \<and>
     live_attempt db' k = None \<and>
     store_finish now' k st kind' summary' ref' db' = Inr (False, db')"
proof -
  have inv: "store_inv db" by (rule store.inv_reachable [OF refl reach])
  have rs: "r \<in> set (db_tasks db)" "row_anima r = a" "row_task_id r = t"
    using get_row_Some [OF r(1)] by (auto simp: task_key_def)
  define s where "s = (if row_status r = ''cancelled'' then ''cancelled'' else st)"
  define e where "e = finished_entry now k s kind summary (row_entry r)"
  define db' where "db' = finish_wakeup now k s kind r (close_attempt now k kind ref r e db)"
  have ok: "store_finish now k st kind summary ref db = Inr (True, db')"
    unfolding db'_def e_def by (rule finish_running [OF inv rs(1) r(2) st s_def])
  have dead: "live_attempt db' k = None"
    by (simp add: db'_def live_attempt_finish_wakeup live_attempt_closed)
  have row: "get_row db' a t = Some (r\<lparr>row_entry := e, row_attempt := None, row_ready := False\<rparr>)"
    using r(1) rs by (simp add: db'_def close_attempt_def get_row_set_row)
  have status: "row_status (r\<lparr>row_entry := e, row_attempt := None, row_ready := False\<rparr>) = s"
    by (simp add: row_status_def e_def finished_entry_def)
  have again: "store_finish now' k st kind' summary' ref' db' = Inr (False, db')"
    using st dead by (simp add: store_finish_def)
  show ?thesis
    by (rule exI [of _ db'], rule exI [of _ "r\<lparr>row_entry := e, row_attempt := None, row_ready := False\<rparr>"])
       (use ok row status dead again in \<open>simp add: s_def\<close>)
qed

theorem finish_effect_witness:
  "\<exists>db'. store_finish ''n'' ''k1'' ''done'' ''normal'' None [] demo_running = Inr (True, db') \<and>
         live_attempt db' ''k1'' = None"
proof -
  obtain r where "get_row demo_running ''rin'' ''t1'' = Some r" "row_attempt r = Some ''k1''"
    using demo_running_row by blast
  from finish_effect [OF demo_running_reachable this, of "''done''" "''n''" "''normal''" None "[]" "''n''" "''normal''" None "[]"]
  show ?thesis by auto
qed

text \<open>
  C4. A cancellation sticks: from a reachable database, after any sequence of status updates (to any
  status), claims, finished attempts (with any outcome), identity updates and acknowledgements, a
  cancelled task is still cancelled. The only update left out is one to pending of a cancelled task
  that no attempt is running, the deliberate reopening; while an attempt runs an update to pending is
  among the steps, and the store's guard refuses it. Publication and resumption are not steps.
\<close>

theorem cancel_sticks:
  assumes reach: "rtranclp store_step empty_db db" and run: "rtranclp runner_step db db'"
    and r: "get_row db a t = Some r" "row_status r = ''cancelled''"
  shows "\<exists>r'. get_row db' a t = Some r' \<and> row_status r' = ''cancelled''"
proof -
  have "store_inv db' \<and> (\<exists>r'. get_row db' a t = Some r' \<and> row_status r' = ''cancelled'')"
    using run
  proof (induction rule: rtranclp_induct)
    case base
    with r store.inv_reachable [OF refl reach] show ?case by simp
  next
    case (step y z)
    then show ?case by (blast intro: runner_step_inv runner_step_keeps_cancelled)
  qed
  then show ?thesis by simp
qed

theorem cancel_sticks_witness:
  "\<exists>db' r'. store_finish ''n'' ''k1'' ''done'' ''normal'' None [] demo_cancelled = Inr (True, db') \<and>
            get_row db' ''rin'' ''t1'' = Some r' \<and> row_status r' = ''cancelled''"
proof -
  obtain db' where ok: "store_finish ''n'' ''k1'' ''done'' ''normal'' None [] demo_cancelled = Inr (True, db')"
    using demo_cancelled_finish by blast
  have "rtranclp runner_step demo_cancelled db'" using runner_finish [OF ok] by blast
  from cancel_sticks [OF demo_cancelled_reachable this demo_cancelled_row(1)] demo_cancelled_row(2) ok
  show ?thesis by auto
qed



text \<open>
  C31. Fencing of writers: take a process that runs as an attempt \<^verbatim>\<open>k\<close> of the task \<^verbatim>\<open>(a, t)\<close> which is
  not (or no longer) the task's current attempt. An update, resumption or publication addressed to
  the task raises; whatever it addresses an update, a resumption or a publication to, and by whichever
  alias, a call that succeeds leaves the task's row as it was. Re-adding the task as a backlog entry
  leaves the row as it was too, provided the task's id is no alias of its owner for another task
  (then the store checks the other row: lemma \<^verbatim>\<open>alias_bypasses_running_guard\<close>).
\<close>

theorem stale_attempt_rejected:
  assumes stale: "\<And>r. get_row db a t = Some r \<Longrightarrow> row_attempt r \<noteq> Some k"
    and i: "i = \<lparr>id_anima = a, id_task_id = t, id_token = k\<rparr>"
  shows "(resolve db x (event_task_id ev) = (a, t) \<longrightarrow> (\<exists>err. store_apply (Some i) x ev db = Inl err)) \<and>
         (resolve db x tid = (a, t) \<longrightarrow> (\<exists>err. store_resume (Some i) now now' x tid db = Inl err)) \<and>
         (te_task_id e = t \<longrightarrow> (\<exists>err. store_submit (Some i) now now' a e p resume db = Inl err)) \<and>
         (store_apply (Some i) x (UpdateEvent u) db = Inr db1 \<longrightarrow> get_row db1 a t = get_row db a t) \<and>
         (store_resume (Some i) now now' x tid db = Inr (e2, db2) \<longrightarrow> get_row db2 a t = get_row db a t) \<and>
         (store_submit (Some i) now now' x e p resume db = Inr (b, db3) \<longrightarrow> get_row db3 a t = get_row db a t) \<and>
         (resolve db a t = (a, t) \<and> store_apply (Some i) x (EntryEvent e) db = Inr db4 \<longrightarrow>
            get_row db4 a t = get_row db a t)"
proof (intro conjI impI)
  have st: "stale_identity (Some i) a t (get_row db a t)"
    using stale by (auto simp: stale_identity_def i split: option.splits)
  then have st': "get_row db a t = Some r \<Longrightarrow> stale_identity (Some i) a t (Some r)" for r by simp
  show "\<exists>err. store_apply (Some i) x ev db = Inl err" if "resolve db x (event_task_id ev) = (a, t)"
    using st that by (simp add: store_apply_def)
  show "\<exists>err. store_resume (Some i) now now' x tid db = Inl err" if "resolve db x tid = (a, t)"
    using st' that by (auto simp: store_resume_def split: option.splits)
  show "\<exists>err. store_submit (Some i) now now' a e p resume db = Inl err" if "te_task_id e = t"
    using st that by (auto simp: store_submit_def Let_def)
  show "get_row db1 a t = get_row db a t" if "store_apply (Some i) x (UpdateEvent u) db = Inr db1"
    using st that apply_update_other_row [of _ _ _ u db db1 a t]
    by (auto simp: store_apply_def Let_def split: prod.splits if_splits)
  show "get_row db2 a t = get_row db a t" if "store_resume (Some i) now now' x tid db = Inr (e2, db2)"
    using st' that by (auto simp: store_resume_def Let_def get_row_set_row
        split: prod.splits option.splits if_splits)
  show "get_row db3 a t = get_row db a t" if "store_submit (Some i) now now' x e p resume db = Inr (b, db3)"
  proof (cases "x = a \<and> te_task_id e = t")
    case True
    with st that show ?thesis by (auto simp: store_submit_def Let_def split: if_splits)
  next
    case False
    with that show ?thesis
      by (auto simp: store_submit_def Let_def publish_row_other split: option.splits if_splits)
  qed
  show "get_row db4 a t = get_row db a t"
    if "resolve db a t = (a, t) \<and> store_apply (Some i) x (EntryEvent e) db = Inr db4"
  proof (cases "x = a \<and> te_task_id e = t")
    case True
    with st that show ?thesis by (auto simp: store_apply_def)
  next
    case False
    with that show ?thesis
      using apply_entry_other_row [of x _ _ e db db4 a t]
      by (auto simp: store_apply_def Let_def split: prod.splits if_splits)
  qed
qed

theorem stale_attempt_rejected_witness:
  "(\<exists>err. store_resume (Some \<lparr>id_anima = ''rin'', id_task_id = ''t1'', id_token = ''old''\<rparr>)
     ''n'' ''n'' ''rin'' ''t1'' demo_running = Inl err) \<and>
   (\<exists>err. store_apply (Some \<lparr>id_anima = ''rin'', id_task_id = ''t1'', id_token = ''old''\<rparr>)
     ''rin'' (EntryEvent demo_entry) demo_running = Inl err)"
proof -
  have "get_row demo_running ''rin'' ''t1'' = Some r \<Longrightarrow> row_attempt r \<noteq> Some ''old''" for r
    using demo_running_row by auto
  moreover have "resolve demo_running ''rin'' ''t1'' = (''rin'', ''t1'')" by code_simp
  ultimately show ?thesis
    using stale_attempt_rejected [OF _ refl, where db = demo_running and a = "''rin''" and t = "''t1''"
        and k = "''old''" and x = "''rin''" and ev = "EntryEvent demo_entry" and tid = "''t1''"]
    by (auto simp: demo_entry_def)
qed

text \<open>
  Unfinished work leaves a durable wakeup: finishing a task that is not cancelled with outcome
  pending puts an unacknowledged wakeup with the stop kind into the owner's outbox.
\<close>

theorem unfinished_attempt_wakes_owner:
  assumes reach: "rtranclp store_step empty_db db"
    and r: "get_row db a t = Some r" "row_attempt r = Some k" "row_status r \<noteq> ''cancelled''"
    and new: "row_find wakeup_key (a, t, k) (db_wakeups db) = None"
    and ok: "store_finish now k ''pending'' kind summary ref db = Inr (b, db')"
  shows "\<lparr>wk_anima = a, wk_task_id = t, wk_token = k, wk_reason = kind, wk_created = now, wk_ack = None\<rparr>
         \<in> set (store_wakeups a db')"
proof -
  have inv: "store_inv db" by (rule store.inv_reachable [OF refl reach])
  have rs: "r \<in> set (db_tasks db)" "row_anima r = a" "row_task_id r = t"
    using get_row_Some [OF r(1)] by (auto simp: task_key_def)
  have "store_finish now k ''pending'' kind summary ref db = Inr (True, finish_wakeup now k ''pending'' kind r
      (close_attempt now k kind ref r (finished_entry now k ''pending'' kind summary (row_entry r)) db))"
    by (rule finish_running [OF inv rs(1) r(2)]) (use r(3) in simp_all)
  with ok have "db' = finish_wakeup now k ''pending'' kind r
      (close_attempt now k kind ref r (finished_entry now k ''pending'' kind summary (row_entry r)) db)"
    by simp
  with new rs show ?thesis
    by (simp add: finish_wakeup_def Let_def add_wakeup_def close_attempt_def row_insert_ignore_def
        wakeup_key_def store_wakeups_def)
qed

theorem unfinished_attempt_wakes_owner_witness:
  "\<exists>db'. store_finish ''n'' ''k1'' ''pending'' ''crash'' None [] demo_running = Inr (True, db') \<and>
     \<lparr>wk_anima = ''rin'', wk_task_id = ''t1'', wk_token = ''k1'', wk_reason = ''crash'',
      wk_created = ''n'', wk_ack = None\<rparr> \<in> set (store_wakeups ''rin'' db')"
proof -
  obtain r where r: "get_row demo_running ''rin'' ''t1'' = Some r" "row_attempt r = Some ''k1''"
    "row_status r \<noteq> ''cancelled''" using demo_running_row by auto
  moreover obtain db' where "store_finish ''n'' ''k1'' ''pending'' ''crash'' None [] demo_running = Inr (True, db')"
    using demo_running_finish by blast
  moreover have "row_find wakeup_key (''rin'', ''t1'', ''k1'') (db_wakeups demo_running) = None" by code_simp
  ultimately show ?thesis
    using unfinished_attempt_wakes_owner [OF demo_running_reachable] by blast
qed

text \<open>
  Compaction hides finished work and loses nothing: the archived view is unchanged, a second
  compaction archives nothing more, and every row that was archived is idle and terminal.
\<close>

theorem compact_hides_finished_only:
  assumes ok: "store_compact a db = (n, db1)"
  shows "store_read x True db1 = store_read x True db \<and> store_compact a db1 = (0, db1) \<and>
         n = length (filter (compactable a) (db_tasks db)) \<and>
         (\<forall>r \<in> set (db_tasks db1). r \<in> set (db_tasks db) \<or>
            (row_archived r \<and> row_attempt r = None \<and> terminal (row_status r) \<and> row_anima r = a))"
proof -
  let ?g = "\<lambda>r. if compactable a r then r\<lparr>row_archived := True\<rparr> else r"
  have db1: "db1 = db\<lparr>db_tasks := map ?g (db_tasks db)\<rparr>" and n: "n = length (filter (compactable a) (db_tasks db))"
    using ok by (auto simp: store_compact_def)
  have g: "row_anima (?g r) = row_anima r" "row_entry (?g r) = row_entry r" "task_key (?g r) = task_key r" for r
    by simp_all
  have none: "\<not> compactable a (?g r)" for r by (simp add: compactable_def)
  have "store_read x True db1 = store_read x True db"
    unfolding store_read_def db1 by (simp add: comp_def g if_distrib [of row_entry] cong: if_cong)
  moreover have "store_compact a db1 = (0, db1)"
    using none by (simp add: store_compact_def db1 comp_def filter_map cong: if_cong)
  moreover have "\<forall>r \<in> set (db_tasks db1). r \<in> set (db_tasks db) \<or>
      (row_archived r \<and> row_attempt r = None \<and> terminal (row_status r) \<and> row_anima r = a)"
    unfolding db1 by (auto simp: compactable_def row_status_def)
  ultimately show ?thesis using n by simp
qed

theorem compact_hides_finished_only_witness:
  "store_compact ''rin'' (snd (store_compact ''rin'' demo_running)) =
   (0, snd (store_compact ''rin'' demo_running))"
  using compact_hides_finished_only [of "''rin''" demo_running "fst (store_compact ''rin'' demo_running)"
      "snd (store_compact ''rin'' demo_running)"] by simp

text \<open>
  What is published can be read back: after a successful first publication of a task that no
  alias of the owner shadows, the saved input is the payload, the entry is the submitted one in
  state pending, and the task is listed as executable.
\<close>

theorem submit_get_roundtrip:
  assumes ok: "store_submit None now now' a e p resume db = Inr (True, db1)"
    and noalias: "row_find alias_key (a, te_task_id e) (db_aliases db) = None"
  shows "store_get_input a (te_task_id e) db1 = Some p \<and>
         store_get a (te_task_id e) db1 = Some (e\<lparr>te_status := ''pending'', te_updated_at := now\<rparr>) \<and>
         te_task_id e \<in> set (store_executable_ids a db1)"
proof -
  let ?e = "e\<lparr>te_status := ''pending'', te_updated_at := now\<rparr>"
  have db1: "db1 = ack_task_wakeups now' a (te_task_id e) (publish_row a ?e p db)"
    using ok by (auto simp: store_submit_def Let_def split: if_splits option.splits)
  obtain r where r: "get_row db1 a (te_task_id e) = Some r" "row_input r = Some p" "row_entry r = ?e" "\<not> row_archived r"
    unfolding db1 using publish_row_get [of a ?e p db]
    by (auto simp: blank_row_def split: option.splits)
  have "resolve db1 a (te_task_id e) = (a, te_task_id e)"
    using noalias r(1) by (simp add: resolve_def db1 ack_task_wakeups_def publish_row_def)
  moreover have "te_task_id e \<in> set (store_executable_ids a db1)"
    using r get_row_Some [OF r(1)]
    by (auto simp: store_executable_ids_def task_key_def intro!: bexI [of _ r])
  ultimately show ?thesis
    using r by (auto simp: store_get_input_def store_get_def)
qed

theorem submit_get_roundtrip_witness: "store_get_input ''rin'' ''t1'' demo_published = Some demo_payload"
proof -
  have "row_find alias_key (''rin'', te_task_id demo_entry) (db_aliases empty_db) = None" by code_simp
  from submit_get_roundtrip [OF demo_submit this] show ?thesis by (simp add: demo_entry_def)
qed

text \<open>
  A guard that an alias bypasses. \<^verbatim>\<open>apply\<close> looks up the row that the task id resolves to, but
  writes the row of the id itself. When the anima also has an alias of that name, adding an entry
  replaces the record of its own running task, although the guard "is running; cannot replace its
  input" exists to refuse exactly that; without the alias the same call is refused.
\<close>

theorem alias_bypasses_running_guard:
  "\<exists>db db'. store_alias ''rin'' ''t1'' ''sora'' ''x'' demo_running = Inr db \<and>
     store_apply None ''rin'' (EntryEvent demo_entry) db = Inr db' \<and>
     map_option (\<lambda>r. (row_attempt r, row_status r)) (get_row db ''rin'' ''t1'') = Some (Some ''k1'', ''in_progress'') \<and>
     map_option (\<lambda>r. (row_attempt r, row_status r)) (get_row db' ''rin'' ''t1'') = Some (Some ''k1'', ''pending'') \<and>
     store_apply None ''rin'' (EntryEvent demo_entry) demo_running =
       Inl (ValueError ''Task t1 is running; cannot replace its input'')"
proof -
  define db where "db = demo_running\<lparr>db_aliases :=
    [\<lparr>al_viewer = ''rin'', al_alias = ''t1'', al_anima = ''sora'', al_task_id = ''x''\<rparr>]\<rparr>"
  define db' where "db' = insert_entry ''rin'' demo_entry db"
  have "store_alias ''rin'' ''t1'' ''sora'' ''x'' demo_running = Inr db" unfolding db_def by code_simp
  moreover have "store_apply None ''rin'' (EntryEvent demo_entry) db = Inr db'"
    unfolding db'_def db_def by code_simp
  moreover have "map_option (\<lambda>r. (row_attempt r, row_status r)) (get_row db ''rin'' ''t1'') = Some (Some ''k1'', ''in_progress'')"
    unfolding db_def by code_simp
  moreover have "map_option (\<lambda>r. (row_attempt r, row_status r)) (get_row db' ''rin'' ''t1'') = Some (Some ''k1'', ''pending'')"
    unfolding db'_def db_def by code_simp
  moreover have "store_apply None ''rin'' (EntryEvent demo_entry) demo_running =
       Inl (ValueError ''Task t1 is running; cannot replace its input'')" by code_simp
  ultimately show ?thesis by blast
qed

end
