(* ===== verification/Task_Dag.thy ===== *)
theory Task_Dag
  imports Task_Store
begin

text \<open>
  The dependency order of a batch: \<^verbatim>\<open>_topological_sort\<close> and \<^verbatim>\<open>_deps_satisfied\<close> of
  \<^verbatim>\<open>core/supervisor/pending_executor.py\<close>. A task is its id with the list \<^verbatim>\<open>depends_on\<close>; Kahn's algorithm
  runs on the ids and the descriptors are looked up in the end. The loop is proved to terminate, and
  for batches without repeated ids and without repeated dependencies it is proved correct: it
  returns a dependency order exactly when the dependencies have no cycle.
\<close>

section \<open>Definitions\<close>

type_synonym dag = "(string \<times> string list) list"

definition degree_of :: "(string \<times> int) list \<Rightarrow> string \<Rightarrow> int" where
  "degree_of indeg t = opt_or (map_of indeg t) 0"

text \<open>\<^verbatim>\<open>in_degree\<close>: one count for every dependency that is a task of the batch.\<close>

fun count_deps :: "string list \<Rightarrow> string list \<Rightarrow> string \<Rightarrow> (string \<times> int) list \<Rightarrow> (string \<times> int) list" where
  "count_deps ids [] t indeg = indeg"
| "count_deps ids (d # ds) t indeg =
     count_deps ids ds t
       (if d \<in> set ids then AList.update t (degree_of indeg t + 1) indeg else indeg)"

fun count_all :: "string list \<Rightarrow> dag \<Rightarrow> (string \<times> int) list \<Rightarrow> (string \<times> int) list" where
  "count_all ids [] indeg = indeg"
| "count_all ids ((t, ds) # ts) indeg = count_all ids ts (count_deps ids ds t indeg)"

definition in_degree :: "dag \<Rightarrow> (string \<times> int) list" where
  "in_degree ts = (let ids = map fst (dict_merge [] ts) in count_all ids ts (map (\<lambda>t. (t, 0)) ids))"

text \<open>The inner loop: the tasks that wait for \<open>tid\<close>.\<close>

fun relax :: "string \<Rightarrow> dag \<Rightarrow> (string \<times> int) list \<Rightarrow> string list \<Rightarrow> (string \<times> int) list \<times> string list" where
  "relax tid [] indeg queue = (indeg, queue)"
| "relax tid ((t, ds) # ts) indeg queue =
     (if tid \<in> set ds
      then let n = degree_of indeg t - 1
           in relax tid ts (AList.update t n indeg) (if n = 0 then queue @ [t] else queue)
      else relax tid ts indeg queue)"

definition open_degree :: "(string \<times> int) list \<Rightarrow> nat" where
  "open_degree indeg = sum_list (map (\<lambda>p. nat (snd p)) indeg)"

lemma open_degree_update:
  "open_degree (AList.update t (degree_of indeg t - 1) indeg) + (if degree_of indeg t - 1 = 0 then 1 else 0)
   \<le> open_degree indeg"
  by (induction indeg) (auto simp: open_degree_def degree_of_def opt_or_def)

lemma relax_measure:
  "open_degree (fst (relax tid ts indeg queue)) + length (snd (relax tid ts indeg queue))
   \<le> open_degree indeg + length queue"
proof (induction tid ts indeg queue rule: relax.induct)
  case (2 tid t ds ts indeg queue)
  show ?case
  proof (cases "tid \<in> set ds")
    case True
    with "2.IH"(1) [OF True refl] open_degree_update [of t indeg] show ?thesis
      by (auto simp: Let_def split: if_splits)
  next
    case False
    with "2.IH"(2) show ?thesis by simp
  qed
qed simp

function topo_loop :: "dag \<Rightarrow> (string \<times> int) list \<Rightarrow> string list \<Rightarrow> string list \<Rightarrow> string list" where
  "topo_loop ts indeg [] result = result"
| "topo_loop ts indeg (tid # queue) result =
     (case relax tid ts indeg queue of (indeg', queue') \<Rightarrow> topo_loop ts indeg' queue' (result @ [tid]))"
  by pat_completeness auto
termination
proof (relation "measure (\<lambda>(ts, indeg, queue, result). open_degree indeg + length queue)", goal_cases)
  case (2 ts indeg tid queue result x indeg')
  then show ?case using relax_measure [of tid ts indeg queue] by (auto simp: less_Suc_eq_le dest: sym)
qed simp

definition topo_order :: "dag \<Rightarrow> string list" where
  "topo_order ts =
     (let indeg = in_degree ts
      in topo_loop ts indeg [t. (t, n) \<leftarrow> indeg, n = 0] [])"

definition topological_sort :: "dag \<Rightarrow> py_error + dag" where
  "topological_sort ts =
     (let result = topo_order ts
      in if length result \<noteq> length ts then Inl (ValueError ''Cycle detected in task dependencies'')
         else Inr (map (\<lambda>tid. (tid, opt_or (map_of (dict_merge [] ts) tid) [])) result))"

definition deps_satisfied :: "string list \<Rightarrow> (string \<times> string) list \<Rightarrow> string set \<Rightarrow> bool" where
  "deps_satisfied ds completed unfinished =
     list_all (\<lambda>d. map_of completed d \<noteq> None \<or> d \<in> unfinished) ds"

text \<open>Specification: the dependencies inside the batch, and what a dependency order is.\<close>

definition dep_edge :: "dag \<Rightarrow> (string \<times> string) set" where
  "dep_edge ts = {(d, t). \<exists>ds. (t, ds) \<in> set ts \<and> d \<in> set ds \<and> d \<in> fst ` set ts}"

fun dep_ordered :: "(string \<times> string) set \<Rightarrow> string list \<Rightarrow> string list \<Rightarrow> bool" where
  "dep_ordered E seen [] = True"
| "dep_ordered E seen (t # ts) = ({d. (d, t) \<in> E} \<subseteq> set seen \<and> dep_ordered E (seen @ [t]) ts)"

definition good_dag :: "dag \<Rightarrow> bool" where
  "good_dag ts = (distinct (map fst ts) \<and> (\<forall>(t, ds) \<in> set ts. distinct ds))"

section \<open>The counts\<close>

lemma degree_of_update [simp]:
  "degree_of (AList.update t n indeg) t' = (if t' = t then n else degree_of indeg t')"
  by (simp add: degree_of_def update_conv opt_or_def)

lemma degree_count_deps:
  "degree_of (count_deps ids ds t indeg) t' =
     degree_of indeg t' + (if t' = t then int (length (filter (\<lambda>d. d \<in> set ids) ds)) else 0)"
  by (induction ids ds t indeg rule: count_deps.induct) auto

lemma degree_count_all:
  "distinct (map fst ts) \<Longrightarrow> degree_of (count_all ids ts indeg) t =
     degree_of indeg t + (case map_of ts t of None \<Rightarrow> 0
        | Some ds \<Rightarrow> int (length (filter (\<lambda>d. d \<in> set ids) ds)))"
  by (induction ids ts indeg rule: count_all.induct)
     (auto simp: degree_count_deps split: option.splits dest: map_of_SomeD intro: rev_image_eqI)

lemma keys_update_old: "t \<in> fst ` set indeg \<Longrightarrow> map fst (AList.update t n indeg) = map fst indeg"
  by (simp add: update_keys)

lemma keys_count_deps: "t \<in> fst ` set indeg \<Longrightarrow> map fst (count_deps ids ds t indeg) = map fst indeg"
proof (induction ids ds t indeg rule: count_deps.induct)
  case (2 ids d ds t indeg)
  have "fst ` set (AList.update t n indeg) = fst ` set indeg" for n
    using keys_update_old [OF 2(2), of n] by (metis set_map)
  with 2 show ?case by (simp add: keys_update_old)
qed simp

lemma keys_count_all:
  "fst ` set ts \<subseteq> fst ` set indeg \<Longrightarrow> map fst (count_all ids ts indeg) = map fst indeg"
proof (induction ids ts indeg rule: count_all.induct)
  case (2 ids t ds ts indeg)
  have k: "map fst (count_deps ids ds t indeg) = map fst indeg"
    using 2 by (intro keys_count_deps) auto
  then have "fst ` set (count_deps ids ds t indeg) = fst ` set indeg" by (metis set_map)
  with 2 k show ?case by simp
qed simp

lemma map_fst_dict_merge_new:
  "distinct (map fst d @ map fst e) \<Longrightarrow> map fst (dict_merge d e) = map fst d @ map fst e"
proof (induction d e rule: dict_merge.induct)
  case (2 d k v e)
  then have "k \<notin> fst ` set d" by auto
  then have "map fst (AList.update k v d) = map fst d @ [k]" by (simp add: update_keys)
  with 2 show ?case by auto
qed simp

lemma in_degree_keys: "distinct (map fst ts) \<Longrightarrow> map fst (in_degree ts) = map fst ts"
  using map_fst_dict_merge_new [of "[]" ts]
  by (auto simp: in_degree_def Let_def comp_def keys_count_all image_image)

lemma in_degree_count:
  assumes g: "good_dag ts" and t: "(t, ds) \<in> set ts"
  shows "degree_of (in_degree ts) t = int (card {d. (d, t) \<in> dep_edge ts})"
proof -
  have ids: "map fst (dict_merge [] ts) = map fst ts" and m: "map_of ts t = Some ds" and dd: "distinct ds"
    using g t map_fst_dict_merge_new [of "[]" ts] by (auto simp: good_dag_def)
  have z: "degree_of (map (\<lambda>t. (t, 0)) xs) t = 0" for xs
    by (induction xs) (auto simp: degree_of_def opt_or_def)
  have "{d. (d, t) \<in> dep_edge ts} = set (filter (\<lambda>d. d \<in> fst ` set ts) ds)"
    using g t by (auto simp: dep_edge_def good_dag_def dest: eq_key_imp_eq_value)
  then have "card {d. (d, t) \<in> dep_edge ts} = length (filter (\<lambda>d. d \<in> fst ` set ts) ds)"
    using dd distinct_card [of "filter (\<lambda>d. d \<in> fst ` set ts) ds"] by simp
  with g m z show ?thesis
    by (simp add: in_degree_def ids Let_def degree_count_all good_dag_def del: map_map)
qed

section \<open>The loop\<close>

lemma relax_degree:
  "distinct (map fst ts) \<Longrightarrow> degree_of (fst (relax tid ts indeg q)) t =
     degree_of indeg t - (if \<exists>ds. (t, ds) \<in> set ts \<and> tid \<in> set ds then 1 else 0)"
  by (induction tid ts indeg q rule: relax.induct) (force simp: Let_def)+

lemma relax_queue:
  "distinct (map fst ts) \<Longrightarrow> snd (relax tid ts indeg q) =
     q @ map fst (filter (\<lambda>p. tid \<in> set (snd p) \<and> degree_of indeg (fst p) = 1) ts)"
proof (induction tid ts indeg q rule: relax.induct)
  case (2 tid t ds ts indeg q)
  have "filter (\<lambda>p. tid \<in> set (snd p) \<and> degree_of (AList.update t n indeg) (fst p) = 1) ts =
        filter (\<lambda>p. tid \<in> set (snd p) \<and> degree_of indeg (fst p) = 1) ts" for n
    using 2(3) by (intro filter_cong) auto
  with 2 show ?case by (auto simp: Let_def)
qed simp

definition waiting_on :: "dag \<Rightarrow> string list \<Rightarrow> string \<Rightarrow> string set" where
  "waiting_on ts done t = {d. (d, t) \<in> dep_edge ts \<and> d \<notin> set done}"

definition topo_inv :: "dag \<Rightarrow> (string \<times> int) list \<Rightarrow> string list \<Rightarrow> string list \<Rightarrow> bool" where
  "topo_inv ts indeg queue result \<longleftrightarrow>
     distinct (result @ queue) \<and> set (result @ queue) \<subseteq> fst ` set ts \<and>
     (\<forall>t \<in> fst ` set ts. degree_of indeg t = int (card (waiting_on ts result t))) \<and>
     (\<forall>t \<in> fst ` set ts. t \<in> set (result @ queue) \<longleftrightarrow> degree_of indeg t = 0) \<and>
     dep_ordered (dep_edge ts) [] result"

lemma finite_deps [simp]: "finite {d. (d, t) \<in> dep_edge ts}"
  by (rule finite_subset [of _ "fst ` set ts"]) (auto simp: dep_edge_def)

lemma finite_waiting [simp]: "finite (waiting_on ts done t)"
  by (rule finite_subset [OF _ finite_deps]) (auto simp: waiting_on_def)

lemma waiting_on_snoc: "waiting_on ts (done @ [d]) t = waiting_on ts done t - {d}"
  by (auto simp: waiting_on_def)

lemma dep_ordered_append:
  "dep_ordered E seen (xs @ ys) \<longleftrightarrow> dep_ordered E seen xs \<and> dep_ordered E (seen @ xs) ys"
  by (induction E seen xs rule: dep_ordered.induct) auto

lemma edge_into: "tid \<in> fst ` set ts \<Longrightarrow> (tid, t) \<in> dep_edge ts \<longleftrightarrow> (\<exists>ds. (t, ds) \<in> set ts \<and> tid \<in> set ds)"
  by (auto simp: dep_edge_def)

lemma topo_inv_step:
  assumes inv: "topo_inv ts indeg (tid # queue) result" and d: "distinct (map fst ts)"
  shows "topo_inv ts (fst (relax tid ts indeg queue)) (snd (relax tid ts indeg queue)) (result @ [tid])"
proof -
  let ?i = "fst (relax tid ts indeg queue)" and ?q = "snd (relax tid ts indeg queue)"
  have tid: "tid \<in> fst ` set ts" and fresh: "tid \<notin> set result" and deg0: "degree_of indeg tid = 0"
    and ord: "dep_ordered (dep_edge ts) [] result"
    and cnt: "\<And>t. t \<in> fst ` set ts \<Longrightarrow> degree_of indeg t = int (card (waiting_on ts result t))"
    and mem: "\<And>t. t \<in> fst ` set ts \<Longrightarrow> t \<in> set (result @ tid # queue) \<longleftrightarrow> degree_of indeg t = 0"
    and dist: "distinct (result @ tid # queue)" and sub: "set (result @ tid # queue) \<subseteq> fst ` set ts"
    using inv by (auto simp: topo_inv_def)
  have deg: "degree_of ?i t = degree_of indeg t - (if (tid, t) \<in> dep_edge ts then 1 else 0)" for t
    using d by (simp add: relax_degree edge_into [OF tid])
  have q: "?q = queue @ map fst (filter (\<lambda>p. tid \<in> set (snd p) \<and> degree_of indeg (fst p) = 1) ts)"
    using d by (rule relax_queue)
  let ?new = "map fst (filter (\<lambda>p. tid \<in> set (snd p) \<and> degree_of indeg (fst p) = 1) ts)"
  have new: "t \<in> set ?new \<longleftrightarrow> (tid, t) \<in> dep_edge ts \<and> degree_of indeg t = 1" for t
    by (force simp: edge_into [OF tid])
  have newids: "t \<in> set ?new \<Longrightarrow> t \<in> fst ` set ts" for t by auto
  have newout: "t \<in> set ?new \<Longrightarrow> t \<notin> set (result @ tid # queue)" for t
    using mem [OF newids] new by fastforce
  have dnew: "distinct ?new" using d by (simp add: distinct_map_filter)
  have "waiting_on ts result tid = {}" using cnt [OF tid] deg0 by simp
  then have "{d. (d, tid) \<in> dep_edge ts} \<subseteq> set result" by (auto simp: waiting_on_def)
  with ord have ord': "dep_ordered (dep_edge ts) [] (result @ [tid])" by (simp add: dep_ordered_append)
  have cnt': "degree_of ?i t = int (card (waiting_on ts (result @ [tid]) t))" if t: "t \<in> fst ` set ts" for t
  proof (cases "(tid, t) \<in> dep_edge ts")
    case True
    then have m: "tid \<in> waiting_on ts result t" using fresh by (simp add: waiting_on_def)
    then have "card (waiting_on ts result t) > 0" by (auto simp: card_gt_0_iff)
    with m True show ?thesis by (simp add: deg cnt [OF t] waiting_on_snoc of_nat_diff)
  next
    case False
    then have "waiting_on ts result t - {tid} = waiting_on ts result t" by (auto simp: waiting_on_def)
    with False show ?thesis by (simp add: deg cnt [OF t] waiting_on_snoc)
  qed
  have mem': "t \<in> set ((result @ [tid]) @ ?q) \<longleftrightarrow> degree_of ?i t = 0" if t: "t \<in> fst ` set ts" for t
  proof (cases "(tid, t) \<in> dep_edge ts")
    case True
    then have "tid \<in> waiting_on ts result t" using fresh by (simp add: waiting_on_def)
    then have "degree_of indeg t \<noteq> 0" using cnt [OF t] by auto
    with True mem [OF t] new [of t] show ?thesis by (auto simp: q deg)
  next
    case False
    with mem [OF t] new [of t] show ?thesis by (auto simp: q deg)
  qed
  have "distinct ((result @ [tid]) @ ?q)" using dist dnew newout by (auto simp: q)
  moreover have "set ((result @ [tid]) @ ?q) \<subseteq> fst ` set ts" using sub newids by (auto simp: q)
  ultimately show ?thesis using cnt' mem' ord' by (simp add: topo_inv_def)
qed

lemma topo_loop_inv:
  "topo_inv ts indeg queue result \<Longrightarrow> distinct (map fst ts) \<Longrightarrow>
   \<exists>indeg'. topo_inv ts indeg' [] (topo_loop ts indeg queue result)"
proof (induction ts indeg queue result rule: topo_loop.induct)
  case (2 ts indeg tid queue result)
  show ?case
    using "2.IH" [OF prod.collapse topo_inv_step [OF 2(2,3)] 2(3)]
    by (simp add: case_prod_beta)
qed auto

lemma topo_inv_init:
  assumes "good_dag ts"
  shows "topo_inv ts (in_degree ts) [t. (t, n) \<leftarrow> in_degree ts, n = 0] []"
proof -
  have d: "distinct (map fst ts)" using assms by (simp add: good_dag_def)
  have k: "map fst (in_degree ts) = map fst ts" by (rule in_degree_keys [OF d])
  have dk: "distinct (map fst (in_degree ts))" using d k by simp
  have ks: "fst ` set (in_degree ts) = fst ` set ts" using k by (metis set_map)
  have q: "[t. (t, n) \<leftarrow> xs, n = 0] = map fst (filter (\<lambda>p. snd p = 0) xs)" for xs :: "(string \<times> int) list"
    by (induction xs) auto
  have e: "(t, n) \<in> set (in_degree ts) \<Longrightarrow> degree_of (in_degree ts) t = n" for t n
    using dk by (simp add: degree_of_def opt_or_def)
  have w: "waiting_on ts [] t = {d. (d, t) \<in> dep_edge ts}" for t by (simp add: waiting_on_def)
  have m: "t \<in> set (map fst (filter (\<lambda>p. snd p = 0) (in_degree ts))) \<longleftrightarrow> degree_of (in_degree ts) t = 0"
    if "t \<in> fst ` set ts" for t
  proof
    assume "degree_of (in_degree ts) t = 0"
    moreover obtain n where n: "(t, n) \<in> set (in_degree ts)" using \<open>t \<in> fst ` set ts\<close> ks [symmetric] by auto
    ultimately have "(t, 0) \<in> set (in_degree ts)" using e [OF n] by simp
    then show "t \<in> set (map fst (filter (\<lambda>p. snd p = 0) (in_degree ts)))" by force
  qed (auto dest: e)
  have "\<forall>t \<in> fst ` set ts. degree_of (in_degree ts) t = int (card (waiting_on ts [] t))"
    using in_degree_count [OF assms] by (auto simp: w)
  moreover have "set (map fst (filter (\<lambda>p. snd p = 0) (in_degree ts))) \<subseteq> fst ` set ts"
    using ks by auto
  ultimately show ?thesis using m dk by (simp add: topo_inv_def q distinct_map_filter)
qed

lemma topo_order_final:
  assumes "good_dag ts"
  shows "distinct (topo_order ts) \<and> set (topo_order ts) \<subseteq> fst ` set ts \<and>
    dep_ordered (dep_edge ts) [] (topo_order ts) \<and>
    (\<forall>t \<in> fst ` set ts. {d. (d, t) \<in> dep_edge ts} \<subseteq> set (topo_order ts) \<longrightarrow> t \<in> set (topo_order ts))"
proof -
  obtain indeg where "topo_inv ts indeg [] (topo_order ts)"
    using topo_loop_inv [OF topo_inv_init [OF assms]] assms
    by (auto simp: topo_order_def good_dag_def Let_def)
  moreover have "waiting_on ts (topo_order ts) t = {}"
    if "{d. (d, t) \<in> dep_edge ts} \<subseteq> set (topo_order ts)" for t
    using that by (auto simp: waiting_on_def)
  ultimately show ?thesis by (auto simp: topo_inv_def)
qed

lemma dep_ordered_edge:
  "dep_ordered E seen xs \<Longrightarrow> (d, t) \<in> E \<Longrightarrow> t \<in> set xs \<Longrightarrow> d \<in> set seen \<union> set xs"
  by (induction E seen xs rule: dep_ordered.induct) auto

lemma dep_ordered_rank:
  "dep_ordered E seen xs \<Longrightarrow> distinct (seen @ xs) \<Longrightarrow> (d, t) \<in> E \<Longrightarrow> t \<in> set xs \<Longrightarrow>
   \<exists>i j. i < j \<and> j < length (seen @ xs) \<and> (seen @ xs) ! i = d \<and> (seen @ xs) ! j = t"
proof (induction E seen xs rule: dep_ordered.induct)
  case (2 E seen x xs)
  show ?case
  proof (cases "t = x")
    case True
    with 2 have "d \<in> set seen" by auto
    then obtain i where "i < length seen" "seen ! i = d" by (auto simp: in_set_conv_nth)
    with True show ?thesis by (intro exI [of _ i] exI [of _ "length seen"]) (auto simp: nth_append)
  next
    case False
    with 2 show ?thesis by auto
  qed
qed simp

lemma dep_ordered_acyclic:
  assumes o: "dep_ordered E [] xs" and d: "distinct xs" and s: "snd ` E \<subseteq> set xs"
  shows "acyclic E"
proof -
  define rank where "rank t = (THE i. i < length xs \<and> xs ! i = t)" for t
  have r: "rank (xs ! i) = i" if "i < length xs" for i
    using that d by (auto simp: rank_def nth_eq_iff_index_eq)
  have e: "(x, y) \<in> E \<Longrightarrow> rank x < rank y" for x y
    using dep_ordered_rank [OF o, of x y] d s r by force
  have "(x, y) \<in> E\<^sup>+ \<Longrightarrow> rank x < rank y" for x y
    by (induction rule: trancl_induct) (auto intro: less_trans e)
  then show ?thesis by (fastforce simp: acyclic_def)
qed

lemma topo_complete:
  assumes g: "good_dag ts" and a: "acyclic (dep_edge ts)"
  shows "fst ` set ts \<subseteq> set (topo_order ts)"
proof -
  have "finite (dep_edge ts)"
    by (rule finite_subset [of _ "fst ` set ts \<times> fst ` set ts"]) (auto simp: dep_edge_def intro: rev_image_eqI)
  then have wf: "wf (dep_edge ts)" using a by (rule finite_acyclic_wf)
  have "t \<in> fst ` set ts \<longrightarrow> t \<in> set (topo_order ts)" for t
    using wf
  proof (induction t rule: wf_induct_rule)
    case (less t)
    then have "{d. (d, t) \<in> dep_edge ts} \<subseteq> set (topo_order ts)" by (auto simp: dep_edge_def)
    then show ?case using topo_order_final [OF g] by auto
  qed
  then show ?thesis by auto
qed

lemma topo_length_iff:
  assumes g: "good_dag ts"
  shows "length (topo_order ts) = length ts \<longleftrightarrow> set (topo_order ts) = fst ` set ts"
proof -
  have d: "distinct (map fst ts)" using g by (simp add: good_dag_def)
  have f: "distinct (topo_order ts)" "set (topo_order ts) \<subseteq> fst ` set ts" using topo_order_final [OF g] by auto
  have "card (fst ` set ts) = length ts" using distinct_card [OF d] by simp
  moreover have "card (set (topo_order ts)) = length (topo_order ts)" using f(1) by (rule distinct_card)
  ultimately show ?thesis using card_subset_eq [OF _ f(2)] by auto
qed

lemma topo_ok_iff:
  assumes g: "good_dag ts"
  shows "(\<exists>out. topological_sort ts = Inr out) \<longleftrightarrow> acyclic (dep_edge ts)"
proof -
  have "acyclic (dep_edge ts) \<longleftrightarrow> set (topo_order ts) = fst ` set ts"
  proof
    assume "acyclic (dep_edge ts)"
    then show "set (topo_order ts) = fst ` set ts" using topo_complete [OF g] topo_order_final [OF g] by auto
  next
    assume s: "set (topo_order ts) = fst ` set ts"
    have "snd ` dep_edge ts \<subseteq> set (topo_order ts)" unfolding s by (auto simp: dep_edge_def intro: rev_image_eqI)
    then show "acyclic (dep_edge ts)" using topo_order_final [OF g] by (auto intro: dep_ordered_acyclic)
  qed
  then show ?thesis using topo_length_iff [OF g] by (auto simp: topological_sort_def Let_def)
qed

section \<open>Properties\<close>

text \<open>
  A batch without repeated ids and without a dependency listed twice is ordered exactly when its
  dependencies have no cycle; otherwise the function raises "Cycle detected".
\<close>

theorem topological_sort_iff_acyclic:
  "good_dag ts \<Longrightarrow> (\<exists>out. topological_sort ts = Inr out) \<longleftrightarrow> acyclic (dep_edge ts)"
  by (rule topo_ok_iff)

theorem topological_sort_iff_acyclic_witness:
  "\<not> acyclic (dep_edge [(''a'', [''b'']), (''b'', [''a''])])"
proof -
  have "good_dag [(''a'', [''b'']), (''b'', [''a''])]" by (simp add: good_dag_def)
  moreover have "topological_sort [(''a'', [''b'']), (''b'', [''a''])] =
      Inl (ValueError ''Cycle detected in task dependencies'')"
    by code_simp
  ultimately show ?thesis using topological_sort_iff_acyclic by fastforce
qed

text \<open>
  C34. What it returns is the batch itself, each task with its own descriptor, reordered so that every
  task stands behind all its dependencies of the batch.
\<close>

theorem topological_sort_correct:
  assumes g: "good_dag ts" and r: "topological_sort ts = Inr out"
  shows "distinct (map fst out) \<and> set out = set ts \<and> dep_ordered (dep_edge ts) [] (map fst out)"
proof -
  have l: "length (topo_order ts) = length ts"
    and o: "out = map (\<lambda>tid. (tid, opt_or (map_of (dict_merge [] ts) tid) [])) (topo_order ts)"
    using r by (auto simp: topological_sort_def Let_def split: if_splits)
  have d: "distinct (map fst ts)" using g by (simp add: good_dag_def)
  have s: "set (topo_order ts) = fst ` set ts" using topo_length_iff [OF g] l by simp
  have "map fst out = topo_order ts" by (simp add: o comp_def)
  moreover have "set out = set ts"
    unfolding o set_map s
    using d by (force simp: map_of_dict_merge_distinct opt_or_def)
  ultimately show ?thesis using topo_order_final [OF g] by simp
qed

theorem topological_sort_correct_witness:
  "set [(''c'', []), (''b'', [''c'']), (''a'', [''b'', ''c''])] = set [(''a'', [''b'', ''c'']), (''b'', [''c'']), (''c'', [])]
   \<and> topological_sort [(''a'', [''b'', ''c'']), (''b'', [''c'']), (''c'', [])] = Inr [(''c'', []), (''b'', [''c'']), (''a'', [''b'', ''c''])]"
proof -
  have g: "good_dag [(''a'', [''b'', ''c'']), (''b'', [''c'']), (''c'', [])]" by (simp add: good_dag_def)
  have r: "topological_sort [(''a'', [''b'', ''c'']), (''b'', [''c'']), (''c'', [])]
     = Inr [(''c'', []), (''b'', [''c'']), (''a'', [''b'', ''c''])]" by code_simp
  show ?thesis using topological_sort_correct [OF g r] r by blast
qed

text \<open>
  A dependency that is listed twice is counted twice and released once, so the function reports a
  cycle for a batch whose dependencies have none.
\<close>

theorem duplicate_dependency_is_cycle:
  "topological_sort [(''a'', []), (''b'', [''a'', ''a''])] = Inl (ValueError ''Cycle detected in task dependencies'')
   \<and> acyclic (dep_edge [(''a'', []), (''b'', [''a'', ''a''])])"
proof
  have "dep_edge [(''a'', []), (''b'', [''a'', ''a''])] = {(''a'', ''b'')}" by (auto simp: dep_edge_def)
  then show "acyclic (dep_edge [(''a'', []), (''b'', [''a'', ''a''])])" by (simp add: acyclic_def trancl_insert)
qed code_simp

end
