(* ===== verification/Store_Transaction.thy ===== *)
theory Store_Transaction
  imports Task_Store
begin

text \<open>
  How the store's operations run: \<^verbatim>\<open>TaskStore.reader\<close>, \<^verbatim>\<open>transaction\<close> and \<^verbatim>\<open>after_commit\<close> of
  \<^verbatim>\<open>core/taskboard/tasks.py\<close>. The database type is a parameter (\<open>task_db\<close> in the program). The
  thread-local attributes are a record; a block of client code is a list of statements, which read
  and write the connection, open nested blocks, register callbacks and catch exceptions. A statement
  returns the exception it raises, if any, and the new state. \<^verbatim>\<open>commit\<close> itself does not fail here.
\<close>

section \<open>Definitions\<close>

text \<open>\<^verbatim>\<open>self._local\<close> and the file: \<open>tl_queued\<close> is \<open>None\<close> while the attribute does not exist.\<close>

record 'd txn_state =
  tl_disk :: 'd
  tl_view :: "'d option"
  tl_read_only :: bool
  tl_queued :: "('d \<Rightarrow> py_error + 'd) list option"

datatype 'd act = Txn "'d stmt list" | Snap "'d stmt list" | After "'d \<Rightarrow> py_error + 'd"
  and 'd stmt = Do "'d \<Rightarrow> py_error + 'd" | Sub "'d act" | Try "'d stmt list"

text \<open>The callbacks after a commit: an exception is logged and dropped.\<close>

fun run_callbacks :: "('d \<Rightarrow> py_error + 'd) list \<Rightarrow> 'd \<Rightarrow> 'd" where
  "run_callbacks [] d = d"
| "run_callbacks (cb # cbs) d = run_callbacks cbs (case cb d of Inl _ \<Rightarrow> d | Inr d' \<Rightarrow> d')"

text \<open>The \<^verbatim>\<open>finally\<close> and the code behind the \<^verbatim>\<open>with\<close> of the outermost \<^verbatim>\<open>transaction\<close>.\<close>

definition end_transaction ::
  "py_error option \<Rightarrow> 'd txn_state \<Rightarrow> py_error option \<times> 'd txn_state" where
  "end_transaction e s =
     (case e of
        Some err \<Rightarrow> (Some err, s\<lparr>tl_view := None, tl_queued := Some []\<rparr>)
      | None \<Rightarrow> (None, s\<lparr>tl_disk := run_callbacks (opt_or (tl_queued s) []) (opt_or (tl_view s) (tl_disk s)),
                         tl_view := None, tl_queued := Some []\<rparr>))"

definition after_commit ::
  "('d \<Rightarrow> py_error + 'd) \<Rightarrow> 'd txn_state \<Rightarrow> py_error option \<times> 'd txn_state" where
  "after_commit cb s =
     (if tl_view s \<noteq> None
      then (case tl_queued s of
              None \<Rightarrow> (Some (AttributeError ''after_commit''), s)
            | Some q \<Rightarrow> (None, s\<lparr>tl_queued := Some (q @ [cb])\<rparr>))
      else (case cb (tl_disk s) of Inl e \<Rightarrow> (Some e, s) | Inr d \<Rightarrow> (None, s\<lparr>tl_disk := d\<rparr>)))"

fun run_act :: "'d act \<Rightarrow> 'd txn_state \<Rightarrow> py_error option \<times> 'd txn_state"
  and run_stmt :: "'d stmt \<Rightarrow> 'd txn_state \<Rightarrow> py_error option \<times> 'd txn_state"
  and run_block :: "'d stmt list \<Rightarrow> 'd txn_state \<Rightarrow> py_error option \<times> 'd txn_state" where
  "run_act (Snap b) s =
     (if tl_view s \<noteq> None then run_block b s
      else case run_block b (s\<lparr>tl_view := Some (tl_disk s), tl_read_only := True\<rparr>) of
             (e, s1) \<Rightarrow> (e, s1\<lparr>tl_view := None, tl_read_only := False\<rparr>))"
| "run_act (Txn b) s =
     (if tl_view s \<noteq> None
      then (if tl_read_only s
            then (Some (RuntimeError ''Cannot mutate tasks inside a read-only snapshot''), s)
            else run_block b s)
      else case run_block b (s\<lparr>tl_view := Some (tl_disk s), tl_queued := Some []\<rparr>) of
             (e, s1) \<Rightarrow> end_transaction e s1)"
| "run_act (After cb) s = after_commit cb s"
| "run_stmt (Do f) s =
     (case tl_view s of
        None \<Rightarrow> (Some (ProgrammingError ''Cannot operate on a closed database.''), s)
      | Some d \<Rightarrow> (case f d of Inl e \<Rightarrow> (Some e, s) | Inr d' \<Rightarrow> (None, s\<lparr>tl_view := Some d'\<rparr>)))"
| "run_stmt (Sub a) s = run_act a s"
| "run_stmt (Try b) s = (None, snd (run_block b s))"
| "run_block [] s = (None, s)"
| "run_block (st # b) s =
     (case run_stmt st s of (Some e, s1) \<Rightarrow> (Some e, s1) | (None, s1) \<Rightarrow> run_block b s1)"

section \<open>Inside a block\<close>

text \<open>
  What never changes while a connection is open: the file, the mode, and that the connection is
  open. Queued callbacks are only added to.
\<close>

definition same_txn :: "'d txn_state \<Rightarrow> 'd txn_state \<Rightarrow> bool" where
  "same_txn s s' \<longleftrightarrow> tl_disk s' = tl_disk s \<and> tl_read_only s' = tl_read_only s \<and> tl_view s' \<noteq> None"

lemma same_txn_trans: "same_txn s t \<Longrightarrow> same_txn t u \<Longrightarrow> same_txn s u"
  by (simp add: same_txn_def)

lemma same_txn_refl: "tl_view s \<noteq> None \<Longrightarrow> same_txn s s"
  by (simp add: same_txn_def)

lemma open_stays:
  shows "tl_view s \<noteq> None \<Longrightarrow> same_txn s (snd (run_act a s))"
    and "tl_view s \<noteq> None \<Longrightarrow> same_txn s (snd (run_stmt st s))"
    and "tl_view s \<noteq> None \<Longrightarrow> same_txn s (snd (run_block b s))"
proof (induction a s and st s and b s rule: run_act_run_stmt_run_block.induct)
  case (8 st b s)
  then have st: "same_txn s (snd (run_stmt st s))" by blast
  obtain e s1 where r: "run_stmt st s = (e, s1)" by fastforce
  with st have s1: "same_txn s s1" by simp
  show ?case
  proof (cases e)
    case None
    have "same_txn s1 (snd (run_block b s1))"
      using 8(2) [OF r [symmetric] None] s1 r None by (simp add: same_txn_def)
    with s1 r None show ?thesis by (auto intro: same_txn_trans)
  qed (use s1 r in simp)
qed (auto simp: same_txn_def after_commit_def split: option.splits sum.splits)

lemma read_only_keeps:
  "tl_view s = None \<Longrightarrow> tl_disk (snd (run_act (Snap b) s)) = tl_disk s \<and> tl_view (snd (run_act (Snap b) s)) = None"
  using open_stays(3) [of "s\<lparr>tl_view := Some (tl_disk s), tl_read_only := True\<rparr>" b]
  by (auto simp: same_txn_def split: prod.splits)

lemma run_block_append:
  "run_block (b @ c) s = (case run_block b s of (Some e, s1) \<Rightarrow> (Some e, s1) | (None, s1) \<Rightarrow> run_block c s1)"
  by (induction b arbitrary: s) (auto split: prod.splits option.splits)

section \<open>Properties\<close>

text \<open>
  C6. A transaction is all or nothing, and its callbacks run only on what was committed: started
  outside any block it leaves no connection behind; if the body raises, the exception reaches the
  caller, the file is what it was and no callback has run; otherwise the file is what the body wrote,
  followed by the callbacks it registered, in order.
\<close>

theorem transaction_all_or_nothing:
  assumes idle: "tl_view s = None" and run: "run_act (Txn b) s = (r, s')"
    and body: "run_block b (s\<lparr>tl_view := Some (tl_disk s), tl_queued := Some []\<rparr>) = (e, s1)"
  shows "r = e \<and> tl_view s' = None \<and> tl_queued s' = Some [] \<and>
    (case e of Some _ \<Rightarrow> tl_disk s' = tl_disk s
     | None \<Rightarrow> \<exists>d cbs. tl_view s1 = Some d \<and> opt_or (tl_queued s1) [] = cbs \<and> tl_disk s' = run_callbacks cbs d)"
proof -
  have "same_txn (s\<lparr>tl_view := Some (tl_disk s), tl_queued := Some []\<rparr>) s1"
    using open_stays(3) [of "s\<lparr>tl_view := Some (tl_disk s), tl_queued := Some []\<rparr>" b] body by simp
  with idle run body show ?thesis
    by (auto simp: same_txn_def end_transaction_def opt_or_def split: option.splits)
qed

definition demo_txn :: "nat stmt list" where
  "demo_txn = [Do (\<lambda>n. Inr (n + 1)), Sub (After (\<lambda>n. Inr (n * 2))), Do (\<lambda>n. if n = 3 then Inl (KeyError ''x'') else Inr (n + 1))]"

definition demo_thread :: "nat \<Rightarrow> nat txn_state" where
  "demo_thread n = \<lparr>tl_disk = n, tl_view = None, tl_read_only = False, tl_queued = None\<rparr>"

theorem transaction_all_or_nothing_witness:
  "tl_disk (snd (run_act (Txn demo_txn) (demo_thread 2))) = 2 \<and>
   tl_disk (snd (run_act (Txn demo_txn) (demo_thread 0))) = 4"
proof -
  have b2: "run_block demo_txn (demo_thread 2\<lparr>tl_view := Some 2, tl_queued := Some []\<rparr>) =
      (Some (KeyError ''x''), snd (run_block demo_txn (demo_thread 2\<lparr>tl_view := Some 2, tl_queued := Some []\<rparr>)))"
    by (simp add: demo_txn_def demo_thread_def after_commit_def)
  have b0: "run_block demo_txn (demo_thread 0\<lparr>tl_view := Some 0, tl_queued := Some []\<rparr>) =
      (None, demo_thread 0\<lparr>tl_view := Some 2, tl_queued := Some [\<lambda>n. Inr (n * 2)]\<rparr>)"
    by (simp add: demo_txn_def demo_thread_def after_commit_def)
  have d: "tl_disk (demo_thread n) = n" "tl_view (demo_thread n) = None" for n by (simp_all add: demo_thread_def)
  show ?thesis
    using transaction_all_or_nothing [OF d(2) prod.collapse [symmetric], of demo_txn 2, unfolded d, OF b2]
      transaction_all_or_nothing [OF d(2) prod.collapse [symmetric], of demo_txn 0, unfolded d, OF b0]
    by (simp add: opt_or_def)
qed

text \<open>
  Nested blocks: inside an open transaction another \<^verbatim>\<open>transaction\<close> joins it, so that its statements
  commit or roll back with the outer ones; inside a read-only snapshot it raises, and a snapshot
  never changes the file.
\<close>

theorem nested_blocks_join:
  "(tl_view s = Some d \<and> \<not> tl_read_only s \<longrightarrow> run_block (Sub (Txn b) # c) s = run_block (b @ c) s) \<and>
   (tl_view s = Some d \<and> tl_read_only s \<longrightarrow>
      run_block (Sub (Txn b) # c) s = (Some (RuntimeError ''Cannot mutate tasks inside a read-only snapshot''), s)) \<and>
   (tl_view s = None \<longrightarrow> tl_disk (snd (run_act (Snap b) s)) = tl_disk s)"
proof (intro conjI impI)
  assume "tl_view s = Some d \<and> \<not> tl_read_only s"
  then show "run_block (Sub (Txn b) # c) s = run_block (b @ c) s" by (simp add: run_block_append)
next
  assume "tl_view s = Some d \<and> tl_read_only s"
  then show "run_block (Sub (Txn b) # c) s = (Some (RuntimeError ''Cannot mutate tasks inside a read-only snapshot''), s)"
    by simp
next
  assume "tl_view s = None"
  then show "tl_disk (snd (run_act (Snap b) s)) = tl_disk s" using read_only_keeps [of s b] by blast
qed

theorem nested_blocks_join_witness:
  "tl_disk (snd (run_act (Snap [Sub (Txn [Do (\<lambda>n. Inr (n + 1))])]) (demo_thread 0))) = 0"
  using nested_blocks_join [of "demo_thread 0" 0 "[Sub (Txn [Do (\<lambda>n. Inr (n + 1))])]"]
  by (simp add: demo_thread_def)

text \<open>
  C0. A callback registered inside a read-only snapshot is lost: on a thread that has run a transaction
  before it is queued, the snapshot ends without running it, and the next transaction starts from an
  empty queue. Without a surrounding block the same callback runs at once.
\<close>

theorem snapshot_callback_lost:
  "run_act (Snap [Sub (After cb)]) \<lparr>tl_disk = d, tl_view = None, tl_read_only = False, tl_queued = Some []\<rparr>
     = (None, \<lparr>tl_disk = d, tl_view = None, tl_read_only = False, tl_queued = Some [cb]\<rparr>) \<and>
   run_act (Txn []) \<lparr>tl_disk = d, tl_view = None, tl_read_only = False, tl_queued = Some [cb]\<rparr>
     = (None, \<lparr>tl_disk = d, tl_view = None, tl_read_only = False, tl_queued = Some []\<rparr>)"
  by (simp add: after_commit_def end_transaction_def opt_or_def)

end
