(* ===== verification/Task_Store_Read.thy ===== *)
theory Task_Store_Read
  imports Task_Store_Inv
begin

text \<open>
  What \<^verbatim>\<open>TaskStore.read\<close> returns, in terms of the tables. The dictionary is keyed by the task id inside the
  entry and not by the column, so the lookup lemma needs the invariant that the two agree; the invariant is
  proved for every transaction of the store.
\<close>

section \<open>The entry carries the id of its row\<close>

definition ids_inv :: "task_db \<Rightarrow> bool" where
  "ids_inv db \<longleftrightarrow> (\<forall>r \<in> set (db_tasks db). te_task_id (row_entry r) = row_task_id r)"

lemma ids_inv_tables [simp]:
  "ids_inv (db\<lparr>db_attempts := x\<rparr>) = ids_inv db"
  "ids_inv (db\<lparr>db_wakeups := w\<rparr>) = ids_inv db"
  "ids_inv (db\<lparr>db_aliases := l\<rparr>) = ids_inv db"
  "ids_inv (db\<lparr>db_control := c\<rparr>) = ids_inv db"
  "ids_inv (add_wakeup w' db) = ids_inv db"
  "ids_inv (ack_task_wakeups n a t db) = ids_inv db"
  by (simp_all add: ids_inv_def add_wakeup_def ack_task_wakeups_def)

lemma ids_inv_set_row:
  assumes "ids_inv db"
    and "\<And>x. x \<in> set (db_tasks db) \<Longrightarrow> task_key x = (a, t) \<Longrightarrow> te_task_id (row_entry (f x)) = row_task_id (f x)"
  shows "ids_inv (set_row a t f db)"
  using assms by (auto simp: ids_inv_def set_db_tasks_set_row)

lemma ids_inv_get: "ids_inv db \<Longrightarrow> get_row db a t = Some r \<Longrightarrow> te_task_id (row_entry r) = t"
  by (auto simp: ids_inv_def task_key_def dest: get_row_Some)

lemma ids_inv_upsert:
  assumes "ids_inv db" "te_task_id (row_entry new) = row_task_id new"
    and "\<And>x. task_key x = task_key new \<Longrightarrow> te_task_id (row_entry (f x)) = row_task_id (f x)"
  shows "ids_inv (db\<lparr>db_tasks := row_upsert task_key new f (db_tasks db)\<rparr>)"
  using assms by (auto simp: ids_inv_def row_upsert_def set_row_update)

lemma ids_inv_apply: "store_apply ident a ev db = Inr db' \<Longrightarrow> ids_inv db \<Longrightarrow> ids_inv db'"
  by (auto simp: store_apply_def apply_update_def apply_entry_def insert_entry_def store_alias_def Let_def
        blank_row_def merge_update_def task_key_def
      split: prod.splits if_splits task_event.splits option.splits
      intro!: ids_inv_set_row ids_inv_upsert dest: ids_inv_get get_row_Some)

lemma ids_inv_submit:
  "store_submit ident n n' a e p rs db = Inr (b, db') \<Longrightarrow> ids_inv db \<Longrightarrow> ids_inv db'"
  by (auto simp: store_submit_def publish_row_def Let_def blank_row_def task_key_def
      split: if_splits option.splits intro!: ids_inv_upsert)

lemma ids_inv_resume:
  assumes "store_resume ident n n' a t db = Inr (e, db')" "ids_inv db"
  shows "ids_inv db'"
proof -
  obtain o' t' where rs: "resolve db a t = (o', t')" by fastforce
  obtain r where r: "get_row db o' t' = Some r" using assms(1) rs by (auto simp: store_resume_def split: option.splits)
  let ?f = "\<lambda>x. x\<lparr>row_entry := (row_entry r)\<lparr>te_status := ''pending'', te_updated_at := n\<rparr>, row_ready := True, row_archived := False\<rparr>"
  have "ids_inv (set_row o' t' ?f db)"
    by (rule ids_inv_set_row [OF assms(2)]) (use ids_inv_get [OF assms(2) r] in \<open>simp add: task_key_def\<close>)
  with assms(1) rs r show ?thesis by (auto simp: store_resume_def Let_def split: if_splits)
qed

lemma ids_inv_start:
  "start_attempt token now i a t r p db = Inr (q, db') \<Longrightarrow> get_row db a t = Some r \<Longrightarrow> ids_inv db \<Longrightarrow> ids_inv db'"
  by (auto simp: start_attempt_def Let_def claimed_entry_def task_key_def split: if_splits
      intro!: ids_inv_set_row dest: ids_inv_get)

lemma ids_inv_unready: "ids_inv db \<Longrightarrow> ids_inv (set_row a t (row_ready_update (\<lambda>_. v)) db)"
  by (rule ids_inv_set_row) (auto simp: ids_inv_def)

lemma ids_inv_claim: "store_claim token now i m a t db = Inr (p, db') \<Longrightarrow> ids_inv db \<Longrightarrow> ids_inv db'"
  by (auto simp: store_claim_def Let_def split: option.splits if_splits dep_check.splits
      intro: ids_inv_start ids_inv_unready)

lemma ids_inv_finish:
  assumes "store_finish now k st kind sm ref db = Inr (b, db')" "ids_inv db"
  shows "ids_inv db'"
proof -
  have f: "find P (db_tasks db) = Some r \<Longrightarrow> te_task_id (row_entry r) = row_task_id r" for P r
    using assms(2) by (auto simp: ids_inv_def find_Some_iff)
  have w: "ids_inv (finish_wakeup n k' s kd r d) = ids_inv d" for n k' s kd r d
    by (simp add: finish_wakeup_def Let_def)
  have "ids_inv (close_attempt n k' kd rf r (finished_entry n k' s kd sm (row_entry r)) db)"
    if "find P (db_tasks db) = Some r" for P r n k' kd rf s
    unfolding close_attempt_def
    by (rule ids_inv_set_row) (use assms(2) f [OF that] in \<open>auto simp: finished_entry_def task_key_def\<close>)
  with assms show ?thesis
    by (auto simp: store_finish_def Let_def w split: if_splits option.splits)
qed

lemma ids_inv_rewrite:
  "rewrite_loop a tr recs db = Inr (ch, db') \<Longrightarrow> ids_inv db \<Longrightarrow>
   (\<And>x. x \<in> set recs \<Longrightarrow> te_task_id (fst (snd x)) = fst x) \<Longrightarrow> ids_inv db'"
proof (induction recs arbitrary: db ch)
  case Nil
  then show ?case by simp
next
  case (Cons x recs)
  obtain tid before where x: "x = (tid, before)" by (rule prod.exhaust)
  have e: "te_task_id (fst before) = tid" using Cons.prems(3) [of x] by (simp add: x)
  have IH: "rewrite_loop a tr recs d = Inr (c, db') \<Longrightarrow> ids_inv d \<Longrightarrow> ids_inv db'" for d c
    using Cons.IH Cons.prems(3) by simp
  show ?case
  proof (cases "before = tr before")
    case True
    with Cons.prems(1,2) show ?thesis using IH by (simp add: x Let_def)
  next
    case False
    let ?db = "set_row a tid (\<lambda>x. x\<lparr>row_entry := fst (tr before), row_input := snd (tr before)\<rparr>) db"
    obtain ch' where ok: "rewrite_loop a tr recs ?db = Inr (ch', db')" and id: "te_task_id (fst (tr before)) = tid"
      using Cons.prems(1) False e by (auto simp: x Let_def split: if_splits sum.splits)
    have "ids_inv ?db" by (rule ids_inv_set_row) (use Cons.prems(2) id in \<open>auto simp: task_key_def\<close>)
    with IH ok show ?thesis by blast
  qed
qed

lemma ids_inv_step: "store_step db db' \<Longrightarrow> ids_inv db \<Longrightarrow> ids_inv db'"
proof (induction rule: store_step.induct)
  case (step_alias v al a t db db')
  then show ?case by (auto simp: store_alias_def Let_def split: option.splits if_splits)
next
  case (step_identity k i db b db')
  then show ?case by (auto simp: store_set_identity_def split: option.splits)
next
  case (step_compact a db n db')
  then show ?case by (auto simp: store_compact_def ids_inv_def)
next
  case (step_rewrite tr a db ch db')
  have "\<And>x. x \<in> set (store_reference_records a db) \<Longrightarrow> te_task_id (fst (snd x)) = fst x"
    using step_rewrite(3) by (auto simp: store_reference_records_def ids_inv_def)
  with step_rewrite show ?case unfolding store_rewrite_references_def by (blast intro: ids_inv_rewrite)
qed (auto simp: store_pause_claims_def store_acknowledge_wakeup_def
       intro: ids_inv_apply ids_inv_submit ids_inv_resume ids_inv_claim ids_inv_finish)

text \<open>The two invariants together: what the clients of the store may rely on.\<close>

definition ledger_inv :: "task_db \<Rightarrow> bool" where
  "ledger_inv db \<longleftrightarrow> store_inv db \<and> ids_inv db"

lemma ids_inv_empty: "ids_inv empty_db"
  by (simp add: ids_inv_def empty_db_def)

interpretation ledger: step_invariant "\<lambda>db. db = empty_db" store_step ledger_inv
  by unfold_locales (auto simp: ledger_inv_def ids_inv_empty store_inv_empty intro: store_step_inv ids_inv_step)

section \<open>Looking up a task\<close>

lemma map_of_own_rows:
  assumes inv: "ledger_inv db"
  shows "map_of [(te_task_id (row_entry r), row_entry r). r \<leftarrow> db_tasks db, row_anima r = a \<and> (arch \<or> \<not> row_archived r)] t =
     (case get_row db a t of Some r \<Rightarrow> if arch \<or> \<not> row_archived r then Some (row_entry r) else None | None \<Rightarrow> None)"
proof -
  have ids: "\<And>r. r \<in> set (db_tasks db) \<Longrightarrow> te_task_id (row_entry r) = row_task_id r"
    and pk: "pk_unique task_key (db_tasks db)"
    using inv by (auto simp: ledger_inv_def ids_inv_def store_inv_def keys_inv_def)
  have gen: "map_of [(te_task_id (row_entry r), row_entry r). r \<leftarrow> rows, row_anima r = a \<and> (arch \<or> \<not> row_archived r)] t =
     (case row_find task_key (a, t) rows of Some r \<Rightarrow> if arch \<or> \<not> row_archived r then Some (row_entry r) else None | None \<Rightarrow> None)"
    if "pk_unique task_key rows" "\<And>r. r \<in> set rows \<Longrightarrow> te_task_id (row_entry r) = row_task_id r" for rows
    using that
  proof (induction rows)
    case Nil
    then show ?case by (simp add: row_find_def)
  next
    case (Cons r rows)
    show ?case
    proof (cases "task_key r = (a, t)")
      case True
      then have "row_find task_key (a, t) rows = None"
        using Cons.prems(1) by (auto simp: row_find_None pk_unique_def image_iff)
      with Cons True show ?thesis by (auto simp: row_find_def task_key_def pk_unique_def)
    next
      case False
      with Cons show ?thesis by (auto simp: row_find_def task_key_def pk_unique_def)
    qed
  qed
  show ?thesis unfolding get_row_def by (rule gen [OF pk ids])
qed

lemma map_of_shared_rows:
  assumes inv: "ledger_inv db"
  shows "map_of (rev [(al_alias al, delegated_view (al_alias al) (al_anima al) (al_task_id al) (row_entry r)).
            al \<leftarrow> db_aliases db, al_viewer al = a,
            r \<leftarrow> db_tasks db, task_key r = (al_anima al, al_task_id al) \<and> (arch \<or> \<not> row_archived r)]) t = Some v \<longleftrightarrow>
     (\<exists>al r. row_find alias_key (a, t) (db_aliases db) = Some al \<and> get_row db (al_anima al) (al_task_id al) = Some r \<and>
        (arch \<or> \<not> row_archived r) \<and> v = delegated_view t (al_anima al) (al_task_id al) (row_entry r))"
    (is "map_of (rev ?xs) t = Some v \<longleftrightarrow> ?R v")
proof -
  have k: "keys_inv db" and pk: "pk_unique alias_key (db_aliases db)"
    using inv by (auto simp: ledger_inv_def store_inv_def keys_inv_def)
  have ak: "alias_key al = (a, t) \<longleftrightarrow> al_viewer al = a \<and> al_alias al = t" for al by (simp add: alias_key_def)
  have set: "(t, v) \<in> set ?xs \<longleftrightarrow> ?R v" for v
    by (simp add: row_find_eq_Some_iff [OF pk] get_row_iff [OF k] ak image_iff) blast
  have uniq: "(t, v) \<in> set ?xs \<Longrightarrow> (t, w) \<in> set ?xs \<Longrightarrow> v = w" for v w
    unfolding set by auto
  have "map_of (rev ?xs) t = Some v \<longleftrightarrow> (t, v) \<in> set ?xs"
  proof
    assume "map_of (rev ?xs) t = Some v"
    then show "(t, v) \<in> set ?xs" by (auto dest: map_of_SomeD)
  next
    assume m: "(t, v) \<in> set ?xs"
    then obtain w where w: "map_of (rev ?xs) t = Some w"
      by (metis (no_types, lifting) weak_map_of_SomeI set_rev)
    then have "(t, w) \<in> set ?xs" by (auto dest: map_of_SomeD)
    with uniq m w show "map_of (rev ?xs) t = Some v" by blast
  qed
  with set show ?thesis by simp
qed

text \<open>
  The view of one task: a visible target of an alias of that name, otherwise the anima's own row if it is visible.
\<close>

definition read_view :: "string \<Rightarrow> bool \<Rightarrow> task_db \<Rightarrow> string \<Rightarrow> task_entry option" where
  "read_view a arch db t =
     (case Option.bind (row_find alias_key (a, t) (db_aliases db))
             (\<lambda>al. Option.bind (get_row db (al_anima al) (al_task_id al))
                (\<lambda>r. if arch \<or> \<not> row_archived r
                     then Some (delegated_view t (al_anima al) (al_task_id al) (row_entry r)) else None)) of
        Some v \<Rightarrow> Some v
      | None \<Rightarrow> Option.bind (get_row db a t) (\<lambda>r. if arch \<or> \<not> row_archived r then Some (row_entry r) else None))"

lemma own_keys:
  "(\<And>r. r \<in> set rows \<Longrightarrow> te_task_id (row_entry r) = row_task_id r) \<Longrightarrow>
   map fst [(te_task_id (row_entry r), row_entry r). r \<leftarrow> rows, P r] = map row_task_id (filter P rows)"
  by (induction rows) auto

lemma store_read_lookup:
  assumes inv: "ledger_inv db"
  shows "map_of (store_read a arch db) t = read_view a arch db t"
proof -
  let ?own = "[(te_task_id (row_entry r), row_entry r). r \<leftarrow> db_tasks db, row_anima r = a \<and> (arch \<or> \<not> row_archived r)]"
  have "distinct (map fst ?own)"
  proof -
    have ids: "\<And>r. r \<in> set (db_tasks db) \<Longrightarrow> te_task_id (row_entry r) = row_task_id r"
      and pk: "pk_unique task_key (db_tasks db)"
      using inv by (auto simp: ledger_inv_def ids_inv_def store_inv_def keys_inv_def)
    have "map fst ?own = map row_task_id [r \<leftarrow> db_tasks db. row_anima r = a \<and> (arch \<or> \<not> row_archived r)]" (is "_ = map _ ?f")
      by (rule own_keys) (rule ids)
    moreover have "distinct (map task_key ?f)" using pk by (simp add: pk_unique_def distinct_map_filter)
    then have "distinct (map row_task_id ?f)" by (auto simp: distinct_map inj_on_def task_key_def)
    ultimately show ?thesis by simp
  qed
  then have own: "map_of (dict_merge [] ?own) t = Option.bind (get_row db a t) (\<lambda>r. if arch \<or> \<not> row_archived r then Some (row_entry r) else None)"
    using map_of_own_rows [OF inv, of a arch t]
    by (simp add: map_of_dict_merge_distinct split: option.splits)
  have shared: "map_of (rev [(al_alias al, delegated_view (al_alias al) (al_anima al) (al_task_id al) (row_entry r)).
            al \<leftarrow> db_aliases db, al_viewer al = a,
            r \<leftarrow> db_tasks db, task_key r = (al_anima al, al_task_id al) \<and> (arch \<or> \<not> row_archived r)]) t =
      Option.bind (row_find alias_key (a, t) (db_aliases db))
             (\<lambda>al. Option.bind (get_row db (al_anima al) (al_task_id al))
                (\<lambda>r. if arch \<or> \<not> row_archived r
                     then Some (delegated_view t (al_anima al) (al_task_id al) (row_entry r)) else None))"
    by (rule option_eqI) (auto simp only: map_of_shared_rows [OF inv] bind_eq_Some_conv option.inject split: if_splits)
  show ?thesis
    unfolding store_read_def Let_def map_of_dict_merge [of "dict_merge [] ?own"] own shared read_view_def
    by (simp split: option.splits)
qed

lemma read_view_own:
  assumes "row_find alias_key (a, t) (db_aliases db) = None" "get_row db a t = Some r"
  shows "read_view a arch db t = (if arch \<or> \<not> row_archived r then Some (row_entry r) else None)"
  using assms by (simp add: read_view_def)

lemma store_get_own:
  assumes "row_find alias_key (a, t) (db_aliases db) = None" "get_row db a t = Some r"
  shows "store_get a t db = Some (row_entry r)" "resolve db a t = (a, t)"
  using assms by (simp_all add: store_get_def resolve_def)

end
