(* ===== verification/Task_Board.thy ===== *)
theory Task_Board
  imports Task_Store "HOL-Library.Product_Lexorder" "HOL-Library.Multiset"
begin

text \<open>
  The task board: presentation metadata over the canonical tasks with an audit log
  (\<^verbatim>\<open>core/taskboard/models.py\<close>, \<^verbatim>\<open>core/taskboard/store.py\<close>) and the projection of tasks and metadata into
  board rows (\<^verbatim>\<open>core/taskboard/projector.py\<close>). An operation runs in one \<^verbatim>\<open>with conn\<close> transaction, so that an
  exception (\<open>Inl\<close>) leaves the tables as they were. Keyword updates are a record of optional fields of
  the declared types plus the names that are no metadata field. Clock readings are arguments; \<open>fromiso\<close> is
  \<^verbatim>\<open>datetime.fromisoformat\<close> with the information whether the result has a time zone.
\<close>

section \<open>Data\<close>

datatype visibility = VActive | VSnoozed | VExpired | VArchived | VTombstoned

datatype board_column = CTodo | CRunning | CBlocked | CWaiting | CReview | CDone | CSuppressed

text \<open>\<^verbatim>\<open>_COLUMN_ORDER\<close>: the columns in the order of the enumeration.\<close>

fun column_index :: "board_column \<Rightarrow> nat" where
  "column_index CTodo = 0"
| "column_index CRunning = 1"
| "column_index CBlocked = 2"
| "column_index CWaiting = 3"
| "column_index CReview = 4"
| "column_index CDone = 5"
| "column_index CSuppressed = 6"

lemma column_index_inj: "column_index a = column_index b \<Longrightarrow> a = b"
  by (cases a; cases b) simp_all

instantiation board_column :: linorder
begin

definition less_eq_board_column :: "board_column \<Rightarrow> board_column \<Rightarrow> bool" where
  "less_eq_board_column a b = (column_index a \<le> column_index b)"

definition less_board_column :: "board_column \<Rightarrow> board_column \<Rightarrow> bool" where
  "less_board_column a b = (column_index a < column_index b)"

instance
  by standard (auto simp: less_eq_board_column_def less_board_column_def dest: column_index_inj)

end

record board_meta =
  bm_anima :: string
  bm_task_id :: string
  bm_visibility :: visibility
  bm_column :: "board_column option"
  bm_position :: "rat option"
  bm_expires_at :: "string option"
  bm_snoozed_until :: "string option"
  bm_last_notified_at :: "string option"
  bm_notification_key :: "string option"
  bm_surface_count :: int
  bm_source_ref :: "string option"
  bm_replaced_by :: "string option"
  bm_tombstone_reason :: "string option"
  bm_updated_at :: string
  bm_updated_by :: string

definition meta_key :: "board_meta \<Rightarrow> string \<times> string" where
  "meta_key m = (bm_anima m, bm_task_id m)"

text \<open>The keyword arguments: \<open>None\<close> is a field that is not given.\<close>

record meta_update =
  mu_visibility :: "visibility option"
  mu_column :: "board_column option option"
  mu_position :: "rat option option"
  mu_expires_at :: "string option option"
  mu_snoozed_until :: "string option option"
  mu_last_notified_at :: "string option option"
  mu_notification_key :: "string option option"
  mu_surface_count :: "int option"
  mu_source_ref :: "string option option"
  mu_replaced_by :: "string option option"
  mu_tombstone_reason :: "string option option"
  mu_updated_at :: "string option"
  mu_updated_by :: "string option"
  mu_unknown :: "string list"

definition no_update :: meta_update where
  "no_update = \<lparr>mu_visibility = None, mu_column = None, mu_position = None, mu_expires_at = None,
     mu_snoozed_until = None, mu_last_notified_at = None, mu_notification_key = None, mu_surface_count = None,
     mu_source_ref = None, mu_replaced_by = None, mu_tombstone_reason = None, mu_updated_at = None,
     mu_updated_by = None, mu_unknown = []\<rparr>"

datatype board_payload = MetaPayload board_meta meta_update | RawPayload dict

record board_event =
  be_id :: nat
  be_ts :: string
  be_actor :: string
  be_type :: string
  be_anima :: string
  be_task_id :: string
  be_payload :: board_payload

record board_db =
  bd_meta :: "board_meta list"
  bd_events :: "board_event list"

definition empty_board :: board_db where
  "empty_board = \<lparr>bd_meta = [], bd_events = []\<rparr>"

definition taskboard_event_types :: "string list" where
  "taskboard_event_types = [''metadata_upserted'', ''visibility_changed'', ''column_changed'', ''snoozed'', ''expired'',
     ''archived'', ''tombstoned'', ''notification_acknowledged'', ''surface_recorded'', ''stale_processing_recovered'']"

section \<open>The metadata store\<close>

definition get_metadata :: "string \<Rightarrow> string \<Rightarrow> board_db \<Rightarrow> board_meta option" where
  "get_metadata anima tid b = row_find meta_key (anima, tid) (bd_meta b)"

definition list_metadata :: "string option \<Rightarrow> board_db \<Rightarrow> board_meta list" where
  "list_metadata anima b =
     (case anima of
        None \<Rightarrow> sort_key meta_key (bd_meta b)
      | Some a \<Rightarrow> sort_key bm_task_id [m \<leftarrow> bd_meta b. bm_anima m = a])"

definition default_meta :: "string \<Rightarrow> string \<Rightarrow> string \<Rightarrow> string \<Rightarrow> board_meta" where
  "default_meta anima tid now actor =
     \<lparr>bm_anima = anima, bm_task_id = tid, bm_visibility = VActive, bm_column = None, bm_position = None,
      bm_expires_at = None, bm_snoozed_until = None, bm_last_notified_at = None, bm_notification_key = None,
      bm_surface_count = 0, bm_source_ref = None, bm_replaced_by = None, bm_tombstone_reason = None,
      bm_updated_at = now, bm_updated_by = actor\<rparr>"

definition apply_meta_update :: "string \<Rightarrow> string \<Rightarrow> meta_update \<Rightarrow> board_meta \<Rightarrow> board_meta" where
  "apply_meta_update now actor u m =
     m\<lparr>bm_visibility := opt_or (mu_visibility u) (bm_visibility m),
       bm_column := opt_or (mu_column u) (bm_column m),
       bm_position := opt_or (mu_position u) (bm_position m),
       bm_expires_at := opt_or (mu_expires_at u) (bm_expires_at m),
       bm_snoozed_until := opt_or (mu_snoozed_until u) (bm_snoozed_until m),
       bm_last_notified_at := opt_or (mu_last_notified_at u) (bm_last_notified_at m),
       bm_notification_key := opt_or (mu_notification_key u) (bm_notification_key m),
       bm_surface_count := opt_or (mu_surface_count u) (bm_surface_count m),
       bm_source_ref := opt_or (mu_source_ref u) (bm_source_ref m),
       bm_replaced_by := opt_or (mu_replaced_by u) (bm_replaced_by m),
       bm_tombstone_reason := opt_or (mu_tombstone_reason u) (bm_tombstone_reason m),
       bm_updated_at := opt_or (mu_updated_at u) now,
       bm_updated_by := opt_or (mu_updated_by u) actor\<rparr>"

definition upsert_metadata_row :: "board_meta \<Rightarrow> board_db \<Rightarrow> board_db" where
  "upsert_metadata_row m b = b\<lparr>bd_meta := row_upsert meta_key m (\<lambda>_. m) (bd_meta b)\<rparr>"

definition append_board_event ::
  "string \<Rightarrow> string \<Rightarrow> string \<Rightarrow> string \<Rightarrow> string \<Rightarrow> board_payload \<Rightarrow> board_db \<Rightarrow> py_error + nat \<times> board_db" where
  "append_board_event ts event_type anima tid actor payload b =
     (if event_type \<notin> set taskboard_event_types then Inl (ValueError (''unknown TaskBoard event type: '' @ event_type))
      else let i = foldr max (map be_id (bd_events b)) 0 + 1
           in Inr (i, b\<lparr>bd_events := bd_events b @ [\<lparr>be_id = i, be_ts = ts, be_actor = actor, be_type = event_type,
                         be_anima = anima, be_task_id = tid, be_payload = payload\<rparr>]\<rparr>))"

fun visibility_value :: "visibility \<Rightarrow> string" where
  "visibility_value VActive = ''active''"
| "visibility_value VSnoozed = ''snoozed''"
| "visibility_value VExpired = ''expired''"
| "visibility_value VArchived = ''archived''"
| "visibility_value VTombstoned = ''tombstoned''"

definition event_type_for_update :: "board_meta option \<Rightarrow> board_meta \<Rightarrow> meta_update \<Rightarrow> string" where
  "event_type_for_update existing m u =
     (case existing of
        None \<Rightarrow> ''metadata_upserted''
      | Some old \<Rightarrow>
          if mu_visibility u \<noteq> None \<and> bm_visibility m \<noteq> bm_visibility old
          then (if bm_visibility m \<in> {VSnoozed, VExpired, VArchived, VTombstoned}
                then visibility_value (bm_visibility m) else ''visibility_changed'')
          else if mu_column u \<noteq> None \<and> bm_column m \<noteq> bm_column old then ''column_changed''
          else ''metadata_upserted'')"

definition upsert_metadata ::
  "string \<Rightarrow> string \<Rightarrow> string \<Rightarrow> string \<Rightarrow> string option \<Rightarrow> meta_update \<Rightarrow> board_db \<Rightarrow> py_error + board_meta \<times> board_db" where
  "upsert_metadata now anima tid actor event_type u b =
     (if mu_unknown u \<noteq> [] then Inl (TypeError ''unknown TaskBoard metadata fields'')
      else
        let existing = get_metadata anima tid b;
            m = apply_meta_update now actor u (opt_or existing (default_meta anima tid now actor))
        in if bm_surface_count m < 0 then Inl (ValueError ''ValidationError'')
           else case append_board_event now
                  (if opt_truthy event_type then opt_or event_type [] else event_type_for_update existing m u)
                  anima tid actor (MetaPayload m u) (upsert_metadata_row m b) of
                Inl e \<Rightarrow> Inl e
              | Inr (_, b') \<Rightarrow> Inr (m, b'))"

definition append_event ::
  "string \<Rightarrow> string \<Rightarrow> string \<Rightarrow> string \<Rightarrow> string \<Rightarrow> dict \<Rightarrow> string option \<Rightarrow> board_db \<Rightarrow> py_error + nat \<times> board_db" where
  "append_event now event_type anima tid actor payload ts b =
     append_board_event (if opt_truthy ts then opt_or ts [] else now) event_type anima tid actor (RawPayload payload) b"

definition record_surface ::
  "string \<Rightarrow> string \<Rightarrow> string \<Rightarrow> string \<Rightarrow> string option \<Rightarrow> board_db \<Rightarrow> py_error + board_meta \<times> board_db" where
  "record_surface now anima tid actor key b =
     (let m0 = opt_or (get_metadata anima tid b) (default_meta anima tid now actor);
          m = m0\<lparr>bm_surface_count := bm_surface_count m0 + 1, bm_last_notified_at := Some now, bm_updated_at := now,
                 bm_updated_by := actor,
                 bm_notification_key := (if key = None then bm_notification_key m0 else key)\<rparr>;
          u = no_update\<lparr>mu_surface_count := Some (bm_surface_count m), mu_last_notified_at := Some (Some now),
                        mu_notification_key := (if key = None then None else Some key)\<rparr>
      in if bm_surface_count m < 0 then Inl (ValueError ''ValidationError'')
         else case append_board_event now ''surface_recorded'' anima tid actor (MetaPayload m u) (upsert_metadata_row m b) of
                Inl e \<Rightarrow> Inl e | Inr (_, b') \<Rightarrow> Inr (m, b'))"

definition delete_metadata :: "string \<Rightarrow> string \<Rightarrow> board_db \<Rightarrow> bool \<times> board_db" where
  "delete_metadata anima tid b =
     (get_metadata anima tid b \<noteq> None, b\<lparr>bd_meta := [m \<leftarrow> bd_meta b. meta_key m \<noteq> (anima, tid)]\<rparr>)"

definition list_events :: "string option \<Rightarrow> string option \<Rightarrow> board_db \<Rightarrow> board_event list" where
  "list_events anima tid b =
     sort_key be_id [e \<leftarrow> bd_events b. (anima = None \<or> anima = Some (be_anima e)) \<and> (tid = None \<or> tid = Some (be_task_id e))]"

section \<open>The projection\<close>

record board_task =
  bt_anima :: string
  bt_task_id :: string
  bt_queue_missing :: bool
  bt_source :: "string option"
  bt_original_instruction :: "string option"
  bt_assignee :: "string option"
  bt_queue_status :: "string option"
  bt_summary :: "string option"
  bt_relay_chain :: "string list"
  bt_meta :: dict
  bt_queue_updated_at :: "string option"
  bt_visibility :: visibility
  bt_column :: board_column
  bt_position :: "rat option"
  bt_expires_at :: "string option"
  bt_snoozed_until :: "string option"
  bt_last_notified_at :: "string option"
  bt_notification_key :: "string option"
  bt_surface_count :: int
  bt_source_ref :: "string option"
  bt_replaced_by :: "string option"
  bt_tombstone_reason :: "string option"
  bt_board_updated_at :: "string option"
  bt_board_updated_by :: "string option"

definition queue_status_to_column :: "string \<Rightarrow> board_column" where
  "queue_status_to_column st =
     (if st = ''pending'' then CTodo else if st = ''in_progress'' then CRunning else if st = ''delegated'' then CWaiting
      else if st = ''done'' \<or> st = ''cancelled'' then CDone else CTodo)"

definition metadata_older_than_queue ::
  "(string \<Rightarrow> (bool \<times> rat) option) \<Rightarrow> string option \<Rightarrow> string option \<Rightarrow> bool" where
  "metadata_older_than_queue fromiso meta_at queue_at =
     (if \<not> opt_truthy meta_at \<or> \<not> opt_truthy queue_at then False
      else case (fromiso (opt_or meta_at []), fromiso (opt_or queue_at [])) of
        (Some (za, ta), Some (zb, tb)) \<Rightarrow> if za \<noteq> zb then False else ta < tb
      | _ \<Rightarrow> False)"

definition source_ref :: "string \<Rightarrow> string \<Rightarrow> string" where
  "source_ref anima tid = ''task_queue:'' @ anima @ '':'' @ tid"

definition resolve_source_ref :: "string \<Rightarrow> string \<Rightarrow> board_meta option \<Rightarrow> string" where
  "resolve_source_ref anima tid m =
     (case m of
        Some x \<Rightarrow> if opt_truthy (bm_source_ref x) then opt_or (bm_source_ref x) [] else source_ref anima tid
      | None \<Rightarrow> source_ref anima tid)"

definition prefer_defaults :: "(string \<Rightarrow> (bool \<times> rat) option) \<Rightarrow> task_entry \<Rightarrow> board_meta option \<Rightarrow> bool" where
  "prefer_defaults fromiso e m =
     (case m of
        None \<Rightarrow> False
      | Some x \<Rightarrow> terminal (te_status e) \<and> bm_visibility x \<in> {VActive, VSnoozed} \<and>
                  metadata_older_than_queue fromiso (Some (bm_updated_at x)) (Some (te_updated_at e)))"

definition project_queue_task ::
  "(string \<Rightarrow> (bool \<times> rat) option) \<Rightarrow> string \<Rightarrow> board_meta option \<Rightarrow> task_entry \<Rightarrow> board_task" where
  "project_queue_task fromiso anima m e =
     (let default_column = queue_status_to_column (te_status e);
          default_visibility = (if terminal (te_status e) then VArchived else VActive);
          use = (if prefer_defaults fromiso e m then None else m)
      in \<lparr>bt_anima = anima, bt_task_id = te_task_id e, bt_queue_missing = False, bt_source = Some (te_source e),
          bt_original_instruction = Some (te_original_instruction e), bt_assignee = Some (te_assignee e),
          bt_queue_status = Some (te_status e), bt_summary = Some (te_summary e), bt_relay_chain = te_relay_chain e,
          bt_meta = te_meta e, bt_queue_updated_at = Some (te_updated_at e),
          bt_visibility = (case use of Some x \<Rightarrow> bm_visibility x | None \<Rightarrow> default_visibility),
          bt_column = (case use of Some x \<Rightarrow> opt_or (bm_column x) default_column | None \<Rightarrow> default_column),
          bt_position = Option.bind m bm_position, bt_expires_at = Option.bind m bm_expires_at,
          bt_snoozed_until = Option.bind m bm_snoozed_until, bt_last_notified_at = Option.bind m bm_last_notified_at,
          bt_notification_key = Option.bind m bm_notification_key,
          bt_surface_count = opt_or (map_option bm_surface_count m) 0,
          bt_source_ref = Some (resolve_source_ref anima (te_task_id e) m),
          bt_replaced_by = Option.bind m bm_replaced_by, bt_tombstone_reason = Option.bind m bm_tombstone_reason,
          bt_board_updated_at = map_option bm_updated_at m, bt_board_updated_by = map_option bm_updated_by m\<rparr>)"

definition project_missing_task :: "board_meta \<Rightarrow> board_task" where
  "project_missing_task m =
     \<lparr>bt_anima = bm_anima m, bt_task_id = bm_task_id m, bt_queue_missing = True, bt_source = None,
      bt_original_instruction = None, bt_assignee = Some (bm_anima m), bt_queue_status = None, bt_summary = None,
      bt_relay_chain = [], bt_meta = [], bt_queue_updated_at = None, bt_visibility = bm_visibility m,
      bt_column = opt_or (bm_column m) CSuppressed, bt_position = bm_position m, bt_expires_at = bm_expires_at m,
      bt_snoozed_until = bm_snoozed_until m, bt_last_notified_at = bm_last_notified_at m,
      bt_notification_key = bm_notification_key m, bt_surface_count = bm_surface_count m,
      bt_source_ref = Some (resolve_source_ref (bm_anima m) (bm_task_id m) (Some m)),
      bt_replaced_by = bm_replaced_by m, bt_tombstone_reason = bm_tombstone_reason m,
      bt_board_updated_at = Some (bm_updated_at m), bt_board_updated_by = Some (bm_updated_by m)\<rparr>"

definition should_include :: "bool \<Rightarrow> board_task \<Rightarrow> bool" where
  "should_include include_archived t = (include_archived \<or> bt_visibility t = VActive)"

text \<open>\<^verbatim>\<open>_sort_key\<close>: a missing position is infinity, written as a flag in front of the number.\<close>

definition board_sort_key :: "board_task \<Rightarrow> board_column \<times> (bool \<times> rat) \<times> string \<times> string \<times> string" where
  "board_sort_key t =
     (bt_column t,
      (case bt_position t of Some p \<Rightarrow> (False, p) | None \<Rightarrow> (True, 0)),
      (if opt_truthy (bt_queue_updated_at t) then opt_or (bt_queue_updated_at t) [] else opt_or (bt_board_updated_at t) []),
      bt_anima t, bt_task_id t)"

definition project_anima ::
  "(string \<Rightarrow> (bool \<times> rat) option) \<Rightarrow> board_db \<Rightarrow> string \<Rightarrow> task_entry list \<Rightarrow> bool \<Rightarrow> bool \<Rightarrow> board_task list" where
  "project_anima fromiso b anima tasks include_missing include_archived =
     (let rows = list_metadata (Some anima) b;
          by_id = map_of (rev (map (\<lambda>m. (bm_task_id m, m)) rows));
          queued = map (\<lambda>e. project_queue_task fromiso anima (by_id (te_task_id e)) e) tasks;
          missing = (if include_missing
                     then map project_missing_task [m \<leftarrow> rows. bm_task_id m \<notin> set (map te_task_id tasks)] else [])
      in sort_key board_sort_key (filter (should_include include_archived) (queued @ missing)))"

definition project_all ::
  "(string \<Rightarrow> (bool \<times> rat) option) \<Rightarrow> board_db \<Rightarrow> string list \<Rightarrow> string list option \<Rightarrow> (string \<Rightarrow> task_entry list)
   \<Rightarrow> bool \<Rightarrow> bool \<Rightarrow> board_task list" where
  "project_all fromiso b discovered anima_names tasks_of include_missing include_archived =
     (let names = (case anima_names of
                     Some ns \<Rightarrow> ns
                   | None \<Rightarrow> discovered @ (if include_missing then map bm_anima (list_metadata None b) else []))
      in sort_key board_sort_key
           (concat (map (\<lambda>n. project_anima fromiso b n (tasks_of n) include_missing include_archived) (sort (remdups names)))))"

section \<open>The audit trail\<close>

text \<open>The metadata that the log last recorded for a task.\<close>

definition record_event :: "string \<times> string \<Rightarrow> board_meta option \<Rightarrow> board_event \<Rightarrow> board_meta option" where
  "record_event k r e =
     (if (be_anima e, be_task_id e) = k then (case be_payload e of MetaPayload m _ \<Rightarrow> Some m | RawPayload _ \<Rightarrow> r) else r)"

definition last_recorded :: "string \<times> string \<Rightarrow> board_event list \<Rightarrow> board_meta option" where
  "last_recorded k es = foldl (record_event k) None es"

definition audit_inv :: "board_db \<Rightarrow> bool" where
  "audit_inv b \<longleftrightarrow> pk_unique meta_key (bd_meta b) \<and> sorted_wrt (<) (map be_id (bd_events b)) \<and>
     (\<forall>m \<in> set (bd_meta b). 0 \<le> bm_surface_count m \<and> last_recorded (meta_key m) (bd_events b) = Some m)"

inductive board_step :: "board_db \<Rightarrow> board_db \<Rightarrow> bool" where
  step_upsert: "upsert_metadata now a t actor ty u b = Inr (m, b') \<Longrightarrow> board_step b b'"
| step_surface: "record_surface now a t actor key b = Inr (m, b') \<Longrightarrow> board_step b b'"
| step_event: "append_event now ty a t actor p ts b = Inr (i, b') \<Longrightarrow> board_step b b'"
| step_delete: "delete_metadata a t b = (r, b') \<Longrightarrow> board_step b b'"

lemma le_foldr_max: "x \<in> set xs \<Longrightarrow> x \<le> foldr max xs (0 :: nat)"
  by (induction xs) auto

lemma append_board_event_ok:
  assumes "append_board_event ts ty a t actor p b = Inr (i, b')"
  shows "\<exists>e. bd_events b' = bd_events b @ [e] \<and> be_id e = i \<and> be_anima e = a \<and> be_task_id e = t \<and> be_actor e = actor \<and>
    be_type e = ty \<and> be_payload e = p \<and> bd_meta b' = bd_meta b \<and> ty \<in> set taskboard_event_types \<and> (\<forall>x \<in> set (bd_events b). be_id x < i)"
  using assms by (auto simp: append_board_event_def Let_def less_Suc_eq_le split: if_splits intro!: le_foldr_max)

lemma last_recorded_snoc: "last_recorded k (es @ [e]) = record_event k (last_recorded k es) e"
  by (simp add: last_recorded_def)

lemma audit_inv_write:
  assumes inv: "audit_inv b" and key: "meta_key m = (a, t)" and sc: "0 \<le> bm_surface_count m"
    and ev: "append_board_event ts ty a t actor (MetaPayload m u) (upsert_metadata_row m b) = Inr (i, b')"
  shows "audit_inv b'"
proof -
  obtain e where e: "bd_events b' = bd_events b @ [e]" "be_id e = i" "(be_anima e, be_task_id e) = meta_key m"
    "be_payload e = MetaPayload m u" "bd_meta b' = row_upsert meta_key m (\<lambda>_. m) (bd_meta b)" "\<forall>x \<in> set (bd_events b). be_id x < i"
    using append_board_event_ok [OF ev] key by (auto simp: upsert_metadata_row_def)
  have pk: "pk_unique meta_key (bd_meta b')" unfolding e(5) using inv by (auto simp: audit_inv_def)
  have old: "x \<in> set (bd_meta b)" if "x \<in> set (bd_meta b')" "x \<noteq> m" for x
    using that unfolding e(5) row_upsert_def by (auto simp: set_row_update split: if_splits)
  have "0 \<le> bm_surface_count x \<and> last_recorded (meta_key x) (bd_events b') = Some x" if x: "x \<in> set (bd_meta b')" for x
  proof (cases "x = m")
    case True
    with sc show ?thesis by (simp add: e(1) last_recorded_snoc record_event_def e(3,4))
  next
    case False
    have "m \<in> set (bd_meta b')" unfolding e(5) row_upsert_def
      by (auto simp: set_row_update row_find_None image_iff)
    then have "meta_key x \<noteq> meta_key m" using pk_unique_eq [OF pk x] False by auto
    with old [OF x False] inv show ?thesis
      by (auto simp: e(1) last_recorded_snoc record_event_def e(3) audit_inv_def)
  qed
  with pk inv e show ?thesis by (auto simp: audit_inv_def sorted_wrt_append)
qed

lemma meta_key_upsert:
  "meta_key (apply_meta_update now actor u (opt_or (get_metadata a t b) (default_meta a t now actor))) = (a, t)"
  by (cases "get_metadata a t b")
     (auto simp: apply_meta_update_def meta_key_def default_meta_def get_metadata_def dest: row_find_Some)

lemma audit_inv_step: "board_step b b' \<Longrightarrow> audit_inv b \<Longrightarrow> audit_inv b'"
proof (induction rule: board_step.induct)
  case (step_upsert now a t actor ty u b m b')
  then show ?case
    by (auto simp: upsert_metadata_def Let_def not_less split: if_splits sum.splits intro: audit_inv_write [OF _ meta_key_upsert])
next
  case (step_surface now a t actor key b m b')
  let ?m0 = "opt_or (get_metadata a t b) (default_meta a t now actor)"
  have "meta_key ?m0 = (a, t)"
    by (cases "get_metadata a t b") (auto simp: meta_key_def default_meta_def get_metadata_def dest: row_find_Some)
  then have k: "meta_key (?m0\<lparr>bm_surface_count := bm_surface_count ?m0 + 1, bm_last_notified_at := Some now, bm_updated_at := now,
      bm_updated_by := actor, bm_notification_key := (if key = None then bm_notification_key ?m0 else key)\<rparr>) = (a, t)"
    by (simp add: meta_key_def)
  from step_surface show ?case
    by (auto simp: record_surface_def Let_def not_less split: if_splits sum.splits intro: audit_inv_write [OF _ k])
next
  case (step_event now ty a t actor p ts b i b')
  then obtain e where e: "bd_events b' = bd_events b @ [e]" "be_id e = i" "be_payload e = RawPayload p" "bd_meta b' = bd_meta b"
    "\<forall>x \<in> set (bd_events b). be_id x < i"
    unfolding append_event_def by (auto dest!: append_board_event_ok)
  then have "last_recorded k (bd_events b') = last_recorded k (bd_events b)" for k
    by (simp add: last_recorded_snoc record_event_def)
  with e step_event show ?case by (auto simp: audit_inv_def sorted_wrt_append)
next
  case (step_delete a t b r b')
  then have "bd_meta b' = [m \<leftarrow> bd_meta b. meta_key m \<noteq> (a, t)]" "bd_events b' = bd_events b"
    by (auto simp: delete_metadata_def)
  with step_delete show ?case by (auto simp: audit_inv_def pk_unique_def distinct_map_filter)
qed

lemma audit_inv_empty: "audit_inv empty_board"
  by (simp add: audit_inv_def empty_board_def pk_unique_def)

interpretation board: step_invariant "\<lambda>b. b = empty_board" board_step audit_inv
  by unfold_locales (simp_all add: audit_inv_empty audit_inv_step)

section \<open>Properties\<close>

text \<open>
  C36. The audit log tells the truth: in every reachable board the last metadata recorded in the log for a task that
  has a row is that row, rows are unique per task, surface counts are not negative, and the event ids are
  strictly increasing.
\<close>

theorem audit_log_matches_rows:
  assumes "rtranclp board_step empty_board b" and "get_metadata a t b = Some m"
  shows "last_recorded (a, t) (bd_events b) = Some m \<and> pk_unique meta_key (bd_meta b) \<and> 0 \<le> bm_surface_count m \<and>
         sorted_wrt (<) (map be_id (bd_events b))"
  using board.inv_reachable [OF refl assms(1)] row_find_Some [of meta_key "(a, t)" "bd_meta b" m] assms(2)
  by (auto simp: audit_inv_def get_metadata_def)

definition demo_board :: board_db where
  "demo_board = snd (projr (upsert_metadata ''2026-01-01'' ''rin'' ''t1'' ''human'' None
     (no_update\<lparr>mu_visibility := Some VSnoozed\<rparr>) empty_board))"

lemma demo_board_ok:
  "upsert_metadata ''2026-01-01'' ''rin'' ''t1'' ''human'' None (no_update\<lparr>mu_visibility := Some VSnoozed\<rparr>) empty_board
   = Inr ((default_meta ''rin'' ''t1'' ''2026-01-01'' ''human'')\<lparr>bm_visibility := VSnoozed\<rparr>, demo_board)"
  unfolding demo_board_def by code_simp

theorem audit_log_matches_rows_witness:
  "last_recorded (''rin'', ''t1'') (bd_events demo_board) =
     Some ((default_meta ''rin'' ''t1'' ''2026-01-01'' ''human'')\<lparr>bm_visibility := VSnoozed\<rparr>)"
proof -
  have "board_step empty_board demo_board" using demo_board_ok by (rule step_upsert)
  then have "rtranclp board_step empty_board demo_board" by simp
  moreover have "get_metadata ''rin'' ''t1'' demo_board =
      Some ((default_meta ''rin'' ''t1'' ''2026-01-01'' ''human'')\<lparr>bm_visibility := VSnoozed\<rparr>)"
    unfolding demo_board_def by code_simp
  ultimately show ?thesis using audit_log_matches_rows by blast
qed

lemma by_id_lookup:
  assumes pk: "pk_unique meta_key (bd_meta b)"
  shows "map_of (rev (map (\<lambda>m. (bm_task_id m, m)) (list_metadata (Some a) b))) t = get_metadata a t b"
proof -
  let ?rows = "list_metadata (Some a) b"
  have set: "set ?rows = {m \<in> set (bd_meta b). bm_anima m = a}" by (auto simp: list_metadata_def)
  have "distinct (map meta_key [m \<leftarrow> bd_meta b. bm_anima m = a])"
    using pk by (simp add: pk_unique_def distinct_map_filter)
  then have "distinct (map bm_task_id [m \<leftarrow> bd_meta b. bm_anima m = a])"
    by (auto simp: distinct_map inj_on_def meta_key_def)
  then have d: "distinct (map bm_task_id ?rows)"
    by (simp add: list_metadata_def distinct_map)
  then have dr: "distinct (map fst (rev (map (\<lambda>m. (bm_task_id m, m)) ?rows)))"
    by (simp add: comp_def rev_map [symmetric])
  have "map_of (rev (map (\<lambda>m. (bm_task_id m, m)) ?rows)) t = Some m \<longleftrightarrow> m \<in> set (bd_meta b) \<and> meta_key m = (a, t)" for m
    using map_of_eq_Some_iff [OF dr, of t m] set by (auto simp: meta_key_def)
  moreover have "get_metadata a t b = Some m \<longleftrightarrow> m \<in> set (bd_meta b) \<and> meta_key m = (a, t)" for m
    unfolding get_metadata_def by (rule row_find_eq_Some_iff [OF pk])
  ultimately show ?thesis by (intro option_eqI) simp
qed

lemma projected_task:
  assumes pk: "pk_unique meta_key (bd_meta b)"
    and x: "x \<in> set (project_anima fromiso b a tasks missing arch)" "bt_task_id x \<in> te_task_id ` set tasks"
  shows "\<exists>e \<in> set tasks. te_task_id e = bt_task_id x \<and> x = project_queue_task fromiso a (get_metadata a (te_task_id e) b) e"
proof -
  have q: "bt_task_id (project_queue_task fromiso a m e) = te_task_id e" for m e
    by (simp add: project_queue_task_def Let_def)
  have "x \<notin> project_missing_task ` {m \<in> set (list_metadata (Some a) b). bm_task_id m \<notin> set (map te_task_id tasks)}"
    using x(2) by (auto simp: project_missing_task_def)
  then show ?thesis
    using x(1) by (auto simp: project_anima_def by_id_lookup [OF pk] Let_def q split: if_splits)
qed

lemma filter_key_single:
  "x \<in> set xs \<Longrightarrow> distinct (map f xs) \<Longrightarrow> filter (\<lambda>y. f y = f x) xs = [x]"
proof (induction xs)
  case (Cons y ys)
  show ?case
  proof (cases "x = y")
    case True
    with Cons.prems(2) show ?thesis by (auto simp: filter_empty_conv image_iff)
  next
    case False
    with Cons show ?thesis by (auto simp: image_iff)
  qed
qed simp

lemma sort_key_small: "sort_key f (filter P [x]) = filter P [x]"
  by simp

text \<open>The column a status stands for, when the metadata names none.\<close>

definition status_column :: "string \<Rightarrow> board_column" where
  "status_column st =
     opt_or (map_of [(''pending'', CTodo), (''in_progress'', CRunning), (''delegated'', CWaiting), (''done'', CDone), (''cancelled'', CDone)] st) CTodo"

lemma column_of_status: "queue_status_to_column st = status_column st"
  by (simp add: queue_status_to_column_def status_column_def)

text \<open>
  C37. What the default board shows of a task, exactly (the ids of the tasks are distinct, the board's database is reachable):
  without metadata one row if and only if the task is neither done nor cancelled; with metadata one row if and only if the
  metadata says active and is not older than the queue entry of a done or cancelled task. The row stands in the column of
  the metadata, otherwise in that of the status, and carries the task's status and the position of the metadata.
\<close>

theorem board_row_exact:
  assumes reach: "rtranclp board_step empty_board b" and e: "e \<in> set tasks" "distinct (map te_task_id tasks)"
  shows "map (\<lambda>x. (bt_column x, bt_queue_status x, bt_position x))
           (filter (\<lambda>x. bt_task_id x = te_task_id e) (project_anima fromiso b a tasks missing False)) =
         (case get_metadata a (te_task_id e) b of
            None \<Rightarrow> if te_status e \<in> {''done'', ''cancelled''} then []
                     else [(status_column (te_status e), Some (te_status e), None)]
          | Some m \<Rightarrow>
              if bm_visibility m = VActive \<and>
                 \<not> (te_status e \<in> {''done'', ''cancelled''} \<and>
                    metadata_older_than_queue fromiso (Some (bm_updated_at m)) (Some (te_updated_at e)))
              then [(opt_or (bm_column m) (status_column (te_status e)), Some (te_status e), bm_position m)] else [])"
proof -
  have pk: "pk_unique meta_key (bd_meta b)" using board.inv_reachable [OF refl reach] by (simp add: audit_inv_def)
  let ?P = "\<lambda>x. bt_task_id x = te_task_id e"
  let ?g = "\<lambda>e. project_queue_task fromiso a (get_metadata a (te_task_id e) b) e"
  have id: "bt_task_id (project_queue_task fromiso a m x) = te_task_id x" for m x
    by (simp add: project_queue_task_def Let_def)
  have "filter (\<lambda>x. te_task_id x = te_task_id e) tasks = [e]"
    using e by (intro filter_key_single)
  then have queued: "filter ?P (map ?g tasks) = [?g e]"
    by (simp add: filter_map comp_def id)
  have orphans: "filter ?P (map project_missing_task [m \<leftarrow> ms. bm_task_id m \<notin> set (map te_task_id tasks)]) = []" for ms
    using e(1) by (auto simp: filter_empty_conv project_missing_task_def)
  have inner: "filter ?P (filter (should_include False) (map ?g tasks @ orph)) = filter (should_include False) [?g e]"
    if "filter ?P orph = []" for orph
  proof -
    have "filter ?P (filter (should_include False) (map ?g tasks @ orph)) = filter (should_include False) (filter ?P (map ?g tasks @ orph))"
      by (simp add: filter_filter conj_commute)
    then show ?thesis using queued that by simp
  qed
  have "filter ?P (project_anima fromiso b a tasks missing False) = filter (should_include False) [?g e]"
    unfolding project_anima_def Let_def by_id_lookup [OF pk] filter_sort
    by (cases missing) (simp_all only: if_True if_False inner [OF orphans] inner [OF filter.simps(1)] sort_key_small)
  then show ?thesis
    by (auto simp: project_queue_task_def prefer_defaults_def should_include_def Let_def terminal_def column_of_status
        split: option.splits)
qed

definition demo_done :: task_entry where
  "demo_done = \<lparr>te_task_id = ''t1'', te_ts = ''1'', te_source = ''anima'', te_original_instruction = ''do'', te_assignee = ''rin'',
     te_status = ''done'', te_summary = ''s'', te_relay_chain = [], te_updated_at = ''2'', te_meta = []\<rparr>"

theorem board_row_exact_witness:
  "filter (\<lambda>x. bt_task_id x = ''t1'') (project_anima (\<lambda>_. None) empty_board ''rin'' [demo_done] False False) = [] \<and>
   map (\<lambda>x. (bt_column x, bt_queue_status x, bt_position x))
     (filter (\<lambda>x. bt_task_id x = ''t1'') (project_anima (\<lambda>_. None) empty_board ''rin'' [demo_done\<lparr>te_status := ''in_progress''\<rparr>] False False)) =
     [(CRunning, Some ''in_progress'', None)]"
proof -
  have none: "get_metadata ''rin'' ''t1'' empty_board = None"
    by (simp add: get_metadata_def empty_board_def row_find_def)
  have reach: "rtranclp board_step empty_board empty_board" by blast
  from board_row_exact [OF reach, of demo_done "[demo_done]" "\<lambda>_. None" "''rin''" False] none
    board_row_exact [OF reach, of "demo_done\<lparr>te_status := ''in_progress''\<rparr>" "[demo_done\<lparr>te_status := ''in_progress''\<rparr>]" "\<lambda>_. None" "''rin''" False]
  show ?thesis by (simp add: demo_done_def status_column_def opt_or_def)
qed

end
