(* ===== verification/Task_Queue.thy ===== *)
theory Task_Queue
  imports Task_Store_Props Task_Store_Read Task_Board
begin

text \<open>
  The task API of an anima, class \<^verbatim>\<open>TaskQueueManager\<close> of \<^verbatim>\<open>core/memory/task_queue.py\<close>, over the task store and
  the task board. The state is the pair of databases with the open transaction of the calling thread and
  the callbacks it has registered; an operation returns the exception or the result, and the state. The
  databases are accessible: the fallback that asks the server when the sandbox denies storage access is left to
  the dispatch layer. Clock readings, fresh ids and the ambient attempt identity are arguments; the readings of
  one call coincide, except that a board callback takes its own (\<open>later\<close>). \<open>fromiso\<close> is
  \<^verbatim>\<open>ensure_aware(datetime.fromisoformat(s))\<close> in seconds, \<open>None\<close> when it raises.
\<close>

section \<open>State, callbacks and transactions\<close>

datatype board_sync = SyncArchived string string | SyncReactivated string string

record queue_sys =
  qs_db :: task_db
  qs_board :: board_db
  qs_open :: bool
  qs_after :: "board_sync list"

definition sync_taskboard_archived :: "string \<Rightarrow> string \<Rightarrow> string \<Rightarrow> board_db \<Rightarrow> board_db" where
  "sync_taskboard_archived later anima tid b =
     (case get_metadata anima tid b of
        None \<Rightarrow> b
      | Some m \<Rightarrow>
          if bm_visibility m \<in> {VExpired, VArchived, VTombstoned} then b
          else case upsert_metadata later anima tid anima (Some ''archived'')
                 (no_update\<lparr>mu_visibility := Some VArchived, mu_column := Some (Some CDone)\<rparr>) b of
               Inl _ \<Rightarrow> b
             | Inr (_, b') \<Rightarrow> b')"

definition sync_taskboard_reactivated :: "string \<Rightarrow> string \<Rightarrow> string \<Rightarrow> board_db \<Rightarrow> board_db" where
  "sync_taskboard_reactivated later anima tid b =
     (case get_metadata anima tid b of
        None \<Rightarrow> b
      | Some m \<Rightarrow>
          if bm_visibility m \<noteq> VArchived then b
          else case upsert_metadata later anima tid anima (Some ''visibility_changed'')
                 (no_update\<lparr>mu_visibility := Some VActive, mu_column := Some (Some CTodo)\<rparr>) b of
               Inl _ \<Rightarrow> b
             | Inr (_, b') \<Rightarrow> b')"

fun run_sync :: "string \<Rightarrow> board_sync \<Rightarrow> board_db \<Rightarrow> board_db" where
  "run_sync later (SyncArchived a t) b = sync_taskboard_archived later a t b"
| "run_sync later (SyncReactivated a t) b = sync_taskboard_reactivated later a t b"

text \<open>\<^verbatim>\<open>store.after_commit\<close> and \<^verbatim>\<open>with store.transaction()\<close> as the queue uses them: a nested block joins the open
  transaction; the outermost one commits and then runs the callbacks, or restores the database.\<close>

definition queue_after_commit :: "string \<Rightarrow> board_sync \<Rightarrow> queue_sys \<Rightarrow> queue_sys" where
  "queue_after_commit later c s =
     (if qs_open s then s\<lparr>qs_after := qs_after s @ [c]\<rparr>
      else s\<lparr>qs_board := run_sync later c (qs_board s)\<rparr>)"

definition queue_transaction ::
  "string \<Rightarrow> (queue_sys \<Rightarrow> (py_error + 'a) \<times> queue_sys) \<Rightarrow> queue_sys \<Rightarrow> (py_error + 'a) \<times> queue_sys" where
  "queue_transaction later f s =
     (if qs_open s then f s
      else case f (s\<lparr>qs_open := True, qs_after := []\<rparr>) of
             (Inl e, s1) \<Rightarrow> (Inl e, s1\<lparr>qs_db := qs_db s, qs_open := False, qs_after := []\<rparr>)
           | (Inr x, s1) \<Rightarrow>
               (Inr x, s1\<lparr>qs_board := foldl (\<lambda>b c. run_sync later c b) (qs_board s1) (qs_after s1),
                          qs_open := False, qs_after := []\<rparr>))"

text \<open>\<^verbatim>\<open>_append_unlocked\<close> turns \<^verbatim>\<open>OSError\<close> and \<^verbatim>\<open>_append\<close> also \<^verbatim>\<open>sqlite3.Error\<close> into \<^verbatim>\<open>TaskPersistenceError\<close>.\<close>

fun os_error_wrapped :: "py_error \<Rightarrow> py_error" where
  "os_error_wrapped (PermissionDenied m) = TaskPersistenceError m"
| "os_error_wrapped (FileExistsError m) = TaskPersistenceError m"
| "os_error_wrapped e = e"

fun sqlite_error_wrapped :: "py_error \<Rightarrow> py_error" where
  "sqlite_error_wrapped (IntegrityError m) = TaskPersistenceError m"
| "sqlite_error_wrapped (ProgrammingError m) = TaskPersistenceError m"
| "sqlite_error_wrapped e = os_error_wrapped e"

definition append_unlocked ::
  "attempt_identity option \<Rightarrow> string \<Rightarrow> task_event \<Rightarrow> queue_sys \<Rightarrow> (py_error + unit) \<times> queue_sys" where
  "append_unlocked ident anima ev s =
     (case store_apply ident anima ev (qs_db s) of
        Inl e \<Rightarrow> (Inl (os_error_wrapped e), s)
      | Inr db \<Rightarrow> (Inr (), s\<lparr>qs_db := db\<rparr>))"

definition queue_append ::
  "attempt_identity option \<Rightarrow> string \<Rightarrow> task_event \<Rightarrow> queue_sys \<Rightarrow> (py_error + unit) \<times> queue_sys" where
  "queue_append ident anima ev s =
     (case append_unlocked ident anima ev s of
        (Inl e, s') \<Rightarrow> (Inl (sqlite_error_wrapped e), s')
      | (Inr u, s') \<Rightarrow> (Inr u, s'))"

section \<open>Adding tasks\<close>

definition active_statuses :: "string list" where
  "active_statuses = [''pending'', ''in_progress'', ''delegated'']"

definition valid_statuses :: "string list" where
  "valid_statuses = [''pending'', ''in_progress'', ''delegated'', ''done'', ''cancelled'']"

definition retired_statuses :: "string list" where
  "retired_statuses = [''blocked'', ''failed'']"

record new_task =
  nt_source :: string
  nt_original_instruction :: string
  nt_assignee :: string
  nt_summary :: string
  nt_relay_chain :: "string list option"
  nt_task_id :: "string option"
  nt_meta :: "dict option"
  nt_status :: string

definition build_task_entry :: "string \<Rightarrow> string \<Rightarrow> new_task \<Rightarrow> py_error + task_entry" where
  "build_task_entry now uid n =
     (if nt_source n \<notin> {''human'', ''anima''} then Inl (ValueError (''Invalid source: '' @ nt_source n))
      else if nt_status n \<notin> {''pending'', ''in_progress''} then Inl (ValueError (''Invalid status: '' @ nt_status n))
      else Inr \<lparr>te_task_id = (if opt_truthy (nt_task_id n) then opt_or (nt_task_id n) [] else uid),
                te_ts = now, te_source = nt_source n, te_original_instruction = nt_original_instruction n,
                te_assignee = nt_assignee n, te_status = nt_status n, te_summary = nt_summary n,
                te_relay_chain = opt_or (nt_relay_chain n) [], te_updated_at = now,
                te_meta = opt_or (nt_meta n) []\<rparr>)"

definition add_task ::
  "attempt_identity option \<Rightarrow> string \<Rightarrow> string \<Rightarrow> string \<Rightarrow> new_task \<Rightarrow> queue_sys \<Rightarrow> (py_error + task_entry) \<times> queue_sys" where
  "add_task ident now uid anima n s =
     (case build_task_entry now uid n of
        Inl e \<Rightarrow> (Inl e, s)
      | Inr entry \<Rightarrow>
          (case queue_append ident anima (EntryEvent entry) s of
             (Inl e, s') \<Rightarrow> (Inl e, s')
           | (Inr _, s') \<Rightarrow> (Inr entry, s')))"

definition load_all :: "string \<Rightarrow> bool \<Rightarrow> queue_sys \<Rightarrow> (string \<times> task_entry) list" where
  "load_all anima include_archived s = store_read anima include_archived (qs_db s)"

definition add_task_if_absent ::
  "attempt_identity option \<Rightarrow> string \<Rightarrow> string \<Rightarrow> string \<Rightarrow> string \<Rightarrow> (task_entry \<Rightarrow> bool) \<Rightarrow> new_task \<Rightarrow> queue_sys
   \<Rightarrow> (py_error + task_entry option) \<times> queue_sys" where
  "add_task_if_absent ident now later uid anima predicate n =
     queue_transaction later (\<lambda>s.
       if \<exists>p \<in> set (load_all anima False s). te_status (snd p) \<in> set active_statuses \<and> predicate (snd p)
       then (Inr None, s)
       else case build_task_entry now uid n of
              Inl e \<Rightarrow> (Inl e, s)
            | Inr entry \<Rightarrow>
                (case append_unlocked ident anima (EntryEvent entry) s of
                   (Inl e, s') \<Rightarrow> (Inl e, s')
                 | (Inr _, s') \<Rightarrow> (Inr (Some entry), s')))"

definition add_delegated_task ::
  "attempt_identity option \<Rightarrow> string \<Rightarrow> string \<Rightarrow> string \<Rightarrow> new_task \<Rightarrow> queue_sys \<Rightarrow> (py_error + task_entry) \<times> queue_sys" where
  "add_delegated_task ident now uid anima n s =
     (let entry = \<lparr>te_task_id = (if opt_truthy (nt_task_id n) then opt_or (nt_task_id n) [] else uid),
                te_ts = now, te_source = ''anima'', te_original_instruction = nt_original_instruction n,
                te_assignee = nt_assignee n, te_status = ''delegated'', te_summary = nt_summary n,
                te_relay_chain = opt_or (nt_relay_chain n) [], te_updated_at = now,
                te_meta = opt_or (nt_meta n) []\<rparr>
      in case queue_append ident anima (EntryEvent entry) s of
           (Inl e, s') \<Rightarrow> (Inl e, s')
         | (Inr _, s') \<Rightarrow> (Inr entry, s'))"

text \<open>\<^verbatim>\<open>str(payload.get(key, default))\<close> and \<^verbatim>\<open>list(payload.get("relay_chain") or [])\<close> with the validation of \<^verbatim>\<open>list[str]\<close>.\<close>

definition payload_str :: "dict \<Rightarrow> string \<Rightarrow> string \<Rightarrow> py_error + string" where
  "payload_str payload key dflt =
     (case map_of payload key of
        None \<Rightarrow> Inr dflt
      | Some v \<Rightarrow> (case str_of v of Some t \<Rightarrow> Inr t | None \<Rightarrow> Inl (TypeError ''str'')))"

definition is_str :: "json \<Rightarrow> bool" where
  "is_str v = (case v of JStr _ \<Rightarrow> True | _ \<Rightarrow> False)"

definition relay_list :: "json option \<Rightarrow> py_error + string list" where
  "relay_list v =
     (case v of
        None \<Rightarrow> Inr []
      | Some j \<Rightarrow>
          if \<not> truthy j then Inr []
          else case j of
            JArr xs \<Rightarrow> if list_all is_str xs then Inr (json_strs xs) else Inl (ValueError ''TaskEntry'')
          | JStr t \<Rightarrow> Inr (map (\<lambda>c. [c]) t)
          | JObj d \<Rightarrow> Inr (map fst d)
          | _ \<Rightarrow> Inl (TypeError ''not iterable''))"

text \<open>The task id and the entry that \<^verbatim>\<open>submit\<close> builds from a payload.\<close>

definition submission :: "string \<Rightarrow> string \<Rightarrow> string \<Rightarrow> dict \<Rightarrow> string \<Rightarrow> dict \<Rightarrow> py_error + string \<times> task_entry" where
  "submission now uid anima payload source meta =
     (case map_of payload ''task_id'' of
        None \<Rightarrow> Inl (KeyError ''task_id'')
      | Some _ \<Rightarrow>
        (case payload_str payload ''task_id'' [] of
           Inl e \<Rightarrow> Inl e
         | Inr tid \<Rightarrow>
        (case payload_str payload ''description'' [] of
           Inl e \<Rightarrow> Inl e
         | Inr description \<Rightarrow>
        (case payload_str payload ''title'' tid of
           Inl e \<Rightarrow> Inl e
         | Inr title \<Rightarrow>
        (case relay_list (map_of payload ''relay_chain'') of
           Inl e \<Rightarrow> Inl e
         | Inr chain \<Rightarrow>
        (case build_task_entry now uid \<lparr>nt_source = source, nt_original_instruction = description, nt_assignee = anima,
                nt_summary = title, nt_relay_chain = Some chain, nt_task_id = Some tid,
                nt_meta = Some (dict_merge [(''executor'', JStr ''taskexec'')] meta), nt_status = ''pending''\<rparr> of
           Inl e \<Rightarrow> Inl e
         | Inr entry \<Rightarrow> Inr (tid, entry)))))))"

definition queue_submit ::
  "attempt_identity option \<Rightarrow> string \<Rightarrow> string \<Rightarrow> string \<Rightarrow> dict \<Rightarrow> string \<Rightarrow> dict \<Rightarrow> bool \<Rightarrow> queue_sys
   \<Rightarrow> (py_error + task_entry) \<times> queue_sys" where
  "queue_submit ident now uid anima payload source meta resume s =
     (case submission now uid anima payload source meta of
        Inl e \<Rightarrow> (Inl e, s)
      | Inr (tid, entry) \<Rightarrow>
          (case store_submit ident now now anima entry payload resume (qs_db s) of
             Inl e \<Rightarrow> (Inl e, s)
           | Inr (_, db) \<Rightarrow>
               ((case map_of (store_read anima True db) tid of None \<Rightarrow> Inl (KeyError tid) | Some e \<Rightarrow> Inr e),
                s\<lparr>qs_db := db\<rparr>)))"

section \<open>Updating tasks\<close>

definition status_event :: "string \<Rightarrow> string \<Rightarrow> string \<Rightarrow> string option \<Rightarrow> update_event" where
  "status_event now tid status summary =
     \<lparr>ue_task_id = tid, ue_status = Some status, ue_summary = summary, ue_updated_at = Some now, ue_meta = None\<rparr>"

definition meta_event :: "string \<Rightarrow> string \<Rightarrow> dict \<Rightarrow> string option \<Rightarrow> update_event" where
  "meta_event now tid meta_patch summary =
     \<lparr>ue_task_id = tid, ue_status = None, ue_summary = summary, ue_updated_at = Some now, ue_meta = Some meta_patch\<rparr>"

definition sync_status :: "string \<Rightarrow> string \<Rightarrow> string \<Rightarrow> string \<Rightarrow> queue_sys \<Rightarrow> queue_sys" where
  "sync_status later anima tid status s =
     (if status \<in> {''done'', ''cancelled''} then queue_after_commit later (SyncArchived anima tid) s
      else if status \<in> {''pending'', ''in_progress''} then queue_after_commit later (SyncReactivated anima tid) s
      else s)"

definition update_status ::
  "attempt_identity option \<Rightarrow> string \<Rightarrow> string \<Rightarrow> string \<Rightarrow> string \<Rightarrow> string \<Rightarrow> string option \<Rightarrow> queue_sys
   \<Rightarrow> (py_error + task_entry option) \<times> queue_sys" where
  "update_status ident now later anima tid status summary s =
     (if status \<in> set retired_statuses then (Inl (ValueError (''Status was retired: '' @ status)), s)
      else if status \<notin> set valid_statuses then (Inr None, s)
      else case map_of (load_all anima False s) tid of
        None \<Rightarrow> (Inr None, s)
      | Some task \<Rightarrow>
          if te_status task = ''cancelled'' \<and> status \<notin> {''cancelled'', ''pending''} then (Inr None, s)
          else
            (case queue_append ident anima (UpdateEvent (status_event now tid status summary)) s of
               (Inl e, s1) \<Rightarrow> (Inl e, s1)
             | (Inr _, s1) \<Rightarrow>
                 (case store_get anima tid (qs_db s1) of
                    None \<Rightarrow> (Inr None, s1)
                  | Some e \<Rightarrow>
                      if te_status e \<noteq> status then (Inr None, s1)
                      else (Inr (Some e), sync_status later anima tid status s1))))"

definition update_meta ::
  "attempt_identity option \<Rightarrow> string \<Rightarrow> string \<Rightarrow> string \<Rightarrow> dict \<Rightarrow> string option \<Rightarrow> queue_sys
   \<Rightarrow> (py_error + task_entry option) \<times> queue_sys" where
  "update_meta ident now anima tid meta_patch summary s =
     (case map_of (load_all anima False s) tid of
        None \<Rightarrow> (Inr None, s)
      | Some _ \<Rightarrow>
          (case queue_append ident anima (UpdateEvent (meta_event now tid meta_patch summary)) s of
             (Inl e, s1) \<Rightarrow> (Inl e, s1)
           | (Inr _, s1) \<Rightarrow> (Inr (store_get anima tid (qs_db s1)), s1)))"

section \<open>Reading tasks\<close>

definition load_active_tasks :: "string \<Rightarrow> queue_sys \<Rightarrow> (string \<times> task_entry) list" where
  "load_active_tasks anima s = [p \<leftarrow> load_all anima False s. te_status (snd p) \<in> set active_statuses]"

definition get_pending :: "string \<Rightarrow> queue_sys \<Rightarrow> task_entry list" where
  "get_pending anima s = [e \<leftarrow> map snd (load_all anima False s). te_status e \<in> {''pending'', ''in_progress''}]"

definition get_human_tasks :: "string \<Rightarrow> queue_sys \<Rightarrow> task_entry list" where
  "get_human_tasks anima s = [e \<leftarrow> get_pending anima s. te_source e = ''human'']"

definition list_tasks :: "string \<Rightarrow> string option \<Rightarrow> queue_sys \<Rightarrow> task_entry list" where
  "list_tasks anima status s =
     [e \<leftarrow> map snd (load_all anima False s).
        if opt_truthy status then Some (te_status e) = status else te_status e \<in> set active_statuses]"

definition get_delegated_tasks :: "string \<Rightarrow> queue_sys \<Rightarrow> task_entry list" where
  "get_delegated_tasks anima s = [e \<leftarrow> map snd (load_all anima False s). te_status e = ''delegated'']"

definition elapsed_seconds :: "(string \<Rightarrow> rat option) \<Rightarrow> string \<Rightarrow> rat \<Rightarrow> rat option" where
  "elapsed_seconds fromiso updated_at clock = map_option (\<lambda>t. clock - t) (fromiso updated_at)"

definition get_stale_tasks :: "(string \<Rightarrow> rat option) \<Rightarrow> rat \<Rightarrow> string \<Rightarrow> queue_sys \<Rightarrow> task_entry list" where
  "get_stale_tasks fromiso clock anima s =
     [e \<leftarrow> get_pending anima s. case elapsed_seconds fromiso (te_updated_at e) clock of None \<Rightarrow> False | Some d \<Rightarrow> 1800 \<le> d]"

definition metadata_expired :: "(string \<Rightarrow> rat option) \<Rightarrow> rat \<Rightarrow> string option \<Rightarrow> bool" where
  "metadata_expired fromiso clock expires_at =
     (opt_truthy expires_at \<and> (case fromiso (opt_or expires_at []) of None \<Rightarrow> False | Some t \<Rightarrow> t \<le> clock))"

definition goal_task_suppressed :: "(string \<Rightarrow> rat option) \<Rightarrow> rat \<Rightarrow> string \<Rightarrow> string \<Rightarrow> board_db \<Rightarrow> bool" where
  "goal_task_suppressed fromiso clock anima tid b =
     (case get_metadata anima tid b of
        None \<Rightarrow> False
      | Some m \<Rightarrow> metadata_expired fromiso clock (bm_expires_at m) \<or>
                  bm_visibility m \<in> {VArchived, VTombstoned, VExpired})"

definition get_active_goal_task ::
  "(string \<Rightarrow> rat option) \<Rightarrow> rat \<Rightarrow> string \<Rightarrow> string \<Rightarrow> queue_sys \<Rightarrow> task_entry option" where
  "get_active_goal_task fromiso clock anima goal s =
     (if goal = [] then None
      else find (\<lambda>e. map_of (te_meta e) ''goal_id'' = Some (JStr goal) \<and>
                     \<not> goal_task_suppressed fromiso clock anima (te_task_id e) (qs_board s))
             (map snd (load_active_tasks anima s)))"

text \<open>\<^verbatim>\<open>sorted(..., reverse=True)\<close> keeps the order of equal keys.\<close>

definition list_goal_tasks :: "string \<Rightarrow> string \<Rightarrow> queue_sys \<Rightarrow> task_entry list" where
  "list_goal_tasks anima goal s =
     (if goal = [] then []
      else rev (sort_key te_updated_at
             (rev [e \<leftarrow> map snd (load_all anima False s). map_of (te_meta e) ''goal_id'' = Some (JStr goal)])))"

definition mark_executability :: "string \<Rightarrow> queue_sys \<Rightarrow> dict list \<Rightarrow> dict list" where
  "mark_executability anima s items =
     (let ids = store_executable_ids anima (qs_db s)
      in map (\<lambda>item.
           if map_of item ''status'' \<notin> {Some (JStr ''pending''), Some (JStr ''in_progress'')} then item
           else if (\<exists>t \<in> set ids. opt_or (map_of item ''task_id'') (JStr []) = JStr t)
           then AList.update ''executable'' (JBool True) item
           else AList.update ''executable_note''
                  (JStr ''This is a backlog task without execution input. Submit it once when ready to execute.'')
                  (AList.update ''executable'' (JBool False) item)) items)"

definition search_archive :: "string \<Rightarrow> string \<Rightarrow> queue_sys \<Rightarrow> string option" where
  "search_archive anima tid s =
     (case store_get anima tid (qs_db s) of
        None \<Rightarrow> None
      | Some e \<Rightarrow> if terminal (te_status e) then Some (te_status e) else None)"

definition queue_compact :: "string \<Rightarrow> queue_sys \<Rightarrow> nat \<times> queue_sys" where
  "queue_compact anima s = (case store_compact anima (qs_db s) of (n, db) \<Rightarrow> (n, s\<lparr>qs_db := db\<rparr>))"

section \<open>The store as a ledger of updates\<close>

text \<open>
  What the queue relies on when it updates its own tasks: an update merges into the entry and touches no other
  task, except that a cancelled task takes only another cancellation or, once nothing runs it, a re-queue.
\<close>

definition new_status :: "update_event \<Rightarrow> task_entry \<Rightarrow> string" where
  "new_status u e = opt_or (ue_status u) (te_status e)"

locale task_ledger =
  fixes valid :: "'d \<Rightarrow> bool"
    and entry :: "'d \<Rightarrow> string \<Rightarrow> task_entry option"
    and running :: "'d \<Rightarrow> string \<Rightarrow> bool"
    and upd :: "update_event \<Rightarrow> 'd \<Rightarrow> py_error + 'd"
  assumes upd_merges: "valid d \<Longrightarrow> entry d (ue_task_id u) = Some e \<Longrightarrow>
      te_status e \<noteq> ''cancelled'' \<or> new_status u e = ''cancelled'' \<or> (new_status u e = ''pending'' \<and> \<not> running d (ue_task_id u)) \<Longrightarrow>
      \<exists>d'. upd u d = Inr d' \<and> valid d' \<and> entry d' = (entry d)(ue_task_id u \<mapsto> merge_update u e) \<and> running d' = running d"
    and upd_refuses: "valid d \<Longrightarrow> entry d (ue_task_id u) = Some e \<Longrightarrow> te_status e = ''cancelled'' \<Longrightarrow>
      new_status u e = ''pending'' \<Longrightarrow> running d (ue_task_id u) \<Longrightarrow> \<exists>m. upd u d = Inl (ValueError m)"
    and upd_ignores: "valid d \<Longrightarrow> entry d (ue_task_id u) = Some e \<Longrightarrow> te_status e = ''cancelled'' \<Longrightarrow>
      new_status u e \<notin> {''cancelled'', ''pending''} \<Longrightarrow> upd u d = Inr d"
begin

lemma upd_other:
  assumes "valid d" "entry d (ue_task_id u) = Some e" "upd u d = Inr d'" "t \<noteq> ue_task_id u"
  shows "entry d' t = entry d t"
proof (cases "te_status e \<noteq> ''cancelled'' \<or> new_status u e = ''cancelled'' \<or> (new_status u e = ''pending'' \<and> \<not> running d (ue_task_id u))")
  case True
  with upd_merges [OF assms(1,2)] assms(3,4) show ?thesis by auto
next
  case False
  with upd_refuses [OF assms(1,2)] upd_ignores [OF assms(1,2)] assms(3) show ?thesis by fastforce
qed

text \<open>Two updates of one transaction, the first of the metadata only: both merge, or the whole block fails.\<close>

lemma upd_twice:
  assumes "valid d" "entry d t = Some e" "ue_task_id u = t" "ue_task_id v = t" "ue_status u = None"
    and "te_status e \<noteq> ''cancelled''"
  obtains d1 d2 where "upd u d = Inr d1" "upd v d1 = Inr d2" "valid d1" "valid d2"
    "entry d1 = (entry d)(t \<mapsto> merge_update u e)" "entry d2 = (entry d)(t \<mapsto> merge_update v (merge_update u e))"
proof -
  obtain d1 where d1: "upd u d = Inr d1" "valid d1" "entry d1 = (entry d)(t \<mapsto> merge_update u e)"
    using upd_merges [of d u e] assms by auto
  moreover obtain d2 where "upd v d1 = Inr d2" "valid d2" "entry d2 = (entry d1)(t \<mapsto> merge_update v (merge_update u e))"
    using upd_merges [of d1 v "merge_update u e"] assms d1 by (auto simp: merge_update_def)
  ultimately show ?thesis using that by simp
qed

end

text \<open>The anima's own tasks: rows of its name that no alias of its own shadows.\<close>

definition own_row :: "string \<Rightarrow> task_db \<Rightarrow> string \<Rightarrow> task_row option" where
  "own_row a db t = (if row_find alias_key (a, t) (db_aliases db) = None then get_row db a t else None)"

definition own_entry :: "string \<Rightarrow> task_db \<Rightarrow> string \<Rightarrow> task_entry option" where
  "own_entry a db t = map_option row_entry (own_row a db t)"

definition own_running :: "string \<Rightarrow> task_db \<Rightarrow> string \<Rightarrow> bool" where
  "own_running a db t \<longleftrightarrow> Option.bind (own_row a db t) row_attempt \<noteq> None"

lemma own_rowD:
  "own_row a db t = Some r \<Longrightarrow> row_find alias_key (a, t) (db_aliases db) = None \<and> get_row db a t = Some r"
  by (simp add: own_row_def split: if_splits)

text \<open>The effect of an accepted update.\<close>

definition updated_db :: "string \<Rightarrow> update_event \<Rightarrow> task_row \<Rightarrow> task_db \<Rightarrow> task_db" where
  "updated_db a u r db =
     set_row a (ue_task_id u) (\<lambda>x. x\<lparr>row_entry := merge_update u (row_entry r), row_archived := False,
       row_ready := (if terminal (new_status u (row_entry r)) then False else row_ready x)\<rparr>) db"

lemma own_row_updated:
  assumes "own_row a db (ue_task_id u) = Some r"
  shows "own_row a (updated_db a u r db) =
    (own_row a db)(ue_task_id u \<mapsto> r\<lparr>row_entry := merge_update u (row_entry r), row_archived := False,
       row_ready := (if terminal (new_status u (row_entry r)) then False else row_ready r)\<rparr>)"
  using own_rowD [OF assms] by (auto simp: own_row_def updated_db_def get_row_set_row fun_eq_iff)

lemma store_apply_own:
  assumes inv: "ledger_inv db" and r: "own_row a db (ue_task_id u) = Some r"
  shows "store_apply None a (UpdateEvent u) db =
    (if row_status r = ''cancelled'' \<and> new_status u (row_entry r) = ''pending'' \<and> row_attempt r \<noteq> None
     then Inl (ValueError ''Cannot reopen a cancelled task until its active attempt stops'')
     else if row_status r = ''cancelled'' \<and> new_status u (row_entry r) \<notin> {''cancelled'', ''pending''} then Inr db
     else Inr (updated_db a u r db))"
proof -
  have g: "get_row db a (ue_task_id u) = Some r" using own_rowD [OF r] by simp
  have rs: "resolve db a (ue_task_id u) = (a, ue_task_id u)"
    using own_rowD [OF r] store_get_own by blast
  have ot: "opt_truthy (row_attempt r) \<longleftrightarrow> row_attempt r \<noteq> None"
    using inv g by (intro idle_row) (auto simp: ledger_inv_def)
  define n where "n = opt_or (ue_status u) (te_status (row_entry r))"
  show ?thesis
    by (simp add: store_apply_def rs g stale_identity_def apply_update_def Let_def updated_db_def new_status_def
        row_status_def ot flip: n_def)
qed

interpretation own_ledger: task_ledger ledger_inv "own_entry a" "own_running a" "\<lambda>u. store_apply None a (UpdateEvent u)" for a
proof
  fix d :: task_db and u :: update_event and e :: task_entry
  assume inv: "ledger_inv d" and "own_entry a d (ue_task_id u) = Some e"
  then obtain r where r: "own_row a d (ue_task_id u) = Some r" "e = row_entry r" by (auto simp: own_entry_def)
  note eq = store_apply_own [OF inv r(1)]
  have run: "own_running a d (ue_task_id u) \<longleftrightarrow> row_attempt r \<noteq> None" by (simp add: own_running_def r)
  {
    assume ok: "te_status e \<noteq> ''cancelled'' \<or> new_status u e = ''cancelled'' \<or>
      (new_status u e = ''pending'' \<and> \<not> own_running a d (ue_task_id u))"
    then have d': "store_apply None a (UpdateEvent u) d = Inr (updated_db a u r d)"
      unfolding eq by (auto simp: r(2) run row_status_def)
    then have "ledger_inv (updated_db a u r d)"
      using inv store_apply_inv ids_inv_apply by (auto simp: ledger_inv_def)
    moreover have "own_entry a (updated_db a u r d) = (own_entry a d)(ue_task_id u \<mapsto> merge_update u e)"
      by (auto simp: own_entry_def own_row_updated [OF r(1)] r(2))
    moreover have "own_running a (updated_db a u r d) = own_running a d"
      by (auto simp: own_running_def own_row_updated [OF r(1)] fun_eq_iff r(1))
    ultimately show "\<exists>d'. store_apply None a (UpdateEvent u) d = Inr d' \<and> ledger_inv d' \<and>
        own_entry a d' = (own_entry a d)(ue_task_id u \<mapsto> merge_update u e) \<and> own_running a d' = own_running a d"
      using d' by blast
  next
    assume "te_status e = ''cancelled''" "new_status u e = ''pending''" "own_running a d (ue_task_id u)"
    then show "\<exists>m. store_apply None a (UpdateEvent u) d = Inl (ValueError m)"
      unfolding eq by (simp add: r(2) run row_status_def)
  next
    assume "te_status e = ''cancelled''" "new_status u e \<notin> {''cancelled'', ''pending''}"
    then show "store_apply None a (UpdateEvent u) d = Inr d"
      unfolding eq by (auto simp: r(2) row_status_def)
  }
qed

section \<open>Updating one's own task\<close>

lemma event_simps [simp]:
  "ue_task_id (status_event now t st sm) = t" "ue_task_id (meta_event now t m sm) = t"
  "ue_status (meta_event now t m sm) = None" "new_status (status_event now t st sm) e = st"
  "new_status (meta_event now t m sm) e = te_status e"
  "te_status (merge_update (status_event now t st sm) e) = st"
  "te_status (merge_update (meta_event now t m sm) e) = te_status e"
  by (simp_all add: status_event_def meta_event_def new_status_def merge_update_def)

lemma load_own:
  assumes "ledger_inv (qs_db s)" "own_row a (qs_db s) t = Some r"
  shows "map_of (load_all a arch s) t = (if arch \<or> \<not> row_archived r then Some (row_entry r) else None)"
  unfolding load_all_def store_read_lookup [OF assms(1)] using own_rowD [OF assms(2)] by (simp add: read_view_own)

lemma get_own: "own_row a db t = Some r \<Longrightarrow> store_get a t db = Some (row_entry r)"
  using own_rowD store_get_own by blast

lemma queue_append_own:
  assumes inv: "ledger_inv (qs_db s)" and r: "own_row a (qs_db s) (ue_task_id u) = Some r"
  shows "queue_append None a (UpdateEvent u) s =
    (if row_status r = ''cancelled'' \<and> new_status u (row_entry r) = ''pending'' \<and> row_attempt r \<noteq> None
     then (Inl (ValueError ''Cannot reopen a cancelled task until its active attempt stops''), s)
     else if row_status r = ''cancelled'' \<and> new_status u (row_entry r) \<notin> {''cancelled'', ''pending''} then (Inr (), s)
     else (Inr (), s\<lparr>qs_db := updated_db a u r (qs_db s)\<rparr>))"
  by (simp add: queue_append_def append_unlocked_def store_apply_own [OF inv r])

lemma updated_own_entry:
  assumes "own_row a db (ue_task_id u) = Some r"
  shows "store_get a (ue_task_id u) (updated_db a u r db) = Some (merge_update u (row_entry r))"
  by (subst get_own) (auto simp: own_row_updated [OF assms])

lemma update_status_own:
  assumes inv: "ledger_inv (qs_db s)" and r: "own_row a (qs_db s) t = Some r" "\<not> row_archived r"
  shows "update_status None now later a t st sm s =
    (if st \<in> {''blocked'', ''failed''} then (Inl (ValueError (''Status was retired: '' @ st)), s)
     else if st \<notin> set valid_statuses \<or> (row_status r = ''cancelled'' \<and> st \<notin> {''cancelled'', ''pending''}) then (Inr None, s)
     else if row_status r = ''cancelled'' \<and> st = ''pending'' \<and> row_attempt r \<noteq> None
     then (Inl (ValueError ''Cannot reopen a cancelled task until its active attempt stops''), s)
     else (Inr (Some (merge_update (status_event now t st sm) (row_entry r))),
           sync_status later a t st (s\<lparr>qs_db := updated_db a (status_event now t st sm) r (qs_db s)\<rparr>)))"
proof -
  let ?u = "status_event now t st sm"
  have u: "own_row a (qs_db s) (ue_task_id ?u) = Some r" using r by simp
  have q: "queue_append None a (UpdateEvent ?u) s =
    (if row_status r = ''cancelled'' \<and> st = ''pending'' \<and> row_attempt r \<noteq> None
     then (Inl (ValueError ''Cannot reopen a cancelled task until its active attempt stops''), s)
     else if row_status r = ''cancelled'' \<and> st \<notin> {''cancelled'', ''pending''} then (Inr (), s)
     else (Inr (), s\<lparr>qs_db := updated_db a ?u r (qs_db s)\<rparr>))"
    using queue_append_own [OF inv u] by simp
  have g: "store_get a t (updated_db a ?u r (qs_db s)) = Some (merge_update ?u (row_entry r))"
    using updated_own_entry [OF u] by simp
  have l: "map_of (load_all a False s) t = Some (row_entry r)" using load_own [OF inv r(1)] r(2) by simp
  have re: "set retired_statuses = {''blocked'', ''failed''}" by (simp add: retired_statuses_def)
  have st: "te_status (row_entry r) = row_status r" by (simp add: row_status_def)
  show ?thesis
    unfolding update_status_def l re option.case q st by (auto simp: g)
qed

section \<open>The board follows the queue\<close>

definition archived_card :: "string \<Rightarrow> string \<Rightarrow> board_meta \<Rightarrow> board_meta" where
  "archived_card later a m =
     (if bm_visibility m \<in> {VExpired, VArchived, VTombstoned} then m
      else m\<lparr>bm_visibility := VArchived, bm_column := Some CDone, bm_updated_at := later, bm_updated_by := a\<rparr>)"

definition revived_card :: "string \<Rightarrow> string \<Rightarrow> board_meta \<Rightarrow> board_meta" where
  "revived_card later a m =
     (if bm_visibility m \<noteq> VArchived then m
      else m\<lparr>bm_visibility := VActive, bm_column := Some CTodo, bm_updated_at := later, bm_updated_by := a\<rparr>)"

lemma upsert_existing:
  assumes inv: "audit_inv b" and m: "get_metadata a t b = Some m"
    and ty: "ty \<in> set taskboard_event_types" and u: "mu_unknown u = []" "mu_surface_count u = None"
  obtains b' where "upsert_metadata later a t actor (Some ty) u b = Inr (apply_meta_update later actor u m, b')"
    "\<And>a' t'. get_metadata a' t' b' = (if (a', t') = (a, t) then Some (apply_meta_update later actor u m) else get_metadata a' t' b)"
proof -
  let ?m = "apply_meta_update later actor u m"
  have mk: "m \<in> set (bd_meta b)" "meta_key m = (a, t)" using row_find_Some [of meta_key "(a, t)" "bd_meta b" m] m by (auto simp: get_metadata_def)
  have key: "meta_key ?m = (a, t)" using mk(2) by (simp add: apply_meta_update_def meta_key_def)
  have sc: "\<not> bm_surface_count ?m < 0" using inv mk(1) u(2) by (auto simp: audit_inv_def apply_meta_update_def)
  obtain i b' where ev: "append_board_event later ty a t actor (MetaPayload ?m u) (upsert_metadata_row ?m b) = Inr (i, b')"
    using ty by (auto simp: append_board_event_def Let_def)
  have "bd_meta b' = row_upsert meta_key ?m (\<lambda>_. ?m) (bd_meta b)"
    using append_board_event_ok [OF ev] by (auto simp: upsert_metadata_row_def)
  then have g: "get_metadata a' t' b' = (if (a', t') = (a, t) then Some ?m else get_metadata a' t' b)" for a' t'
    by (auto simp: get_metadata_def row_find_upsert key split: option.splits)
  have "upsert_metadata later a t actor (Some ty) u b = Inr (?m, b')"
    using m ev sc u(1) ty by (cases "ty = []") (simp_all add: upsert_metadata_def opt_truthy_def Let_def taskboard_event_types_def)
  with g that show ?thesis by auto
qed

lemma sync_archived_meta:
  assumes inv: "audit_inv b"
  shows "get_metadata a' t' (sync_taskboard_archived later a t b) =
    (if (a', t') = (a, t) then map_option (archived_card later a) (get_metadata a t b) else get_metadata a' t' b)"
proof (cases "get_metadata a t b")
  case None
  then show ?thesis by (auto simp: sync_taskboard_archived_def)
next
  case (Some m)
  let ?u = "no_update\<lparr>mu_visibility := Some VArchived, mu_column := Some (Some CDone)\<rparr>"
  have "''archived'' \<in> set taskboard_event_types" by (simp add: taskboard_event_types_def)
  moreover have "mu_unknown ?u = []" "mu_surface_count ?u = None" by (simp_all add: no_update_def)
  ultimately obtain b' where
    "upsert_metadata later a t a (Some ''archived'') ?u b = Inr (apply_meta_update later a ?u m, b')"
    "get_metadata a' t' b' = (if (a', t') = (a, t) then Some (apply_meta_update later a ?u m) else get_metadata a' t' b)"
    using upsert_existing [OF inv Some, of _ ?u later a] by blast
  with Some show ?thesis
    by (auto simp: sync_taskboard_archived_def archived_card_def apply_meta_update_def no_update_def)
qed

lemma sync_reactivated_meta:
  assumes inv: "audit_inv b"
  shows "get_metadata a' t' (sync_taskboard_reactivated later a t b) =
    (if (a', t') = (a, t) then map_option (revived_card later a) (get_metadata a t b) else get_metadata a' t' b)"
proof (cases "get_metadata a t b")
  case None
  then show ?thesis by (auto simp: sync_taskboard_reactivated_def)
next
  case (Some m)
  let ?u = "no_update\<lparr>mu_visibility := Some VActive, mu_column := Some (Some CTodo)\<rparr>"
  have "''visibility_changed'' \<in> set taskboard_event_types" by (simp add: taskboard_event_types_def)
  moreover have "mu_unknown ?u = []" "mu_surface_count ?u = None" by (simp_all add: no_update_def)
  ultimately obtain b' where
    "upsert_metadata later a t a (Some ''visibility_changed'') ?u b = Inr (apply_meta_update later a ?u m, b')"
    "get_metadata a' t' b' = (if (a', t') = (a, t) then Some (apply_meta_update later a ?u m) else get_metadata a' t' b)"
    using upsert_existing [OF inv Some, of _ ?u later a] by blast
  with Some show ?thesis
    by (auto simp: sync_taskboard_reactivated_def revived_card_def apply_meta_update_def no_update_def)
qed

lemma run_sync_step: "run_sync later c b = b \<or> board_step b (run_sync later c b)"
  by (cases c)
     (auto simp: sync_taskboard_archived_def sync_taskboard_reactivated_def
       split: option.splits sum.splits if_splits intro: step_upsert)

lemma run_sync_inv: "audit_inv b \<Longrightarrow> audit_inv (run_sync later c b)"
  using run_sync_step [of later c b] audit_inv_step by auto

text \<open>What a change of status does to the card of the task.\<close>

definition card_after :: "string \<Rightarrow> string \<Rightarrow> string \<Rightarrow> board_meta \<Rightarrow> board_meta" where
  "card_after later a st m =
     (if terminal st then archived_card later a m
      else if st \<in> {''pending'', ''in_progress''} then revived_card later a m else m)"

lemma sync_status_closed:
  assumes "\<not> qs_open s" "audit_inv (qs_board s)"
  shows "get_metadata a' t' (qs_board (sync_status later a t st s)) =
    (if (a', t') = (a, t) then map_option (card_after later a st) (get_metadata a t (qs_board s)) else get_metadata a' t' (qs_board s))"
    and "audit_inv (qs_board (sync_status later a t st s))" and "qs_db (sync_status later a t st s) = qs_db s"
proof -
  have id: "map_option (\<lambda>m. m) x = x" for x :: "board_meta option" by (cases x) auto
  show "get_metadata a' t' (qs_board (sync_status later a t st s)) =
    (if (a', t') = (a, t) then map_option (card_after later a st) (get_metadata a t (qs_board s)) else get_metadata a' t' (qs_board s))"
    using assms by (auto simp: sync_status_def queue_after_commit_def card_after_def [abs_def] terminal_def id
        sync_archived_meta sync_reactivated_meta)
  show "audit_inv (qs_board (sync_status later a t st s))" "qs_db (sync_status later a t st s) = qs_db s"
    using assms run_sync_inv by (auto simp: sync_status_def queue_after_commit_def simp del: run_sync.simps)
qed

lemma update_status_card:
  assumes inv: "ledger_inv (qs_db s)" and board: "audit_inv (qs_board s)" "\<not> qs_open s"
    and r: "own_row a (qs_db s) t = Some r" "\<not> row_archived r"
    and ok: "update_status None now later a t st sm s = (Inr (Some e), s')"
  shows "get_metadata a' t' (qs_board s') =
      (if (a', t') = (a, t) then map_option (card_after later a st) (get_metadata a t (qs_board s)) else get_metadata a' t' (qs_board s))"
    and "audit_inv (qs_board s')" and "e = merge_update (status_event now t st sm) (row_entry r)"
    and "qs_db s' = updated_db a (status_event now t st sm) r (qs_db s)"
proof -
  let ?s1 = "s\<lparr>qs_db := updated_db a (status_event now t st sm) r (qs_db s)\<rparr>"
  have e: "e = merge_update (status_event now t st sm) (row_entry r)" and s': "s' = sync_status later a t st ?s1"
    using ok unfolding update_status_own [OF inv r] by (auto split: if_splits)
  have b: "\<not> qs_open ?s1" "audit_inv (qs_board ?s1)" using board by simp_all
  from sync_status_closed(1) [OF b, of a' t' later a t st] sync_status_closed(2,3) [OF b, of later a t st]
  show "get_metadata a' t' (qs_board s') =
      (if (a', t') = (a, t) then map_option (card_after later a st) (get_metadata a t (qs_board s)) else get_metadata a' t' (qs_board s))"
    "audit_inv (qs_board s')" "qs_db s' = updated_db a (status_event now t st sm) r (qs_db s)"
    unfolding s' by simp_all
  show "e = merge_update (status_event now t st sm) (row_entry r)" by (fact e)
qed

lemma read_view_id: "ledger_inv db \<Longrightarrow> read_view a arch db t = Some v \<Longrightarrow> te_task_id v = t"
  by (auto simp: read_view_def delegated_view_def ledger_inv_def bind_eq_Some_conv
      split: option.splits if_splits intro: ids_inv_get)

lemma load_all_entry:
  assumes inv: "ledger_inv (qs_db s)" and v: "v \<in> set (map snd (load_all a arch s))"
  shows "map_of (load_all a arch s) (te_task_id v) = Some v"
proof -
  obtain k where k: "(k, v) \<in> set (load_all a arch s)" using v by auto
  have "distinct (map fst (load_all a arch s))" by (simp add: load_all_def store_read_def Let_def)
  with k have m: "map_of (load_all a arch s) k = Some v" by simp
  then have "te_task_id v = k"
    unfolding load_all_def store_read_lookup [OF inv] by (rule read_view_id [OF inv])
  with m show ?thesis by simp
qed

lemma hidden_card: "terminal st \<Longrightarrow> te_status e = st \<Longrightarrow>
  bt_visibility (project_queue_task fromiso a (map_option (card_after later b st) m) e) \<noteq> VActive"
  by (cases m) (auto simp: project_queue_task_def prefer_defaults_def card_after_def archived_card_def Let_def)

section \<open>A small system\<close>

text \<open>One published task of \<^verbatim>\<open>rin\<close>, whose card is snoozed; \<^verbatim>\<open>sora\<close> tracks it under an alias.\<close>

definition demo_queue :: queue_sys where
  "demo_queue = \<lparr>qs_db = demo_published\<lparr>db_aliases := [\<lparr>al_viewer = ''sora'', al_alias = ''d1'', al_anima = ''rin'', al_task_id = ''t1''\<rparr>]\<rparr>,
     qs_board = demo_board, qs_open = False, qs_after = []\<rparr>"

definition demo_row :: task_row where
  "demo_row = \<lparr>row_anima = ''rin'', row_task_id = ''t1'', row_entry = demo_entry, row_input = Some demo_payload,
     row_ready = True, row_attempt = None, row_archived = False\<rparr>"

lemma demo_queue_reachable: "rtranclp store_step empty_db (qs_db demo_queue)"
proof -
  have "store_alias ''sora'' ''d1'' ''rin'' ''t1'' demo_published = Inr (qs_db demo_queue)"
    unfolding demo_queue_def by code_simp
  then show ?thesis
    using demo_published_reachable step_alias by (auto intro: rtranclp.rtrancl_into_rtrancl)
qed

lemma demo_queue_board: "rtranclp board_step empty_board (qs_board demo_queue)"
  using step_upsert [OF demo_board_ok] by (auto simp: demo_queue_def)

lemma demo_queue_own: "own_row ''rin'' (qs_db demo_queue) ''t1'' = Some demo_row"
  by code_simp

lemma demo_queue_inv: "ledger_inv (qs_db demo_queue)"
  by (rule ledger.inv_reachable [OF refl demo_queue_reachable])

definition demo_new :: new_task where
  "demo_new = \<lparr>nt_source = ''human'', nt_original_instruction = ''watch'', nt_assignee = ''rin'', nt_summary = ''watch'',
     nt_relay_chain = None, nt_task_id = None, nt_meta = None, nt_status = ''pending''\<rparr>"

section \<open>Properties\<close>

text \<open>
  Every branch of a status change of one's own visible task: a retired status raises; an unknown status, or
  leaving cancelled other than by a re-queue, is refused and changes nothing; re-queueing a cancelled task
  raises while an attempt still runs; otherwise the entry is merged into the row, the row becomes visible,
  a terminal status takes it out of the ready set, the card is synchronised, and the new entry is returned.
\<close>

theorem update_status_effect:
  assumes "rtranclp store_step empty_db (qs_db s)" and "own_row a (qs_db s) t = Some r" and "\<not> row_archived r"
  shows "update_status None now later a t st sm s =
    (if st \<in> {''blocked'', ''failed''} then (Inl (ValueError (''Status was retired: '' @ st)), s)
     else if st \<notin> set valid_statuses \<or> (row_status r = ''cancelled'' \<and> st \<notin> {''cancelled'', ''pending''}) then (Inr None, s)
     else if row_status r = ''cancelled'' \<and> st = ''pending'' \<and> row_attempt r \<noteq> None
     then (Inl (ValueError ''Cannot reopen a cancelled task until its active attempt stops''), s)
     else (Inr (Some (merge_update (status_event now t st sm) (row_entry r))),
           sync_status later a t st (s\<lparr>qs_db := updated_db a (status_event now t st sm) r (qs_db s)\<rparr>)))"
  by (rule update_status_own [OF ledger.inv_reachable [OF refl assms(1)] assms(2,3)])

theorem update_status_effect_witness:
  "fst (update_status None ''n'' ''l'' ''rin'' ''t1'' ''failed'' None demo_queue) = Inl (ValueError ''Status was retired: failed'') \<and>
   fst (update_status None ''n'' ''l'' ''rin'' ''t1'' ''done'' (Some ''ok'') demo_queue) =
     Inr (Some (merge_update (status_event ''n'' ''t1'' ''done'' (Some ''ok'')) demo_entry))"
proof -
  have "\<not> row_archived demo_row" by (simp add: demo_row_def)
  note eff = update_status_effect [OF demo_queue_reachable demo_queue_own this]
  show ?thesis unfolding eff by (simp add: valid_statuses_def demo_row_def row_status_def demo_entry_def)
qed

text \<open>
  A finished task leaves the board: after its owner has successfully set a visible task of its own to done or
  cancelled, the default view of the owner's board, projected from the queue and the cards as they are then,
  does not show the task, whatever its card said before.
\<close>

theorem finished_task_leaves_board:
  assumes reach: "rtranclp store_step empty_db (qs_db s)" "rtranclp board_step empty_board (qs_board s)"
    and r: "own_row a (qs_db s) t = Some r" "\<not> row_archived r" and fin: "terminal st" and closed: "\<not> qs_open s"
    and ok: "update_status None now later a t st sm s = (Inr (Some e), s')"
  shows "te_status e = st \<and> map_of (load_all a False s') t = Some e \<and>
    t \<notin> bt_task_id ` set (project_anima fromiso (qs_board s') a (map snd (load_all a False s')) missing False)"
proof -
  have inv: "ledger_inv (qs_db s)" and b: "audit_inv (qs_board s)"
    using ledger.inv_reachable [OF refl reach(1)] board.inv_reachable [OF refl reach(2)] by simp_all
  note card = update_status_card [OF inv b closed r ok]
  have u: "own_row a (qs_db s) (ue_task_id (status_event now t st sm)) = Some r" using r by simp
  have own: "own_row a (qs_db s') t = Some (r\<lparr>row_entry := e, row_archived := False, row_ready := False\<rparr>)"
    unfolding card(4) own_row_updated [OF u] using fin by (simp add: card(3))
  have "store_step (qs_db s) (qs_db s') \<or> qs_db s' = qs_db s"
    using ok by (auto simp: update_status_def queue_append_def append_unlocked_def sync_status_def queue_after_commit_def
        split: if_splits option.splits sum.splits intro: step_apply)
  then have inv': "ledger_inv (qs_db s')" using inv ledger.inv_step by auto
  have e: "map_of (load_all a False s') t = Some e" using load_own [OF inv' own] by simp
  have st: "te_status e = st" by (simp add: card(3))
  have pk: "pk_unique meta_key (bd_meta (qs_board s'))" using card(2) by (simp add: audit_inv_def)
  have "bt_task_id x \<noteq> t" if x: "x \<in> set (project_anima fromiso (qs_board s') a (map snd (load_all a False s')) missing False)" for x
  proof
    assume xt: "bt_task_id x = t"
    have "e \<in> snd ` set (load_all a False s')" using map_of_SomeD [OF e] by force
    moreover from this load_all_entry [OF inv'] e store_read_lookup [OF inv'] have "te_task_id e = t"
      using read_view_id [OF inv', of a False t e] by (simp add: load_all_def)
    ultimately have "t \<in> te_task_id ` set (map snd (load_all a False s'))" by force
    then obtain e' where e': "e' \<in> set (map snd (load_all a False s'))"
        "x = project_queue_task fromiso a (get_metadata a (te_task_id e') (qs_board s')) e'" "te_task_id e' = t"
      using projected_task [OF pk x] unfolding xt by blast
    with load_all_entry [OF inv' e'(1)] e have "e' = e" by simp
    with e'(2,3) card(1) [of a t] have "x = project_queue_task fromiso a
        (map_option (card_after later a st) (get_metadata a t (qs_board s))) e" by simp
    then have "bt_visibility x \<noteq> VActive" using hidden_card [OF fin st] by simp
    with x show False by (auto simp: project_anima_def should_include_def Let_def)
  qed
  with e st show ?thesis by blast
qed

theorem finished_task_leaves_board_witness:
  "\<exists>e s'. update_status None ''n'' ''l'' ''rin'' ''t1'' ''done'' None demo_queue = (Inr (Some e), s') \<and>
     ''t1'' \<notin> bt_task_id ` set (project_anima (\<lambda>_. None) (qs_board s') ''rin'' (map snd (load_all ''rin'' False s')) True False)"
proof -
  have r: "\<not> row_archived demo_row" by (simp add: demo_row_def)
  have "\<exists>e s'. update_status None ''n'' ''l'' ''rin'' ''t1'' ''done'' None demo_queue = (Inr (Some e), s')"
    unfolding update_status_own [OF demo_queue_inv demo_queue_own r]
    by (simp add: valid_statuses_def demo_row_def row_status_def demo_entry_def)
  moreover have "terminal ''done''" "\<not> qs_open demo_queue" by (simp_all add: terminal_def demo_queue_def)
  ultimately show ?thesis
    using finished_task_leaves_board [OF demo_queue_reachable demo_queue_board demo_queue_own r] by blast
qed

text \<open>
  A requester cannot re-queue what it delegated, and is told nothing happened although something did: setting a
  tracking alias to pending re-opens the assignee's task, but the caller sees the task as delegated, so the
  call reports that the task was not found, the card is not synchronised and the task does not become ready.
\<close>

theorem requester_requeue_unreported:
  assumes reach: "rtranclp store_step empty_db (qs_db s)"
    and al: "row_find alias_key (a, t) (db_aliases (qs_db s)) = Some al" "al_anima al \<noteq> a"
    and r: "get_row (qs_db s) (al_anima al) (al_task_id al) = Some r" "\<not> row_archived r" "row_attempt r = None"
  shows "\<exists>s'. update_status None now later a t ''pending'' sm s = (Inr None, s') \<and> qs_board s' = qs_board s \<and>
    get_row (qs_db s') (al_anima al) (al_task_id al) =
      Some (r\<lparr>row_entry := merge_update (status_event now t ''pending'' sm) (row_entry r), row_archived := False\<rparr>)"
proof -
  let ?u = "status_event now t ''pending'' sm"
  let ?f = "\<lambda>x. x\<lparr>row_entry := merge_update ?u (row_entry r), row_archived := False, row_ready := row_ready x\<rparr>"
  let ?db = "set_row (al_anima al) (al_task_id al) ?f (qs_db s)"
  have inv: "ledger_inv (qs_db s)" by (rule ledger.inv_reachable [OF refl reach])
  have l: "map_of (load_all a False s) t = Some (delegated_view t (al_anima al) (al_task_id al) (row_entry r))"
    unfolding load_all_def store_read_lookup [OF inv] using al r by (simp add: read_view_def)
  have rs: "resolve d a t = (al_anima al, al_task_id al)" if "db_aliases d = db_aliases (qs_db s)" for d
    using al(1) that by (simp add: resolve_def)
  have ap: "store_apply None a (UpdateEvent ?u) (qs_db s) = Inr ?db"
    using r by (simp add: store_apply_def rs stale_identity_def apply_update_def Let_def status_event_def terminal_def
        opt_truthy_def cong: if_cong)
  have g: "get_row ?db (al_anima al) (al_task_id al) = Some (?f r)"
    using r(1) by (simp add: get_row_set_row)
  have "store_get a t ?db = Some (delegated_view t (al_anima al) (al_task_id al) (merge_update ?u (row_entry r)))"
    using al(2) r(1) by (simp add: store_get_def rs get_row_set_row)
  then have "update_status None now later a t ''pending'' sm s = (Inr None, s\<lparr>qs_db := ?db\<rparr>)"
    by (simp add: update_status_def l queue_append_def append_unlocked_def ap retired_statuses_def valid_statuses_def
        delegated_view_def)
  with g show ?thesis by auto
qed

theorem requester_requeue_unreported_witness:
  "\<exists>s'. update_status None ''n'' ''l'' ''sora'' ''d1'' ''pending'' (Some ''again'') demo_queue = (Inr None, s') \<and>
     map_option (te_summary \<circ> row_entry) (get_row (qs_db s') ''rin'' ''t1'') = Some ''again''"
proof -
  let ?al = "\<lparr>al_viewer = ''sora'', al_alias = ''d1'', al_anima = ''rin'', al_task_id = ''t1''\<rparr>"
  have al: "row_find alias_key (''sora'', ''d1'') (db_aliases (qs_db demo_queue)) = Some ?al" by code_simp
  have r: "get_row (qs_db demo_queue) (al_anima ?al) (al_task_id ?al) = Some demo_row" by code_simp
  have "al_anima ?al \<noteq> ''sora''" "\<not> row_archived demo_row" "row_attempt demo_row = None" by (simp_all add: demo_row_def)
  from requester_requeue_unreported [OF demo_queue_reachable al this(1) r this(2,3)]
  obtain s' where "update_status None ''n'' ''l'' ''sora'' ''d1'' ''pending'' (Some ''again'') demo_queue = (Inr None, s')"
    "get_row (qs_db s') ''rin'' ''t1'' = Some (demo_row\<lparr>row_entry := merge_update (status_event ''n'' ''d1'' ''pending'' (Some ''again''))
        (row_entry demo_row), row_archived := False\<rparr>)"
    by fastforce
  then show ?thesis by (simp add: merge_update_def status_event_def)
qed

lemma get_row_insert_entry:
  "get_row (insert_entry a e db) a' t' =
     (if (a', t') = (a, te_task_id e)
      then Some (case get_row db a' t' of None \<Rightarrow> blank_row a e | Some x \<Rightarrow> x\<lparr>row_entry := e, row_archived := False\<rparr>)
      else get_row db a' t')"
proof -
  have k: "task_key (blank_row a e) = (a, te_task_id e)" by (simp add: task_key_def blank_row_def)
  show ?thesis
    unfolding get_row_def insert_entry_def by (simp add: row_find_upsert k split: option.splits)
qed

lemma apply_new_entry:
  assumes "store_apply ident a (EntryEvent e) db = Inr db'" "te_status e \<noteq> ''delegated''"
  shows "db' = insert_entry a e db"
  using assms by (auto simp: store_apply_def apply_entry_def Let_def split: prod.splits if_splits option.splits)

lemma read_view_insert:
  assumes "\<And>al. al \<in> set (db_aliases db) \<Longrightarrow> al_viewer al = a \<Longrightarrow> al_anima al \<noteq> a" "k \<noteq> te_task_id e"
  shows "read_view a arch (insert_entry a e db) k = read_view a arch db k"
proof -
  have al: "al_anima al \<noteq> a" if "row_find alias_key (a, k) (db_aliases db) = Some al" for al
    using row_find_Some [OF that] assms(1) [of al] by (auto simp: alias_key_def)
  have "db_aliases (insert_entry a e db) = db_aliases db" by (simp add: insert_entry_def)
  with al assms(2) show ?thesis
    by (auto simp: read_view_def get_row_insert_entry split: option.splits bind_split)
qed

text \<open>
  Adding a task only if absent is exact: nothing is added exactly when an active visible task matches, and
  otherwise the new entry is stored and every visible active match afterwards carries its id, so repeating
  the call cannot leave two active matches (for an anima that has delegated nothing to itself).
\<close>

theorem add_if_absent_unique:
  assumes reach: "rtranclp store_step empty_db (qs_db s)" and closed: "\<not> qs_open s"
    and noself: "\<And>al. al \<in> set (db_aliases (qs_db s)) \<Longrightarrow> al_viewer al = a \<Longrightarrow> al_anima al \<noteq> a"
    and ok: "add_task_if_absent None now later uid a P n s = (Inr x, s')"
  shows "(x = None \<longleftrightarrow> (\<exists>p \<in> set (load_all a False s). te_status (snd p) \<in> set active_statuses \<and> P (snd p))) \<and>
    (case x of
       None \<Rightarrow> qs_db s' = qs_db s \<and> qs_board s' = qs_board s
     | Some e \<Rightarrow> map_option row_entry (get_row (qs_db s') a (te_task_id e)) = Some e \<and>
         (\<forall>k v. map_of (load_all a False s') k = Some v \<and> te_status v \<in> set active_statuses \<and> P v \<longrightarrow> k = te_task_id e))"
proof (cases "\<exists>p \<in> set (load_all a False s). te_status (snd p) \<in> set active_statuses \<and> P (snd p)")
  case True
  have "load_all a False (s\<lparr>qs_open := True, qs_after := []\<rparr>) = load_all a False s" by (simp add: load_all_def)
  with True closed ok show ?thesis
    by (auto simp: add_task_if_absent_def queue_transaction_def split: if_splits)
next
  case False
  have l: "load_all a False (s\<lparr>qs_open := True, qs_after := []\<rparr>) = load_all a False s" by (simp add: load_all_def)
  obtain e where b: "build_task_entry now uid n = Inr e"
    using ok closed False unfolding add_task_if_absent_def queue_transaction_def l
    by (auto simp: l split: if_splits sum.splits)
  obtain db' where ap: "store_apply None a (EntryEvent e) (qs_db s) = Inr db'"
    using ok closed False b by (auto simp: add_task_if_absent_def queue_transaction_def append_unlocked_def l split: if_splits sum.splits)
  have x: "x = Some e" "qs_db s' = db'"
    using ok closed False b ap by (auto simp: add_task_if_absent_def queue_transaction_def append_unlocked_def l split: if_splits)
  have "te_status e \<noteq> ''delegated''" using b by (auto simp: build_task_entry_def split: if_splits)
  with ap have db': "db' = insert_entry a e (qs_db s)" by (rule apply_new_entry)
  have inv: "ledger_inv (qs_db s)" by (rule ledger.inv_reachable [OF refl reach])
  have inv': "ledger_inv (qs_db s')" using ledger.inv_step [OF step_apply [OF ap] inv] x by simp
  have "k = te_task_id e" if "map_of (load_all a False s') k = Some v" "te_status v \<in> set active_statuses" "P v" for k v
  proof (rule ccontr)
    assume "k \<noteq> te_task_id e"
    have "map_of (load_all a False s') k = read_view a False (insert_entry a e (qs_db s)) k"
      using store_read_lookup [OF inv', of a False k] by (simp add: load_all_def x db')
    also have "\<dots> = read_view a False (qs_db s) k"
      using noself \<open>k \<noteq> te_task_id e\<close> by (rule read_view_insert)
    also have "\<dots> = map_of (load_all a False s) k"
      unfolding load_all_def store_read_lookup [OF inv] by simp
    finally have "map_of (load_all a False s) k = Some v" using that(1) by simp
    then have "(k, v) \<in> set (load_all a False s)" by (rule map_of_SomeD)
    with that False show False by force
  qed
  moreover have "map_option row_entry (get_row (qs_db s') a (te_task_id e)) = Some e"
    by (simp add: x db' get_row_insert_entry blank_row_def split: option.splits)
  ultimately show ?thesis using x(1) False by auto
qed

theorem add_if_absent_unique_witness:
  "\<exists>e s'. add_task_if_absent None ''n'' ''l'' ''u1'' ''rin'' (\<lambda>e. te_source e = ''human'') demo_new demo_queue = (Inr (Some e), s') \<and>
     map_option row_entry (get_row (qs_db s') ''rin'' (te_task_id e)) = Some e"
proof -
  have "\<exists>e s'. add_task_if_absent None ''n'' ''l'' ''u1'' ''rin'' (\<lambda>e. te_source e = ''human'') demo_new demo_queue = (Inr (Some e), s')"
  proof -
    have "(case fst (add_task_if_absent None ''n'' ''l'' ''u1'' ''rin'' (\<lambda>e. te_source e = ''human'') demo_new demo_queue) of
        Inr (Some e) \<Rightarrow> True | _ \<Rightarrow> False)" by code_simp
    then show ?thesis
      by (cases "add_task_if_absent None ''n'' ''l'' ''u1'' ''rin'' (\<lambda>e. te_source e = ''human'') demo_new demo_queue")
         (auto split: sum.splits option.splits)
  qed
  moreover have "\<not> qs_open demo_queue" by (simp add: demo_queue_def)
  moreover have "al \<in> set (db_aliases (qs_db demo_queue)) \<Longrightarrow> al_viewer al = ''rin'' \<Longrightarrow> al_anima al \<noteq> ''rin''" for al
    by (simp add: demo_queue_def)
  ultimately show ?thesis
    using add_if_absent_unique [OF demo_queue_reachable, of "''rin''" "''n''" "''l''" "''u1''" "\<lambda>e. te_source e = ''human''" demo_new] by fastforce
qed

end
