(* ===== verification/Task_Dispatch.thy ===== *)
theory Task_Dispatch
  imports Task_Queue Task_Dag
begin

text \<open>
  Publishing tasks, \<^verbatim>\<open>core/tasks_dispatch.py\<close>: validation of whole batches, atomic publication, delegation, direct
  dispatch of external events, and the way out of the sandbox: when the local databases deny access the request
  goes to the server, with one retry. \<open>model_error\<close> stands for \<^verbatim>\<open>validate_model_override\<close> (the text of the
  error, if any) and \<open>resolve_ws\<close> for \<^verbatim>\<open>resolve_workspace\<close>; both read configuration files. \<open>fault\<close> is the exception
  object that the first access to the local databases raises, \<open>None\<close> when they are accessible. The remote
  side is a function \<open>send\<close> on its state, which may lose the response after it has done the work.
\<close>

section \<open>Denied storage\<close>

datatype exc_kind = OsExc int | SqliteOperational int string | OtherExc

record exc_node =
  ex_kind :: exc_kind
  ex_cause :: "nat option"
  ex_context :: "nat option"

text \<open>Exception objects by identity: causes and contexts may form a cycle.\<close>

type_synonym exc_heap = "(nat \<times> exc_node) list"

fun denied_kind :: "exc_kind \<Rightarrow> bool" where
  "denied_kind (OsExc no) = (no \<in> {13, 1, 30})"
| "denied_kind (SqliteOperational code msg) =
     (list_ex (\<lambda>p. occurs_in p (str_lower msg))
        [''readonly'', ''read-only'', ''permission denied'', ''access denied'', ''operation not permitted''] \<and>
      code mod 256 \<in> {0, 8, 3, 14})"
| "denied_kind OtherExc = False"

definition next_exc :: "exc_node \<Rightarrow> nat option" where
  "next_exc n = (case ex_cause n of Some c \<Rightarrow> Some c | None \<Rightarrow> ex_context n)"

function permission_loop :: "exc_heap \<Rightarrow> nat list \<Rightarrow> nat option \<Rightarrow> bool" where
  "permission_loop h seen None = False"
| "permission_loop h seen (Some i) =
     (if i \<in> set seen then False
      else case map_of h i of
             None \<Rightarrow> False
           | Some n \<Rightarrow> if denied_kind (ex_kind n) then True else permission_loop h (i # seen) (next_exc n))"
  by pat_completeness auto
termination
proof (relation "measure (\<lambda>(h, seen, cur). card (fst ` set h - set seen))", goal_cases)
  case (2 h seen i n)
  then have "i \<in> fst ` set h - set seen" by (auto dest: map_of_SomeD intro: rev_image_eqI)
  then have "card (fst ` set h - set (i # seen)) < card (fst ` set h - set seen)"
    by (intro psubset_card_mono) auto
  then show ?case by simp
qed simp

definition is_task_permission_error :: "exc_heap \<Rightarrow> nat \<Rightarrow> bool" where
  "is_task_permission_error h i = permission_loop h [] (Some i)"

section \<open>The way to the server\<close>

datatype http_outcome = Response json | TransportFailed | HttpStatus int

definition post_tasks :: "('s \<Rightarrow> http_outcome \<times> 's) \<Rightarrow> 's \<Rightarrow> (py_error + json) \<times> 's" where
  "post_tasks send s =
     (case send s of
        (Response j, s1) \<Rightarrow> (Inr j, s1)
      | (HttpStatus c, s1) \<Rightarrow>
          if c < 500 then (Inl (HTTPStatusError c), s1)
          else (case send s1 of
                  (Response j, s2) \<Rightarrow> (Inr j, s2)
                | (HttpStatus c', s2) \<Rightarrow> (Inl (HTTPStatusError c'), s2)
                | (TransportFailed, s2) \<Rightarrow> (Inl TransportError, s2))
      | (TransportFailed, s1) \<Rightarrow>
          (case send s1 of
             (Response j, s2) \<Rightarrow> (Inr j, s2)
           | (HttpStatus c', s2) \<Rightarrow> (Inl (HTTPStatusError c'), s2)
           | (TransportFailed, s2) \<Rightarrow> (Inl TransportError, s2)))"

section \<open>Validation of a batch\<close>

definition id_start_char :: "char \<Rightarrow> bool" where
  "id_start_char c = (let n = of_char c :: nat in (48 \<le> n \<and> n \<le> 57) \<or> (65 \<le> n \<and> n \<le> 90) \<or> (97 \<le> n \<and> n \<le> 122))"

definition id_char :: "char \<Rightarrow> bool" where
  "id_char c = (id_start_char c \<or> c \<in> set ''_.:#-'')"

definition valid_task_id :: "string \<Rightarrow> bool" where
  "valid_task_id t = (t \<noteq> [] \<and> id_start_char (hd t) \<and> list_all id_char (tl t) \<and> length t \<le> 200)"

definition filled_field :: "dict \<Rightarrow> string \<Rightarrow> bool" where
  "filled_field d f = (case map_of d f of Some (JStr t) \<Rightarrow> py_strip t \<noteq> [] | _ \<Rightarrow> False)"

definition dict_setdefault :: "string \<Rightarrow> json \<Rightarrow> dict \<Rightarrow> dict" where
  "dict_setdefault k v d = (if map_of d k = None then d @ [(k, v)] else d)"

definition resume_true :: "dict \<Rightarrow> bool" where
  "resume_true d = (map_of d ''resume'' = Some (JBool True))"

definition payload_id :: "dict \<Rightarrow> string" where
  "payload_id d = (case map_of d ''task_id'' of Some (JStr t) \<Rightarrow> t | _ \<Rightarrow> [])"

text \<open>The working directory of a task: \<^verbatim>\<open>working_directory\<close>, else \<^verbatim>\<open>workspace\<close>, resolved.\<close>

definition place_task :: "(json \<Rightarrow> py_error + string) \<Rightarrow> dict \<Rightarrow> py_error + dict" where
  "place_task resolve_ws task0 =
     (let task1 = (if map_of task0 ''workspace'' \<noteq> None then dict_setdefault ''working_directory'' (JStr []) task0 else task0);
          use_dir = dict_truthy task1 ''working_directory'';
          workspace = (if use_dir then opt_or (map_of task1 ''working_directory'') (JStr [])
                       else opt_or (map_of task1 ''workspace'') (JStr []));
          task2 = (if use_dir then task1 else AList.delete ''workspace'' task1)
      in if truthy workspace
         then (case resolve_ws workspace of Inl e \<Rightarrow> Inl e | Inr p \<Rightarrow> Inr (AList.update ''working_directory'' (JStr p) task2))
         else Inr task2)"

definition validate_payload ::
  "(string \<Rightarrow> string option) \<Rightarrow> (json \<Rightarrow> py_error + string) \<Rightarrow> json \<Rightarrow> py_error + dict" where
  "validate_payload model_error resolve_ws payload =
     (case payload of
        JObj d \<Rightarrow>
          (case find (\<lambda>f. \<not> filled_field d f) (if resume_true d then [''task_id''] else [''task_id'', ''title'', ''description'']) of
             Some f \<Rightarrow> Inl (ValueError (''Task missing required field: '' @ f))
           | None \<Rightarrow>
             if \<not> valid_task_id (payload_id d) then Inl (ValueError ''Invalid task_id'')
             else if (case map_of d ''resume'' of None \<Rightarrow> False | Some (JBool _) \<Rightarrow> False | _ \<Rightarrow> True)
             then Inl (ValueError ''resume must be a boolean'')
             else if resume_true d
             then (if fst ` set d \<noteq> {''task_id'', ''resume''}
                   then Inl (ValueError ''Resume accepts only task_id and resume; saved execution input is immutable'')
                   else Inr d)
             else
               let task = dict_setdefault ''task_type'' (JStr ''llm'') d
               in if map_of task ''task_type'' \<noteq> Some (JStr ''llm'')
                  then Inl (ValueError ''Only LLM tasks can be published through this endpoint'')
                  else case opt_or (map_of task ''model'') (JStr []) of
                    JStr m \<Rightarrow>
                      if m \<noteq> [] \<and> model_error m \<noteq> None
                      then Inl (ValueError (''Task '' @ payload_id d @ '': '' @ opt_or (model_error m) []))
                      else (case place_task resolve_ws task of
                              Inl e \<Rightarrow> Inl e
                            | Inr task' \<Rightarrow>
                                (case opt_or (map_of task' ''depends_on'') (JArr []) of
                                   JArr xs \<Rightarrow> if list_all is_str xs then Inr task'
                                              else Inl (ValueError ''depends_on must be a list of task IDs'')
                                 | _ \<Rightarrow> Inl (ValueError ''depends_on must be a list of task IDs'')))
                  | _ \<Rightarrow> Inl (ValueError ''Task model must be a string''))
      | _ \<Rightarrow> Inl (ValueError ''Each task must be an object''))"

fun validate_each ::
  "(string \<Rightarrow> string option) \<Rightarrow> (json \<Rightarrow> py_error + string) \<Rightarrow> json list \<Rightarrow> py_error + dict list" where
  "validate_each me rw [] = Inr []"
| "validate_each me rw (p # ps) =
     (case validate_payload me rw p of
        Inl e \<Rightarrow> Inl e
      | Inr d \<Rightarrow> (case validate_each me rw ps of Inl e \<Rightarrow> Inl e | Inr ds \<Rightarrow> Inr (d # ds)))"

text \<open>The dependencies inside the batch, as they go to the topological sort.\<close>

definition batch_dag :: "dict list \<Rightarrow> dag" where
  "batch_dag prepared =
     (let ids = map payload_id prepared
      in map (\<lambda>d. (payload_id d, filter (\<lambda>x. x \<in> set ids) (depends_on d))) prepared)"

definition validate_task_dependencies :: "string list \<Rightarrow> bool \<Rightarrow> dict list \<Rightarrow> py_error + unit" where
  "validate_task_dependencies known check_membership prepared =
     (let ids = map payload_id prepared
      in if \<not> distinct ids then Inl (ValueError ''Duplicate task_id found in batch'')
         else case find (\<lambda>d. check_membership \<and> \<not> set (depends_on d) \<subseteq> set ids \<union> set known) prepared of
             Some d \<Rightarrow> Inl (ValueError (''Task '' @ payload_id d @ '' depends on unknown task_id''))
           | None \<Rightarrow> (case topological_sort (batch_dag prepared) of Inl e \<Rightarrow> Inl e | Inr _ \<Rightarrow> Inr ()))"

definition validate_task_payloads ::
  "(string \<Rightarrow> string option) \<Rightarrow> (json \<Rightarrow> py_error + string) \<Rightarrow> string list \<Rightarrow> bool \<Rightarrow> json list \<Rightarrow> py_error + dict list" where
  "validate_task_payloads me rw known check_membership payloads =
     (if payloads = [] then Inl (ValueError ''At least one task is required'')
      else case validate_each me rw payloads of
          Inl e \<Rightarrow> Inl e
        | Inr prepared \<Rightarrow>
            (case validate_task_dependencies known check_membership prepared of Inl e \<Rightarrow> Inl e | Inr _ \<Rightarrow> Inr prepared))"

section \<open>Publishing a batch\<close>

fun collect_originals ::
  "(string \<Rightarrow> string option) \<Rightarrow> (json \<Rightarrow> py_error + string) \<Rightarrow> string \<Rightarrow> (string \<times> task_entry) list \<Rightarrow> task_db
   \<Rightarrow> dict list \<Rightarrow> py_error + (string \<times> dict) list" where
  "collect_originals me rw anima existing db [] = Inr []"
| "collect_originals me rw anima existing db (p # ps) =
     (if \<not> resume_true p then collect_originals me rw anima existing db ps
      else case map_of existing (payload_id p) of
          None \<Rightarrow> Inl (ValueError (''Task not found: '' @ payload_id p))
        | Some previous \<Rightarrow>
            (case store_get_input anima (payload_id p) db of
               None \<Rightarrow> Inl (ValueError (''Task has no saved execution input: '' @ payload_id p))
             | Some original \<Rightarrow>
                 if te_status previous \<noteq> ''pending'' then Inl (ValueError ''Only an ended pending task may be resumed.'')
                 else case validate_task_payloads me rw [] False [JObj original] of
                     Inl e \<Rightarrow> Inl e
                   | Inr _ \<Rightarrow> (case collect_originals me rw anima existing db ps of
                                Inl e \<Rightarrow> Inl e | Inr os \<Rightarrow> Inr ((payload_id p, original) # os))))"

definition picked :: "string list \<Rightarrow> dict \<Rightarrow> dict" where
  "picked keys d = concat (map (\<lambda>k. case map_of d k of None \<Rightarrow> [] | Some v \<Rightarrow> [(k, v)]) keys)"

fun publish_loop ::
  "attempt_identity option \<Rightarrow> string \<Rightarrow> string \<Rightarrow> string \<Rightarrow> string \<Rightarrow> dict \<Rightarrow> (string \<times> task_entry) list
   \<Rightarrow> (string \<times> dict) list \<Rightarrow> dict list \<Rightarrow> queue_sys \<Rightarrow> (py_error + task_entry list) \<times> queue_sys" where
  "publish_loop ident now uid anima source meta existing originals [] s = (Inr [], s)"
| "publish_loop ident now uid anima source meta existing originals (p # ps) s =
     (let step =
        (if resume_true p
         then (case (map_of existing (payload_id p), map_of originals (payload_id p)) of
                 (Some previous, Some original) \<Rightarrow>
                   (case store_submit ident now now anima previous original True (qs_db s) of
                      Inl e \<Rightarrow> (Inl e, s)
                    | Inr (_, db) \<Rightarrow>
                        ((case map_of (store_read anima False db) (payload_id p) of
                            None \<Rightarrow> Inl (KeyError (payload_id p)) | Some e \<Rightarrow> Inr e), s\<lparr>qs_db := db\<rparr>))
               | _ \<Rightarrow> (Inl (KeyError (payload_id p)), s))
         else (case queue_submit ident now uid anima p source
                      (dict_merge meta (picked [''model'', ''batch_id'', ''depends_on'', ''parallel''] p)) False s of
                 (Inl e, s1) \<Rightarrow> (Inl e, s1)
               | (Inr _, s1) \<Rightarrow>
                   ((case map_of (load_all anima True s1) (payload_id p) of
                       None \<Rightarrow> Inl (KeyError (payload_id p)) | Some e \<Rightarrow> Inr e), s1)))
      in case step of
           (Inl e, s1) \<Rightarrow> (Inl e, s1)
         | (Inr x, s1) \<Rightarrow>
             (case publish_loop ident now uid anima source meta existing originals ps s1 of
                (Inl e, s2) \<Rightarrow> (Inl e, s2)
              | (Inr xs, s2) \<Rightarrow> (Inr (x # xs), s2)))"

definition publish_local ::
  "(string \<Rightarrow> string option) \<Rightarrow> (json \<Rightarrow> py_error + string) \<Rightarrow> attempt_identity option \<Rightarrow> string \<Rightarrow> string \<Rightarrow> string
   \<Rightarrow> string \<Rightarrow> string \<Rightarrow> dict \<Rightarrow> dict list \<Rightarrow> queue_sys \<Rightarrow> (py_error + task_entry list) \<times> queue_sys" where
  "publish_local me rw ident now later uid anima source meta prepared =
     queue_transaction later (\<lambda>s.
       let existing = load_all anima True s
       in case collect_originals me rw anima existing (qs_db s) prepared of
            Inl e \<Rightarrow> (Inl e, s)
          | Inr originals \<Rightarrow>
              (case validate_task_dependencies (map fst existing) True
                      (map (\<lambda>p. opt_or (map_of originals (payload_id p)) p) prepared) of
                 Inl e \<Rightarrow> (Inl e, s)
               | Inr _ \<Rightarrow> publish_loop ident now uid anima source meta existing originals prepared s))"

datatype 'a published = Local 'a | Remote json

text \<open>The common way out: \<open>local\<close> runs when the databases are accessible; a denied access is posted, any other
  fault is raised.\<close>

definition local_or_host ::
  "exc_heap \<Rightarrow> nat option \<Rightarrow> bool \<Rightarrow> (queue_sys \<Rightarrow> (py_error + 'a) \<times> queue_sys) \<Rightarrow> ('r \<Rightarrow> http_outcome \<times> 'r)
   \<Rightarrow> queue_sys \<Rightarrow> 'r \<Rightarrow> (py_error + 'a published) \<times> queue_sys \<times> 'r" where
  "local_or_host h fault host_fallback here send s r =
     (case fault of
        None \<Rightarrow> (case here s of (Inl e, s') \<Rightarrow> (Inl e, s', r) | (Inr x, s') \<Rightarrow> (Inr (Local x), s', r))
      | Some i \<Rightarrow>
          if \<not> host_fallback \<or> \<not> is_task_permission_error h i then (Inl (StorageError ''task store''), s, r)
          else (case post_tasks send r of (Inl e, r') \<Rightarrow> (Inl e, s, r') | (Inr j, r') \<Rightarrow> (Inr (Remote j), s, r')))"

definition publish_tasks ::
  "(string \<Rightarrow> string option) \<Rightarrow> (json \<Rightarrow> py_error + string) \<Rightarrow> attempt_identity option \<Rightarrow> string \<Rightarrow> string \<Rightarrow> string
   \<Rightarrow> exc_heap \<Rightarrow> nat option \<Rightarrow> bool \<Rightarrow> (dict list \<Rightarrow> 'r \<Rightarrow> http_outcome \<times> 'r)
   \<Rightarrow> string \<Rightarrow> json list \<Rightarrow> string \<Rightarrow> dict \<Rightarrow> queue_sys \<Rightarrow> 'r
   \<Rightarrow> (py_error + task_entry list published) \<times> queue_sys \<times> 'r" where
  "publish_tasks me rw ident now later uid h fault host_fallback send anima payloads source meta s r =
     (case validate_task_payloads me rw [] False payloads of
        Inl e \<Rightarrow> (Inl e, s, r)
      | Inr prepared \<Rightarrow>
          if source \<notin> {''human'', ''anima''} then (Inl (ValueError ''Invalid task source''), s, r)
          else local_or_host h fault host_fallback (publish_local me rw ident now later uid anima source meta prepared)
                 (send prepared) s r)"

definition publish_delegation ::
  "(string \<Rightarrow> string option) \<Rightarrow> (json \<Rightarrow> py_error + string) \<Rightarrow> attempt_identity option \<Rightarrow> string \<Rightarrow> string \<Rightarrow> string
   \<Rightarrow> exc_heap \<Rightarrow> nat option \<Rightarrow> bool \<Rightarrow> (dict \<Rightarrow> 'r \<Rightarrow> http_outcome \<times> 'r)
   \<Rightarrow> string \<Rightarrow> dict \<Rightarrow> string \<Rightarrow> string \<Rightarrow> queue_sys \<Rightarrow> 'r
   \<Rightarrow> (py_error + bool) \<times> queue_sys \<times> 'r" where
  "publish_delegation me rw ident now later uid h fault host_fallback send target payload delegator tracking s r =
     (case validate_task_payloads me rw [] True [JObj payload] of
        Inl e \<Rightarrow> (Inl e, s, r)
      | Inr prepareds \<Rightarrow>
          (let prepared = dict_setdefault ''relay_chain'' (JArr [JStr delegator]) (hd prepareds);
               here = queue_transaction later (\<lambda>s.
                 case queue_submit ident now uid target prepared ''anima''
                        [(''model'', opt_or (map_of payload ''model'') (JStr []))] False s of
                   (Inl e, s1) \<Rightarrow> (Inl e, s1)
                 | (Inr _, s1) \<Rightarrow>
                     (case store_alias delegator tracking target (payload_id payload) (qs_db s1) of
                        Inl e \<Rightarrow> (Inl e, s1)
                      | Inr db \<Rightarrow> (Inr (), s1\<lparr>qs_db := db\<rparr>)))
           in case local_or_host h fault host_fallback here (send prepared) s r of
                (Inl e, s', r') \<Rightarrow> (Inl e, s', r')
              | (Inr (Local _), s', r') \<Rightarrow> (Inr False, s', r')
              | (Inr (Remote _), s', r') \<Rightarrow> (Inr True, s', r')))"

definition direct_payload :: "string \<Rightarrow> string \<Rightarrow> string \<Rightarrow> string \<Rightarrow> string \<Rightarrow> string option \<Rightarrow> dict" where
  "direct_payload submitted_at tid summary instruction submitted_by model =
     [(''task_type'', JStr ''llm''), (''task_id'', JStr tid), (''title'', JStr summary), (''description'', JStr instruction),
      (''context'', JStr []), (''acceptance_criteria'', JArr []), (''constraints'', JArr []), (''file_paths'', JArr []),
      (''submitted_by'', JStr submitted_by), (''submitted_at'', JStr submitted_at), (''reply_to'', JStr []),
      (''source'', JStr ''delegation''), (''working_directory'', JStr [])] @
     (if opt_truthy model then [(''model'', JStr (opt_or model []))] else [])"

definition dispatch_direct_task ::
  "(string \<Rightarrow> string option) \<Rightarrow> (json \<Rightarrow> py_error + string) \<Rightarrow> attempt_identity option \<Rightarrow> string \<Rightarrow> string \<Rightarrow> string
   \<Rightarrow> string \<Rightarrow> (string \<Rightarrow> bool) \<Rightarrow> string \<Rightarrow> string \<Rightarrow> string \<Rightarrow> string \<Rightarrow> string \<Rightarrow> dict \<Rightarrow> string option \<Rightarrow> queue_sys
   \<Rightarrow> (py_error + bool) \<times> queue_sys" where
  "dispatch_direct_task me rw ident now later uid submitted_at is_dir target tid summary instruction submitted_by meta model s =
     (if \<not> is_dir target then (Inl (ValueError (''Anima directory not found: '' @ target)), s)
      else
        let task_meta0 = dict_merge meta [(''origin'', JStr ''github-event''), (''executor'', JStr ''taskexec'')];
            task_meta = (if opt_truthy model then AList.update ''model'' (JStr (opt_or model [])) task_meta0 else task_meta0)
        in case validate_task_payloads me rw [] True
                  [JObj (direct_payload submitted_at tid summary instruction submitted_by model)] of
             Inl e \<Rightarrow> (Inl e, s)
           | Inr prepared \<Rightarrow>
               queue_transaction later (\<lambda>s.
                 if store_get target tid (qs_db s) \<noteq> None then (Inr False, s)
                 else case queue_submit ident now uid target (hd prepared) ''anima'' task_meta False s of
                        (Inl e, s1) \<Rightarrow> (Inl e, s1)
                      | (Inr _, s1) \<Rightarrow> (Inr True, s1)) s)"

section \<open>Declaring a result\<close>

definition update_local ::
  "attempt_identity option \<Rightarrow> string \<Rightarrow> string \<Rightarrow> string \<Rightarrow> string \<Rightarrow> string \<Rightarrow> string option \<Rightarrow> dict \<Rightarrow> bool
   \<Rightarrow> queue_sys \<Rightarrow> (py_error + task_entry option) \<times> queue_sys" where
  "update_local ident now later anima tid status summary meta resume =
     queue_transaction later (\<lambda>s.
       case (if meta = [] then (Inr (Some ()), s)
             else case update_meta ident now anima tid meta summary s of
                    (Inl e, s1) \<Rightarrow> (Inl e, s1)
                  | (Inr x, s1) \<Rightarrow> (Inr (map_option (\<lambda>_. ()) x), s1)) of
         (Inl e, s1) \<Rightarrow> (Inl e, s1)
       | (Inr None, s1) \<Rightarrow> (Inr None, s1)
       | (Inr (Some _), s1) \<Rightarrow>
           (case update_status ident now later anima tid status summary s1 of
              (Inl e, s2) \<Rightarrow> (Inl e, s2)
            | (Inr None, s2) \<Rightarrow> (Inr None, s2)
            | (Inr (Some entry), s2) \<Rightarrow>
                if resume
                then (case store_resume ident now now anima tid (qs_db s2) of
                        Inl e \<Rightarrow> (Inl e, s2)
                      | Inr (e, db) \<Rightarrow> (Inr (Some e), s2\<lparr>qs_db := db\<rparr>))
                else (Inr (Some entry), s2)))"

definition declared_meta :: "string \<Rightarrow> string \<Rightarrow> string option \<Rightarrow> dict" where
  "declared_meta now status summary =
     (if status = ''done''
      then [(''completed_by'', JStr ''agent_declaration''), (''declared_at'', JStr now)] @
           (case summary of None \<Rightarrow> [] | Some t \<Rightarrow> [(''result_note'', JStr t)])
      else [])"

definition update_task ::
  "attempt_identity option \<Rightarrow> string \<Rightarrow> string \<Rightarrow> exc_heap \<Rightarrow> nat option
   \<Rightarrow> (string option \<Rightarrow> dict \<Rightarrow> 'r \<Rightarrow> http_outcome \<times> 'r)
   \<Rightarrow> string \<Rightarrow> string \<Rightarrow> string \<Rightarrow> string option \<Rightarrow> string option \<Rightarrow> bool \<Rightarrow> queue_sys \<Rightarrow> 'r
   \<Rightarrow> (py_error + task_entry option published) \<times> queue_sys \<times> 'r" where
  "update_task ident now later h fault send anima tid status summary0 result resume s r =
     (if resume \<and> status \<noteq> ''pending'' then (Inl (ValueError ''resume requires status=pending''), s, r)
      else if status \<notin> {''pending'', ''delegated'', ''done'', ''cancelled''}
      then (Inl (ValueError (''Invalid task update status: '' @ status)), s, r)
      else
        let summary = (if result \<noteq> None then result else summary0);
            meta = declared_meta now status summary
        in case local_or_host h fault True (update_local ident now later anima tid status summary meta resume)
                  (send summary meta) s r of
             (Inr (Remote j), s', r') \<Rightarrow>
               (case j of
                  JObj d \<Rightarrow>
                    if map_of d ''ok'' = Some (JBool True) \<and> (case map_of d ''task'' of Some (JObj _) \<Rightarrow> True | _ \<Rightarrow> False)
                    then (Inr (Remote j), s', r')
                    else (Inl (TaskPersistenceError ''Unexpected response from task update host''), s', r')
                | _ \<Rightarrow> (Inl (AttributeError ''get''), s', r'))
           | x \<Rightarrow> x)"

section \<open>Chains of exceptions\<close>

definition exc_step :: "exc_heap \<Rightarrow> (nat \<times> nat) set" where
  "exc_step h = {(i, j). \<exists>n. map_of h i = Some n \<and> next_exc n = Some j}"

definition denied_at :: "exc_heap \<Rightarrow> nat \<Rightarrow> bool" where
  "denied_at h i \<longleftrightarrow> (\<exists>n. map_of h i = Some n \<and> denied_kind (ex_kind n))"

lemma permission_loop_sound:
  "permission_loop h seen cur \<Longrightarrow> \<exists>i j. cur = Some i \<and> (i, j) \<in> (exc_step h)\<^sup>* \<and> denied_at h j"
proof (induction h seen cur rule: permission_loop.induct)
  case (2 h seen i)
  then obtain n where n: "map_of h i = Some n" "i \<notin> set seen" by (auto split: if_splits option.splits)
  show ?case
  proof (cases "denied_kind (ex_kind n)")
    case True
    with n show ?thesis by (auto simp: denied_at_def)
  next
    case False
    with 2 n obtain i' j where "next_exc n = Some i'" "(i', j) \<in> (exc_step h)\<^sup>*" "denied_at h j" by auto
    moreover from this n have "(i, i') \<in> exc_step h" by (auto simp: exc_step_def)
    ultimately show ?thesis by (auto intro: converse_rtrancl_into_rtrancl)
  qed
qed simp

text \<open>When the loop gives up, what it has seen is closed under the chain and contains no denial.\<close>

lemma permission_loop_closed:
  "\<not> permission_loop h seen cur \<Longrightarrow>
   (\<And>x. x \<in> set seen \<Longrightarrow> \<not> denied_at h x) \<Longrightarrow>
   (\<And>x y. x \<in> set seen \<Longrightarrow> (x, y) \<in> exc_step h \<Longrightarrow> y \<in> set seen \<or> Some y = cur) \<Longrightarrow>
   \<exists>S. set seen \<subseteq> S \<and> set_option cur \<subseteq> S \<and> (\<forall>x \<in> S. \<not> denied_at h x) \<and> (\<forall>x \<in> S. \<forall>y. (x, y) \<in> exc_step h \<longrightarrow> y \<in> S)"
proof (induction h seen cur rule: permission_loop.induct)
  case (1 h seen)
  then show ?case by (intro exI [of _ "set seen"]) auto
next
  case (2 h seen i)
  show ?case
  proof (cases "i \<in> set seen")
    case True
    with 2 show ?thesis by (intro exI [of _ "set seen"]) auto
  next
    case new: False
    show ?thesis
    proof (cases "map_of h i")
      case None
      then have "\<not> denied_at h i" "\<And>y. (i, y) \<notin> exc_step h" by (simp_all add: denied_at_def exc_step_def)
      with 2(3,4) show ?thesis by (intro exI [of _ "insert i (set seen)"]) auto
    next
      case (Some n)
      with 2(2) new have nd: "\<not> denied_kind (ex_kind n)" and f: "\<not> permission_loop h (i # seen) (next_exc n)"
        by (auto split: if_splits)
      have "\<exists>S. set (i # seen) \<subseteq> S \<and> set_option (next_exc n) \<subseteq> S \<and> (\<forall>x \<in> S. \<not> denied_at h x) \<and>
          (\<forall>x \<in> S. \<forall>y. (x, y) \<in> exc_step h \<longrightarrow> y \<in> S)"
      proof (rule "2.IH" [OF new Some nd f])
        show "\<not> denied_at h x" if "x \<in> set (i # seen)" for x
          using that 2(3) Some nd by (auto simp: denied_at_def)
        show "y \<in> set (i # seen) \<or> Some y = next_exc n" if "x \<in> set (i # seen)" "(x, y) \<in> exc_step h" for x y
        proof (cases "x = i")
          case True
          with that(2) Some show ?thesis by (auto simp: exc_step_def)
        next
          case False
          with that 2(4) [of x y] show ?thesis by auto
        qed
      qed
      then show ?thesis by auto
    qed
  qed
qed

section \<open>Publishing again\<close>

definition is_published :: "task_db \<Rightarrow> string \<Rightarrow> string \<Rightarrow> bool" where
  "is_published db a t \<longleftrightarrow> (\<exists>x. get_row db a t = Some x \<and> (opt_truthy (row_attempt x) \<or> row_input x \<noteq> None))"

lemma get_row_publish_row:
  "get_row (publish_row a e p db) a' t' =
     (if (a', t') = (a, te_task_id e)
      then Some (case get_row db a t' of None \<Rightarrow> (blank_row a e)\<lparr>row_input := Some p, row_ready := True\<rparr>
                 | Some x \<Rightarrow> x\<lparr>row_entry := e, row_input := Some p, row_ready := True, row_archived := False\<rparr>)
      else get_row db a' t')"
proof (cases "(a', t') = (a, te_task_id e)")
  case True
  then show ?thesis using publish_row_get [of a e p db] by simp
next
  case False
  have k: "task_key (blank_row a e) = (a, te_task_id e)"
    by (simp add: task_key_def blank_row_def)
  from False show ?thesis
    unfolding get_row_def publish_row_def by (auto simp: row_find_upsert k split: option.splits)
qed

lemma submit_result:
  assumes "store_submit None n n' a e p rs db = Inr (b, db')"
  shows "db' = (if b then ack_task_wakeups n' a (te_task_id e)
    (publish_row a (e\<lparr>te_status := ''pending'', te_updated_at := n\<rparr>) p db) else db)"
  using assms by (auto simp: store_submit_def Let_def split: if_splits option.splits)

lemma publish_aliases:
  "db_aliases (ack_task_wakeups n a t db) = db_aliases db" "db_aliases (publish_row a e p db) = db_aliases db"
  by (simp_all add: ack_task_wakeups_def publish_row_def)

lemma submit_rows:
  assumes "store_submit None n n' a e p rs db = Inr (b, db')"
  shows "db_aliases db' = db_aliases db" "(a', t') \<noteq> (a, te_task_id e) \<Longrightarrow> get_row db' a' t' = get_row db a' t'"
    "get_row db a' t' \<noteq> None \<Longrightarrow> get_row db' a' t' \<noteq> None"
    "is_published db a' t' \<Longrightarrow> is_published db' a' t'"
  using submit_result [OF assms]
  by (auto simp: is_published_def get_row_publish_row publish_aliases split: if_splits option.splits)

lemma submit_publishes:
  assumes "store_submit None n n' a e p False db = Inr (b, db')"
  shows "is_published db' a (te_task_id e)"
proof (cases b)
  case True
  with submit_result [OF assms] show ?thesis
    by (auto simp: is_published_def get_row_publish_row split: option.splits)
next
  case False
  with assms show ?thesis by (auto simp: is_published_def store_submit_def Let_def split: if_splits option.splits)
qed

lemma submit_published:
  assumes "is_published db a (te_task_id e)" "map_of p ''task_id'' = Some (JStr (te_task_id e))"
  shows "store_submit None n n' a e p False db = Inr (False, db)"
  using assms by (auto simp: is_published_def store_submit_def stale_identity_def)

lemma submission_id:
  assumes "submission now uid a p src meta = Inr (tid, e)" "payload_id p \<noteq> []"
  shows "tid = payload_id p \<and> te_task_id e = payload_id p"
proof -
  obtain t where t: "map_of p ''task_id'' = Some (JStr t)" "payload_id p = t"
    using assms(2) by (auto simp: payload_id_def split: option.splits json.splits)
  with assms show ?thesis
    by (auto simp: submission_def payload_str_def build_task_entry_def opt_truthy_def split: sum.splits option.splits if_splits)
qed

lemma submission_any:
  assumes "submission now uid a p src meta = Inr (tid, e)"
  obtains e' where "submission now' uid' a p src meta' = Inr (tid, e')"
  using assms
  by (auto simp: submission_def build_task_entry_def split: sum.splits option.splits if_splits)

lemma payload_id_key: "payload_id p \<noteq> [] \<Longrightarrow> map_of p ''task_id'' = Some (JStr (payload_id p))"
  by (auto simp: payload_id_def split: option.splits json.splits)

lemma read_present:
  assumes "ledger_inv db" "get_row db a t \<noteq> None"
  obtains v where "map_of (store_read a True db) t = Some v" "te_task_id v = t"
proof -
  have "read_view a True db t \<noteq> None" using assms(2) by (auto simp: read_view_def split: option.splits)
  with that store_read_lookup [OF assms(1)] read_view_id [OF assms(1)] show ?thesis by fastforce
qed

text \<open>One payload: what a first submission leaves behind, and that a second one finds it.\<close>

lemma queue_submit_first:
  assumes ok: "queue_submit None now uid a p src meta False s = (Inr x, s1)" and pid: "payload_id p \<noteq> []"
  obtains e b where "submission now uid a p src meta = Inr (payload_id p, e)" "te_task_id e = payload_id p"
    "store_submit None now now a e p False (qs_db s) = Inr (b, qs_db s1)" "s1 = s\<lparr>qs_db := qs_db s1\<rparr>"
proof -
  obtain tid e where e: "submission now uid a p src meta = Inr (tid, e)"
    using ok by (auto simp: queue_submit_def split: sum.splits)
  moreover obtain b db where "store_submit None now now a e p False (qs_db s) = Inr (b, db)" "s1 = s\<lparr>qs_db := db\<rparr>"
    using ok e by (auto simp: queue_submit_def split: sum.splits)
  ultimately show ?thesis using that submission_id [OF e pid] by auto
qed

lemma queue_submit_again:
  assumes e: "submission now uid a p src meta = Inr (payload_id p, e)" and pid: "payload_id p \<noteq> []"
    and pub: "is_published (qs_db s) a (payload_id p)" and inv: "ledger_inv (qs_db s)"
  obtains y where "queue_submit None now' uid' a p src meta' False s = (Inr y, s)" "te_task_id y = payload_id p"
proof -
  obtain e' where e': "submission now' uid' a p src meta' = Inr (payload_id p, e')"
    using submission_any [OF e] by blast
  then have id: "te_task_id e' = payload_id p" using submission_id pid by blast
  with pub have "store_submit None now' now' a e' p False (qs_db s) = Inr (False, qs_db s)"
    using payload_id_key [OF pid] by (intro submit_published) auto
  moreover have "get_row (qs_db s) a (payload_id p) \<noteq> None" using pub by (auto simp: is_published_def)
  with inv obtain v where "map_of (store_read a True (qs_db s)) (payload_id p) = Some v" "te_task_id v = payload_id p"
    by (rule read_present)
  ultimately show ?thesis using that e' by (simp add: queue_submit_def)
qed

text \<open>What publishing may change: tasks are added or get their input, nothing disappears.\<close>

definition grows :: "string \<Rightarrow> string set \<Rightarrow> task_db \<Rightarrow> task_db \<Rightarrow> bool" where
  "grows a ids db db' \<longleftrightarrow> ledger_inv db' \<and> db_aliases db' = db_aliases db \<and>
     (\<forall>x t. get_row db x t \<noteq> None \<longrightarrow> get_row db' x t \<noteq> None) \<and>
     (\<forall>x t. is_published db x t \<longrightarrow> is_published db' x t) \<and>
     (\<forall>x t. x \<noteq> a \<or> t \<notin> ids \<longrightarrow> get_row db' x t = get_row db x t)"

lemma grows_refl: "ledger_inv db \<Longrightarrow> grows a {} db db"
  by (simp add: grows_def)

lemma grows_trans: "grows a I db1 db2 \<Longrightarrow> grows a J db2 db3 \<Longrightarrow> grows a (I \<union> J) db1 db3"
  by (auto simp: grows_def)

lemma submit_grows:
  assumes ok: "store_submit None n n' a e p rs db = Inr (b, db')" and inv: "ledger_inv db"
  shows "grows a {te_task_id e} db db'"
  using submit_rows [OF ok] ledger.inv_step [OF step_submit [OF ok] inv] by (auto simp: grows_def)

definition plain_batch :: "dict list \<Rightarrow> bool" where
  "plain_batch ps \<longleftrightarrow> (\<forall>p \<in> set ps. \<not> resume_true p \<and> payload_id p \<noteq> [])"

lemma publish_loop_first:
  "publish_loop None now uid a src meta ex os ps s = (Inr xs, s1) \<Longrightarrow> plain_batch ps \<Longrightarrow> ledger_inv (qs_db s) \<Longrightarrow>
   grows a (payload_id ` set ps) (qs_db s) (qs_db s1) \<and> s1 = s\<lparr>qs_db := qs_db s1\<rparr> \<and>
   map te_task_id xs = map payload_id ps \<and>
   (\<forall>p \<in> set ps. is_published (qs_db s1) a (payload_id p) \<and> (\<exists>e. submission now uid a p src [] = Inr (payload_id p, e)))"
proof (induction ps arbitrary: s xs)
  case Nil
  then show ?case by (simp add: grows_refl)
next
  case (Cons p ps)
  let ?m = "dict_merge meta (picked [''model'', ''batch_id'', ''depends_on'', ''parallel''] p)"
  have nr: "\<not> resume_true p" and pid: "payload_id p \<noteq> []" and ps: "plain_batch ps"
    using Cons.prems(2) by (simp_all add: plain_batch_def)
  obtain y s0 where q: "queue_submit None now uid a p src ?m False s = (Inr y, s0)"
    using Cons.prems(1) nr by (auto simp: Let_def split: prod.splits sum.splits)
  obtain x where x: "map_of (load_all a True s0) (payload_id p) = Some x"
    using Cons.prems(1) nr q by (auto simp: Let_def split: prod.splits sum.splits option.splits)
  obtain xs' where rest: "publish_loop None now uid a src meta ex os ps s0 = (Inr xs', s1)" "xs = x # xs'"
    using Cons.prems(1) nr q x by (auto simp: Let_def split: prod.splits sum.splits)
  obtain e b where e: "submission now uid a p src ?m = Inr (payload_id p, e)" "te_task_id e = payload_id p"
      "store_submit None now now a e p False (qs_db s) = Inr (b, qs_db s0)" "s0 = s\<lparr>qs_db := qs_db s0\<rparr>"
    by (rule queue_submit_first [OF q pid])
  have g: "grows a {payload_id p} (qs_db s) (qs_db s0)" using submit_grows [OF e(3) Cons.prems(3)] e(2) by simp
  then have inv0: "ledger_inv (qs_db s0)" by (simp add: grows_def)
  note IH = Cons.IH [OF rest(1) ps inv0]
  have pub: "is_published (qs_db s0) a (payload_id p)" using submit_publishes [OF e(3)] e(2) by simp
  have "te_task_id x = payload_id p"
    using x read_view_id [OF inv0] by (simp add: load_all_def store_read_lookup [OF inv0])
  moreover have "\<exists>e. submission now uid a p src [] = Inr (payload_id p, e)"
    using submission_any [OF e(1)] by blast
  moreover have "grows a (payload_id ` set (p # ps)) (qs_db s) (qs_db s1)"
    using grows_trans [OF g] IH by force
  moreover have "is_published (qs_db s1) a (payload_id p)" using pub IH by (auto simp: grows_def)
  moreover have "s1 = s\<lparr>qs_db := qs_db s1\<rparr>" using IH e(4) by (metis queue_sys.update_convs(1) queue_sys.surjective)
  ultimately show ?case using IH rest(2) by simp
qed

lemma publish_loop_again:
  "plain_batch ps \<Longrightarrow> ledger_inv (qs_db s) \<Longrightarrow>
   (\<And>p. p \<in> set ps \<Longrightarrow> is_published (qs_db s) a (payload_id p) \<and> (\<exists>e. submission now uid a p src [] = Inr (payload_id p, e))) \<Longrightarrow>
   \<exists>ys. publish_loop None now' uid' a src meta ex os ps s = (Inr ys, s) \<and> map te_task_id ys = map payload_id ps"
proof (induction ps)
  case Nil
  then show ?case by simp
next
  case (Cons p ps)
  have nr: "\<not> resume_true p" and pid: "payload_id p \<noteq> []" using Cons.prems(1) by (simp_all add: plain_batch_def)
  obtain e where e: "submission now uid a p src [] = Inr (payload_id p, e)" and pub: "is_published (qs_db s) a (payload_id p)"
    using Cons.prems(3) by auto
  obtain y where y: "queue_submit None now' uid' a p src
      (dict_merge meta (picked [''model'', ''batch_id'', ''depends_on'', ''parallel''] p)) False s = (Inr y, s)"
    using queue_submit_again [OF e pid pub Cons.prems(2)] by blast
  have "get_row (qs_db s) a (payload_id p) \<noteq> None" using pub by (auto simp: is_published_def)
  with Cons.prems(2) obtain v where v: "map_of (store_read a True (qs_db s)) (payload_id p) = Some v" "te_task_id v = payload_id p"
    by (rule read_present)
  obtain ys where "publish_loop None now' uid' a src meta ex os ps s = (Inr ys, s)" "map te_task_id ys = map payload_id ps"
    using Cons by (auto simp: plain_batch_def)
  with nr y v show ?case by (simp add: load_all_def)
qed

section \<open>Facts on validated batches\<close>

lemma map_of_setdefault: "k' \<noteq> k \<Longrightarrow> map_of (dict_setdefault k v d) k' = map_of d k'"
  by (auto simp: dict_setdefault_def map_add_def split: option.splits)

lemma place_task_other:
  "place_task rw d = Inr d' \<Longrightarrow> k \<notin> {''workspace'', ''working_directory''} \<Longrightarrow> map_of d' k = map_of d k"
  by (auto simp: place_task_def Let_def map_of_setdefault update_conv delete_conv
      split: if_splits sum.splits)

lemma validated_payload:
  assumes "validate_payload me rw (JObj d) = Inr d'"
  shows "payload_id d' = payload_id d" "resume_true d' = resume_true d" "valid_task_id (payload_id d')"
    "\<not> resume_true d \<Longrightarrow> (\<exists>xs. opt_or (map_of d' ''depends_on'') (JArr []) = JArr xs \<and> list_all is_str xs)"
proof -
  have *: "map_of d' ''task_id'' = map_of d ''task_id'' \<and> map_of d' ''resume'' = map_of d ''resume'' \<and> valid_task_id (payload_id d) \<and>
     (\<not> resume_true d \<longrightarrow> (\<exists>xs. opt_or (map_of d' ''depends_on'') (JArr []) = JArr xs \<and> list_all is_str xs))"
    using assms
    by (auto simp: validate_payload_def Let_def map_of_setdefault place_task_other
        split: option.splits if_splits json.splits sum.splits)
  then show "payload_id d' = payload_id d" "resume_true d' = resume_true d" "valid_task_id (payload_id d')"
    "\<not> resume_true d \<Longrightarrow> (\<exists>xs. opt_or (map_of d' ''depends_on'') (JArr []) = JArr xs \<and> list_all is_str xs)"
    by (auto simp: payload_id_def resume_true_def)
qed

lemma validate_each_origin:
  "validate_each me rw ps = Inr ds \<Longrightarrow> d \<in> set ds \<Longrightarrow> \<exists>d0. JObj d0 \<in> set ps \<and> validate_payload me rw (JObj d0) = Inr d"
proof (induction ps arbitrary: ds)
  case (Cons p ps)
  then obtain e ds' where e: "validate_payload me rw p = Inr e" "validate_each me rw ps = Inr ds'" "ds = e # ds'"
    by (auto split: sum.splits)
  moreover obtain d0 where "p = JObj d0" using e(1) by (auto simp: validate_payload_def split: json.splits)
  ultimately show ?case using Cons.IH [OF e(2)] Cons.prems(2) by auto
qed simp

lemma validated_plain:
  assumes ok: "validate_task_payloads me rw k c ps = Inr ds" and nr: "\<And>d. JObj d \<in> set ps \<Longrightarrow> \<not> resume_true d"
  shows "plain_batch ds"
proof -
  have e: "validate_each me rw ps = Inr ds"
    using ok by (auto simp: validate_task_payloads_def split: if_splits sum.splits)
  have "\<not> resume_true d \<and> payload_id d \<noteq> []" if d: "d \<in> set ds" for d
  proof -
    obtain d0 where "JObj d0 \<in> set ps" "validate_payload me rw (JObj d0) = Inr d"
      using validate_each_origin [OF e d] by blast
    with nr validated_payload [of me rw d0 d] show ?thesis by (auto simp: valid_task_id_def)
  qed
  then show ?thesis by (simp add: plain_batch_def)
qed

lemma collect_plain: "plain_batch ps \<Longrightarrow> collect_originals me rw a ex db ps = Inr []"
  by (induction ps) (auto simp: plain_batch_def)

lemma dependencies_mono:
  "validate_task_dependencies k True ps = Inr () \<Longrightarrow> set k \<subseteq> set k' \<Longrightarrow> validate_task_dependencies k' True ps = Inr ()"
  by (auto simp: validate_task_dependencies_def Let_def find_None_iff find_Some_iff2
      split: if_splits option.splits sum.splits)

lemma read_view_present:
  "read_view a True db t \<noteq> None \<longleftrightarrow>
     (\<exists>al. row_find alias_key (a, t) (db_aliases db) = Some al \<and> get_row db (al_anima al) (al_task_id al) \<noteq> None) \<or>
     get_row db a t \<noteq> None"
  by (auto simp: read_view_def bind_eq_Some_conv split: option.splits)

lemma read_keys_grow:
  assumes "grows a I db db'" "ledger_inv db"
  shows "fst ` set (store_read a True db) \<subseteq> fst ` set (store_read a True db')"
proof
  fix t assume "t \<in> fst ` set (store_read a True db)"
  then have "read_view a True db t \<noteq> None"
    using store_read_lookup [OF assms(2), of a True t] by (metis map_of_eq_None_iff)
  then have "read_view a True db' t \<noteq> None"
    using assms(1) unfolding read_view_present grows_def by fastforce
  moreover have "ledger_inv db'" using assms(1) by (simp add: grows_def)
  ultimately show "t \<in> fst ` set (store_read a True db')"
    using store_read_lookup [of db' a True t] by (metis map_of_eq_None_iff)
qed

lemma publish_local_first:
  assumes ok: "publish_local me rw None now later uid a src meta ps s = (Inr xs, s1)"
    and plain: "plain_batch ps" and inv: "ledger_inv (qs_db s)" and closed: "\<not> qs_open s"
  shows "validate_task_dependencies (map fst (load_all a True s)) True ps = Inr ()"
    and "grows a (payload_id ` set ps) (qs_db s) (qs_db s1)"
    and "s1 = s\<lparr>qs_db := qs_db s1, qs_after := []\<rparr>"
    and "map te_task_id xs = map payload_id ps"
    and "\<And>p. p \<in> set ps \<Longrightarrow> is_published (qs_db s1) a (payload_id p) \<and> (\<exists>e. submission now uid a p src [] = Inr (payload_id p, e))"
proof -
  let ?s = "s\<lparr>qs_open := True, qs_after := []\<rparr>"
  have l: "load_all a True ?s = load_all a True s" by (simp add: load_all_def)
  obtain s2 where v: "validate_task_dependencies (map fst (load_all a True s)) True ps = Inr ()"
    and loop: "publish_loop None now uid a src meta (load_all a True s) [] ps ?s = (Inr xs, s2)"
    and s1: "s1 = s2\<lparr>qs_board := foldl (\<lambda>b c. run_sync later c b) (qs_board s2) (qs_after s2), qs_open := False, qs_after := []\<rparr>"
    using ok closed by (auto simp: publish_local_def queue_transaction_def l collect_plain [OF plain] Let_def
        split: sum.splits prod.splits)
  have "ledger_inv (qs_db ?s)" using inv by simp
  note f = publish_loop_first [OF loop plain this]
  have e2: "s2 = ?s\<lparr>qs_db := qs_db s2\<rparr>" using f by blast
  have s2: "qs_board s2 = qs_board s" "qs_after s2 = []"
    using arg_cong [OF e2, of qs_board] arg_cong [OF e2, of qs_after] by simp_all
  show "validate_task_dependencies (map fst (load_all a True s)) True ps = Inr ()" by (fact v)
  show "grows a (payload_id ` set ps) (qs_db s) (qs_db s1)" "map te_task_id xs = map payload_id ps"
    and "\<And>p. p \<in> set ps \<Longrightarrow> is_published (qs_db s1) a (payload_id p) \<and> (\<exists>e. submission now uid a p src [] = Inr (payload_id p, e))"
    using f by (simp_all add: s1)
  show "s1 = s\<lparr>qs_db := qs_db s1, qs_after := []\<rparr>" using s2 closed e2 unfolding s1 by (cases s; cases s2) auto
qed

lemma publish_local_again:
  assumes ok: "publish_local me rw None now later uid a src meta ps s = (Inr xs, s1)"
    and plain: "plain_batch ps" and inv: "ledger_inv (qs_db s)" and closed: "\<not> qs_open s"
  shows "\<exists>ys. publish_local me rw None now' later' uid' a src meta ps s1 = (Inr ys, s1) \<and> map te_task_id ys = map payload_id ps"
proof -
  note f = publish_local_first [OF ok plain inv closed]
  let ?s = "s1\<lparr>qs_open := True, qs_after := []\<rparr>"
  have c1: "\<not> qs_open s1" "qs_after s1 = []"
    using arg_cong [OF f(3), of qs_open] arg_cong [OF f(3), of qs_after] closed by simp_all
  have l: "load_all a True ?s = load_all a True s1" by (simp add: load_all_def)
  have "set (map fst (load_all a True s)) \<subseteq> set (map fst (load_all a True s1))"
    using read_keys_grow [OF f(2) inv] by (simp add: load_all_def)
  with f(1) have v: "validate_task_dependencies (map fst (load_all a True s1)) True ps = Inr ()" by (rule dependencies_mono)
  have "ledger_inv (qs_db ?s)" using f(2) by (simp add: grows_def)
  from publish_loop_again [OF plain this, of a now uid src now' uid' meta "load_all a True s1" "[]"] f(5)
  obtain ys where ys: "publish_loop None now' uid' a src meta (load_all a True s1) [] ps ?s = (Inr ys, ?s)"
    "map te_task_id ys = map payload_id ps" by auto
  then have "publish_local me rw None now' later' uid' a src meta ps s1 = (Inr ys, ?s\<lparr>qs_open := False, qs_after := []\<rparr>)"
    using c1 v by (simp add: publish_local_def queue_transaction_def l collect_plain [OF plain] Let_def)
  moreover have "?s\<lparr>qs_open := False, qs_after := []\<rparr> = s1" using c1 by (cases s1) simp
  ultimately show ?thesis using ys by simp
qed

lemma queue_submit_new:
  assumes ok: "queue_submit None now uid a p src meta False s = (Inr x, s1)" and pid: "payload_id p \<noteq> []"
    and new: "get_row (qs_db s) a (payload_id p) = None"
  shows "\<exists>r. get_row (qs_db s1) a (payload_id p) = Some r \<and> row_input r = Some p \<and> row_ready r \<and> row_status r = ''pending'' \<and>
    row_attempt r = None \<and> \<not> row_archived r"
proof -
  obtain e b where e: "te_task_id e = payload_id p" "store_submit None now now a e p False (qs_db s) = Inr (b, qs_db s1)"
    by (rule queue_submit_first [OF ok pid])
  have b: "b" using e new by (auto simp: store_submit_def Let_def split: if_splits)
  show ?thesis
    using submit_result [OF e(2)] b new e(1) by (simp add: get_row_publish_row blank_row_def row_status_def)
qed

lemma publish_loop_new:
  "publish_loop None now uid a src meta ex os ps s = (Inr xs, s1) \<Longrightarrow> plain_batch ps \<Longrightarrow> ledger_inv (qs_db s) \<Longrightarrow>
   distinct (map payload_id ps) \<Longrightarrow> p \<in> set ps \<Longrightarrow> get_row (qs_db s) a (payload_id p) = None \<Longrightarrow>
   \<exists>r. get_row (qs_db s1) a (payload_id p) = Some r \<and> row_input r = Some p \<and> row_ready r \<and> row_status r = ''pending'' \<and>
     row_attempt r = None \<and> \<not> row_archived r"
proof (induction ps arbitrary: s xs)
  case (Cons q ps)
  let ?m = "dict_merge meta (picked [''model'', ''batch_id'', ''depends_on'', ''parallel''] q)"
  have nr: "\<not> resume_true q" and pid: "payload_id q \<noteq> []" and ps: "plain_batch ps"
    using Cons.prems(2) by (simp_all add: plain_batch_def)
  obtain y s0 where q: "queue_submit None now uid a q src ?m False s = (Inr y, s0)"
    using Cons.prems(1) nr by (auto simp: Let_def split: prod.splits sum.splits)
  obtain xs' where rest: "publish_loop None now uid a src meta ex os ps s0 = (Inr xs', s1)"
    using Cons.prems(1) nr q by (auto simp: Let_def split: prod.splits sum.splits option.splits)
  obtain e b where e: "te_task_id e = payload_id q" "store_submit None now now a e q False (qs_db s) = Inr (b, qs_db s0)"
    by (rule queue_submit_first [OF q pid])
  have g: "grows a {payload_id q} (qs_db s) (qs_db s0)" using submit_grows [OF e(2) Cons.prems(3)] e(1) by simp
  then have inv0: "ledger_inv (qs_db s0)" by (simp add: grows_def)
  show ?case
  proof (cases "p = q")
    case True
    have "payload_id q \<notin> payload_id ` set ps" using Cons.prems(4) by auto
    then have "get_row (qs_db s1) a (payload_id q) = get_row (qs_db s0) a (payload_id q)"
      using publish_loop_first [OF rest ps inv0] by (auto simp: grows_def)
    with True Cons.prems(6) queue_submit_new [OF q pid] show ?thesis by simp
  next
    case False
    with Cons.prems(5) have p: "p \<in> set ps" by simp
    have "payload_id p \<in> payload_id ` set ps" using p by blast
    then have "payload_id p \<noteq> payload_id q" using Cons.prems(4) by auto
    then have "get_row (qs_db s0) a (payload_id p) = None" using g Cons.prems(6) by (auto simp: grows_def)
    with Cons.IH [OF rest ps inv0 _ p] Cons.prems(4) show ?thesis by simp
  qed
qed simp

lemma publish_local_new:
  assumes ok: "publish_local me rw None now later uid a src meta ps s = (Inr xs, s1)"
    and plain: "plain_batch ps" and inv: "ledger_inv (qs_db s)" and closed: "\<not> qs_open s"
    and p: "p \<in> set ps" "get_row (qs_db s) a (payload_id p) = None"
  shows "\<exists>r. get_row (qs_db s1) a (payload_id p) = Some r \<and> row_input r = Some p \<and> row_ready r \<and> row_status r = ''pending'' \<and>
    row_attempt r = None \<and> \<not> row_archived r"
proof -
  let ?s = "s\<lparr>qs_open := True, qs_after := []\<rparr>"
  have l: "load_all a True ?s = load_all a True s" by (simp add: load_all_def)
  obtain s2 where loop: "publish_loop None now uid a src meta (load_all a True s) [] ps ?s = (Inr xs, s2)"
    and s1: "qs_db s1 = qs_db s2"
    using ok closed by (auto simp: publish_local_def queue_transaction_def l collect_plain [OF plain] Let_def
        split: sum.splits prod.splits)
  have "distinct (map payload_id ps)"
    using publish_local_first(1) [OF ok plain inv closed]
    by (auto simp: validate_task_dependencies_def Let_def split: if_splits)
  from publish_loop_new [OF loop plain _ this p(1)] inv p(2) show ?thesis by (simp add: s1)
qed

lemma queue_submit_board: "qs_board (snd (queue_submit i n u a p src m rs s)) = qs_board s"
  by (auto simp: queue_submit_def split: sum.splits)

lemma publish_loop_board:
  "plain_batch ps \<Longrightarrow> qs_board (snd (publish_loop i n u a src m ex os ps s)) = qs_board s"
proof (induction ps arbitrary: s)
  case (Cons p ps)
  obtain y s0 where q: "queue_submit i n u a p src
      (dict_merge m (picked [''model'', ''batch_id'', ''depends_on'', ''parallel''] p)) False s = (y, s0)" by fastforce
  then have "qs_board s0 = qs_board s" using queue_submit_board [of i n u a p src _ False s] by (metis snd_conv)
  with Cons q show ?case
    by (auto simp: plain_batch_def Let_def split: sum.splits prod.splits option.splits) (metis snd_conv)+
qed simp

lemma publish_local_board:
  assumes "plain_batch ps" "\<not> qs_open s" "publish_local me rw i n l u a src m ps s = (Inl e, s')"
  shows "qs_board s' = qs_board s \<and> qs_db s' = qs_db s"
proof -
  let ?s = "s\<lparr>qs_open := True, qs_after := []\<rparr>"
  obtain out s2 where l: "publish_loop i n u a src m (load_all a True ?s) [] ps ?s = (out, s2)" by fastforce
  then have "qs_board s2 = qs_board s"
    using publish_loop_board [OF assms(1), of i n u a src m "load_all a True ?s" "[]" ?s] by simp
  with assms l show ?thesis
    by (auto simp: publish_local_def queue_transaction_def collect_plain [OF assms(1)] Let_def split: sum.splits prod.splits)
qed

lemma update_meta_own:
  assumes inv: "ledger_inv (qs_db s)" and r: "own_row a (qs_db s) t = Some r" "\<not> row_archived r"
  shows "update_meta None now a t m sm s = (Inr (Some (merge_update (meta_event now t m sm) (row_entry r))),
    s\<lparr>qs_db := updated_db a (meta_event now t m sm) r (qs_db s)\<rparr>)"
proof -
  let ?u = "meta_event now t m sm"
  have u: "own_row a (qs_db s) (ue_task_id ?u) = Some r" using r by simp
  have q: "queue_append None a (UpdateEvent ?u) s = (Inr (), s\<lparr>qs_db := updated_db a ?u r (qs_db s)\<rparr>)"
    using queue_append_own [OF inv u] by (auto simp: row_status_def)
  have l: "map_of (load_all a False s) t = Some (row_entry r)" using load_own [OF inv r(1)] r(2) by simp
  show ?thesis unfolding update_meta_def l option.case q using updated_own_entry [OF u] by simp
qed

lemma direct_payload_simps [simp]:
  "payload_id (direct_payload sa t sm ins by' md) = t" "\<not> resume_true (direct_payload sa t sm ins by' md)"
  by (simp_all add: payload_id_def resume_true_def direct_payload_def map_add_def)

lemma validated_single:
  assumes "validate_task_payloads me rw k c [JObj d] = Inr ps"
  obtains d' where "ps = [d']" "validate_payload me rw (JObj d) = Inr d'"
  using assms by (auto simp: validate_task_payloads_def split: sum.splits)

lemma absent_row:
  assumes "store_get a t db = None" "row_find alias_key (a, t) (db_aliases db) = None"
  shows "get_row db a t = None"
  using assms store_get_own(1) [of a t db] by (cases "get_row db a t") auto

lemma dispatch_first:
  assumes ok: "dispatch_direct_task me rw None now later uid sa is_dir a t sm ins by' meta md s = (Inr True, s1)"
    and closed: "\<not> qs_open s" and noalias: "row_find alias_key (a, t) (db_aliases (qs_db s)) = None"
  shows "\<exists>r. own_row a (qs_db s1) t = Some r \<and> row_ready r \<and> row_status r = ''pending''" "\<not> qs_open s1" "qs_after s1 = []"
proof -
  let ?s = "s\<lparr>qs_open := True, qs_after := []\<rparr>"
  obtain d where v: "validate_payload me rw (JObj (direct_payload sa t sm ins by' md)) = Inr d"
    and vs: "validate_task_payloads me rw [] True [JObj (direct_payload sa t sm ins by' md)] = Inr [d]"
    using ok by (auto simp: dispatch_direct_task_def Let_def split: if_splits sum.splits elim!: validated_single)
  have id: "payload_id d = t" "t \<noteq> []" using validated_payload(1,3) [OF v] by (auto simp: valid_task_id_def)
  obtain m x s2 where get: "store_get a t (qs_db s) = None"
    and q: "queue_submit None now uid a d ''anima'' m False ?s = (Inr x, s2)"
    and s1: "s1 = s2\<lparr>qs_board := foldl (\<lambda>b c. run_sync later c b) (qs_board s2) (qs_after s2), qs_open := False, qs_after := []\<rparr>"
    using ok closed by (auto simp: dispatch_direct_task_def vs Let_def queue_transaction_def split: if_splits sum.splits prod.splits)
  have new: "get_row (qs_db ?s) a (payload_id d) = None" using absent_row [OF get noalias] id by simp
  have pid: "payload_id d \<noteq> []" using id by simp
  obtain e b where e: "store_submit None now now a e d False (qs_db ?s) = Inr (b, qs_db s2)"
    by (rule queue_submit_first [OF q pid])
  have al: "db_aliases (qs_db s2) = db_aliases (qs_db s)" using submit_rows(1) [OF e] by simp
  show "\<exists>r. own_row a (qs_db s1) t = Some r \<and> row_ready r \<and> row_status r = ''pending''"
    using queue_submit_new [OF q pid new] id noalias al by (auto simp: own_row_def s1)
  show "\<not> qs_open s1" "qs_after s1 = []" by (simp_all add: s1)
qed

lemma update_local_done:
  assumes inv: "ledger_inv (qs_db s)" and board: "audit_inv (qs_board s)" and closed: "\<not> qs_open s"
    and r: "own_row a (qs_db s) t = Some r" "\<not> row_archived r" and m: "m \<noteq> []"
    and e1: "e1 = merge_update (meta_event now t m sm) (row_entry r)"
    and e2: "e2 = merge_update (status_event now t ''done'' sm) e1"
  shows "if row_status r = ''cancelled''
    then \<exists>s'. update_local None now later a t ''done'' sm m False s = (Inr None, s') \<and>
           own_entry a (qs_db s') = (own_entry a (qs_db s))(t \<mapsto> e1) \<and> qs_board s' = qs_board s
    else \<exists>s'. update_local None now later a t ''done'' sm m False s = (Inr (Some e2), s') \<and>
           own_entry a (qs_db s') = (own_entry a (qs_db s))(t \<mapsto> e2) \<and>
           get_metadata a t (qs_board s') = map_option (archived_card later a) (get_metadata a t (qs_board s))"
proof -
  let ?s = "s\<lparr>qs_open := True, qs_after := []\<rparr>" and ?u = "meta_event now t m sm" and ?v = "status_event now t ''done'' sm"
  let ?db = "updated_db a ?u r (qs_db s)"
  have u: "own_row a (qs_db s) (ue_task_id ?u) = Some r" using r by simp
  define r1 where "r1 = r\<lparr>row_entry := e1, row_archived := False, row_ready := (if terminal (te_status (row_entry r)) then False else row_ready r)\<rparr>"
  have own1: "own_row a ?db = (own_row a (qs_db s))(t \<mapsto> r1)"
    using own_row_updated [OF u] by (simp add: r1_def e1)
  have um: "update_meta None now a t m sm ?s = (Inr (Some e1), ?s\<lparr>qs_db := ?db\<rparr>)"
    using update_meta_own [of ?s a t r now m sm] inv r by (simp add: e1)
  have "store_apply None a (UpdateEvent ?u) (qs_db s) = Inr ?db"
    using store_apply_own [OF inv u] by (auto simp: row_status_def)
  then have inv1: "ledger_inv ?db" using ledger.inv_step [OF step_apply inv] by blast
  have st1: "row_status r1 = row_status r" by (simp add: r1_def e1 row_status_def)
  have us: "update_status None now later a t ''done'' sm (?s\<lparr>qs_db := ?db\<rparr>) =
     (if row_status r = ''cancelled'' then (Inr None, ?s\<lparr>qs_db := ?db\<rparr>)
      else (Inr (Some e2), sync_status later a t ''done'' (?s\<lparr>qs_db := updated_db a ?v r1 ?db\<rparr>)))"
    using update_status_own [of "?s\<lparr>qs_db := ?db\<rparr>" a t r1 now later "''done''" sm] inv1 own1 st1
    by (simp add: valid_statuses_def r1_def e2)
  have own2: "own_row a (updated_db a ?v r1 ?db) = (own_row a (qs_db s))(t \<mapsto> r1\<lparr>row_entry := e2, row_archived := False, row_ready := False\<rparr>)"
    using own_row_updated [of a ?db ?v r1] own1 by (simp add: r1_def e2 terminal_def)
  have card: "get_metadata a t (sync_taskboard_archived later a t (qs_board s)) = map_option (archived_card later a) (get_metadata a t (qs_board s))"
    using sync_archived_meta [OF board] by simp
  show ?thesis
    using closed m um us own1 own2 card
    by (auto simp: update_local_def queue_transaction_def own_entry_def fun_eq_iff sync_status_def queue_after_commit_def r1_def)
qed

section \<open>The host\<close>

text \<open>
  \<^verbatim>\<open>POST /internal/submit-tasks\<close> of \<^verbatim>\<open>server/routes/internal.py\<close>: the host publishes with its own databases. \<open>ok_name\<close> is
  the check of the anima name and \<open>is_dir\<close> that of its directory; \<open>dump\<close> is \<^verbatim>\<open>model_dump\<close>.
\<close>

definition internal_submit_tasks ::
  "(string \<Rightarrow> string option) \<Rightarrow> (json \<Rightarrow> py_error + string) \<Rightarrow> (string \<Rightarrow> bool) \<Rightarrow> (string \<Rightarrow> bool) \<Rightarrow> (task_entry \<Rightarrow> json)
   \<Rightarrow> attempt_identity option \<Rightarrow> string \<Rightarrow> string \<Rightarrow> string \<Rightarrow> string \<Rightarrow> json list \<Rightarrow> string \<Rightarrow> dict \<Rightarrow> queue_sys \<Rightarrow> http_outcome \<times> queue_sys" where
  "internal_submit_tasks me rw ok_name is_dir dump ident now later uid anima tasks source meta q =
     (if \<not> ok_name anima then (HttpStatus 400, q)
      else if \<not> is_dir anima then (HttpStatus 404, q)
      else case publish_tasks me rw ident now later uid [] None False (\<lambda>_ r. (TransportFailed, r)) anima tasks source meta q () of
             (Inl (ValueError _), q', _) \<Rightarrow> (HttpStatus 422, q')
           | (Inl _, q', _) \<Rightarrow> (HttpStatus 500, q')
           | (Inr (Remote j), q', _) \<Rightarrow> (Response j, q')
           | (Inr (Local es), q', _) \<Rightarrow> (Response (JObj [(''ok'', JBool True), (''tasks'', JArr (map dump es))]), q'))"

text \<open>
  A network in front of the host: each delivery has the host's clock and fresh id, and says whether the response is
  lost on the way back.
\<close>

type_synonym delivery = "bool \<times> string \<times> string"

definition lossy ::
  "(string \<Rightarrow> string \<Rightarrow> queue_sys \<Rightarrow> http_outcome \<times> queue_sys) \<Rightarrow> delivery list \<times> queue_sys \<Rightarrow> http_outcome \<times> (delivery list \<times> queue_sys)" where
  "lossy handler n =
     (case fst n of
        [] \<Rightarrow> (TransportFailed, n)
      | (lost, now, uid) # ds \<Rightarrow>
          (case handler now uid (snd n) of (out, q) \<Rightarrow> ((if lost then TransportFailed else out), (ds, q))))"

section \<open>Properties\<close>

text \<open>
  Only denied storage is proxied: the scan over causes and contexts terminates also on cyclic chains, and says yes
  exactly when some exception of the chain is an access denial of the operating system or of SQLite.
\<close>

theorem permission_error_iff:
  "is_task_permission_error h i \<longleftrightarrow> (\<exists>j. (i, j) \<in> (exc_step h)\<^sup>* \<and> denied_at h j)"
proof
  assume "is_task_permission_error h i"
  then show "\<exists>j. (i, j) \<in> (exc_step h)\<^sup>* \<and> denied_at h j"
    using permission_loop_sound [of h "[]" "Some i"] by (simp add: is_task_permission_error_def)
next
  assume "\<exists>j. (i, j) \<in> (exc_step h)\<^sup>* \<and> denied_at h j"
  then obtain j where j: "(i, j) \<in> (exc_step h)\<^sup>*" "denied_at h j" by blast
  show "is_task_permission_error h i"
  proof (rule ccontr)
    assume "\<not> is_task_permission_error h i"
    then obtain S where S: "i \<in> S" "\<And>x. x \<in> S \<Longrightarrow> \<not> denied_at h x" "\<And>x y. x \<in> S \<Longrightarrow> (x, y) \<in> exc_step h \<Longrightarrow> y \<in> S"
      using permission_loop_closed [of h "[]" "Some i"] by (auto simp: is_task_permission_error_def)
    from j(1) have "j \<in> S" by (induction rule: rtrancl_induct) (use S in auto)
    with S(2) j(2) show False by blast
  qed
qed

text \<open>
  C7. Publishing is all or nothing: with accessible databases an error leaves the tasks and the board as they were;
  otherwise the result lists exactly the tasks of the validated batch in order, every task that did not exist is
  there, pending and ready with its complete input, and no row outside the batch has changed.
\<close>

theorem publish_all_or_nothing:
  assumes reach: "rtranclp store_step empty_db (qs_db s)" and closed: "\<not> qs_open s"
    and plain: "\<And>d. JObj d \<in> set payloads \<Longrightarrow> \<not> resume_true d"
    and run: "publish_tasks me rw None now later uid h None hf send a payloads src meta s r = (res, s', r')"
  shows "case res of
      Inl e \<Rightarrow> qs_db s' = qs_db s \<and> qs_board s' = qs_board s
    | Inr (Remote _) \<Rightarrow> False
    | Inr (Local xs) \<Rightarrow> \<exists>ps. validate_task_payloads me rw [] False payloads = Inr ps \<and> map te_task_id xs = map payload_id ps \<and>
        (\<forall>p \<in> set ps. get_row (qs_db s) a (payload_id p) = None \<longrightarrow>
           (\<exists>x. get_row (qs_db s') a (payload_id p) = Some x \<and> row_input x = Some p \<and> row_ready x \<and> row_status x = ''pending'')) \<and>
        (\<forall>b t. b \<noteq> a \<or> t \<notin> payload_id ` set ps \<longrightarrow> get_row (qs_db s') b t = get_row (qs_db s) b t)"
proof (cases "validate_task_payloads me rw [] False payloads")
  case (Inl e)
  with run show ?thesis by (auto simp: publish_tasks_def)
next
  case (Inr ps)
  have pb: "plain_batch ps" by (rule validated_plain [OF Inr plain])
  have inv: "ledger_inv (qs_db s)" by (rule ledger.inv_reachable [OF refl reach])
  obtain out s1 where Pair: "publish_local me rw None now later uid a src meta ps s = (out, s1)" by fastforce
  show ?thesis
  proof (cases "src \<in> {''human'', ''anima''}")
    case False
    with run Inr show ?thesis by (auto simp: publish_tasks_def)
  next
    case src: True
    show ?thesis
    proof (cases out)
      case (Inl e)
      have "qs_board s1 = qs_board s \<and> qs_db s1 = qs_db s"
        using Pair Inl publish_local_board [OF pb] closed by blast
      with run Pair Inl \<open>validate_task_payloads me rw [] False payloads = Inr ps\<close> show ?thesis
        by (auto simp: publish_tasks_def local_or_host_def split: if_splits)
    next
      case (Inr xs)
      note ok = Pair [unfolded Inr]
      note f = publish_local_first [OF ok pb inv closed]
      have res: "res = Inr (Local xs)" "s' = s1"
        using run ok src \<open>validate_task_payloads me rw [] False payloads = Inr ps\<close>
        by (auto simp: publish_tasks_def local_or_host_def split: if_splits)
      have new: "\<exists>x. get_row (qs_db s') a (payload_id p) = Some x \<and> row_input x = Some p \<and> row_ready x \<and> row_status x = ''pending''"
        if "p \<in> set ps" "get_row (qs_db s) a (payload_id p) = None" for p
        using publish_local_new [OF ok pb inv closed that] res by blast
      show ?thesis
        unfolding res(1) sum.case published.case
        by (intro exI [of _ ps] conjI ballI impI new)
           (use f(2,4) \<open>validate_task_payloads me rw [] False payloads = Inr ps\<close> res(2) in \<open>auto simp: grows_def\<close>)
    qed
  qed
qed

text \<open>
  C30. A lost response does not publish twice: when the host has published a batch of new tasks and only its answer is
  lost, the retry of the client succeeds and the host's databases are exactly those after the first delivery,
  whatever the host's clock says then.
\<close>

theorem retried_publication_once:
  assumes reach: "rtranclp store_step empty_db (qs_db q)" and closed: "\<not> qs_open q"
    and plain: "\<And>d. JObj d \<in> set tasks \<Longrightarrow> \<not> resume_true d"
    and first: "internal_submit_tasks me rw ok_name is_dir dump None n1 later u1 a tasks src meta q = (Response j, q1)"
  shows "\<exists>j'. post_tasks (lossy (\<lambda>now uid. internal_submit_tasks me rw ok_name is_dir dump None now later uid a tasks src meta))
      ((True, n1, u1) # (False, n2, u2) # ds, q) = (Inr j', ds, q1)"
proof -
  have inv: "ledger_inv (qs_db q)" by (rule ledger.inv_reachable [OF refl reach])
  obtain ps where v: "validate_task_payloads me rw [] False tasks = Inr ps"
    using first by (auto simp: internal_submit_tasks_def publish_tasks_def split: if_splits sum.splits py_error.splits)
  have pb: "plain_batch ps" by (rule validated_plain [OF v plain])
  have c: "ok_name a" "is_dir a" "src \<in> {''human'', ''anima''}"
    using first v by (auto simp: internal_submit_tasks_def publish_tasks_def split: if_splits sum.splits py_error.splits)
  obtain xs where ok: "publish_local me rw None n1 later u1 a src meta ps q = (Inr xs, q1)"
    using first v c by (auto simp: internal_submit_tasks_def publish_tasks_def local_or_host_def
        split: if_splits sum.splits prod.splits py_error.splits published.splits)
  obtain ys where again: "publish_local me rw None n2 later u2 a src meta ps q1 = (Inr ys, q1)"
    using publish_local_again [OF ok pb inv closed] by blast
  have "\<exists>j'. internal_submit_tasks me rw ok_name is_dir dump None n2 later u2 a tasks src meta q1 = (Response j', q1)"
    using v c again by (auto simp: internal_submit_tasks_def publish_tasks_def local_or_host_def)
  with first show ?thesis by (auto simp: post_tasks_def lossy_def)
qed

text \<open>
  C35. What a validated batch guarantees: the ids are well formed and different, every dependency names a task of the
  batch or a known one, and if no task lists a dependency twice the dependencies inside the batch have no cycle.
\<close>

theorem validated_batch_runnable:
  assumes ok: "validate_task_payloads me rw known True payloads = Inr ps"
  shows "distinct (map payload_id ps) \<and> (\<forall>p \<in> set ps. valid_task_id (payload_id p)) \<and>
    (\<forall>p \<in> set ps. set (depends_on p) \<subseteq> payload_id ` set ps \<union> set known) \<and>
    ((\<forall>p \<in> set ps. distinct (depends_on p)) \<longrightarrow> acyclic (dep_edge (batch_dag ps)))"
proof -
  have each: "validate_each me rw payloads = Inr ps" and dep: "validate_task_dependencies known True ps = Inr ()"
    using ok by (auto simp: validate_task_payloads_def split: if_splits sum.splits)
  have d: "distinct (map payload_id ps)" and m: "\<forall>p \<in> set ps. set (depends_on p) \<subseteq> payload_id ` set ps \<union> set known"
    and t: "\<exists>out. topological_sort (batch_dag ps) = Inr out"
    using dep by (auto simp: validate_task_dependencies_def Let_def find_None_iff split: if_splits option.splits sum.splits)
  have "valid_task_id (payload_id p)" if "p \<in> set ps" for p
    using validate_each_origin [OF each that] validated_payload(3) by blast
  moreover have "acyclic (dep_edge (batch_dag ps))" if "\<forall>p \<in> set ps. distinct (depends_on p)"
  proof -
    have "good_dag (batch_dag ps)" using d that by (auto simp: good_dag_def batch_dag_def Let_def comp_def)
    with t topo_ok_iff show ?thesis by blast
  qed
  ultimately show ?thesis using d m by blast
qed

text \<open>
  An external event is dispatched once: after a successful direct dispatch every later dispatch under the same task
  id, with whatever other arguments, either fails validation or reports that the task exists and changes
  nothing (when the target has no tracking alias of that name).
\<close>

theorem direct_dispatch_once:
  assumes ok: "dispatch_direct_task me rw None now later uid sa is_dir a t sm ins by' meta md s = (Inr True, s1)"
    and closed: "\<not> qs_open s" and noalias: "row_find alias_key (a, t) (db_aliases (qs_db s)) = None"
    and again: "dispatch_direct_task me2 rw2 ident2 now2 later2 uid2 sa2 is_dir2 a t sm2 ins2 by2 meta2 md2 s1 = (Inr b, s2)"
  shows "\<not> b \<and> s2 = s1 \<and> (\<exists>r. get_row (qs_db s1) a t = Some r \<and> row_ready r \<and> row_status r = ''pending'')"
proof -
  note f = dispatch_first [OF ok closed noalias]
  obtain r where r: "own_row a (qs_db s1) t = Some r" "row_ready r" "row_status r = ''pending''" using f(1) by blast
  have "store_get a t (qs_db s1) \<noteq> None" using get_own [OF r(1)] by simp
  then have "\<not> b" "s2 = s1\<lparr>qs_open := False, qs_after := []\<rparr>"
    using again f(2,3) by (auto simp: dispatch_direct_task_def Let_def queue_transaction_def split: if_splits sum.splits)
  moreover have "s1\<lparr>qs_open := False, qs_after := []\<rparr> = s1" using f(2,3) by (cases s1) simp
  ultimately show ?thesis using r own_rowD [OF r(1)] by auto
qed

text \<open>
  Declaring a task done records it completely: for one's own visible task that is not cancelled the entry gets the
  completion metadata, the result note, the summary and the status in one transaction, no other entry of one's own
  changes, and an existing card is archived (unless it was suppressed before).
\<close>

theorem declared_result_recorded:
  assumes reach: "rtranclp store_step empty_db (qs_db s)" "rtranclp board_step empty_board (qs_board s)" and closed: "\<not> qs_open s"
    and r: "own_row a (qs_db s) t = Some r" "\<not> row_archived r" "row_status r \<noteq> ''cancelled''"
    and sm: "sm = (if result \<noteq> None then result else summary0)"
    and e: "e = merge_update (status_event now t ''done'' sm) (merge_update (meta_event now t (declared_meta now ''done'' sm) sm) (row_entry r))"
  shows "\<exists>s'. update_task None now later h None send a t ''done'' summary0 result False s x = (Inr (Local (Some e)), s', x) \<and>
    own_entry a (qs_db s') = (own_entry a (qs_db s))(t \<mapsto> e) \<and>
    get_metadata a t (qs_board s') = map_option (archived_card later a) (get_metadata a t (qs_board s))"
proof -
  have inv: "ledger_inv (qs_db s)" and b: "audit_inv (qs_board s)"
    using ledger.inv_reachable [OF refl reach(1)] board.inv_reachable [OF refl reach(2)] by simp_all
  have "declared_meta now ''done'' sm \<noteq> []" by (simp add: declared_meta_def)
  from update_local_done [where now = now and sm = sm and later = later, OF inv b closed r(1,2) this refl refl] r(3)
  obtain s' where "update_local None now later a t ''done'' sm (declared_meta now ''done'' sm) False s = (Inr (Some e), s')"
    "own_entry a (qs_db s') = (own_entry a (qs_db s))(t \<mapsto> e)"
    "get_metadata a t (qs_board s') = map_option (archived_card later a) (get_metadata a t (qs_board s))"
    by (auto simp: e)
  then show ?thesis unfolding update_task_def Let_def sm [symmetric] by (simp add: local_or_host_def)
qed

text \<open>
  A cancelled task can claim its completion: declaring one's own cancelled task done reports that nothing was
  found, but the transaction commits the first half of the declaration, so that the entry stays cancelled and
  says that it was completed, with the new summary.
\<close>

theorem cancelled_task_claims_completion:
  assumes reach: "rtranclp store_step empty_db (qs_db s)" "rtranclp board_step empty_board (qs_board s)" and closed: "\<not> qs_open s"
    and r: "own_row a (qs_db s) t = Some r" "\<not> row_archived r" "row_status r = ''cancelled''"
  shows "\<exists>s' e. update_task None now later h None send a t ''done'' (Some note') None False s x = (Inr (Local None), s', x) \<and>
    own_entry a (qs_db s') t = Some e \<and> te_status e = ''cancelled'' \<and> te_summary e = note' \<and>
    map_of (te_meta e) ''completed_by'' = Some (JStr ''agent_declaration'')"
proof -
  let ?m = "declared_meta now ''done'' (Some note')"
  let ?e = "merge_update (meta_event now t ?m (Some note')) (row_entry r)"
  have inv: "ledger_inv (qs_db s)" and b: "audit_inv (qs_board s)"
    using ledger.inv_reachable [OF refl reach(1)] board.inv_reachable [OF refl reach(2)] by simp_all
  have m: "?m \<noteq> []" by (simp add: declared_meta_def)
  from update_local_done [where now = now and sm = "Some note'" and later = later, OF inv b closed r(1,2) m refl refl] r(3)
  obtain s' where "update_local None now later a t ''done'' (Some note') ?m False s = (Inr None, s')"
    "own_entry a (qs_db s') = (own_entry a (qs_db s))(t \<mapsto> ?e)" by auto
  moreover have "te_status ?e = ''cancelled''" using r(3) by (simp add: row_status_def)
  moreover have "te_summary ?e = note'" "map_of (te_meta ?e) ''completed_by'' = Some (JStr ''agent_declaration'')"
    by (simp_all add: merge_update_def meta_event_def declared_meta_def update_conv)
  ultimately show ?thesis by (auto simp: update_task_def local_or_host_def Let_def)
qed

section \<open>Witnesses\<close>

definition demo_task :: json where
  "demo_task = JObj [(''task_id'', JStr ''a''), (''title'', JStr ''A''), (''description'', JStr ''do a'')]"

definition demo_task2 :: json where
  "demo_task2 = JObj [(''task_id'', JStr ''b''), (''title'', JStr ''B''), (''description'', JStr ''do b''),
     (''depends_on'', JArr [JStr ''a'', JStr ''t1''])]"

definition open_models :: "string \<Rightarrow> string option" where
  "open_models = (\<lambda>_. None)"

definition any_path :: "json \<Rightarrow> py_error + string" where
  "any_path = (\<lambda>_. Inr ''/tmp'')"

lemma demo_closed: "\<not> qs_open demo_queue"
  by (simp add: demo_queue_def)

lemma demo_plain: "JObj d \<in> set [demo_task, demo_task2] \<Longrightarrow> \<not> resume_true d"
  by (auto simp: demo_task_def demo_task2_def resume_true_def)

theorem publish_all_or_nothing_witness:
  "\<exists>xs s'. publish_tasks open_models any_path None ''n'' ''l'' ''u'' [] None True (\<lambda>_ r. (TransportFailed, r)) ''rin''
      [demo_task, demo_task2] ''anima'' [] demo_queue () = (Inr (Local xs), s', ()) \<and>
    (\<forall>b t. b \<noteq> ''rin'' \<longrightarrow> get_row (qs_db s') b t = get_row (qs_db demo_queue) b t)"
proof -
  let ?run = "publish_tasks open_models any_path None ''n'' ''l'' ''u'' [] None True (\<lambda>_ r. (TransportFailed, r)) ''rin''
      [demo_task, demo_task2] ''anima'' [] demo_queue ()"
  have "(case fst ?run of Inr (Local xs) \<Rightarrow> True | _ \<Rightarrow> False)" by code_simp
  then obtain xs s' where run: "?run = (Inr (Local xs), s', ())"
    by (cases ?run) (auto split: sum.splits published.splits)
  from publish_all_or_nothing [OF demo_queue_reachable demo_closed demo_plain run] show ?thesis
    using run by auto
qed

theorem retried_publication_once_witness:
  "\<exists>j j' q1. internal_submit_tasks open_models any_path (\<lambda>_. True) (\<lambda>_. True) (\<lambda>_. JNull) None ''n'' ''l'' ''u''
        ''rin'' [demo_task, demo_task2] ''anima'' [] demo_queue = (Response j, q1) \<and>
     post_tasks (lossy (\<lambda>now uid. internal_submit_tasks open_models any_path (\<lambda>_. True) (\<lambda>_. True) (\<lambda>_. JNull) None now ''l'' uid
        ''rin'' [demo_task, demo_task2] ''anima'' []))
      ([(True, ''n'', ''u''), (False, ''m'', ''v'')], demo_queue) = (Inr j', [], q1)"
proof -
  let ?run = "internal_submit_tasks open_models any_path (\<lambda>_. True) (\<lambda>_. True) (\<lambda>_. JNull) None ''n'' ''l'' ''u''
        ''rin'' [demo_task, demo_task2] ''anima'' [] demo_queue"
  have "(case fst ?run of Response j \<Rightarrow> True | _ \<Rightarrow> False)" by code_simp
  then obtain j q1 where run: "?run = (Response j, q1)" by (cases ?run) (auto split: http_outcome.splits)
  from retried_publication_once [OF demo_queue_reachable demo_closed demo_plain run, of "''m''" "''v''" "[]"] run
  show ?thesis by blast
qed

theorem validated_batch_runnable_witness:
  "\<exists>ps. validate_task_payloads open_models any_path [''t1''] True [demo_task2, demo_task] = Inr ps \<and> acyclic (dep_edge (batch_dag ps))"
proof -
  let ?run = "validate_task_payloads open_models any_path [''t1''] True [demo_task2, demo_task]"
  have "(case ?run of Inr ps \<Rightarrow> list_all (\<lambda>p. distinct (depends_on p)) ps | _ \<Rightarrow> False)" by code_simp
  then obtain ps where "?run = Inr ps" "\<forall>p \<in> set ps. distinct (depends_on p)"
    by (cases ?run) (auto simp: list_all_iff)
  with validated_batch_runnable show ?thesis by blast
qed

theorem direct_dispatch_once_witness:
  "\<exists>s1. dispatch_direct_task open_models any_path None ''n'' ''l'' ''u'' ''sa'' (\<lambda>_. True) ''rin'' ''ev1'' ''s'' ''i'' ''gh'' [] None demo_queue
      = (Inr True, s1) \<and>
    dispatch_direct_task open_models any_path None ''m'' ''l'' ''v'' ''sb'' (\<lambda>_. True) ''rin'' ''ev1'' ''other'' ''i'' ''gh'' [] None s1
      = (Inr False, s1)"
proof -
  let ?d = "\<lambda>n sa sm s. dispatch_direct_task open_models any_path None n ''l'' ''u'' sa (\<lambda>_. True) ''rin'' ''ev1'' sm ''i'' ''gh'' [] None s"
  have "(case fst (?d ''n'' ''sa'' ''s'' demo_queue) of Inr b \<Rightarrow> b | _ \<Rightarrow> False)" by code_simp
  then obtain s1 where ok: "?d ''n'' ''sa'' ''s'' demo_queue = (Inr True, s1)"
    by (cases "?d ''n'' ''sa'' ''s'' demo_queue") (auto split: sum.splits)
  have al: "row_find alias_key (''rin'', ''ev1'') (db_aliases (qs_db demo_queue)) = None" by code_simp
  have f: "\<exists>r. own_row ''rin'' (qs_db s1) ''ev1'' = Some r" "\<not> qs_open s1" using dispatch_first [OF ok demo_closed al] by blast+
  obtain b s2 where again: "dispatch_direct_task open_models any_path None ''m'' ''l'' ''v'' ''sb'' (\<lambda>_. True) ''rin'' ''ev1'' ''other'' ''i'' ''gh'' [] None s1
      = (Inr b, s2)"
  proof -
    have "(case validate_task_payloads open_models any_path [] True
        [JObj (direct_payload ''sb'' ''ev1'' ''other'' ''i'' ''gh'' None)] of Inr _ \<Rightarrow> True | _ \<Rightarrow> False)" by code_simp
    then show ?thesis
      using that f get_own by (fastforce simp: dispatch_direct_task_def Let_def queue_transaction_def split: sum.splits)
  qed
  from direct_dispatch_once [OF ok demo_closed al again] ok again show ?thesis by auto
qed

theorem declared_result_recorded_witness:
  "\<exists>e s'. update_task None ''n'' ''l'' [] None (\<lambda>_ _ r. (TransportFailed, r)) ''rin'' ''t1'' ''done'' None (Some ''res'') False demo_queue ()
     = (Inr (Local (Some e)), s', ()) \<and> own_entry ''rin'' (qs_db s') ''t1'' = Some e"
proof -
  have "\<not> row_archived demo_row" "row_status demo_row \<noteq> ''cancelled''" by (simp_all add: demo_row_def row_status_def demo_entry_def)
  from declared_result_recorded [where result = "Some ''res''" and ?summary0.0 = None and now = "''n''" and later = "''l''" and h = "[]" and
      send = "\<lambda>_ _ r. (TransportFailed, r)" and x = "()", OF demo_queue_reachable demo_queue_board demo_closed demo_queue_own this refl refl]
  show ?thesis by auto
qed

definition demo_stopped :: queue_sys where
  "demo_stopped = demo_queue\<lparr>qs_db := updated_db ''rin'' demo_cancel demo_row (qs_db demo_queue)\<rparr>"

theorem cancelled_task_claims_completion_witness:
  "\<exists>s' e. update_task None ''n'' ''l'' [] None (\<lambda>_ _ r. (TransportFailed, r)) ''rin'' ''t1'' ''done'' (Some ''finished'') None False demo_stopped ()
     = (Inr (Local None), s', ()) \<and> own_entry ''rin'' (qs_db s') ''t1'' = Some e \<and> te_status e = ''cancelled'' \<and> te_summary e = ''finished''"
proof -
  have u: "own_row ''rin'' (qs_db demo_queue) (ue_task_id demo_cancel) = Some demo_row" using demo_queue_own by (simp add: demo_cancel_def)
  have "store_apply None ''rin'' (UpdateEvent demo_cancel) (qs_db demo_queue) = Inr (qs_db demo_stopped)"
    using store_apply_own [OF demo_queue_inv u] by (simp add: demo_stopped_def demo_row_def row_status_def demo_entry_def)
  then have reach: "rtranclp store_step empty_db (qs_db demo_stopped)"
    using demo_queue_reachable step_apply by (auto intro: rtranclp.rtrancl_into_rtrancl)
  obtain r where r: "own_row ''rin'' (qs_db demo_stopped) ''t1'' = Some r" "\<not> row_archived r" "row_status r = ''cancelled''"
    using own_row_updated [OF u] by (auto simp: demo_stopped_def demo_cancel_def row_status_def merge_update_def)
  have b: "rtranclp board_step empty_board (qs_board demo_stopped)" "\<not> qs_open demo_stopped"
    using demo_queue_board demo_closed by (simp_all add: demo_stopped_def)
  from cancelled_task_claims_completion [where now = "''n''" and later = "''l''" and h = "[]" and note' = "''finished''" and
      send = "\<lambda>_ _ r. (TransportFailed, r)" and x = "()", OF reach b r]
  show ?thesis by blast
qed

end
