(* ===== verification/Rate_Guard.thy ===== *)
theory Rate_Guard
  imports Anima_Prelude
begin

text \<open>
  The fleet-wide rate guard of \<^verbatim>\<open>core/execution/rate_guard.py\<close>: one shared JSON file that records for
  every provider family until when it is blocked. The file is its stat key (\<^verbatim>\<open>st_mtime_ns\<close>, \<^verbatim>\<open>st_size\<close>)
  and the decoded content, \<open>None\<close> when it cannot be read as JSON. Clock readings, the outcome of a
  write and the stat key of the new file are arguments. The advisory lock around the
  read-modify-write only serialises writers and is not modelled.
\<close>

section \<open>Definitions\<close>

record guard_cfg =
  gc_enabled :: bool
  gc_default_block_seconds :: int
  gc_max_block_seconds :: int
  gc_quota_block_seconds :: int
  gc_max_quota_block_seconds :: int

definition guard_cfg_valid :: "guard_cfg \<Rightarrow> bool" where
  "guard_cfg_valid c \<longleftrightarrow> 0 \<le> gc_default_block_seconds c \<and> 0 \<le> gc_max_block_seconds c \<and>
     0 \<le> gc_quota_block_seconds c \<and> 0 \<le> gc_max_quota_block_seconds c"

definition default_guard_cfg :: guard_cfg where
  "default_guard_cfg = \<lparr>gc_enabled = True, gc_default_block_seconds = 60, gc_max_block_seconds = 600,
     gc_quota_block_seconds = 1800, gc_max_quota_block_seconds = 14400\<rparr>"

record guard_file =
  gf_stat :: "int \<times> int"
  gf_content :: "json option"

record guard_fs =
  fs_state :: "guard_file option"
  fs_history :: "dict list"

record guard_obj =
  go_explicit :: "guard_cfg option"
  go_config :: "guard_cfg option"
  go_config_at :: rat
  go_cache :: "dict option"
  go_cache_key :: "(int \<times> int) option"

text \<open>The \<^verbatim>\<open>config\<close> property: \<open>load\<close> is what \<^verbatim>\<open>_load_guard_config\<close> returns now.\<close>

definition guard_config :: "guard_cfg \<Rightarrow> rat \<Rightarrow> guard_obj \<Rightarrow> guard_cfg \<times> guard_obj" where
  "guard_config load now g =
     (case go_explicit g of Some c \<Rightarrow> (c, g)
      | None \<Rightarrow>
        (case go_config g of
           Some c \<Rightarrow> if now - go_config_at g > 5 then (load, g\<lparr>go_config := Some load, go_config_at := now\<rparr>)
                     else (c, g)
         | None \<Rightarrow> (load, g\<lparr>go_config := Some load, go_config_at := now\<rparr>)))"

definition guard_read_state :: "guard_file option \<Rightarrow> py_error + dict" where
  "guard_read_state file =
     (case file of None \<Rightarrow> Inr []
      | Some f \<Rightarrow>
        (case gf_content f of
           None \<Rightarrow> Inl (ValueError ''JSONDecodeError'')
         | Some (JObj d) \<Rightarrow> Inr d
         | Some _ \<Rightarrow> Inr []))"

definition guard_read_cached :: "guard_file option \<Rightarrow> guard_obj \<Rightarrow> (py_error + dict) \<times> guard_obj" where
  "guard_read_cached file g =
     (case file of
        None \<Rightarrow> (Inr [], g\<lparr>go_cache := Some [], go_cache_key := None\<rparr>)
      | Some f \<Rightarrow>
        (case (go_cache g, go_cache_key g = Some (gf_stat f)) of
           (Some d, True) \<Rightarrow> (Inr d, g)
         | _ \<Rightarrow>
           (case guard_read_state file of
              Inl e \<Rightarrow> (Inl e, g)
            | Inr d \<Rightarrow> (Inr d, g\<lparr>go_cache := Some d, go_cache_key := Some (gf_stat f)\<rparr>))))"

text \<open>The reads of an entry, on the state that was read.\<close>

definition entry_until :: "dict \<Rightarrow> string \<Rightarrow> rat" where
  "entry_until state fam =
     (case map_of state fam of
        Some (JObj entry) \<Rightarrow> opt_or (Option.bind (map_of entry ''blocked_until'') json_num) 0
      | _ \<Rightarrow> 0)"

definition blocked_until :: "guard_cfg \<Rightarrow> guard_file option \<Rightarrow> guard_obj \<Rightarrow> string \<Rightarrow> rat \<times> guard_obj" where
  "blocked_until cfg file g fam =
     (if \<not> gc_enabled cfg then (0, g)
      else case guard_read_cached file g of
        (Inl _, g') \<Rightarrow> (0, g')
      | (Inr state, g') \<Rightarrow> (entry_until state fam, g'))"

definition blocked_remaining ::
  "guard_cfg \<Rightarrow> rat \<Rightarrow> guard_file option \<Rightarrow> guard_obj \<Rightarrow> string \<Rightarrow> rat \<times> guard_obj" where
  "blocked_remaining cfg now file g fam =
     (case blocked_until cfg file g fam of
        (until, g') \<Rightarrow> (if until - now > 0 then until - now else 0, g'))"

definition block_reason ::
  "guard_cfg \<Rightarrow> guard_file option \<Rightarrow> guard_obj \<Rightarrow> string \<Rightarrow> string option \<times> guard_obj" where
  "block_reason cfg file g fam =
     (if \<not> gc_enabled cfg then (None, g)
      else case guard_read_cached file g of
        (Inl _, g') \<Rightarrow> (None, g')
      | (Inr state, g') \<Rightarrow>
          (case map_of state fam of
             Some (JObj entry) \<Rightarrow>
               (case map_of entry ''reason'' of Some (JStr r) \<Rightarrow> Some r | _ \<Rightarrow> None)
           | _ \<Rightarrow> None, g'))"

text \<open>The requested window; \<open>None\<close> is an argument that \<^verbatim>\<open>float\<close> rejects.\<close>

definition clamped_block :: "guard_cfg \<Rightarrow> rat option \<Rightarrow> string \<Rightarrow> rat" where
  "clamped_block cfg seconds reason =
     (let s0 = opt_or seconds (of_int (gc_default_block_seconds cfg));
          s1 = (if s0 \<le> 0 then of_int (gc_default_block_seconds cfg) else s0);
          clamp = (if reason = ''quota_exhausted'' \<or> reason = ''auth''
                   then min (gc_quota_block_seconds cfg) (gc_max_quota_block_seconds cfg)
                   else gc_max_block_seconds cfg)
      in min s1 (of_int clamp))"

text \<open>A quota report while the previous quota block is still recent doubles the window.\<close>

definition escalated_block ::
  "guard_cfg \<Rightarrow> rat \<Rightarrow> string \<Rightarrow> rat \<Rightarrow> json option \<Rightarrow> rat \<times> int" where
  "escalated_block cfg now reason block_s previous =
     (case previous of
        Some (JObj prev) \<Rightarrow>
          if reason = ''quota_exhausted'' \<and> map_of prev ''reason'' = Some (JStr reason) \<and>
             (case Option.bind (map_of prev ''blocked_until'') json_num of
                None \<Rightarrow> False | Some u \<Rightarrow> now \<le> u + 600)
          then (let secs = opt_or (Option.bind (map_of prev ''seconds'') json_num) block_s;
                    n = opt_or (Option.bind (map_of prev ''consecutive'') json_int) 1
                in (min (secs * 2) (of_int (gc_max_quota_block_seconds cfg)), (if n < 1 then 1 else n) + 1))
          else (block_s, 1)
      | _ \<Rightarrow> (block_s, 1))"

definition report_block ::
  "guard_cfg \<Rightarrow> rat \<Rightarrow> string \<Rightarrow> bool \<Rightarrow> bool \<Rightarrow> int \<times> int \<Rightarrow> string \<Rightarrow> rat option \<Rightarrow> string \<Rightarrow> guard_fs \<Rightarrow> guard_fs" where
  "report_block cfg now who write_ok history_ok stat fam seconds reason fs =
     (if \<not> gc_enabled cfg then fs
      else
        let state = (case guard_read_state (fs_state fs) of Inl _ \<Rightarrow> [] | Inr d \<Rightarrow> d)
        in case escalated_block cfg now reason (clamped_block cfg seconds reason) (map_of state fam) of
          (block_s, consecutive) \<Rightarrow>
            if \<not> write_ok then fs
            else fs\<lparr>fs_state := Some \<lparr>gf_stat = stat, gf_content = Some (JObj (AList.update fam
                       (JObj [(''blocked_until'', JFloat (now + block_s)), (''reason'', JStr reason),
                              (''seconds'', JFloat block_s), (''updated_by'', JStr who),
                              (''consecutive'', JInt consecutive)]) state))\<rparr>,
                    fs_history := (if history_ok
                       then fs_history fs @ [[(''ts'', JFloat now), (''provider'', JStr fam), (''reason'', JStr reason),
                              (''seconds'', JFloat block_s), (''updated_by'', JStr who),
                              (''consecutive'', JInt consecutive)]]
                       else fs_history fs)\<rparr>)"

section \<open>Facts\<close>

definition guard_entry :: "guard_fs \<Rightarrow> string \<Rightarrow> json option" where
  "guard_entry fs fam = (case guard_read_state (fs_state fs) of Inl _ \<Rightarrow> None | Inr d \<Rightarrow> map_of d fam)"

definition quota_entry :: "string \<Rightarrow> rat \<Rightarrow> rat \<Rightarrow> int \<Rightarrow> json" where
  "quota_entry who now s n =
     JObj [(''blocked_until'', JFloat (now + s)), (''reason'', JStr ''quota_exhausted''),
           (''seconds'', JFloat s), (''updated_by'', JStr who), (''consecutive'', JInt n)]"

lemma guard_entry_report:
  "gc_enabled cfg \<Longrightarrow> guard_entry (report_block cfg now who True h stat fam secs reason fs) fam' =
     (if fam' = fam
      then case escalated_block cfg now reason (clamped_block cfg secs reason) (guard_entry fs fam) of
             (s, n) \<Rightarrow> Some (JObj [(''blocked_until'', JFloat (now + s)), (''reason'', JStr reason),
                      (''seconds'', JFloat s), (''updated_by'', JStr who), (''consecutive'', JInt n)])
      else guard_entry fs fam')"
  by (auto simp: report_block_def guard_entry_def guard_read_state_def update_conv Let_def split: prod.splits sum.splits)

lemma escalated_quota:
  assumes "u \<le> t + s + 600" "1 \<le> n"
  shows "escalated_block cfg u ''quota_exhausted'' b (Some (quota_entry who t s n)) =
     (min (s * 2) (of_int (gc_max_quota_block_seconds cfg)), n + 1)"
  using assms by (simp add: escalated_block_def quota_entry_def Let_def)

fun quota_reports :: "guard_cfg \<Rightarrow> string \<Rightarrow> int \<times> int \<Rightarrow> string \<Rightarrow> rat option \<Rightarrow> rat list \<Rightarrow> guard_fs \<Rightarrow> guard_fs" where
  "quota_reports cfg who stat fam secs [] fs = fs"
| "quota_reports cfg who stat fam secs (t # ts) fs =
     quota_reports cfg who stat fam secs ts (report_block cfg t who True True stat fam secs ''quota_exhausted'' fs)"

fun gaps_within :: "rat \<Rightarrow> rat list \<Rightarrow> bool" where
  "gaps_within t [] = True"
| "gaps_within t (u # us) = (u \<le> t + 600 \<and> gaps_within u us)"

lemma quota_reports_escalate:
  assumes "gc_enabled cfg" "guard_cfg_valid cfg" "0 \<le> q"
    and "guard_entry fs fam = Some (quota_entry who t (min (q * 2 ^ k) (of_int (gc_max_quota_block_seconds cfg))) (int k + 1))"
    and "gaps_within t ts"
  shows "guard_entry (quota_reports cfg who stat fam secs ts fs) fam =
    Some (quota_entry who (last (t # ts)) (min (q * 2 ^ (k + length ts)) (of_int (gc_max_quota_block_seconds cfg)))
            (int (k + length ts) + 1))"
  using assms
proof (induction ts arbitrary: fs t k)
  case (Cons u ts)
  let ?M = "of_int (gc_max_quota_block_seconds cfg) :: rat"
  have M: "0 \<le> ?M" using Cons.prems(2) by (simp add: guard_cfg_valid_def)
  have nn: "0 \<le> min (q * 2 ^ k) ?M" using Cons.prems(3) M by simp
  have m: "min (min (q * 2 ^ k) ?M * 2) ?M = min (q * 2 ^ Suc k) ?M" using M by (simp add: min_def)
  have u: "u \<le> t + min (q * 2 ^ k) ?M + 600" using Cons.prems(5) nn unfolding gaps_within.simps by linarith
  have "escalated_block cfg u ''quota_exhausted'' (clamped_block cfg secs ''quota_exhausted'') (guard_entry fs fam)
      = (min (q * 2 ^ Suc k) ?M, int (Suc k) + 1)"
    unfolding Cons.prems(4) by (subst escalated_quota [OF u]) (simp_all only: m of_nat_Suc, simp_all)
  then have "guard_entry (report_block cfg u who True True stat fam secs ''quota_exhausted'' fs) fam =
      Some (quota_entry who u (min (q * 2 ^ Suc k) ?M) (int (Suc k) + 1))"
    by (simp only: guard_entry_report [OF Cons.prems(1)] quota_entry_def if_True refl prod.case)
  from Cons.IH [OF Cons.prems(1-3) this] Cons.prems(5) show ?case by simp
qed simp

section \<open>Properties\<close>

text \<open>
  Exponential back-off with a cap: when a family with no record reports an exhausted quota and
  keeps reporting it within the grace time, the n-th repetition blocks it for the first window doubled
  n times, never longer than \<^verbatim>\<open>max_quota_block_seconds\<close>, and counts the reports.
\<close>

theorem quota_backoff_doubles:
  assumes en: "gc_enabled cfg" and v: "guard_cfg_valid cfg" and new: "guard_entry fs fam = None"
    and gaps: "gaps_within t ts" and pos: "0 < secs"
  shows "guard_entry (quota_reports cfg who stat fam (Some secs) (t # ts) fs) fam =
    Some (quota_entry who (last (t # ts))
       (min (clamped_block cfg (Some secs) ''quota_exhausted'' * 2 ^ length ts)
            (of_int (gc_max_quota_block_seconds cfg)))
       (int (length ts) + 1))"
proof -
  let ?q = "clamped_block cfg (Some secs) ''quota_exhausted''"
  have q: "0 \<le> ?q" "min ?q (of_int (gc_max_quota_block_seconds cfg)) = ?q"
    using pos v by (auto simp: clamped_block_def guard_cfg_valid_def Let_def min_def)
  have "guard_entry (report_block cfg t who True True stat fam (Some secs) ''quota_exhausted'' fs) fam =
     Some (quota_entry who t (min (?q * 2 ^ 0) (of_int (gc_max_quota_block_seconds cfg))) (int 0 + 1))"
    using en new q by (simp add: guard_entry_report escalated_block_def quota_entry_def)
  from quota_reports_escalate [OF en v q(1) this gaps] show ?thesis by simp
qed

definition empty_guard_fs :: guard_fs where
  "empty_guard_fs = \<lparr>fs_state = None, fs_history = []\<rparr>"

theorem quota_backoff_doubles_witness:
  "guard_entry (quota_reports default_guard_cfg ''rin'' (1, 1) ''openai'' (Some 3600) [0, 500, 1000, 1500, 2000] empty_guard_fs) ''openai''
   = Some (quota_entry ''rin'' 2000 14400 5)"
  using quota_backoff_doubles [of default_guard_cfg empty_guard_fs "''openai''" 0 "[500, 1000, 1500, 2000]" 3600 "''rin''" "(1, 1)"]
  by (simp add: default_guard_cfg_def guard_cfg_valid_def guard_entry_def guard_read_state_def empty_guard_fs_def
      clamped_block_def Let_def)

text \<open>
  A report is visible and bounded: after a successful write the family is blocked until the moment
  of the report plus a window that is non-negative and at most the configured maximum for its reason,
  and no other family's entry changes.
\<close>

theorem report_block_bounded:
  assumes en: "gc_enabled cfg" and v: "guard_cfg_valid cfg" and nq: "reason \<noteq> ''quota_exhausted''"
  shows "\<exists>s. 0 \<le> s \<and> s \<le> of_int (if reason = ''auth'' then gc_max_quota_block_seconds cfg else gc_max_block_seconds cfg) \<and>
    fst (blocked_until cfg (fs_state (report_block cfg now who True h stat fam secs reason fs)) (g\<lparr>go_cache := None\<rparr>) fam) = now + s \<and>
    (\<forall>fam'. fam' \<noteq> fam \<longrightarrow> guard_entry (report_block cfg now who True h stat fam secs reason fs) fam' = guard_entry fs fam')"
proof -
  let ?s = "clamped_block cfg secs reason"
  have e: "escalated_block cfg now reason ?s p = (?s, 1)" for p
    using nq by (auto simp: escalated_block_def split: option.splits json.splits)
  have "0 \<le> ?s \<and> ?s \<le> of_int (if reason = ''auth'' then gc_max_quota_block_seconds cfg else gc_max_block_seconds cfg)"
    using v nq by (auto simp: clamped_block_def guard_cfg_valid_def Let_def min_def)
  moreover have "fst (blocked_until cfg (fs_state (report_block cfg now who True h stat fam secs reason fs)) (g\<lparr>go_cache := None\<rparr>) fam) = now + ?s"
    using en by (simp add: report_block_def e Let_def blocked_until_def guard_read_cached_def guard_read_state_def
        entry_until_def update_conv)
  ultimately show ?thesis using guard_entry_report [OF en] by (intro exI [of _ ?s]) simp
qed

definition fresh_guard :: guard_obj where
  "fresh_guard = \<lparr>go_explicit = None, go_config = None, go_config_at = 0, go_cache = None, go_cache_key = None\<rparr>"

theorem report_block_bounded_witness:
  "\<exists>s. 0 \<le> s \<and> s \<le> 600 \<and>
     fst (blocked_until default_guard_cfg
       (fs_state (report_block default_guard_cfg 100 ''rin'' True True (1, 1) ''openai'' (Some 9999) ''rate_limit'' empty_guard_fs))
       (fresh_guard\<lparr>go_cache := None\<rparr>) ''openai'') = 100 + s"
  using report_block_bounded [of default_guard_cfg "''rate_limit''" 100 "''rin''" True "(1, 1)" "''openai''" "Some 9999" empty_guard_fs fresh_guard]
  by (auto simp: default_guard_cfg_def guard_cfg_valid_def)

definition cache_current :: "guard_file option \<Rightarrow> guard_obj \<Rightarrow> bool" where
  "cache_current file g =
     (case (file, go_cache g) of
        (Some f, Some d) \<Rightarrow> go_cache_key g = Some (gf_stat f) \<longrightarrow> guard_read_state file = Inr d
      | _ \<Rightarrow> True)"

text \<open>
  The stat cache is transparent and reading fails open: when the cache belongs to the file whose stat
  key it carries, a cached read returns what reading the file returns (and keeps that relation), and
  a guard that is disabled or whose file is unreadable blocks nobody.
\<close>

theorem guard_cache_transparent:
  assumes c: "cache_current file g"
  shows "fst (guard_read_cached file g) = guard_read_state file \<and>
         cache_current file (snd (guard_read_cached file g)) \<and>
         (0 \<le> now \<and> (\<not> gc_enabled cfg \<or> (\<exists>e. guard_read_state file = Inl e)) \<longrightarrow>
            fst (blocked_remaining cfg now file g fam) = 0)"
proof -
  have r: "fst (guard_read_cached file g) = guard_read_state file"
    using c by (auto simp: guard_read_cached_def cache_current_def guard_read_state_def
        split: option.splits bool.splits sum.splits json.splits prod.splits)
  moreover have "cache_current file (snd (guard_read_cached file g))"
    using c by (auto simp: guard_read_cached_def cache_current_def
        split: option.splits bool.splits sum.splits prod.splits)
  moreover have "fst (blocked_remaining cfg now file g fam) = 0"
    if "0 \<le> now \<and> (\<not> gc_enabled cfg \<or> (\<exists>e. guard_read_state file = Inl e))"
    using that r by (auto simp: blocked_remaining_def blocked_until_def split: prod.splits sum.splits)
  ultimately show ?thesis by blast
qed

theorem guard_cache_transparent_witness:
  "fst (guard_read_cached (Some \<lparr>gf_stat = (1, 2), gf_content = None\<rparr>) fresh_guard) = Inl (ValueError ''JSONDecodeError'')"
  using guard_cache_transparent [of "Some \<lparr>gf_stat = (1, 2), gf_content = None\<rparr>" fresh_guard]
  by (simp add: cache_current_def fresh_guard_def guard_read_state_def)

end
