(* ===== verification/Activity_Log.thy ===== *)
theory Activity_Log
  imports Anima_Prelude
begin

text \<open>
  The unified activity log: \<^verbatim>\<open>core/memory/activity.py\<close> (\<^verbatim>\<open>_LiveEventRateLimiter\<close>, context labels,
  \<^verbatim>\<open>_load_entries\<close>, \<^verbatim>\<open>recent\<close>, \<^verbatim>\<open>recent_page\<close>, \<^verbatim>\<open>_involves\<close>) and \<^verbatim>\<open>core/memory/_activity_models.py\<close>
  (\<^verbatim>\<open>ActivityEntry\<close>, \<^verbatim>\<open>resolve_type_filter\<close>). The log directory is a function from the local date, as a
  day number, to the lines of that day's file; \<open>loads\<close> stands for \<^verbatim>\<open>json.loads\<close> and \<open>fromiso\<close> for
  \<^verbatim>\<open>datetime.fromisoformat\<close> (both \<open>None\<close> where they raise). Instants are seconds of local time.
\<close>

section \<open>The token bucket of live events\<close>

record bucket =
  bk_tokens :: rat
  bk_updated :: rat
  bk_dropped :: nat

type_synonym buckets = "(string \<times> bucket) list"

definition refill :: "rat \<Rightarrow> rat \<Rightarrow> rat \<Rightarrow> bucket \<Rightarrow> rat" where
  "refill rate capacity now b = min capacity (bk_tokens b + max 0 (now - bk_updated b) * rate)"

definition bucket_allow :: "rat \<Rightarrow> rat \<Rightarrow> rat \<Rightarrow> string \<Rightarrow> buckets \<Rightarrow> (bool \<times> nat) \<times> buckets" where
  "bucket_allow rate capacity now name bs =
     (let b = opt_or (map_of bs name) \<lparr>bk_tokens = capacity, bk_updated = now, bk_dropped = 0\<rparr>;
          tokens = refill rate capacity now b
      in if tokens < 1
         then ((False, 0), AList.update name \<lparr>bk_tokens = tokens, bk_updated = now, bk_dropped = bk_dropped b + 1\<rparr> bs)
         else ((True, bk_dropped b), AList.update name \<lparr>bk_tokens = tokens - 1, bk_updated = now, bk_dropped = 0\<rparr> bs))"

definition bucket_reset :: "buckets \<Rightarrow> buckets" where
  "bucket_reset bs = []"

section \<open>Context labels\<close>

definition activity_context_from_trigger :: "string option \<Rightarrow> string option \<Rightarrow> string" where
  "activity_context_from_trigger trigger0 session0 =
     (let trigger = py_strip (opt_or trigger0 []); session_type = py_strip (opt_or session0 [])
      in if starts_with trigger ''task:'' \<or> starts_with trigger ''cron:'' then trigger
         else if trigger = ''heartbeat'' \<or> starts_with trigger ''consolidation:'' then ''heartbeat''
         else if trigger = ''inbox'' \<or> starts_with trigger ''inbox:'' then ''inbox''
         else if starts_with trigger ''message:'' \<or> trigger \<in> {[], ''manual'', ''chat'', ''bootstrap'', ''greet:user''}
         then (if session_type = ''chat'' \<or> trigger \<noteq> [] then ''chat'' else session_type)
         else if trigger \<noteq> [] then trigger else session_type)"

section \<open>Entries\<close>

record activity_entry =
  ae_ts :: json
  ae_type :: json
  ae_content :: json
  ae_summary :: json
  ae_from_person :: json
  ae_to_person :: json
  ae_channel :: json
  ae_tool :: json
  ae_via :: json
  ae_meta :: json
  ae_origin :: json
  ae_origin_chain :: json
  ae_ctx :: json
  ae_line_number :: nat

definition resolve_type_filter :: "string list option \<Rightarrow> string set option" where
  "resolve_type_filter types =
     (case types of None \<Rightarrow> None
      | Some ts \<Rightarrow> Some (set ts \<union>
          (if ''message_sent'' \<in> set ts then {''dm_sent''} else {}) \<union>
          (if ''dm_sent'' \<in> set ts then {''message_sent''} else {}) \<union>
          (if ''message_received'' \<in> set ts then {''dm_received''} else {}) \<union>
          (if ''dm_received'' \<in> set ts then {''message_received''} else {})))"

text \<open>\<^verbatim>\<open>d[new] = d.pop(old)\<close> when the key is there.\<close>

definition rename_key :: "string \<Rightarrow> string \<Rightarrow> dict \<Rightarrow> dict" where
  "rename_key old new d =
     (case map_of d old of None \<Rightarrow> d | Some v \<Rightarrow> AList.update new v (AList.delete old d))"

definition entry_fields :: "activity_entry \<Rightarrow> dict" where
  "entry_fields e =
     [(''ts'', ae_ts e), (''type'', ae_type e), (''content'', ae_content e), (''summary'', ae_summary e),
      (''from_person'', ae_from_person e), (''to_person'', ae_to_person e), (''channel'', ae_channel e),
      (''tool'', ae_tool e), (''via'', ae_via e), (''meta'', ae_meta e), (''origin'', ae_origin e),
      (''origin_chain'', ae_origin_chain e), (''ctx'', ae_ctx e)]"

definition to_dict :: "activity_entry \<Rightarrow> dict" where
  "to_dict e =
     rename_key ''to_person'' ''to'' (rename_key ''from_person'' ''from'' [(k, v) \<leftarrow> entry_fields e. truthy v])"

text \<open>The dataclass constructor on the known keys: \<open>None\<close> is the \<^verbatim>\<open>TypeError\<close> of a missing or unexpected argument.\<close>

definition make_entry :: "nat \<Rightarrow> dict \<Rightarrow> activity_entry option" where
  "make_entry n d =
     (case (map_of d ''ts'', map_of d ''type'') of
        (Some ts, Some ty) \<Rightarrow>
          if map_of d ''_line_number'' \<noteq> None \<or> map_of d ''_anima_name'' \<noteq> None \<or> map_of d ''_tool_result_data'' \<noteq> None
          then None
          else Some \<lparr>ae_ts = ts, ae_type = ty,
             ae_content = opt_or (map_of d ''content'') (JStr []),
             ae_summary = opt_or (map_of d ''summary'') (JStr []),
             ae_from_person = opt_or (map_of d ''from_person'') (JStr []),
             ae_to_person = opt_or (map_of d ''to_person'') (JStr []),
             ae_channel = opt_or (map_of d ''channel'') (JStr []),
             ae_tool = opt_or (map_of d ''tool'') (JStr []),
             ae_via = opt_or (map_of d ''via'') (JStr []),
             ae_meta = opt_or (map_of d ''meta'') (JObj []),
             ae_origin = opt_or (map_of d ''origin'') (JStr []),
             ae_origin_chain = opt_or (map_of d ''origin_chain'') (JArr []),
             ae_ctx = opt_or (map_of d ''ctx'') (JStr []),
             ae_line_number = n\<rparr>
      | _ \<Rightarrow> None)"

definition involves :: "dict \<Rightarrow> string \<Rightarrow> bool" where
  "involves raw name \<longleftrightarrow>
     opt_or (map_of raw ''from'') (opt_or (map_of raw ''from_person'') JNull) = JStr name \<or>
     opt_or (map_of raw ''to'') (opt_or (map_of raw ''to_person'') JNull) = JStr name \<or>
     map_of raw ''channel'' = Some (JStr name)"

section \<open>Reading\<close>

record activity_query =
  aq_types :: "string list option"
  aq_involving :: "string option"
  aq_cutoff :: "rat option"
  aq_until :: "rat option"

text \<open>Whether the timestamp lets the entry pass; one that does not parse passes.\<close>

definition in_window :: "(string \<Rightarrow> rat option) \<Rightarrow> activity_query \<Rightarrow> dict \<Rightarrow> bool" where
  "in_window fromiso q d =
     (case opt_or (map_of d ''ts'') (JStr []) of
        JStr s \<Rightarrow>
          (case fromiso s of None \<Rightarrow> True
           | Some t \<Rightarrow> \<not> (case aq_cutoff q of None \<Rightarrow> False | Some c \<Rightarrow> t < c) \<and>
                       \<not> (case aq_until q of None \<Rightarrow> False | Some u \<Rightarrow> u < t))
      | _ \<Rightarrow> True)"

definition type_passes :: "activity_query \<Rightarrow> dict \<Rightarrow> py_error + bool" where
  "type_passes q d =
     (case resolve_type_filter (aq_types q) of
        None \<Rightarrow> Inr True
      | Some ts \<Rightarrow>
          if ts = {} then Inr True
          else case map_of d ''type'' of
              Some (JStr t) \<Rightarrow> Inr (t \<in> ts)
            | Some (JArr _) \<Rightarrow> Inl (TypeError ''unhashable type'')
            | Some (JObj _) \<Rightarrow> Inl (TypeError ''unhashable type'')
            | _ \<Rightarrow> Inr False)"

definition read_object :: "(string \<Rightarrow> rat option) \<Rightarrow> activity_query \<Rightarrow> nat \<Rightarrow> dict \<Rightarrow> py_error + activity_entry option" where
  "read_object fromiso q n raw =
     (let d1 = (if map_of raw ''type'' = None then rename_key ''event'' ''type'' raw else raw)
      in case type_passes q d1 of
           Inl e \<Rightarrow> Inl e
         | Inr False \<Rightarrow> Inr None
         | Inr True \<Rightarrow>
             if (case aq_involving q of None \<Rightarrow> False | Some name \<Rightarrow> name \<noteq> [] \<and> \<not> involves d1 name) then Inr None
             else let d2 = (if map_of d1 ''ts'' = None then rename_key ''timestamp'' ''ts'' d1 else d1);
                      d3 = rename_key ''to'' ''to_person'' (rename_key ''from'' ''from_person'' d2)
                  in if in_window fromiso q d3 then Inr (make_entry n d3) else Inr None)"

definition read_line ::
  "(string \<Rightarrow> json option) \<Rightarrow> (string \<Rightarrow> rat option) \<Rightarrow> activity_query \<Rightarrow> nat \<Rightarrow> string \<Rightarrow> py_error + activity_entry option" where
  "read_line loads fromiso q n line0 =
     (let line = py_strip line0
      in if line = [] \<or> length line > 40000 then Inr None
         else case loads line of Some (JObj raw) \<Rightarrow> read_object fromiso q n raw | _ \<Rightarrow> Inr None)"

fun read_lines ::
  "(string \<Rightarrow> json option) \<Rightarrow> (string \<Rightarrow> rat option) \<Rightarrow> activity_query \<Rightarrow> nat \<Rightarrow> string list \<Rightarrow> py_error + activity_entry list" where
  "read_lines loads fromiso q n [] = Inr []"
| "read_lines loads fromiso q n (l # ls) =
     (case read_line loads fromiso q n l of
        Inl e \<Rightarrow> Inl e
      | Inr r \<Rightarrow> (case read_lines loads fromiso q (n + 1) ls of
                    Inl e \<Rightarrow> Inl e
                  | Inr es \<Rightarrow> Inr ((case r of None \<Rightarrow> [] | Some x \<Rightarrow> [x]) @ es)))"

fun read_days ::
  "(string \<Rightarrow> json option) \<Rightarrow> (string \<Rightarrow> rat option) \<Rightarrow> activity_query \<Rightarrow> (int \<Rightarrow> string list option) \<Rightarrow> int list
   \<Rightarrow> py_error + activity_entry list" where
  "read_days loads fromiso q files [] = Inr []"
| "read_days loads fromiso q files (day # days) =
     (case (case files day of None \<Rightarrow> Inr [] | Some ls \<Rightarrow> read_lines loads fromiso q 1 ls) of
        Inl e \<Rightarrow> Inl e
      | Inr es \<Rightarrow> (case read_days loads fromiso q files days of Inl e \<Rightarrow> Inl e | Inr rest \<Rightarrow> Inr (es @ rest)))"

definition date_of :: "rat \<Rightarrow> int" where
  "date_of t = \<lfloor>t / 86400\<rfloor>"

text \<open>The days that are scanned, newest first, and the cutoff, from the arguments \<^verbatim>\<open>days\<close>, \<^verbatim>\<open>hours\<close>, \<^verbatim>\<open>since\<close>.\<close>

definition scan_plan :: "rat \<Rightarrow> int \<Rightarrow> int option \<Rightarrow> rat option \<Rightarrow> int \<times> rat option" where
  "scan_plan now days hours since =
     (case since of
        Some s \<Rightarrow> ((if date_of s \<le> date_of now then date_of now - date_of s else 0) + 1, Some s)
      | None \<Rightarrow>
        (case hours of
           Some h \<Rightarrow> (\<lceil>of_int h / 24 :: rat\<rceil> + 1, Some (now - of_int h * 3600))
         | None \<Rightarrow> (days, None)))"

definition scan_dates :: "rat \<Rightarrow> int \<Rightarrow> rat option \<Rightarrow> rat option \<Rightarrow> int list" where
  "scan_dates now n cutoff until =
     [d \<leftarrow> map (\<lambda>k. date_of now - int k) [0 ..< nat n].
        \<not> (case until of None \<Rightarrow> False | Some u \<Rightarrow> date_of u < d) \<and>
        \<not> (case cutoff of None \<Rightarrow> False | Some c \<Rightarrow> d < date_of c)]"

text \<open>
  \<^verbatim>\<open>entries.sort(key=lambda e: e.ts)\<close>: timestamps that are not strings cannot be compared with the
  strings the logger writes.
\<close>

definition ts_string :: "activity_entry \<Rightarrow> string" where
  "ts_string e = (case ae_ts e of JStr s \<Rightarrow> s | _ \<Rightarrow> [])"

definition has_string_ts :: "activity_entry \<Rightarrow> bool" where
  "has_string_ts e = (case ae_ts e of JStr s \<Rightarrow> True | _ \<Rightarrow> False)"

definition load_entries ::
  "(string \<Rightarrow> json option) \<Rightarrow> (string \<Rightarrow> rat option) \<Rightarrow> (int \<Rightarrow> string list option) \<Rightarrow> rat
   \<Rightarrow> int \<Rightarrow> int option \<Rightarrow> string list option \<Rightarrow> string option \<Rightarrow> rat option \<Rightarrow> rat option
   \<Rightarrow> py_error + activity_entry list" where
  "load_entries loads fromiso files now days hours types involving since until =
     (case scan_plan now days hours since of (n, cutoff) \<Rightarrow>
        (case read_days loads fromiso \<lparr>aq_types = types, aq_involving = involving, aq_cutoff = cutoff, aq_until = until\<rparr>
                files (scan_dates now n cutoff until) of
           Inl e \<Rightarrow> Inl e
         | Inr es \<Rightarrow> if list_all has_string_ts es then Inr (sort_key ts_string es)
                     else Inl (TypeError ''sort'')))"

definition recent ::
  "(string \<Rightarrow> json option) \<Rightarrow> (string \<Rightarrow> rat option) \<Rightarrow> (int \<Rightarrow> string list option) \<Rightarrow> rat
   \<Rightarrow> int \<Rightarrow> nat \<Rightarrow> string list option \<Rightarrow> string option \<Rightarrow> py_error + activity_entry list" where
  "recent loads fromiso files now days limit types involving =
     (case load_entries loads fromiso files now days None types involving None None of
        Inl e \<Rightarrow> Inl e
      | Inr es \<Rightarrow> Inr (if length es > limit then last_n limit es else es))"

record activity_page =
  ap_entries :: "activity_entry list"
  ap_total :: nat
  ap_offset :: nat
  ap_limit :: nat
  ap_has_more :: bool

definition recent_page ::
  "(string \<Rightarrow> json option) \<Rightarrow> (string \<Rightarrow> rat option) \<Rightarrow> (int \<Rightarrow> string list option) \<Rightarrow> rat
   \<Rightarrow> int \<Rightarrow> int option \<Rightarrow> int \<Rightarrow> int \<Rightarrow> string list option \<Rightarrow> string option \<Rightarrow> py_error + activity_page" where
  "recent_page loads fromiso files now days hours limit0 offset0 types involving =
     (let offset = nat (max 0 offset0)
      in case load_entries loads fromiso files now days hours types involving None None of
           Inl e \<Rightarrow> Inl e
         | Inr es \<Rightarrow>
             let all_entries = rev es; total = length es
             in if limit0 \<le> 0
                then Inr \<lparr>ap_entries = drop offset all_entries, ap_total = total, ap_offset = offset,
                          ap_limit = total, ap_has_more = False\<rparr>
                else let limit = nat (min limit0 500)
                     in Inr \<lparr>ap_entries = take limit (drop offset all_entries), ap_total = total, ap_offset = offset,
                             ap_limit = limit, ap_has_more = offset + limit < total\<rparr>)"

section \<open>Facts on the bucket\<close>

definition bucket_ok :: "rat \<Rightarrow> bucket \<Rightarrow> bool" where
  "bucket_ok capacity b \<longleftrightarrow> 0 \<le> bk_tokens b \<and> bk_tokens b \<le> capacity"

text \<open>A run of one anima's events at the given clock readings: how many of them pass.\<close>

fun allowed_count :: "rat \<Rightarrow> rat \<Rightarrow> string \<Rightarrow> rat list \<Rightarrow> buckets \<Rightarrow> nat" where
  "allowed_count rate capacity name [] bs = 0"
| "allowed_count rate capacity name (t # ts) bs =
     (case bucket_allow rate capacity t name bs of
        ((ok, _), bs') \<Rightarrow> (if ok then 1 else 0) + allowed_count rate capacity name ts bs')"

lemma allowed_count_bound:
  assumes "map_of bs name = Some b" "bucket_ok capacity b" "0 \<le> rate"
    and "sorted (bk_updated b # ts)"
  shows "of_nat (allowed_count rate capacity name ts bs) \<le> bk_tokens b + (last (bk_updated b # ts) - bk_updated b) * rate"
  using assms
proof (induction ts arbitrary: bs b)
  case (Cons t ts)
  let ?r = "refill rate capacity t b"
  have t: "bk_updated b \<le> t" "sorted (t # ts)" using Cons.prems(4) by auto
  have le: "?r \<le> bk_tokens b + (t - bk_updated b) * rate" using t by (simp add: refill_def)
  have r: "0 \<le> ?r" "?r \<le> capacity"
    using Cons.prems t by (auto simp: refill_def bucket_ok_def)
  have split: "(last (bk_updated b # t # ts) - bk_updated b) * rate =
      (last (t # ts) - t) * rate + (t - bk_updated b) * rate" by (simp add: algebra_simps)
  show ?case
  proof (cases "?r < 1")
    case True
    let ?b = "\<lparr>bk_tokens = ?r, bk_updated = t, bk_dropped = bk_dropped b + 1\<rparr>"
    have "of_nat (allowed_count rate capacity name ts (AList.update name ?b bs)) \<le> ?r + (last (t # ts) - t) * rate"
      using Cons.IH [of "AList.update name ?b bs" ?b] r t Cons.prems(3) by (simp add: update_conv bucket_ok_def)
    with True le split Cons.prems(1) show ?thesis by (simp add: bucket_allow_def Let_def)
  next
    case False
    let ?b = "\<lparr>bk_tokens = ?r - 1, bk_updated = t, bk_dropped = 0\<rparr>"
    have "of_nat (allowed_count rate capacity name ts (AList.update name ?b bs)) \<le> ?r - 1 + (last (t # ts) - t) * rate"
      using Cons.IH [of "AList.update name ?b bs" ?b] r False t Cons.prems(3) by (simp add: update_conv bucket_ok_def)
    with False le split Cons.prems(1) show ?thesis by (simp add: bucket_allow_def Let_def)
  qed
qed (simp add: bucket_ok_def)

section \<open>Facts on entries\<close>

lemma map_of_rename_key:
  "map_of (rename_key old new d) k =
     (if map_of d old = None then map_of d k
      else if k = new then map_of d old else if k = old then None else map_of d k)"
  by (auto simp: rename_key_def update_conv delete_conv split: option.splits)

lemma map_of_filter_truthy:
  "distinct (map fst d) \<Longrightarrow>
   map_of [(k, v) \<leftarrow> d. truthy v] k = (case map_of d k of None \<Rightarrow> None | Some v \<Rightarrow> if truthy v then Some v else None)"
  by (induction d) (auto split: option.splits dest: map_of_SomeD intro: rev_image_eqI)

text \<open>The entries the logger itself makes: strings, an object and a list, with a timestamp and a type.\<close>

definition str_json :: "json \<Rightarrow> bool" where
  "str_json v = (case v of JStr s \<Rightarrow> True | _ \<Rightarrow> False)"

definition logger_entry :: "activity_entry \<Rightarrow> bool" where
  "logger_entry e \<longleftrightarrow>
     list_all str_json [ae_ts e, ae_type e, ae_content e, ae_summary e, ae_from_person e, ae_to_person e,
       ae_channel e, ae_tool e, ae_via e, ae_origin e, ae_ctx e] \<and>
     truthy (ae_ts e) \<and> truthy (ae_type e) \<and>
     (case ae_meta e of JObj _ \<Rightarrow> True | _ \<Rightarrow> False) \<and> (case ae_origin_chain e of JArr _ \<Rightarrow> True | _ \<Rightarrow> False)"

lemma falsy_default:
  "str_json v \<Longrightarrow> \<not> truthy v \<Longrightarrow> v = JStr []"
  "(case m of JObj _ \<Rightarrow> True | _ \<Rightarrow> False) \<Longrightarrow> \<not> truthy m \<Longrightarrow> m = JObj []"
  "(case m of JArr _ \<Rightarrow> True | _ \<Rightarrow> False) \<Longrightarrow> \<not> truthy m \<Longrightarrow> m = JArr []"
  by (auto simp: str_json_def split: json.splits)

definition kept :: "json \<Rightarrow> json option" where
  "kept v = (if truthy v then Some v else None)"

lemma opt_or_kept:
  "str_json v \<Longrightarrow> opt_or (kept v) (JStr []) = v"
  "(case m of JObj _ \<Rightarrow> True | _ \<Rightarrow> False) \<Longrightarrow> opt_or (kept m) (JObj []) = m"
  "(case m of JArr _ \<Rightarrow> True | _ \<Rightarrow> False) \<Longrightarrow> opt_or (kept m) (JArr []) = m"
  by (auto simp: kept_def dest: falsy_default)

lemma map_of_entry_fields:
  "map_of [(k, v) \<leftarrow> entry_fields e. truthy v] k =
     (case map_of (entry_fields e) k of None \<Rightarrow> None | Some v \<Rightarrow> kept v)"
  by (subst map_of_filter_truthy) (simp_all add: entry_fields_def kept_def)

lemma map_of_to_dict:
  "map_of (to_dict e) k =
     (if k = ''to'' then kept (ae_to_person e) else if k = ''from'' then kept (ae_from_person e)
      else if k = ''to_person'' \<or> k = ''from_person'' then None
      else case map_of (entry_fields e) k of None \<Rightarrow> None | Some v \<Rightarrow> kept v)"
  unfolding to_dict_def map_of_rename_key map_of_entry_fields
  by (simp add: entry_fields_def)

section \<open>Properties\<close>

text \<open>
  Round trip of an entry: what \<^verbatim>\<open>to_dict\<close> writes, with empty fields left out and the persons renamed,
  is read back as the same entry by a query without filters, with the line number of its place.
\<close>

theorem activity_entry_roundtrip:
  assumes "logger_entry e"
  shows "read_object fromiso \<lparr>aq_types = None, aq_involving = None, aq_cutoff = None, aq_until = None\<rparr> n (to_dict e)
    = Inr (Some (e\<lparr>ae_line_number := n\<rparr>))"
proof -
  have l: "logger_entry e" by fact
  have ts: "kept (ae_ts e) = Some (ae_ts e)" "kept (ae_type e) = Some (ae_type e)"
    using l by (auto simp: kept_def logger_entry_def)
  let ?q = "\<lparr>aq_types = None, aq_involving = None, aq_cutoff = None, aq_until = None\<rparr>"
  define d where "d = rename_key ''to'' ''to_person'' (rename_key ''from'' ''from_person'' (to_dict e))"
  have m: "map_of d k =
     (if k = ''to_person'' then kept (ae_to_person e) else if k = ''from_person'' then kept (ae_from_person e)
      else if k = ''to'' \<or> k = ''from'' then None
      else case map_of (entry_fields e) k of None \<Rightarrow> None | Some v \<Rightarrow> kept v)" for k
    unfolding d_def map_of_rename_key map_of_to_dict by simp
  have "make_entry n d = Some (e\<lparr>ae_line_number := n\<rparr>)"
    using l by (simp add: make_entry_def m entry_fields_def ts opt_or_kept logger_entry_def)
  moreover have "in_window fromiso ?q d" by (simp add: in_window_def split: json.splits option.splits)
  moreover have "map_of (to_dict e) ''type'' = Some (ae_type e)" "map_of (to_dict e) ''ts'' = Some (ae_ts e)"
    using ts by (simp_all add: map_of_to_dict entry_fields_def)
  ultimately show ?thesis
    by (simp add: read_object_def type_passes_def resolve_type_filter_def Let_def d_def [symmetric])
qed

definition demo_activity :: activity_entry where
  "demo_activity = \<lparr>ae_ts = JStr ''2026-01-01T10:00:00'', ae_type = JStr ''message_sent'', ae_content = JStr ''hi'',
     ae_summary = JStr [], ae_from_person = JStr [], ae_to_person = JStr ''sora'', ae_channel = JStr [],
     ae_tool = JStr [], ae_via = JStr [], ae_meta = JObj [], ae_origin = JStr [], ae_origin_chain = JArr [],
     ae_ctx = JStr ''chat'', ae_line_number = 0\<rparr>"

theorem activity_entry_roundtrip_witness:
  "read_object (\<lambda>_. None) \<lparr>aq_types = None, aq_involving = None, aq_cutoff = None, aq_until = None\<rparr> 7 (to_dict demo_activity)
    = Inr (Some (demo_activity\<lparr>ae_line_number := 7\<rparr>))"
  using activity_entry_roundtrip [of demo_activity "\<lambda>_. None" 7]
  by (simp add: demo_activity_def logger_entry_def str_json_def)

text \<open>
  The live event limiter is a token bucket: in any run of an anima's events with a clock that does not
  go back, the number of events that pass is at most the capacity plus the rate times the elapsed time.
\<close>

theorem live_events_bounded:
  assumes new: "map_of bs name = None" and rate: "0 \<le> rate" and cap: "1 \<le> capacity" and s: "sorted (t # ts)"
  shows "of_nat (allowed_count rate capacity name (t # ts) bs) \<le> capacity + (last (t # ts) - t) * rate"
proof -
  let ?b = "\<lparr>bk_tokens = capacity - 1, bk_updated = t, bk_dropped = 0\<rparr>"
  have "of_nat (allowed_count rate capacity name ts (AList.update name ?b bs)) \<le> capacity - 1 + (last (t # ts) - t) * rate"
    using allowed_count_bound [of "AList.update name ?b bs" name ?b capacity rate ts] assms
    by (simp add: update_conv bucket_ok_def)
  with new cap show ?thesis by (simp add: bucket_allow_def refill_def Let_def)
qed

theorem live_events_bounded_witness:
  "of_nat (allowed_count 3 5 ''rin'' [0, 0, 0, 0, 0, 0, 1] []) \<le> (8 :: rat) \<and> allowed_count 3 5 ''rin'' [0, 0, 0, 0, 0, 0, 1] [] = 6"
  using live_events_bounded [of "[]" "''rin''" 3 5 0 "[0, 0, 0, 0, 0, 1]"]
  by (simp add: bucket_allow_def refill_def Let_def)

lemma concat_pages:
  "concat (map (\<lambda>k. take L (drop (k * L) xs)) [0 ..< n]) = take (n * L) xs"
proof (induction n)
  case (Suc n)
  have "take (n * L) xs @ take L (drop (n * L) xs) = take (n * L + L) xs" by (simp add: take_add)
  with Suc show ?case by (simp add: add.commute)
qed simp

text \<open>
  Pagination loses and repeats nothing: the pages at the offsets 0, L, 2L, ... of one log put together are
  all matching entries, newest first, and \<^verbatim>\<open>has_more\<close> is false exactly on the pages that reach the end.
\<close>

theorem recent_pages_complete:
  assumes ok: "load_entries loads fromiso files now days hours types involving None None = Inr es"
    and L: "1 \<le> L" "L \<le> 500" and n: "length es \<le> n * L"
  shows "\<exists>pages. map (\<lambda>k. recent_page loads fromiso files now days hours (int L) (int (k * L)) types involving) [0 ..< n]
                 = map Inr pages \<and>
         concat (map ap_entries pages) = rev es \<and>
         (\<forall>k < n. ap_has_more (pages ! k) \<longleftrightarrow> (k + 1) * L < length es)"
proof -
  define page where "page k = \<lparr>ap_entries = take L (drop (k * L) (rev es)), ap_total = length es, ap_offset = k * L,
      ap_limit = L, ap_has_more = k * L + L < length es\<rparr>" for k
  have "recent_page loads fromiso files now days hours (int L) (int (k * L)) types involving = Inr (page k)" for k
  proof -
    have "nat (max 0 (int (k * L))) = k * L" by (simp only: max_absorb2 of_nat_0_le_iff nat_int)
    moreover have "nat (min (int L) 500) = L" using L by auto
    ultimately show ?thesis using ok L by (simp add: recent_page_def page_def Let_def del: of_nat_mult)
  qed
  moreover have "concat (map ap_entries (map page [0 ..< n])) = rev es"
    using concat_pages [of L "rev es" n] n by (simp add: page_def comp_def)
  moreover have "\<forall>k < n. ap_has_more (map page [0 ..< n] ! k) \<longleftrightarrow> (k + 1) * L < length es"
    by (simp add: page_def algebra_simps)
  ultimately show ?thesis by (intro exI [of _ "map page [0 ..< n]"]) simp
qed

definition demo_loads :: "string \<Rightarrow> json option" where
  "demo_loads s = Some (JObj [(''ts'', JStr s), (''type'', JStr ''note'')])"

definition demo_files :: "int \<Rightarrow> string list option" where
  "demo_files d = (if d = 0 then Some [''2026-01-01T01'', ''2026-01-01T02'', ''2026-01-01T03''] else None)"

theorem recent_pages_complete_witness:
  "\<exists>es pages. load_entries demo_loads (\<lambda>_. None) demo_files 100 1 None None None None None = Inr es \<and> length es = 3 \<and>
     map (\<lambda>k. recent_page demo_loads (\<lambda>_. None) demo_files 100 1 None (int 2) (int (k * 2)) None None) [0 ..< 2] = map Inr pages \<and>
     concat (map ap_entries pages) = rev es"
proof -
  have d: "date_of 100 = 0" by (simp add: date_of_def floor_eq_iff)
  have n: "nat 1 = Suc 0" by simp
  let ?q = "\<lparr>aq_types = None, aq_involving = None, aq_cutoff = None, aq_until = None\<rparr>"
  have o: "read_object (\<lambda>_. None) ?q n [(''ts'', JStr s), (''type'', JStr ''note'')] =
      Inr (make_entry n [(''ts'', JStr s), (''type'', JStr ''note'')])" for n s
    by (simp add: read_object_def type_passes_def resolve_type_filter_def rename_key_def in_window_def Let_def)
  have "\<exists>es. load_entries demo_loads (\<lambda>_. None) demo_files 100 1 None None None None None = Inr es \<and> length es = 3"
    by (simp add: load_entries_def scan_plan_def scan_dates_def d n demo_files_def read_line_def py_strip_def is_space_def
        demo_loads_def o make_entry_def has_string_ts_def Let_def)
  then obtain es where e: "load_entries demo_loads (\<lambda>_. None) demo_files 100 1 None None None None None = Inr es" "length es = 3"
    by blast
  with recent_pages_complete [OF e(1), of 2 2] show ?thesis by auto
qed

end
