(* ===== verification/Cascade_Limiter.thy ===== *)
theory Cascade_Limiter
  imports Activity_Log
begin

text \<open>
  The message limiters of \<^verbatim>\<open>core/cascade_limiter.py\<close>, class \<^verbatim>\<open>ConversationDepthLimiter\<close>, with
  \<^verbatim>\<open>resolve_outbound_limits\<close> of \<^verbatim>\<open>core/config/schemas.py\<close>. Both read the activity log; the log files,
  \<^verbatim>\<open>json.loads\<close>, \<^verbatim>\<open>datetime.fromisoformat\<close> and the clock are arguments as in the theory of the log. The
  Japanese texts of the refusals are constructors with the numbers they show.
\<close>

section \<open>Definitions\<close>

record limiter =
  li_window_s :: rat
  li_max_depth :: int
  li_hour_override :: "int option"
  li_day_override :: "int option"
  li_outbound_enabled :: bool

record heartbeat_cfg =
  hb_depth_window_s :: int
  hb_max_depth :: int
  hb_outbound_limit_enabled :: bool

definition make_limiter ::
  "heartbeat_cfg \<Rightarrow> rat option \<Rightarrow> int option \<Rightarrow> int option \<Rightarrow> int option \<Rightarrow> limiter" where
  "make_limiter cfg window max_depth per_hour per_day =
     \<lparr>li_window_s = opt_or window (of_int (hb_depth_window_s cfg)),
      li_max_depth = opt_or max_depth (hb_max_depth cfg),
      li_hour_override = per_hour, li_day_override = per_day,
      li_outbound_enabled = hb_outbound_limit_enabled cfg\<rparr>"

record outbound_limits =
  ol_per_hour :: int
  ol_per_day :: int
  ol_recipients :: int

definition role_outbound_defaults :: "(string \<times> outbound_limits) list" where
  "role_outbound_defaults =
     [(''manager'', \<lparr>ol_per_hour = 60, ol_per_day = 300, ol_recipients = 10\<rparr>),
      (''engineer'', \<lparr>ol_per_hour = 40, ol_per_day = 200, ol_recipients = 5\<rparr>),
      (''writer'', \<lparr>ol_per_hour = 30, ol_per_day = 150, ol_recipients = 3\<rparr>),
      (''researcher'', \<lparr>ol_per_hour = 30, ol_per_day = 150, ol_recipients = 3\<rparr>),
      (''ops'', \<lparr>ol_per_hour = 20, ol_per_day = 80, ol_recipients = 2\<rparr>),
      (''general'', \<lparr>ol_per_hour = 15, ol_per_day = 50, ol_recipients = 2\<rparr>)]"

definition general_limits :: outbound_limits where
  "general_limits = \<lparr>ol_per_hour = 15, ol_per_day = 50, ol_recipients = 2\<rparr>"

text \<open>A field of \<^verbatim>\<open>status.json\<close> counts when it is a positive integer.\<close>

definition limit_field :: "dict \<Rightarrow> string \<Rightarrow> int \<Rightarrow> int" where
  "limit_field d k def =
     (case Option.bind (map_of d k) json_int of Some v \<Rightarrow> if v > 0 then v else def | None \<Rightarrow> def)"

text \<open>\<open>None\<close>: no status file; \<open>Some None\<close>: it cannot be read as JSON.\<close>

definition resolve_outbound_limits :: "json option option \<Rightarrow> py_error + outbound_limits" where
  "resolve_outbound_limits status =
     (case status of
        None \<Rightarrow> Inr general_limits
      | Some None \<Rightarrow> Inr general_limits
      | Some (Some (JObj d)) \<Rightarrow>
          (case opt_or (map_of d ''role'') (JStr ''general'') of
             JArr _ \<Rightarrow> Inl (TypeError ''unhashable type'')
           | JObj _ \<Rightarrow> Inl (TypeError ''unhashable type'')
           | role \<Rightarrow>
               let defaults = (case role of JStr r \<Rightarrow> opt_or (map_of role_outbound_defaults r) general_limits
                               | _ \<Rightarrow> general_limits)
               in Inr \<lparr>ol_per_hour = limit_field d ''max_outbound_per_hour'' (ol_per_hour defaults),
                       ol_per_day = limit_field d ''max_outbound_per_day'' (ol_per_day defaults),
                       ol_recipients = limit_field d ''max_recipients_per_run'' (ol_recipients defaults)\<rparr>)
      | Some (Some _) \<Rightarrow> Inl (AttributeError ''get''))"

text \<open>The time stamps of entries that \<^verbatim>\<open>fromisoformat\<close> accepts.\<close>

definition entry_times :: "(string \<Rightarrow> rat option) \<Rightarrow> activity_entry list \<Rightarrow> rat list" where
  "entry_times fromiso es = List.map_filter (\<lambda>e. fromiso (ts_string e)) es"

datatype verdict =
    Allowed
  | LogUnreadable
  | HourlyLimit int nat nat "rat option"
  | DailyLimit int nat

definition earliest :: "rat list \<Rightarrow> rat option" where
  "earliest ts = (case ts of [] \<Rightarrow> None | t # us \<Rightarrow> Some (foldl min t us))"

text \<open>The part behind the reading: the counts and the verdict, with the time at which to try again.\<close>

definition outbound_verdict :: "int \<Rightarrow> int \<Rightarrow> rat \<Rightarrow> rat list \<Rightarrow> verdict" where
  "outbound_verdict per_hour per_day now ts =
     (let daily = [t \<leftarrow> ts. now - 86400 \<le> t];
          hourly = [t \<leftarrow> daily. now - 3600 \<le> t]
      in if int (length hourly) \<ge> per_hour
         then HourlyLimit per_hour (length hourly) (length daily) (map_option (\<lambda>t. t + 3600) (earliest hourly))
         else if int (length daily) \<ge> per_day then DailyLimit per_day (length daily)
         else Allowed)"

definition outbound_caps :: "limiter \<Rightarrow> json option option \<Rightarrow> py_error + int \<times> int" where
  "outbound_caps l status =
     (case (li_hour_override l, li_day_override l) of
        (Some h, Some d) \<Rightarrow> Inr (h, d)
      | (h, d) \<Rightarrow>
          (case resolve_outbound_limits status of
             Inl e \<Rightarrow> Inl e
           | Inr lims \<Rightarrow> Inr (opt_or h (ol_per_hour lims), opt_or d (ol_per_day lims))))"

definition check_global_outbound ::
  "limiter \<Rightarrow> json option option \<Rightarrow> (string \<Rightarrow> json option) \<Rightarrow> (string \<Rightarrow> rat option) \<Rightarrow> (int \<Rightarrow> string list option)
   \<Rightarrow> rat \<Rightarrow> string \<Rightarrow> py_error + verdict" where
  "check_global_outbound l status loads fromiso files now sender =
     (if \<not> li_outbound_enabled l then Inr Allowed
      else case outbound_caps l status of
        Inl e \<Rightarrow> Inl e
      | Inr (per_hour, per_day) \<Rightarrow>
          (case recent loads fromiso files now 2 500 (Some [''dm_sent'', ''message_sent'', ''channel_post'']) None of
             Inl _ \<Rightarrow> Inr LogUnreadable
           | Inr es \<Rightarrow> Inr (outbound_verdict per_hour per_day now
               (entry_times fromiso [e \<leftarrow> es. ae_to_person e \<noteq> JStr sender]))))"

definition window_count :: "rat \<Rightarrow> rat \<Rightarrow> rat list \<Rightarrow> nat" where
  "window_count window now ts = length [t \<leftarrow> ts. now - window \<le> t]"

definition depth_exceeded :: "rat \<Rightarrow> int \<Rightarrow> rat list \<Rightarrow> rat \<Rightarrow> bool" where
  "depth_exceeded window max_depth ts now = (int (window_count window now ts) \<ge> max_depth)"

definition pair_entries ::
  "(string \<Rightarrow> json option) \<Rightarrow> (string \<Rightarrow> rat option) \<Rightarrow> (int \<Rightarrow> string list option) \<Rightarrow> rat \<Rightarrow> string
   \<Rightarrow> py_error + activity_entry list" where
  "pair_entries loads fromiso files now peer =
     recent loads fromiso files now 1 200 (Some [''dm_sent'', ''dm_received'']) (Some peer)"

definition check_depth ::
  "limiter \<Rightarrow> (string \<Rightarrow> json option) \<Rightarrow> (string \<Rightarrow> rat option) \<Rightarrow> (int \<Rightarrow> string list option) \<Rightarrow> rat \<Rightarrow> string \<Rightarrow> bool" where
  "check_depth l loads fromiso files now receiver =
     (case pair_entries loads fromiso files now receiver of
        Inl _ \<Rightarrow> False
      | Inr es \<Rightarrow> \<not> depth_exceeded (li_window_s l) (li_max_depth l) (entry_times fromiso es) now)"

definition current_depth ::
  "limiter \<Rightarrow> (string \<Rightarrow> json option) \<Rightarrow> (string \<Rightarrow> rat option) \<Rightarrow> (int \<Rightarrow> string list option) \<Rightarrow> rat \<Rightarrow> string \<Rightarrow> nat" where
  "current_depth l loads fromiso files now peer =
     (case pair_entries loads fromiso files now peer of
        Inl _ \<Rightarrow> 0
      | Inr es \<Rightarrow> window_count (li_window_s l) now (entry_times fromiso es))"

section \<open>The limits as sliding windows\<close>

interpretation depth: window_limit "\<lambda>now t. now - w \<le> t" m "depth_exceeded w m" for w m
  by unfold_locales (auto simp: depth_exceeded_def window_count_def)

lemma hourly_daily:
  "outbound_verdict h d now ts = Allowed \<longleftrightarrow>
     \<not> depth_exceeded 3600 h ts now \<and> \<not> depth_exceeded 86400 d ts now"
proof -
  have "[t \<leftarrow> [t \<leftarrow> ts. now - 86400 \<le> t]. now - 3600 \<le> t] = [t \<leftarrow> ts. now - 3600 \<le> t]"
    by (induction ts) auto
  then show ?thesis
    by (auto simp: outbound_verdict_def depth_exceeded_def window_count_def Let_def)
qed

text \<open>Of a chronologically sorted log, the entries in the window are the last ones.\<close>

lemma filter_upward_last_n:
  assumes "sorted_wrt (\<lambda>x y. P x \<longrightarrow> P y) xs"
  shows "length (filter P (last_n n xs)) = min n (length (filter P xs))"
proof -
  let ?i = "length xs - n"
  have "filter P xs = filter P (take ?i xs) @ filter P (drop ?i xs)" by (metis append_take_drop_id filter_append)
  moreover have "sorted_wrt (\<lambda>x y. P x \<longrightarrow> P y) (take ?i xs @ drop ?i xs)" using assms by simp
  then have up: "\<forall>x \<in> set (take ?i xs). \<forall>y \<in> set (drop ?i xs). P x \<longrightarrow> P y"
    unfolding sorted_wrt_append by blast
  moreover have "length (drop ?i xs) = min n (length xs)" by simp
  ultimately show ?thesis
  proof (cases "\<exists>x \<in> set (take ?i xs). P x")
    case True
    with up have "filter P (drop ?i xs) = drop ?i xs" by (auto simp: filter_id_conv)
    moreover have "?i > 0" using True by (cases ?i) auto
    ultimately show ?thesis
      using \<open>filter P xs = _\<close> by (auto simp: last_n_def)
  next
    case False
    then have "filter P (take ?i xs) = []" by (simp add: filter_empty_conv)
    moreover have "length (filter P (drop ?i xs)) \<le> n"
      using length_filter_le [of P "drop ?i xs"] by simp
    ultimately show ?thesis using \<open>filter P xs = _\<close> by (simp add: last_n_def)
  qed
qed

lemma window_count_entries:
  "window_count w now (entry_times fromiso es) =
     length (filter (\<lambda>e. case fromiso (ts_string e) of None \<Rightarrow> False | Some t \<Rightarrow> now - w \<le> t) es)"
  by (induction es) (auto simp: window_count_def entry_times_def map_filter_simps split: option.splits)

section \<open>Properties\<close>

text \<open>
  The cap of 200 log entries does not weaken the depth limit: with a limit of at most 200, and time stamps
  whose text order is their time order, the verdict is the one on all of the day's matching entries.
\<close>

theorem depth_cap_harmless:
  assumes ok: "load_entries loads fromiso files now 1 None (Some [''dm_sent'', ''dm_received'']) (Some peer) None None = Inr es"
    and parse: "\<And>e. e \<in> set es \<Longrightarrow> \<exists>t. fromiso (ts_string e) = Some t"
    and mono: "\<And>s s' t t'. s \<le> s' \<Longrightarrow> fromiso s = Some t \<Longrightarrow> fromiso s' = Some t' \<Longrightarrow> t \<le> t'"
    and m: "li_max_depth l \<le> 200"
  shows "check_depth l loads fromiso files now peer \<longleftrightarrow>
         \<not> depth_exceeded (li_window_s l) (li_max_depth l) (entry_times fromiso es) now"
proof -
  let ?P = "\<lambda>e. case fromiso (ts_string e) of None \<Rightarrow> False | Some t \<Rightarrow> now - li_window_s l \<le> t"
  have "sorted (map ts_string es)"
    using ok by (auto simp: load_entries_def split: prod.splits sum.splits if_splits)
  then have "sorted_wrt (\<lambda>x y. ts_string x \<le> ts_string y) es" by (simp add: sorted_wrt_map)
  then have "sorted_wrt (\<lambda>x y. ?P x \<longrightarrow> ?P y) es"
  proof (rule sorted_wrt_mono_rel [rotated])
    fix x y assume x: "x \<in> set es" and y: "y \<in> set es" and le: "ts_string x \<le> ts_string y"
    obtain t t' where "fromiso (ts_string x) = Some t" "fromiso (ts_string y) = Some t'"
      using parse [OF x] parse [OF y] by blast
    with mono [OF le this] show "?P x \<longrightarrow> ?P y" by simp
  qed
  then have "length (filter ?P (last_n 200 es)) = min 200 (length (filter ?P es))"
    by (rule filter_upward_last_n)
  moreover have "pair_entries loads fromiso files now peer = Inr (if length es > 200 then last_n 200 es else es)"
    using ok by (simp add: pair_entries_def recent_def)
  ultimately show ?thesis
    using m by (auto simp: check_depth_def depth_exceeded_def window_count_entries)
qed

definition demo_limiter :: limiter where
  "demo_limiter = make_limiter \<lparr>hb_depth_window_s = 600, hb_max_depth = 6, hb_outbound_limit_enabled = True\<rparr> None None None None"

theorem depth_cap_harmless_witness:
  "check_depth demo_limiter (\<lambda>_. None) (\<lambda>_. None) (\<lambda>_. None) 100 ''sora''"
proof -
  have ok: "load_entries (\<lambda>_. None) (\<lambda>_. None) (\<lambda>_. None) 100 1 None (Some [''dm_sent'', ''dm_received'']) (Some ''sora'') None None = Inr []"
    by (simp add: load_entries_def scan_plan_def scan_dates_def)
  have m: "li_max_depth demo_limiter \<le> 200" by (simp add: demo_limiter_def make_limiter_def)
  have "\<not> depth_exceeded (li_window_s demo_limiter) (li_max_depth demo_limiter) (entry_times (\<lambda>_. None) []) 100"
    by (simp add: depth_exceeded_def window_count_def entry_times_def map_filter_simps demo_limiter_def make_limiter_def)
  then show ?thesis using depth_cap_harmless [OF ok _ _ m] by simp
qed

text \<open>
  The window ends at midnight: the check scans the file of the current day only, so while that file does
  not exist yet every message is let through, whatever was exchanged within the window before midnight.
\<close>

theorem depth_window_forgets_midnight:
  assumes "files (date_of now) = None" and "0 < li_max_depth l"
  shows "check_depth l loads fromiso files now receiver \<and> current_depth l loads fromiso files now receiver = 0"
  using assms
  by (simp add: check_depth_def current_depth_def pair_entries_def recent_def load_entries_def scan_plan_def scan_dates_def
      depth_exceeded_def window_count_def entry_times_def map_filter_simps)

theorem depth_window_forgets_midnight_witness:
  "check_depth demo_limiter demo_loads (\<lambda>_. Some 86399) (demo_files(1 := None)) 86405 ''sora''"
proof -
  have "date_of 86405 = 1" by (simp add: date_of_def floor_eq_iff)
  moreover have "0 < li_max_depth demo_limiter" by (simp add: demo_limiter_def make_limiter_def)
  ultimately show ?thesis using depth_window_forgets_midnight [of "demo_files(1 := None)" 86405 demo_limiter] by simp
qed

text \<open>
  The outbound limit: with readable limits and log the send is allowed exactly when fewer than the hourly
  cap of the counted messages lie in the last hour and fewer than the daily cap in the last day; and a
  sender that is allowed stays allowed while nothing is sent.
\<close>

theorem outbound_allowed_iff:
  assumes en: "li_outbound_enabled l" and caps: "outbound_caps l status = Inr (h, d)"
    and log: "recent loads fromiso files now 2 500 (Some [''dm_sent'', ''message_sent'', ''channel_post'']) None = Inr es"
    and ts: "ts = entry_times fromiso [e \<leftarrow> es. ae_to_person e \<noteq> JStr sender]"
  shows "(check_global_outbound l status loads fromiso files now sender = Inr Allowed \<longleftrightarrow>
           int (length [t \<leftarrow> ts. now - 3600 \<le> t]) < h \<and> int (length [t \<leftarrow> ts. now - 86400 \<le> t]) < d) \<and>
         (outbound_verdict h d now ts = Allowed \<longrightarrow> now \<le> now' \<longrightarrow> outbound_verdict h d now' ts = Allowed)"
proof
  show "check_global_outbound l status loads fromiso files now sender = Inr Allowed \<longleftrightarrow>
           int (length [t \<leftarrow> ts. now - 3600 \<le> t]) < h \<and> int (length [t \<leftarrow> ts. now - 86400 \<le> t]) < d"
    using assms by (simp add: check_global_outbound_def hourly_daily depth_exceeded_def window_count_def not_le)
  show "outbound_verdict h d now ts = Allowed \<longrightarrow> now \<le> now' \<longrightarrow> outbound_verdict h d now' ts = Allowed"
    using depth.stays_open by (auto simp: hourly_daily)
qed

theorem outbound_allowed_iff_witness:
  "check_global_outbound demo_limiter None (\<lambda>_. None) (\<lambda>_. None) (\<lambda>_. None) 100 ''rin'' = Inr Allowed"
proof -
  have en: "li_outbound_enabled demo_limiter" and caps: "outbound_caps demo_limiter None = Inr (15, 50)"
    by (simp_all add: demo_limiter_def make_limiter_def outbound_caps_def resolve_outbound_limits_def general_limits_def)
  have log: "recent (\<lambda>_. None) (\<lambda>_. None) (\<lambda>_. None) 100 2 500 (Some [''dm_sent'', ''message_sent'', ''channel_post'']) None = Inr []"
    by (simp add: recent_def load_entries_def scan_plan_def scan_dates_def numeral_2_eq_2)
  from outbound_allowed_iff [OF en caps log refl, of "''rin''" 100] show ?thesis
    by (simp add: entry_times_def map_filter_simps)
qed

end
