(* ===== verification/Inbox_Limiter.thy ===== *)
theory Inbox_Limiter
  imports Anima_Prelude
begin

text \<open>
  The inbox trigger of \<^verbatim>\<open>core/supervisor/inbox_rate_limiter.py\<close>, class \<^verbatim>\<open>InboxRateLimiter\<close>. The object is a
  record; the coroutines are split at their \<^verbatim>\<open>await\<close>s, because the event loop may run the others there.
  \<open>limiter_sys\<close> adds the event loop: the handlers that were created, those that wait for
  \<^verbatim>\<open>process_inbox_message\<close>, those that died of an exception, and the deferred triggers whose timer has
  fired. What the code reads from outside (clock, inbox, lock, status file, configuration, rate guard) is
  one record of observations per step.
\<close>

section \<open>Data\<close>

record inbox_cfg =
  ic_name :: string
  ic_cooldown :: rat
  ic_window :: rat
  ic_threshold :: int

record inbox_msg =
  msg_source :: string
  msg_intent :: string
  msg_from :: string

text \<open>
  The status file: absent, unreadable (\<^verbatim>\<open>OSError\<close>), not JSON, not UTF-8, or a JSON value. The configuration
  is \<open>None\<close> when \<^verbatim>\<open>load_config\<close> raises; \<open>ob_guard\<close> is the provider's remaining block, \<open>None\<close> when it cannot
  be inspected.
\<close>

datatype status_file = NoStatus | StatusUnreadable | StatusNotJson | StatusNotUtf8 | StatusJson json

record observation =
  ob_now :: rat
  ob_unread :: bool
  ob_msgs :: "inbox_msg list"
  ob_receive_fails :: bool
  ob_locked :: bool
  ob_status :: status_file
  ob_intents :: "string list option"
  ob_guard :: "rat option"

record inbox_state =
  is_pending :: bool
  is_timer :: "rat option"
  is_last_end :: rat
  is_pairs :: "((string \<times> string) \<times> rat list) list"
  is_last_skip_log :: rat
  is_retry_until :: rat
  is_heartbeat_running :: bool

definition initial_inbox :: inbox_state where
  "initial_inbox = \<lparr>is_pending = False, is_timer = None, is_last_end = 0, is_pairs = [],
     is_last_skip_log = 0, is_retry_until = 0, is_heartbeat_running = False\<rparr>"

section \<open>Operations\<close>

definition external_platform_sources :: "string list" where
  "external_platform_sources = [''slack'', ''chatwork'', ''googlechat'', ''discord'', ''zoom'']"

definition is_external :: "inbox_msg \<Rightarrow> bool" where
  "is_external m = (msg_source m \<in> set external_platform_sources)"

definition is_immediately_actionable_intent :: "string \<Rightarrow> string \<Rightarrow> string list \<Rightarrow> bool" where
  "is_immediately_actionable_intent intent source actionable =
     (intent \<in> set actionable \<or>
      intent = ''delegation'' \<and> source \<notin> set (''human'' # external_platform_sources))"

definition read_anima_enabled :: "status_file \<Rightarrow> py_error + bool" where
  "read_anima_enabled f =
     (case f of
        NoStatus \<Rightarrow> Inr True
      | StatusUnreadable \<Rightarrow> Inr True
      | StatusNotJson \<Rightarrow> Inr True
      | StatusNotUtf8 \<Rightarrow> Inl (ValueError ''UnicodeDecodeError'')
      | StatusJson (JObj d) \<Rightarrow> Inr (truthy (opt_or (map_of d ''enabled'') (JBool True)))
      | StatusJson _ \<Rightarrow> Inr True)"

definition is_in_cooldown :: "inbox_cfg \<Rightarrow> rat \<Rightarrow> inbox_state \<Rightarrow> bool" where
  "is_in_cooldown cfg now s = (now - is_last_end s < ic_cooldown cfg)"

definition retry_is_delayed :: "rat \<Rightarrow> inbox_state \<Rightarrow> bool" where
  "retry_is_delayed now s = (now < is_retry_until s)"

definition record_processing_failure :: "inbox_cfg \<Rightarrow> observation \<Rightarrow> inbox_state \<Rightarrow> inbox_state" where
  "record_processing_failure cfg ob s =
     (let delay = max (ic_cooldown cfg) 30;
          delay' = (case ob_guard ob of None \<Rightarrow> delay | Some r \<Rightarrow> max delay r)
      in s\<lparr>is_retry_until := ob_now ob + delay'\<rparr>)"

definition has_external_platform_message :: "observation \<Rightarrow> bool" where
  "has_external_platform_message ob =
     (if ob_receive_fails ob then False
      else \<exists>m \<in> set (ob_msgs ob). is_external m \<and> msg_intent m \<noteq> [])"

text \<open>The eviction of one key: the list is written back and the key is deleted when the list is empty.\<close>

definition evict_pair :: "inbox_cfg \<Rightarrow> rat \<Rightarrow> string \<times> string \<Rightarrow> inbox_state \<Rightarrow> rat list \<times> inbox_state" where
  "evict_pair cfg now k s =
     (let times = [t \<leftarrow> opt_or (map_of (is_pairs s) k) []. now - t < ic_window cfg]
      in (times, s\<lparr>is_pairs := (if times = [] then AList.delete k (is_pairs s)
                                else AList.update k times (is_pairs s))\<rparr>))"

fun check_cascade :: "inbox_cfg \<Rightarrow> rat \<Rightarrow> string list \<Rightarrow> inbox_state \<Rightarrow> bool \<times> inbox_state" where
  "check_cascade cfg now [] s = (False, s)"
| "check_cascade cfg now (sender # senders) s =
     (let (ts1, s1) = evict_pair cfg now (ic_name cfg, sender) s;
          (ts2, s2) = evict_pair cfg now (sender, ic_name cfg) s1
      in if int (length ts1 + length ts2) \<ge> ic_threshold cfg then (True, s2)
         else check_cascade cfg now senders s2)"

fun record_pair_heartbeat :: "inbox_cfg \<Rightarrow> rat \<Rightarrow> string list \<Rightarrow> inbox_state \<Rightarrow> inbox_state" where
  "record_pair_heartbeat cfg now [] s = s"
| "record_pair_heartbeat cfg now (sender # senders) s =
     record_pair_heartbeat cfg now senders
       (s\<lparr>is_pairs := AList.update (ic_name cfg, sender)
            (opt_or (map_of (is_pairs s) (ic_name cfg, sender)) [] @ [now]) (is_pairs s)\<rparr>)"

definition schedule_deferred_trigger :: "inbox_cfg \<Rightarrow> rat \<Rightarrow> inbox_state \<Rightarrow> inbox_state" where
  "schedule_deferred_trigger cfg now s =
     (if is_timer s \<noteq> None then s
      else let remaining = max (ic_cooldown cfg - (now - is_last_end s)) (is_retry_until s - now)
           in s\<lparr>is_timer := Some (now + max remaining 2)\<rparr>)"

definition on_anima_lock_released :: "inbox_cfg \<Rightarrow> observation \<Rightarrow> inbox_state \<Rightarrow> inbox_state" where
  "on_anima_lock_released cfg ob s =
     (if \<not> ob_unread ob then s else if is_pending s then s
      else schedule_deferred_trigger cfg (ob_now ob) s)"

text \<open>The Boolean tells whether \<^verbatim>\<open>message_triggered_inbox\<close> was created as a task.\<close>

definition try_deferred_trigger :: "inbox_cfg \<Rightarrow> observation \<Rightarrow> inbox_state \<Rightarrow> bool \<times> inbox_state" where
  "try_deferred_trigger cfg ob s0 =
     (let s = s0\<lparr>is_timer := None\<rparr>
      in if \<not> ob_unread ob then (False, s)
         else if is_pending s then (False, s)
         else if retry_is_delayed (ob_now ob) s \<or>
                 is_in_cooldown cfg (ob_now ob) s \<and> \<not> has_external_platform_message ob
         then (False, schedule_deferred_trigger cfg (ob_now ob) s)
         else if ob_locked ob then (False, schedule_deferred_trigger cfg (ob_now ob) s)
         else (True, s\<lparr>is_pending := True\<rparr>))"

definition note_disabled_skip :: "rat \<Rightarrow> inbox_state \<Rightarrow> inbox_state" where
  "note_disabled_skip now s = (if now - is_last_skip_log s \<ge> 30 then s\<lparr>is_last_skip_log := now\<rparr> else s)"

text \<open>The handler up to \<^verbatim>\<open>await process_inbox_message()\<close>: it returned, an exception escaped, or it waits.\<close>

datatype handler_phase = Returned | Raised py_error | Awaiting "string list"

definition wants_attention :: "string list \<Rightarrow> inbox_msg list \<Rightarrow> bool" where
  "wants_attention intents msgs =
     ((\<exists>m \<in> set msgs. msg_source m = ''human'') \<or>
      (\<exists>m \<in> set msgs. is_external m \<and> msg_intent m \<noteq> []) \<or>
      (\<exists>m \<in> set msgs. is_immediately_actionable_intent (msg_intent m) (msg_source m) intents))"

definition cascade_senders :: "inbox_msg list \<Rightarrow> string list" where
  "cascade_senders msgs = remdups [msg_from m. m \<leftarrow> msgs, \<not> is_external m]"

definition message_triggered_begin ::
  "inbox_cfg \<Rightarrow> observation \<Rightarrow> inbox_state \<Rightarrow> handler_phase \<times> inbox_state" where
  "message_triggered_begin cfg ob s =
     (if retry_is_delayed (ob_now ob) s
      then (Returned, schedule_deferred_trigger cfg (ob_now ob) (s\<lparr>is_pending := False\<rparr>))
      else case read_anima_enabled (ob_status ob) of
        Inl e \<Rightarrow> (Raised e, s)
      | Inr False \<Rightarrow> (Returned, (note_disabled_skip (ob_now ob) s)\<lparr>is_pending := False\<rparr>)
      | Inr True \<Rightarrow>
          if is_heartbeat_running s then (Returned, s\<lparr>is_pending := False\<rparr>)
          else if ob_receive_fails ob then (Raised (RuntimeError ''receive''), s)
          else (case ob_intents ob of
              None \<Rightarrow> (Raised (RuntimeError ''load_config''), s)
            | Some intents \<Rightarrow>
                if \<not> wants_attention intents (ob_msgs ob) then (Returned, s\<lparr>is_pending := False\<rparr>)
                else
                  let senders = cascade_senders (ob_msgs ob);
                      (cascade, s1) = (if senders \<noteq> [] then check_cascade cfg (ob_now ob) senders s else (False, s))
                  in if cascade then (Returned, s1\<lparr>is_pending := False\<rparr>)
                     else (Awaiting senders, s1\<lparr>is_heartbeat_running := True\<rparr>)))"

text \<open>
  Its rest. The awaited processing succeeds, fails (an error result or an exception: both delay the next try)
  or is cancelled: a \<^verbatim>\<open>CancelledError\<close> passes by the \<^verbatim>\<open>except\<close>, so only the \<^verbatim>\<open>finally\<close> runs and the retry
  delay stays as it was.
\<close>

datatype processing_end = Processed | ProcessingFailed | ProcessingCancelled

definition message_triggered_end ::
  "inbox_cfg \<Rightarrow> observation \<Rightarrow> processing_end \<Rightarrow> string list \<Rightarrow> inbox_state \<Rightarrow> inbox_state" where
  "message_triggered_end cfg ob r senders s =
     (let s1 = (case r of
                  Processed \<Rightarrow> s\<lparr>is_retry_until := 0\<rparr>
                | ProcessingFailed \<Rightarrow> record_processing_failure cfg ob s
                | ProcessingCancelled \<Rightarrow> s);
          s2 = s1\<lparr>is_heartbeat_running := False, is_pending := False, is_last_end := ob_now ob\<rparr>
      in if senders \<noteq> [] then record_pair_heartbeat cfg (ob_now ob) senders s2 else s2)"

text \<open>One round of the polling loop; an exception is logged and the loop goes on.\<close>

definition inbox_watcher_tick :: "inbox_cfg \<Rightarrow> observation \<Rightarrow> inbox_state \<Rightarrow> bool \<times> inbox_state" where
  "inbox_watcher_tick cfg ob s =
     (if is_pending s then (False, s)
      else if \<not> ob_unread ob then (False, s)
      else if retry_is_delayed (ob_now ob) s \<or>
              is_in_cooldown cfg (ob_now ob) s \<and> \<not> has_external_platform_message ob
      then (False, schedule_deferred_trigger cfg (ob_now ob) s)
      else if ob_locked ob then (False, schedule_deferred_trigger cfg (ob_now ob) s)
      else case read_anima_enabled (ob_status ob) of
        Inl _ \<Rightarrow> (False, s)
      | Inr False \<Rightarrow> (False, note_disabled_skip (ob_now ob) s)
      | Inr True \<Rightarrow> (True, s\<lparr>is_pending := True\<rparr>))"

definition cancel_deferred_timer :: "inbox_state \<Rightarrow> inbox_state" where
  "cancel_deferred_timer s = s\<lparr>is_timer := None\<rparr>"

section \<open>The event loop\<close>

record limiter_sys =
  sy_state :: inbox_state
  sy_created :: nat
  sy_waiting :: "string list list"
  sy_died :: nat
  sy_fired :: nat

definition initial_sys :: limiter_sys where
  "initial_sys = \<lparr>sy_state = initial_inbox, sy_created = 0, sy_waiting = [], sy_died = 0, sy_fired = 0\<rparr>"

definition spawn :: "bool \<times> inbox_state \<Rightarrow> limiter_sys \<Rightarrow> limiter_sys" where
  "spawn r y = y\<lparr>sy_state := snd r, sy_created := (if fst r then sy_created y + 1 else sy_created y)\<rparr>"

inductive limiter_step :: "inbox_cfg \<Rightarrow> limiter_sys \<Rightarrow> limiter_sys \<Rightarrow> bool" for cfg where
  tick: "limiter_step cfg y (spawn (inbox_watcher_tick cfg ob (sy_state y)) y)"
| fire: "is_timer (sy_state y) \<noteq> None \<Longrightarrow> limiter_step cfg y (y\<lparr>sy_fired := sy_fired y + 1\<rparr>)"
| deferred: "0 < sy_fired y \<Longrightarrow>
    limiter_step cfg y (spawn (try_deferred_trigger cfg ob (sy_state y)) (y\<lparr>sy_fired := sy_fired y - 1\<rparr>))"
| begin_return: "0 < sy_created y \<Longrightarrow> message_triggered_begin cfg ob (sy_state y) = (Returned, s) \<Longrightarrow>
    limiter_step cfg y (y\<lparr>sy_state := s, sy_created := sy_created y - 1\<rparr>)"
| begin_raise: "0 < sy_created y \<Longrightarrow> message_triggered_begin cfg ob (sy_state y) = (Raised e, s) \<Longrightarrow>
    limiter_step cfg y (y\<lparr>sy_state := s, sy_created := sy_created y - 1, sy_died := sy_died y + 1\<rparr>)"
| begin_wait: "0 < sy_created y \<Longrightarrow> message_triggered_begin cfg ob (sy_state y) = (Awaiting senders, s) \<Longrightarrow>
    limiter_step cfg y (y\<lparr>sy_state := s, sy_created := sy_created y - 1, sy_waiting := senders # sy_waiting y\<rparr>)"
| finish: "sy_waiting y = us @ senders # vs \<Longrightarrow>
    limiter_step cfg y (y\<lparr>sy_state := message_triggered_end cfg ob r senders (sy_state y), sy_waiting := us @ vs\<rparr>)"
| lock_released: "limiter_step cfg y (y\<lparr>sy_state := on_anima_lock_released cfg ob (sy_state y)\<rparr>)"
| cancel: "limiter_step cfg y (y\<lparr>sy_state := cancel_deferred_timer (sy_state y)\<rparr>)"
| heartbeat: "limiter_step cfg y (y\<lparr>sy_state := (sy_state y)\<lparr>is_heartbeat_running := b\<rparr>\<rparr>)"

text \<open>The handlers that hold the flag, against the flag.\<close>

definition trigger_inv :: "limiter_sys \<Rightarrow> bool" where
  "trigger_inv y \<longleftrightarrow>
     sy_created y + length (sy_waiting y) + sy_died y = (if is_pending (sy_state y) then 1 else 0)"

section \<open>Facts\<close>

lemma pending_simps [simp]:
  "is_pending (schedule_deferred_trigger cfg now s) = is_pending s"
  "is_pending (on_anima_lock_released cfg ob s) = is_pending s"
  "is_pending (cancel_deferred_timer s) = is_pending s"
  "is_pending (note_disabled_skip now s) = is_pending s"
  "is_pending (snd (evict_pair cfg now k s)) = is_pending s"
  by (simp_all add: schedule_deferred_trigger_def on_anima_lock_released_def cancel_deferred_timer_def
      note_disabled_skip_def evict_pair_def Let_def)

lemma pending_cascade [simp]: "is_pending (snd (check_cascade cfg now senders s)) = is_pending s"
proof (induction cfg now senders s rule: check_cascade.induct)
  case (2 cfg now sender senders s)
  obtain ts1 s1 where e1: "evict_pair cfg now (ic_name cfg, sender) s = (ts1, s1)" by fastforce
  obtain ts2 s2 where e2: "evict_pair cfg now (sender, ic_name cfg) s1 = (ts2, s2)" by fastforce
  have "is_pending s2 = is_pending s"
    using pending_simps(5) [of cfg now "(ic_name cfg, sender)" s] pending_simps(5) [of cfg now "(sender, ic_name cfg)" s1] e1 e2 by simp
  with 2 e1 e2 show ?case by (simp add: Let_def)
qed simp

lemma pending_record [simp]: "is_pending (record_pair_heartbeat cfg now senders s) = is_pending s"
  by (induction cfg now senders s rule: record_pair_heartbeat.induct) auto

lemma pending_end [simp]: "is_pending (message_triggered_end cfg ob r senders s) = False"
  by (simp add: message_triggered_end_def Let_def)

lemma begin_pending:
  "message_triggered_begin cfg ob s = (ph, s') \<Longrightarrow>
     is_pending s' = (case ph of Returned \<Rightarrow> False | _ \<Rightarrow> is_pending s)"
  using pending_cascade [of cfg "ob_now ob" "cascade_senders (ob_msgs ob)" s]
  by (auto simp: message_triggered_begin_def Let_def split: if_splits sum.splits bool.splits option.splits prod.splits
      simp del: pending_cascade)

lemma trigger_pending:
  "inbox_watcher_tick cfg ob s = (c, s') \<Longrightarrow> is_pending s' = (c \<or> is_pending s) \<and> (c \<longrightarrow> \<not> is_pending s)"
  "try_deferred_trigger cfg ob s = (c, s') \<Longrightarrow> is_pending s' = (c \<or> is_pending s) \<and> (c \<longrightarrow> \<not> is_pending s)"
  by (auto simp: inbox_watcher_tick_def try_deferred_trigger_def Let_def
      split: if_splits sum.splits bool.splits)

lemma spawn_inv:
  assumes "is_pending (snd r) = (fst r \<or> is_pending (sy_state y)) \<and> (fst r \<longrightarrow> \<not> is_pending (sy_state y))" "trigger_inv y"
  shows "trigger_inv (spawn r y)"
  using assms by (auto simp: trigger_inv_def spawn_def split: if_splits)

lemma trigger_inv_step:
  assumes "limiter_step cfg y z" "trigger_inv y"
  shows "trigger_inv z"
  using assms
proof cases
  case (tick ob)
  with trigger_pending(1) assms(2) show ?thesis by (auto intro!: spawn_inv simp: prod_eq_iff)
next
  case (deferred ob)
  then have "trigger_inv (y\<lparr>sy_fired := sy_fired y - 1\<rparr>)" using assms(2) by (simp add: trigger_inv_def)
  with trigger_pending(2) [of cfg ob "sy_state y"] deferred show ?thesis by (auto intro!: spawn_inv simp: prod_eq_iff)
next
  case (begin_return ob s)
  with begin_pending [OF begin_return(3)] assms(2) show ?thesis by (auto simp: trigger_inv_def split: if_splits)
next
  case (begin_raise ob e s)
  with begin_pending [OF begin_raise(3)] assms(2) show ?thesis by (auto simp: trigger_inv_def split: if_splits)
next
  case (begin_wait ob senders s)
  with begin_pending [OF begin_wait(3)] assms(2) show ?thesis by (auto simp: trigger_inv_def split: if_splits)
qed (auto simp: trigger_inv_def split: if_splits)

lemma trigger_inv_initial: "trigger_inv initial_sys"
  by (simp add: trigger_inv_def initial_sys_def initial_inbox_def)

interpretation trigger: step_invariant "\<lambda>y. y = initial_sys" "limiter_step cfg" trigger_inv for cfg
  by unfold_locales (simp_all add: trigger_inv_initial trigger_inv_step)

text \<open>When the deferred trigger is due: a timer that is set stays.\<close>

lemma deferred_due:
  "is_timer (schedule_deferred_trigger cfg now s) =
     (case is_timer s of Some old \<Rightarrow> Some old
      | None \<Rightarrow> Some (max (now + 2) (max (is_last_end s + ic_cooldown cfg) (is_retry_until s))))"
  by (auto simp: schedule_deferred_trigger_def Let_def max_def split: option.split)

section \<open>Cascade detection\<close>

definition pair_times :: "inbox_state \<Rightarrow> string \<Rightarrow> string \<Rightarrow> rat list" where
  "pair_times s a b = opt_or (map_of (is_pairs s) (a, b)) [] @ opt_or (map_of (is_pairs s) (b, a)) []"

definition pair_exceeded :: "rat \<Rightarrow> int \<Rightarrow> rat list \<Rightarrow> rat \<Rightarrow> bool" where
  "pair_exceeded window threshold ts now = (threshold \<le> int (length [t \<leftarrow> ts. now - t < window]))"

interpretation cascade: window_limit "\<lambda>now t. now - t < w" m "pair_exceeded w m" for w m
  by unfold_locales (auto simp: pair_exceeded_def)

lemma evict_keeps_recent:
  "[t \<leftarrow> opt_or (map_of (is_pairs (snd (evict_pair cfg now k s))) k') []. now - t < ic_window cfg] =
   [t \<leftarrow> opt_or (map_of (is_pairs s) k') []. now - t < ic_window cfg]"
  by (auto simp: evict_pair_def Let_def update_conv delete_conv)

lemma evict_pair_fst: "fst (evict_pair cfg now k s) = [t \<leftarrow> opt_or (map_of (is_pairs s) k) []. now - t < ic_window cfg]"
  by (simp add: evict_pair_def Let_def)

lemma pair_exceeded_evict:
  "pair_exceeded (ic_window cfg) m (pair_times (snd (evict_pair cfg now k s)) a b) now =
   pair_exceeded (ic_window cfg) m (pair_times s a b) now"
  by (simp add: pair_exceeded_def pair_times_def evict_keeps_recent)

lemma check_cascade_iff:
  "fst (check_cascade cfg now senders s) \<longleftrightarrow>
   (\<exists>x \<in> set senders. pair_exceeded (ic_window cfg) (ic_threshold cfg) (pair_times s (ic_name cfg) x) now)"
proof (induction cfg now senders s rule: check_cascade.induct)
  case (2 cfg now sender senders s)
  let ?e1 = "evict_pair cfg now (ic_name cfg, sender) s"
  let ?e2 = "evict_pair cfg now (sender, ic_name cfg) (snd ?e1)"
  have head: "ic_threshold cfg \<le> int (length (fst ?e1) + length (fst ?e2)) \<longleftrightarrow>
      pair_exceeded (ic_window cfg) (ic_threshold cfg) (pair_times s (ic_name cfg) sender) now"
    by (simp add: pair_exceeded_def pair_times_def evict_pair_fst evict_keeps_recent)
  show ?case
  proof (cases "ic_threshold cfg \<le> int (length (fst ?e1) + length (fst ?e2))")
    case True
    with head show ?thesis by (simp add: Let_def case_prod_beta)
  next
    case False
    then have "fst (check_cascade cfg now (sender # senders) s) = fst (check_cascade cfg now senders (snd ?e2))"
      by (simp add: Let_def case_prod_beta)
    also have "\<dots> \<longleftrightarrow> (\<exists>x \<in> set senders.
        pair_exceeded (ic_window cfg) (ic_threshold cfg) (pair_times (snd ?e2) (ic_name cfg) x) now)"
      using 2 [OF refl prod.collapse refl prod.collapse False] by blast
    finally show ?thesis using head False by (simp add: pair_exceeded_evict)
  qed
qed simp

section \<open>Properties\<close>

text \<open>
  C38. At most one inbox handler exists at any time: whatever the interleaving of polls, timers, lock
  releases and scheduled heartbeats, at most one handler is created or waiting, and the flag
  \<^verbatim>\<open>_pending_trigger\<close> is up exactly while one is (or while one has died of an exception).
\<close>

theorem single_inbox_handler:
  assumes "rtranclp (limiter_step cfg) initial_sys y"
  shows "sy_created y + length (sy_waiting y) \<le> 1 \<and>
         (is_pending (sy_state y) \<longleftrightarrow> sy_created y + length (sy_waiting y) + sy_died y = 1)"
  using trigger.inv_reachable [OF refl assms] by (auto simp: trigger_inv_def split: if_splits)

definition demo_inbox_cfg :: inbox_cfg where
  "demo_inbox_cfg = \<lparr>ic_name = ''rin'', ic_cooldown = 300, ic_window = 1800, ic_threshold = 3\<rparr>"

definition demo_ob :: observation where
  "demo_ob = \<lparr>ob_now = 1000, ob_unread = True, ob_msgs = [\<lparr>msg_source = ''anima'', msg_intent = ''question'', msg_from = ''sora''\<rparr>],
     ob_receive_fails = False, ob_locked = False, ob_status = NoStatus, ob_intents = Some [''report'', ''question''], ob_guard = None\<rparr>"

definition demo_sys :: limiter_sys where
  "demo_sys = initial_sys\<lparr>sy_state := initial_inbox\<lparr>is_pending := True\<rparr>, sy_created := 1\<rparr>"

lemma demo_sys_reachable: "rtranclp (limiter_step demo_inbox_cfg) initial_sys demo_sys"
proof -
  have "spawn (inbox_watcher_tick demo_inbox_cfg demo_ob (sy_state initial_sys)) initial_sys = demo_sys"
    by (simp add: spawn_def inbox_watcher_tick_def demo_sys_def initial_sys_def initial_inbox_def demo_ob_def
        demo_inbox_cfg_def retry_is_delayed_def is_in_cooldown_def read_anima_enabled_def)
  then have "limiter_step demo_inbox_cfg initial_sys demo_sys" using tick [of demo_inbox_cfg initial_sys demo_ob] by simp
  then show ?thesis ..
qed

theorem single_inbox_handler_witness: "sy_created demo_sys + length (sy_waiting demo_sys) \<le> 1 \<and> sy_created demo_sys = 1"
  using single_inbox_handler [OF demo_sys_reachable] by (simp add: demo_sys_def)

text \<open>
  C39. Unread messages are not forgotten, as long as no handler has died of an exception before its \<^verbatim>\<open>try\<close>
  (such a handler leaves the flag up for ever). In every state the event loop can reach, after a poll that
  sees unread messages of an enabled anima exactly one handler is on its way, or a timer is set; and after a
  deferred trigger that sees unread messages, whatever the status file says, the same. A timer that was set
  before a poll is kept; one that is set by the poll or by the deferred trigger is due at the latest of
  three times: two seconds from now, the end of the cooldown and the end of the retry delay.
\<close>

theorem unread_is_scheduled:
  assumes reach: "rtranclp (limiter_step cfg) initial_sys y" and alive: "sy_died y = 0" and u: "ob_unread ob"
    and due: "due = max (ob_now ob + 2) (max (is_last_end (sy_state y) + ic_cooldown cfg) (is_retry_until (sy_state y)))"
    and polled: "polled = spawn (inbox_watcher_tick cfg ob (sy_state y)) y"
    and tried: "tried = spawn (try_deferred_trigger cfg ob (sy_state y)) (y\<lparr>sy_fired := sy_fired y - 1\<rparr>)"
  shows "(read_anima_enabled (ob_status ob) = Inr True \<longrightarrow>
            sy_created polled + length (sy_waiting polled) = 1 \<or>
            is_timer (sy_state polled) =
              (case is_timer (sy_state y) of Some old \<Rightarrow> Some old | None \<Rightarrow> Some due)) \<and>
         (sy_created tried + length (sy_waiting tried) = 1 \<or> is_timer (sy_state tried) = Some due)"
proof -
  have live: "sy_created y + length (sy_waiting y) = (if is_pending (sy_state y) then 1 else 0)"
    using trigger.inv_reachable [OF refl reach] alive by (simp add: trigger_inv_def)
  have "sy_created polled + length (sy_waiting polled) = 1 \<or>
      is_timer (sy_state polled) = (case is_timer (sy_state y) of Some old \<Rightarrow> Some old | None \<Rightarrow> Some due)"
    if "read_anima_enabled (ob_status ob) = Inr True"
    using live u that
    by (simp add: polled due spawn_def inbox_watcher_tick_def deferred_due split: option.split)
  moreover have "sy_created tried + length (sy_waiting tried) = 1 \<or> is_timer (sy_state tried) = Some due"
    using live u by (simp add: tried due spawn_def try_deferred_trigger_def deferred_due Let_def)
  ultimately show ?thesis by blast
qed

theorem unread_is_scheduled_witness:
  "is_timer (sy_state (spawn (inbox_watcher_tick demo_inbox_cfg (demo_ob\<lparr>ob_now := 100\<rparr>) (sy_state initial_sys)) initial_sys)) =
   Some 300"
proof -
  let ?ob = "demo_ob\<lparr>ob_now := 100\<rparr>"
  let ?polled = "spawn (inbox_watcher_tick demo_inbox_cfg ?ob (sy_state initial_sys)) initial_sys"
  have "sy_created ?polled + length (sy_waiting ?polled) = 0"
    by (simp add: spawn_def inbox_watcher_tick_def initial_sys_def initial_inbox_def demo_ob_def demo_inbox_cfg_def
        is_in_cooldown_def has_external_platform_message_def is_external_def external_platform_sources_def)
  with unread_is_scheduled [OF rtranclp.rtrancl_refl [of "limiter_step demo_inbox_cfg" initial_sys] _ _ refl refl refl, of ?ob]
  show ?thesis
    by (simp add: initial_sys_def initial_inbox_def demo_ob_def demo_inbox_cfg_def read_anima_enabled_def)
qed

text \<open>
  What starts a handler: a poll creates one only for unread messages, never while a provider failure delays
  retries, never while the inbox lock is held, never for a disabled anima, and during the cooldown only for
  a directed message of an external platform.
\<close>

theorem trigger_respects_limits:
  assumes "inbox_watcher_tick cfg ob s = (True, s')"
  shows "ob_unread ob \<and> \<not> is_pending s \<and> is_retry_until s \<le> ob_now ob \<and> \<not> ob_locked ob \<and>
         read_anima_enabled (ob_status ob) = Inr True \<and>
         (ob_now ob - is_last_end s < ic_cooldown cfg \<longrightarrow>
            (\<exists>m \<in> set (ob_msgs ob). msg_source m \<in> set external_platform_sources \<and> msg_intent m \<noteq> []))"
  using assms
  by (auto simp: inbox_watcher_tick_def retry_is_delayed_def is_in_cooldown_def has_external_platform_message_def is_external_def
      split: if_splits sum.splits bool.splits)

theorem trigger_respects_limits_witness:
  "is_retry_until initial_inbox \<le> ob_now demo_ob"
proof -
  have "inbox_watcher_tick demo_inbox_cfg demo_ob initial_inbox = (True, initial_inbox\<lparr>is_pending := True\<rparr>)"
    by (simp add: inbox_watcher_tick_def initial_inbox_def demo_ob_def
        demo_inbox_cfg_def retry_is_delayed_def is_in_cooldown_def read_anima_enabled_def)
  from trigger_respects_limits [OF this] show ?thesis by blast
qed

text \<open>
  Cascade detection: a handler is suppressed exactly when with some sender of a message that is not external
  at least the threshold of exchanges happened within the window; evicting old time stamps on the way
  changes no verdict, and a pair that stops exchanging is free again once the window has passed.
\<close>

theorem cascade_detected_iff:
  "(fst (check_cascade cfg now senders s) \<longleftrightarrow>
     (\<exists>x \<in> set senders. ic_threshold cfg \<le>
        int (length [t \<leftarrow> pair_times s (ic_name cfg) x. now - t < ic_window cfg]))) \<and>
   (0 < ic_threshold cfg \<and> (\<forall>x \<in> set senders. \<forall>t \<in> set (pair_times s (ic_name cfg) x). t + ic_window cfg \<le> now)
      \<longrightarrow> \<not> fst (check_cascade cfg now senders s))"
proof
  show "fst (check_cascade cfg now senders s) \<longleftrightarrow>
     (\<exists>x \<in> set senders. ic_threshold cfg \<le> int (length [t \<leftarrow> pair_times s (ic_name cfg) x. now - t < ic_window cfg]))"
    by (simp add: check_cascade_iff pair_exceeded_def)
  show "0 < ic_threshold cfg \<and> (\<forall>x \<in> set senders. \<forall>t \<in> set (pair_times s (ic_name cfg) x). t + ic_window cfg \<le> now)
      \<longrightarrow> \<not> fst (check_cascade cfg now senders s)"
    using cascade.opens_after_window [of "ic_threshold cfg" _ now "ic_window cfg"]
    by (fastforce simp: check_cascade_iff)
qed

theorem cascade_detected_iff_witness:
  "\<not> fst (check_cascade demo_inbox_cfg 3000 [''sora''] (initial_inbox\<lparr>is_pairs := [((''rin'', ''sora''), [0, 10, 20])]\<rparr>))"
  using cascade_detected_iff [of demo_inbox_cfg 3000 "[''sora'']" "initial_inbox\<lparr>is_pairs := [((''rin'', ''sora''), [0, 10, 20])]\<rparr>"]
  by (simp add: pair_times_def demo_inbox_cfg_def)

text \<open>
  A handler that dies before its \<^verbatim>\<open>try\<close> stops the inbox for good: an exception of \<^verbatim>\<open>load_config\<close>, of
  \<^verbatim>\<open>receive\<close> or of decoding the status file leaves \<^verbatim>\<open>_pending_trigger\<close> up, and from then on no step of the
  loop ever creates a handler again.
\<close>

theorem dead_handler_stops_inbox:
  assumes reach: "rtranclp (limiter_step cfg) initial_sys y" and dead: "0 < sy_died y"
    and run: "rtranclp (limiter_step cfg) y z"
  shows "sy_created z = 0 \<and> sy_waiting z = [] \<and> is_pending (sy_state z)"
proof -
  have "0 < sy_died z" using run dead
  proof (induction rule: rtranclp_induct)
    case (step u v)
    from step.hyps(2) step.IH step.prems show ?case by cases (auto simp: spawn_def)
  qed
  moreover have "trigger_inv z" using trigger.inv_reachable [OF refl rtranclp_trans [OF reach run]] .
  ultimately show ?thesis by (cases "sy_waiting z") (auto simp: trigger_inv_def split: if_splits)
qed

theorem dead_handler_stops_inbox_witness:
  "sy_created (demo_sys\<lparr>sy_created := 0, sy_died := 1\<rparr>) = 0 \<and>
   rtranclp (limiter_step demo_inbox_cfg) initial_sys (demo_sys\<lparr>sy_created := 0, sy_died := 1\<rparr>)"
proof -
  have "message_triggered_begin demo_inbox_cfg (demo_ob\<lparr>ob_intents := None\<rparr>) (sy_state demo_sys) =
      (Raised (RuntimeError ''load_config''), sy_state demo_sys)"
    by (simp add: message_triggered_begin_def demo_ob_def demo_sys_def initial_inbox_def initial_sys_def retry_is_delayed_def
        read_anima_enabled_def)
  from begin_raise [OF _ this] have "limiter_step demo_inbox_cfg demo_sys (demo_sys\<lparr>sy_created := 0, sy_died := 1\<rparr>)"
    by (simp add: demo_sys_def initial_sys_def)
  then have r: "rtranclp (limiter_step demo_inbox_cfg) initial_sys (demo_sys\<lparr>sy_created := 0, sy_died := 1\<rparr>)"
    using demo_sys_reachable by simp
  from dead_handler_stops_inbox [OF r _ rtranclp.rtrancl_refl] r show ?thesis by simp
qed

end
