(* ===== verification/Loop_Guards.thy ===== *)
theory Loop_Guards
  imports Anima_Prelude
begin

text \<open>
  The guards of the tool loop, \<^verbatim>\<open>core/execution/loop_guards.py\<close>: \<^verbatim>\<open>call_llm_with_retry\<close>,
  \<^verbatim>\<open>EmptyResponseTracker\<close>, \<^verbatim>\<open>strip_tool_protocol_messages\<close> and \<^verbatim>\<open>RunawayGuard\<close>. The injected callables are
  arguments: the outcome of the n-th model call, the classifier, the back-off function, the answers of
  the interrupt check, the outcome of the overflow recovery. \<^verbatim>\<open>str\<close> of a JSON value, where the code
  prints one that is no string, is the argument \<open>pr\<close>.
\<close>

section \<open>Retrying a model call\<close>

datatype ('e, 'r) llm_result = Response 'r | Reraised 'e | Interrupted

record error_hint =
  eh_overflow :: bool
  eh_retryable :: bool
  eh_backoff :: "rat option"

record ('e, 'r) llm_env =
  le_call :: "nat \<Rightarrow> 'e + 'r"
  le_classify :: "'e \<Rightarrow> error_hint"
  le_backoff :: "rat \<Rightarrow> rat"
  le_interrupt :: "(nat \<Rightarrow> bool) option"
  le_overflow :: "bool option option"

text \<open>What a run has done: the interrupt checks asked, the sleeps, and how the overflow callback was used.\<close>

record retry_trace =
  rt_checks :: nat
  rt_sleeps :: "rat list"
  rt_calls :: nat

definition check_interrupt :: "('e, 'r) llm_env \<Rightarrow> retry_trace \<Rightarrow> bool \<times> retry_trace" where
  "check_interrupt env tr =
     (case le_interrupt env of
        None \<Rightarrow> (False, tr)
      | Some f \<Rightarrow> (f (rt_checks tr), tr\<lparr>rt_checks := rt_checks tr + 1\<rparr>))"

text \<open>The chunked sleep; \<open>True\<close> when an interrupt ended it.\<close>

function backoff_sleep :: "('e, 'r) llm_env \<Rightarrow> rat \<Rightarrow> retry_trace \<Rightarrow> bool \<times> retry_trace" where
  "backoff_sleep env remaining tr =
     (if remaining \<le> 0 then (False, tr)
      else case check_interrupt env (tr\<lparr>rt_sleeps := rt_sleeps tr @ [min 1 remaining]\<rparr>) of
             (stop, tr') \<Rightarrow> if stop then (True, tr') else backoff_sleep env (remaining - 1) tr')"
  by pat_completeness auto
termination
proof (relation "measure (\<lambda>(env, remaining, tr). nat \<lceil>remaining\<rceil>)", goal_cases)
  case (2 env remaining tr stop tr')
  then have "\<lceil>remaining - 1\<rceil> = \<lceil>remaining\<rceil> - 1" "0 < \<lceil>remaining\<rceil>" by (simp_all add: zero_less_ceiling)
  then show ?case by simp
qed simp

declare backoff_sleep.simps [simp del]

text \<open>
  The loop, by the number of attempts that are left behind this one. \<open>recover\<close> is the overflow callback,
  \<open>None\<close> once it was used or when there is none; \<open>Some None\<close> is a callback that raises.
\<close>

fun retry_loop ::
  "('e, 'r) llm_env \<Rightarrow> nat \<Rightarrow> bool option option \<Rightarrow> rat \<Rightarrow> retry_trace \<Rightarrow> ('e, 'r) llm_result \<times> retry_trace"
and retry_failed ::
  "('e, 'r) llm_env \<Rightarrow> nat \<Rightarrow> bool option option \<Rightarrow> rat \<Rightarrow> 'e \<Rightarrow> retry_trace \<Rightarrow> ('e, 'r) llm_result \<times> retry_trace" where
  "retry_loop env 0 recover prev tr =
     (case le_call env (rt_calls tr) of
        Inr r \<Rightarrow> (Response r, tr\<lparr>rt_calls := rt_calls tr + 1\<rparr>)
      | Inl e \<Rightarrow> (Reraised e, tr\<lparr>rt_calls := rt_calls tr + 1\<rparr>))"
| "retry_loop env (Suc left) recover prev tr =
     (case le_call env (rt_calls tr) of
        Inr r \<Rightarrow> (Response r, tr\<lparr>rt_calls := rt_calls tr + 1\<rparr>)
      | Inl e \<Rightarrow>
          if recover = Some (Some True) \<and> eh_overflow (le_classify env e)
          then retry_loop env left None prev (tr\<lparr>rt_calls := rt_calls tr + 1\<rparr>)
          else retry_failed env left
                 (if recover \<noteq> None \<and> eh_overflow (le_classify env e) then None else recover)
                 prev e (tr\<lparr>rt_calls := rt_calls tr + 1\<rparr>))"
| "retry_failed env left recover prev e tr =
     (if \<not> eh_retryable (le_classify env e) then (Reraised e, tr)
      else case check_interrupt env tr of
        (stop, tr1) \<Rightarrow>
          if stop then (Interrupted, tr1)
          else let delay = opt_or (eh_backoff (le_classify env e)) (le_backoff env prev)
               in case backoff_sleep env delay tr1 of
                    (stopped, tr2) \<Rightarrow> if stopped then (Interrupted, tr2)
                                     else retry_loop env left recover delay tr2)"

definition call_llm_with_retry :: "('e, 'r) llm_env \<Rightarrow> nat \<Rightarrow> ('e, 'r) llm_result \<times> retry_trace" where
  "call_llm_with_retry env max_retries =
     retry_loop env max_retries (le_overflow env) 0 \<lparr>rt_checks = 0, rt_sleeps = [], rt_calls = 0\<rparr>"

section \<open>Empty responses\<close>

record empty_tracker =
  et_limit :: nat
  et_count :: nat

definition response_is_empty :: "string option \<Rightarrow> bool \<Rightarrow> bool" where
  "response_is_empty text has_tool_calls = (if has_tool_calls then False else py_strip (opt_or text []) = [])"

definition should_reprompt :: "empty_tracker \<Rightarrow> bool \<times> empty_tracker" where
  "should_reprompt t = (if et_count t \<ge> et_limit t then (False, t) else (True, t\<lparr>et_count := et_count t + 1\<rparr>))"

section \<open>Runaway detection\<close>

type_synonym signature = "string list"

datatype decision = DOk | DWarn | DHalt

record runaway_cfg =
  rw_warn :: nat
  rw_halt :: nat
  rw_window_size :: nat
  rw_window_warn :: int
  rw_window_halt :: int

definition default_runaway :: runaway_cfg where
  "default_runaway = \<lparr>rw_warn = 3, rw_halt = 5, rw_window_size = 20, rw_window_warn = 8, rw_window_halt = 12\<rparr>"

record runaway =
  rg_last :: "signature option"
  rg_streak :: nat
  rg_window :: "signature list"
  rg_counts :: "(signature \<times> int) list"
  rg_consecutive_warned :: bool
  rg_warned :: "signature list"

definition initial_runaway :: runaway where
  "initial_runaway = \<lparr>rg_last = None, rg_streak = 0, rg_window = [], rg_counts = [],
     rg_consecutive_warned = False, rg_warned = []\<rparr>"

definition count_of :: "runaway \<Rightarrow> signature \<Rightarrow> int" where
  "count_of g x = opt_or (map_of (rg_counts g) x) 0"

definition note_streak :: "signature \<Rightarrow> runaway \<Rightarrow> runaway" where
  "note_streak x g =
     (if Some x = rg_last g then g\<lparr>rg_streak := rg_streak g + 1\<rparr>
      else g\<lparr>rg_last := Some x, rg_streak := 1, rg_consecutive_warned := False\<rparr>)"

text \<open>\<^verbatim>\<open>deque.append\<close> at \<^verbatim>\<open>maxlen\<close> drops the first element; its counter is adjusted before.\<close>

definition evict_oldest :: "runaway_cfg \<Rightarrow> runaway \<Rightarrow> py_error + runaway" where
  "evict_oldest cfg g =
     (if length (rg_window g) = rw_window_size cfg
      then (case rg_window g of
              [] \<Rightarrow> Inl (ValueError ''IndexError'')
            | e # rest \<Rightarrow>
                let n = count_of g e - 1; g1 = g\<lparr>rg_window := rest\<rparr>
                in Inr (if n \<le> 0
                        then g1\<lparr>rg_counts := AList.delete e (rg_counts g), rg_warned := filter (\<lambda>w. w \<noteq> e) (rg_warned g)\<rparr>
                        else g1\<lparr>rg_counts := AList.update e n (rg_counts g)\<rparr>))
      else Inr g)"

definition push_window :: "signature \<Rightarrow> runaway \<Rightarrow> runaway" where
  "push_window x g =
     g\<lparr>rg_window := rg_window g @ [x], rg_counts := AList.update x (count_of g x + 1) (rg_counts g)\<rparr>"

definition judge :: "runaway_cfg \<Rightarrow> signature \<Rightarrow> runaway \<Rightarrow> decision \<times> runaway" where
  "judge cfg x g =
     (if rg_streak g \<ge> rw_halt cfg \<or> count_of g x \<ge> rw_window_halt cfg then (DHalt, g)
      else let consecutive_warn = (rg_streak g \<ge> rw_warn cfg \<and> \<not> rg_consecutive_warned g);
               window_warn = (count_of g x \<ge> rw_window_warn cfg \<and> x \<notin> set (rg_warned g))
           in if consecutive_warn \<or> window_warn
              then (DWarn, g\<lparr>rg_consecutive_warned := (consecutive_warn \<or> rg_consecutive_warned g),
                             rg_warned := List.insert x (rg_warned g)\<rparr>)
              else (DOk, g))"

definition observe :: "runaway_cfg \<Rightarrow> signature \<Rightarrow> runaway \<Rightarrow> py_error + decision \<times> runaway" where
  "observe cfg x g =
     (if x = [] then Inr (DOk, g)
      else case evict_oldest cfg (note_streak x g) of
        Inl e \<Rightarrow> Inl e
      | Inr g' \<Rightarrow> Inr (judge cfg x (push_window x g')))"

definition repetition_count :: "runaway \<Rightarrow> int" where
  "repetition_count g = (case rg_last g of None \<Rightarrow> 0 | Some x \<Rightarrow> max (int (rg_streak g)) (count_of g x))"

fun observe_all :: "runaway_cfg \<Rightarrow> signature list \<Rightarrow> runaway \<Rightarrow> py_error + decision list \<times> runaway" where
  "observe_all cfg [] g = Inr ([], g)"
| "observe_all cfg (x # xs) g =
     (case observe cfg x g of
        Inl e \<Rightarrow> Inl e
      | Inr (d, g') \<Rightarrow> (case observe_all cfg xs g' of Inl e \<Rightarrow> Inl e | Inr (ds, g'') \<Rightarrow> Inr (d # ds, g'')))"

section \<open>Flattening tool messages\<close>

definition dict_or :: "dict \<Rightarrow> string \<Rightarrow> json \<Rightarrow> json" where
  "dict_or d k v = (case map_of d k of Some w \<Rightarrow> if truthy w then w else v | None \<Rightarrow> v)"

definition show_json :: "(json \<Rightarrow> string) \<Rightarrow> json \<Rightarrow> string" where
  "show_json pr v = (case v of JStr s \<Rightarrow> s | _ \<Rightarrow> pr v)"

fun join_with :: "string \<Rightarrow> string list \<Rightarrow> string" where
  "join_with sep [] = []"
| "join_with sep [s] = s"
| "join_with sep (s # t # ss) = s @ sep @ join_with sep (t # ss)"

text \<open>The names of the calls; a value that cannot be iterated, or has no \<^verbatim>\<open>get\<close>, raises.\<close>

fun call_names :: "(json \<Rightarrow> string) \<Rightarrow> json list \<Rightarrow> py_error + string list" where
  "call_names pr [] = Inr []"
| "call_names pr (JObj d # cs) =
     (case opt_or (map_of d ''function'') (JObj []) of
        JObj f \<Rightarrow> (case call_names pr cs of
                     Inl e \<Rightarrow> Inl e
                   | Inr ns \<Rightarrow> Inr (show_json pr (opt_or (map_of f ''name'') (JStr ''tool'')) # ns))
      | _ \<Rightarrow> Inl (AttributeError ''get''))"
| "call_names pr (_ # cs) = call_names pr cs"

definition tool_call_names :: "(json \<Rightarrow> string) \<Rightarrow> json \<Rightarrow> py_error + string list" where
  "tool_call_names pr calls =
     (case calls of JArr cs \<Rightarrow> call_names pr cs | JObj _ \<Rightarrow> Inr [] | JStr _ \<Rightarrow> Inr []
      | _ \<Rightarrow> Inl (TypeError ''not iterable''))"

definition flatten_message :: "(json \<Rightarrow> string) \<Rightarrow> dict \<Rightarrow> py_error + dict" where
  "flatten_message pr m =
     (if map_of m ''role'' = Some (JStr ''tool'')
      then Inr [(''role'', JStr ''user''),
                (''content'', JStr (''[Result from '' @ show_json pr (dict_or m ''name'' (JStr ''tool'')) @ '']'' @ [CHR 0x0A] @
                                     show_json pr (dict_or m ''content'' (JStr []))))]
      else
        let copied = AList.delete ''tool_call_id'' (AList.delete ''tool_calls'' m)
        in case map_of m ''tool_calls'' of
             None \<Rightarrow> Inr copied
           | Some calls \<Rightarrow>
               if \<not> truthy calls then Inr copied
               else case tool_call_names pr calls of
                 Inl e \<Rightarrow> Inl e
               | Inr names \<Rightarrow>
                   Inr (AList.delete ''thinking_blocks'' (AList.update ''content''
                     (JStr (py_strip (show_json pr (dict_or copied ''content'' (JStr [])) @ [CHR 0x0A] @ ''[Tools used: '' @
                        (if join_with '', '' names = [] then ''tool'' else join_with '', '' names) @ '']''))) copied)))"

fun flatten_all :: "(json \<Rightarrow> string) \<Rightarrow> dict list \<Rightarrow> py_error + dict list" where
  "flatten_all pr [] = Inr []"
| "flatten_all pr (m # ms) =
     (case flatten_message pr m of
        Inl e \<Rightarrow> Inl e
      | Inr f \<Rightarrow> (case flatten_all pr ms of Inl e \<Rightarrow> Inl e | Inr fs \<Rightarrow> Inr (f # fs)))"

definition text_block :: "string \<Rightarrow> json" where
  "text_block s = JObj [(''type'', JStr ''text''), (''text'', JStr s)]"

definition merge_content :: "(json \<Rightarrow> string) \<Rightarrow> dict \<Rightarrow> dict \<Rightarrow> json" where
  "merge_content pr previous message =
     (case (dict_or previous ''content'' (JStr []), dict_or message ''content'' (JStr [])) of
        (JArr p, JArr c) \<Rightarrow> JArr (p @ c)
      | (JArr p, c) \<Rightarrow> JArr (p @ [text_block (show_json pr c)])
      | (p, JArr c) \<Rightarrow> JArr (text_block (show_json pr p) # c)
      | (p, c) \<Rightarrow> JStr (py_strip (show_json pr p @ [CHR 0x0A, CHR 0x0A] @ show_json pr c)))"

text \<open>\<^verbatim>\<open>message.get("role")\<close>: a missing role and \<^verbatim>\<open>null\<close> are both Python's \<^verbatim>\<open>None\<close>.\<close>

definition role_of :: "dict \<Rightarrow> json" where
  "role_of m = opt_or (map_of m ''role'') JNull"

text \<open>The second loop, with the last merged message held apart.\<close>

fun merge_roles :: "(json \<Rightarrow> string) \<Rightarrow> dict \<Rightarrow> dict list \<Rightarrow> dict list" where
  "merge_roles pr previous [] = [previous]"
| "merge_roles pr previous (m # ms) =
     (if role_of previous \<noteq> role_of m \<or> role_of m = JStr ''system''
      then previous # merge_roles pr m ms
      else merge_roles pr (AList.update ''content'' (merge_content pr previous m) previous) ms)"

definition strip_tool_protocol_messages :: "(json \<Rightarrow> string) \<Rightarrow> dict list \<Rightarrow> py_error + dict list" where
  "strip_tool_protocol_messages pr ms =
     (case flatten_all pr ms of
        Inl e \<Rightarrow> Inl e
      | Inr [] \<Rightarrow> Inr []
      | Inr (f # fs) \<Rightarrow> Inr (merge_roles pr f fs))"

section \<open>Facts on retries\<close>

lemma check_interrupt_calls [simp]:
  "rt_calls (snd (check_interrupt env tr)) = rt_calls tr" "rt_sleeps (snd (check_interrupt env tr)) = rt_sleeps tr"
  by (simp_all add: check_interrupt_def split: option.splits)

lemma backoff_sleep_calls [simp]: "rt_calls (snd (backoff_sleep env d tr)) = rt_calls tr"
proof (induction env d tr rule: backoff_sleep.induct)
  case (1 env d tr)
  have c: "rt_calls (snd (check_interrupt env (tr\<lparr>rt_sleeps := rt_sleeps tr @ [min 1 d]\<rparr>))) = rt_calls tr" by simp
  show ?case
    by (subst backoff_sleep.simps) (use 1 c in \<open>auto split: prod.splits simp del: check_interrupt_calls\<close>)
qed

lemma no_interrupt:
  assumes "le_interrupt env = None"
  shows "check_interrupt env tr = (False, tr)" and "fst (backoff_sleep env d tr) = False"
proof -
  show c: "check_interrupt env tr = (False, tr)" for tr using assms by (simp add: check_interrupt_def)
  show "fst (backoff_sleep env d tr) = False"
    using assms by (induction env d tr rule: backoff_sleep.induct) (subst backoff_sleep.simps, simp add: check_interrupt_def)
qed

text \<open>What a run from call \<open>n\<close> on may answer; \<open>N\<close> is the number of calls that are allowed at most.\<close>

definition outcome_ok :: "('e, 'r) llm_env \<Rightarrow> nat \<Rightarrow> nat \<Rightarrow> ('e, 'r) llm_result \<times> retry_trace \<Rightarrow> bool" where
  "outcome_ok env n N out \<longleftrightarrow>
     (case out of (res, tr) \<Rightarrow>
        rt_calls tr \<le> N \<and> (\<forall>k. n \<le> k \<and> k + 1 < rt_calls tr \<longrightarrow> (\<exists>e. le_call env k = Inl e)) \<and>
        (case res of
           Response r \<Rightarrow> 0 < rt_calls tr \<and> le_call env (rt_calls tr - 1) = Inr r
         | Reraised e \<Rightarrow> 0 < rt_calls tr \<and> le_call env (rt_calls tr - 1) = Inl e \<and>
                         (\<not> eh_retryable (le_classify env e) \<or> rt_calls tr = N)
         | Interrupted \<Rightarrow> le_interrupt env \<noteq> None))"

lemma from_Suc: "(\<forall>k. Suc n \<le> k \<and> P k \<longrightarrow> Q k) \<Longrightarrow> Q n \<Longrightarrow> (\<forall>k. n \<le> k \<and> P k \<longrightarrow> Q k)"
  by (metis Suc_leI le_neq_implies_less)

lemma outcome_ok_Suc:
  assumes "outcome_ok env (Suc n) N out" "le_call env n = Inl e"
  shows "outcome_ok env n N out"
proof -
  have "\<forall>k. n \<le> k \<and> k + 1 < rt_calls (snd out) \<longrightarrow> (\<exists>e. le_call env k = Inl e)"
    by (rule from_Suc) (use assms in \<open>auto simp: outcome_ok_def split: prod.splits\<close>)
  with assms show ?thesis by (auto simp: outcome_ok_def split: prod.splits)
qed

lemma retry_outcome_ok:
  shows "outcome_ok env (rt_calls tr) (rt_calls tr + left + 1) (retry_loop env left recover prev tr)"
    and "0 < rt_calls tr \<Longrightarrow> le_call env (rt_calls tr - 1) = Inl e \<Longrightarrow>
         outcome_ok env (rt_calls tr) (rt_calls tr + left + 1) (retry_failed env left recover prev e tr)"
proof (induction env left recover prev tr and env left recover prev e tr rule: retry_loop_retry_failed.induct)
  case (1 env recover prev tr)
  then show ?case by (auto simp: outcome_ok_def split: sum.splits)
next
  case (2 env left recover prev tr)
  show ?case
  proof (cases "le_call env (rt_calls tr)")
    case (Inr r)
    then show ?thesis by (auto simp: outcome_ok_def)
  next
    case (Inl e)
    have "outcome_ok env (Suc (rt_calls tr)) (rt_calls tr + Suc left + 1) (retry_loop env (Suc left) recover prev tr)"
    proof (cases "recover = Some (Some True) \<and> eh_overflow (le_classify env e)")
      case True
      with 2(1) [OF Inl True] Inl show ?thesis by simp
    next
      case False
      with 2(2) [OF Inl False] Inl show ?thesis by (auto simp del: retry_failed.simps)
    qed
    then show ?thesis using Inl by (rule outcome_ok_Suc)
  qed
next
  case (3 env left recover prev e tr)
  obtain stop tr1 where c: "check_interrupt env tr = (stop, tr1)" by fastforce
  let ?d = "opt_or (eh_backoff (le_classify env e)) (le_backoff env prev)"
  obtain stopped tr2 where b: "backoff_sleep env ?d tr1 = (stopped, tr2)" by fastforce
  have n1: "rt_calls tr1 = rt_calls tr" using check_interrupt_calls(1) [of env tr] c by simp
  have n2: "rt_calls tr2 = rt_calls tr" using backoff_sleep_calls [of env ?d tr1] b n1 by simp
  have si: "stop \<Longrightarrow> le_interrupt env \<noteq> None" "stopped \<Longrightarrow> le_interrupt env \<noteq> None"
    using no_interrupt(1) [of env tr] no_interrupt(2) [of env ?d tr1] c b by (cases "le_interrupt env = None"; simp)+
  show ?case
  proof (cases "eh_retryable (le_classify env e) \<and> \<not> stop \<and> \<not> stopped")
    case True
    then have r: "retry_failed env left recover prev e tr = retry_loop env left recover ?d tr2"
      using c b by (simp add: Let_def)
    have "outcome_ok env (rt_calls tr2) (rt_calls tr2 + left + 1) (retry_loop env left recover ?d tr2)"
      using True by (intro 3(1) [OF _ c [symmetric] _ refl b [symmetric]]) auto
    with r n2 show ?thesis by simp
  next
    case False
    with 3(2,3) c b n1 n2 si show ?thesis by (auto simp: outcome_ok_def Let_def)
  qed
qed

lemma retry_loop_success:
  assumes "le_interrupt env = None" and "rt_calls tr \<le> j" "j \<le> rt_calls tr + left"
    and "\<And>k. rt_calls tr \<le> k \<Longrightarrow> k < j \<Longrightarrow> \<exists>e. le_call env k = Inl e \<and> eh_retryable (le_classify env e)"
    and "le_call env j = Inr r"
  shows "fst (retry_loop env left recover prev tr) = Response r"
  using assms
proof (induction left arbitrary: recover prev tr)
  case 0
  then show ?case by simp
next
  case (Suc left)
  show ?case
  proof (cases "j = rt_calls tr")
    case True
    with Suc.prems show ?thesis by simp
  next
    case False
    then obtain e where e: "le_call env (rt_calls tr) = Inl e" "eh_retryable (le_classify env e)"
      using Suc.prems(2,4) by force
    have next_try: "fst (retry_loop env left recover' prev' tr') = Response r" if "rt_calls tr' = Suc (rt_calls tr)" for recover' prev' tr'
      using Suc.IH [of tr'] Suc.prems False that by simp
    let ?tr = "tr\<lparr>rt_calls := rt_calls tr + 1\<rparr>"
    let ?d = "opt_or (eh_backoff (le_classify env e)) (le_backoff env prev)"
    have "fst (backoff_sleep env ?d ?tr) = False" by (rule no_interrupt(2) [OF Suc.prems(1)])
    then have "fst (retry_failed env left recover' prev e ?tr) = Response r" for recover'
      using e no_interrupt(1) [OF Suc.prems(1)] next_try backoff_sleep_calls [of env ?d ?tr]
      by (auto simp: Let_def split: prod.splits simp del: backoff_sleep_calls)
    with e next_try [of ?tr] show ?thesis by simp
  qed
qed

section \<open>Facts on runaway detection\<close>

text \<open>The reference: a decision is a function of the whole history of turns.\<close>

fun streak_of :: "signature list \<Rightarrow> nat" where
  "streak_of [] = 0"
| "streak_of (x # xs) = (if \<forall>y \<in> set xs. y = x then Suc (length xs) else streak_of xs)"

lemma streak_of_snoc:
  "streak_of (xs @ [x]) = (if xs \<noteq> [] \<and> last xs = x then streak_of xs + 1 else 1)"
  by (induction xs) auto

definition runaway_inv :: "runaway_cfg \<Rightarrow> signature list \<Rightarrow> runaway \<Rightarrow> bool" where
  "runaway_inv cfg hist g \<longleftrightarrow>
     rg_last g = (if hist = [] then None else Some (last hist)) \<and>
     rg_streak g = streak_of hist \<and>
     rg_window g = last_n (rw_window_size cfg) hist \<and>
     (\<forall>x. count_of g x = int (count_list (rg_window g) x))"

lemma count_of_simps [simp]:
  "count_of (g\<lparr>rg_counts := AList.update x n (rg_counts g')\<rparr>) y = (if y = x then n else opt_or (map_of (rg_counts g') y) 0)"
  "count_of (g\<lparr>rg_counts := AList.delete x (rg_counts g')\<rparr>) y = (if y = x then 0 else opt_or (map_of (rg_counts g') y) 0)"
  by (simp_all add: count_of_def update_conv delete_conv)

lemma judge_keeps:
  "judge cfg x g = (d, g') \<Longrightarrow> rg_last g' = rg_last g \<and> rg_streak g' = rg_streak g \<and> rg_window g' = rg_window g \<and>
     (\<forall>y. count_of g' y = count_of g y)"
  by (auto simp: judge_def count_of_def Let_def split: if_splits)

lemma judge_halt:
  "judge cfg x g = (d, g') \<Longrightarrow> d = DHalt \<longleftrightarrow> rw_halt cfg \<le> rg_streak g \<or> rw_window_halt cfg \<le> count_of g x"
  by (auto simp: judge_def Let_def split: if_splits)

lemma last_n_snoc: "last_n (Suc n) (xs @ [x]) = last_n n xs @ [x]"
  by (simp add: last_n_def Suc_diff_le)

lemma tl_last_n: "Suc n \<le> length xs \<Longrightarrow> tl (last_n (Suc n) xs) = last_n n xs"
  by (simp add: last_n_def tl_drop drop_Suc [symmetric] Suc_diff_Suc)

lemma length_last_n [simp]: "length (last_n n xs) = min n (length xs)"
  by (auto simp: last_n_def)

lemma evict_oldest_inv:
  assumes inv: "rg_window g = last_n (rw_window_size cfg) hist" "\<And>x. count_of g x = int (count_list (rg_window g) x)"
    and size: "0 < rw_window_size cfg"
  shows "\<exists>g'. evict_oldest cfg g = Inr g' \<and> rg_last g' = rg_last g \<and> rg_streak g' = rg_streak g \<and>
    rg_window g' = last_n (rw_window_size cfg - 1) hist \<and> (\<forall>x. count_of g' x = int (count_list (rg_window g') x))"
proof (cases "length (rg_window g) = rw_window_size cfg")
  case True
  then obtain e rest where w: "rg_window g = e # rest" using size by (cases "rg_window g") auto
  obtain n where n: "rw_window_size cfg = Suc n" using size by (cases "rw_window_size cfg") auto
  have "Suc n \<le> length hist" using True inv(1) n by simp
  then have rest: "rest = last_n n hist" using tl_last_n [of n hist] inv(1) w n by (metis list.sel(3))
  have c: "count_of g x = int (count_list (e # rest) x)" for x using inv(2) w by simp
  then have m: "opt_or (map_of (rg_counts g) x) 0 = int (count_list (e # rest) x)" for x by (simp add: count_of_def)
  show ?thesis
  proof (cases "count_of g e - 1 \<le> 0")
    case pos: True
    then have "count_list rest e = 0" using c [of e] by simp
    with True w pos rest n m show ?thesis
      by (simp add: evict_oldest_def Let_def) (simp add: count_of_def delete_conv)
  next
    case False
    with True w rest n m c [of e] show ?thesis
      by (simp add: evict_oldest_def Let_def)
  qed
next
  case False
  then have "length hist < rw_window_size cfg" using inv(1) by simp
  then have "last_n (rw_window_size cfg - 1) hist = last_n (rw_window_size cfg) hist" by (simp add: last_n_def)
  with False inv show ?thesis unfolding evict_oldest_def if_not_P [OF False] by simp
qed

lemma note_streak_inv:
  assumes "runaway_inv cfg hist g"
  shows "rg_last (note_streak x g) = Some x \<and> rg_streak (note_streak x g) = streak_of (hist @ [x]) \<and>
    rg_window (note_streak x g) = rg_window g \<and> (\<forall>y. count_of (note_streak x g) y = count_of g y)"
  using assms by (auto simp: runaway_inv_def note_streak_def streak_of_snoc count_of_def split: if_splits)

definition must_halt :: "runaway_cfg \<Rightarrow> signature list \<Rightarrow> bool" where
  "must_halt cfg hist \<longleftrightarrow> hist \<noteq> [] \<and>
     (rw_halt cfg \<le> streak_of hist \<or>
      rw_window_halt cfg \<le> int (count_list (last_n (rw_window_size cfg) hist) (last hist)))"

lemma observe_step:
  assumes inv: "runaway_inv cfg hist g" and x: "x \<noteq> []" and size: "0 < rw_window_size cfg"
  shows "\<exists>d g'. observe cfg x g = Inr (d, g') \<and> runaway_inv cfg (hist @ [x]) g' \<and> (d = DHalt \<longleftrightarrow> must_halt cfg (hist @ [x]))"
proof -
  note s = note_streak_inv [OF inv, of x]
  obtain g1 where g1: "evict_oldest cfg (note_streak x g) = Inr g1" "rg_last g1 = Some x" "rg_streak g1 = streak_of (hist @ [x])"
    "rg_window g1 = last_n (rw_window_size cfg - 1) hist" "\<And>y. count_of g1 y = int (count_list (rg_window g1) y)"
    using evict_oldest_inv [of "note_streak x g" cfg hist] s inv size by (auto simp: runaway_inv_def)
  let ?g2 = "push_window x g1"
  have w: "rg_window ?g2 = last_n (rw_window_size cfg) (hist @ [x])"
    using g1(4) size last_n_snoc [of "rw_window_size cfg - 1" hist x] by (simp add: push_window_def)
  have c: "count_of ?g2 y = int (count_list (rg_window ?g2) y)" for y
    using g1(5) by (simp add: push_window_def count_of_def update_conv)
  obtain d g' where j: "judge cfg x ?g2 = (d, g')" by fastforce
  have "runaway_inv cfg (hist @ [x]) g'"
    using judge_keeps [OF j] w c g1(2,3) by (simp add: runaway_inv_def push_window_def)
  moreover have "d = DHalt \<longleftrightarrow> must_halt cfg (hist @ [x])"
  proof -
    have "rg_streak ?g2 = streak_of (hist @ [x])" using g1(3) by (simp add: push_window_def)
    then show ?thesis unfolding judge_halt [OF j] c w by (simp add: must_halt_def)
  qed
  ultimately show ?thesis using x g1(1) j by (simp add: observe_def)
qed

lemma observe_all_run:
  assumes "runaway_inv cfg hist g" "[] \<notin> set xs" "0 < rw_window_size cfg"
  shows "\<exists>ds g'. observe_all cfg xs g = Inr (ds, g') \<and> runaway_inv cfg (hist @ xs) g' \<and> length ds = length xs \<and>
    (\<forall>i < length xs. ds ! i = DHalt \<longleftrightarrow> must_halt cfg (hist @ take (Suc i) xs))"
  using assms
proof (induction xs arbitrary: hist g)
  case (Cons x xs)
  obtain d g1 where d: "observe cfg x g = Inr (d, g1)" "runaway_inv cfg (hist @ [x]) g1" "d = DHalt \<longleftrightarrow> must_halt cfg (hist @ [x])"
    using observe_step [OF Cons.prems(1) _ Cons.prems(3), of x] Cons.prems(2) by auto
  obtain ds g2 where r: "observe_all cfg xs g1 = Inr (ds, g2)" "runaway_inv cfg (hist @ x # xs) g2" "length ds = length xs"
    "\<forall>i < length xs. ds ! i = DHalt \<longleftrightarrow> must_halt cfg (hist @ x # take (Suc i) xs)"
    using Cons.IH [OF d(2)] Cons.prems(2,3) by auto
  have "(d # ds) ! i = DHalt \<longleftrightarrow> must_halt cfg (hist @ take (Suc i) (x # xs))" if "i < length (x # xs)" for i
    using that d(3) r(4) by (cases i) auto
  with d r show ?case by simp
qed simp

section \<open>Facts on flattening\<close>

definition protocol_free :: "dict \<Rightarrow> bool" where
  "protocol_free m \<longleftrightarrow> map_of m ''tool_calls'' = None \<and> map_of m ''tool_call_id'' = None \<and> role_of m \<noteq> JStr ''tool''"

lemma flatten_message_clean: "flatten_message pr m = Inr f \<Longrightarrow> protocol_free f"
  by (auto simp: flatten_message_def protocol_free_def role_of_def Let_def delete_conv update_conv opt_or_def
      split: if_splits option.splits sum.splits)

lemma flatten_all_clean: "flatten_all pr ms = Inr fs \<Longrightarrow> \<forall>f \<in> set fs. protocol_free f"
  by (induction ms arbitrary: fs) (auto split: sum.splits dest: flatten_message_clean)

fun roles_alternate :: "dict list \<Rightarrow> bool" where
  "roles_alternate (a # b # ms) = ((role_of a \<noteq> role_of b \<or> role_of b = JStr ''system'') \<and> roles_alternate (b # ms))"
| "roles_alternate _ = True"

lemma role_of_content [simp]: "role_of (AList.update ''content'' v m) = role_of m"
  by (simp add: role_of_def update_conv)

lemma protocol_free_content: "protocol_free m \<Longrightarrow> protocol_free (AList.update ''content'' v m)"
  by (simp add: protocol_free_def role_of_def update_conv)

lemma merge_roles_head: "\<exists>m ms'. merge_roles pr p ms = m # ms' \<and> role_of m = role_of p"
proof (induction ms arbitrary: p)
  case (Cons m ms)
  then show ?case using Cons.IH [of "AList.update ''content'' (merge_content pr p m) p"] by auto
qed simp

lemma merge_roles_clean:
  "protocol_free p \<Longrightarrow> \<forall>f \<in> set ms. protocol_free f \<Longrightarrow>
   roles_alternate (merge_roles pr p ms) \<and> (\<forall>f \<in> set (merge_roles pr p ms). protocol_free f)"
proof (induction ms arbitrary: p)
  case (Cons m ms)
  obtain h t where h: "merge_roles pr m ms = h # t" "role_of h = role_of m" using merge_roles_head by blast
  show ?case
  proof (cases "role_of p \<noteq> role_of m \<or> role_of m = JStr ''system''")
    case True
    with Cons.IH [of m] Cons.prems h show ?thesis by auto
  next
    case False
    with Cons.IH [of "AList.update ''content'' (merge_content pr p m) p"] Cons.prems show ?thesis
      by (simp add: protocol_free_content)
  qed
qed simp

section \<open>Properties\<close>

text \<open>
  The retry budget: a call makes at most \<^verbatim>\<open>max_retries\<close> + 1 model calls, answers with the first success,
  raises the exception of its last call and only when that error is not retryable or the budget is used
  up, and reports an interrupt only when there is an interrupt check.
\<close>

theorem retry_outcome:
  assumes "call_llm_with_retry env max_retries = (res, tr)"
  shows "rt_calls tr \<le> max_retries + 1 \<and>
    (\<forall>k. k + 1 < rt_calls tr \<longrightarrow> (\<exists>e. le_call env k = Inl e)) \<and>
    (case res of
       Response r \<Rightarrow> 0 < rt_calls tr \<and> le_call env (rt_calls tr - 1) = Inr r
     | Reraised e \<Rightarrow> 0 < rt_calls tr \<and> le_call env (rt_calls tr - 1) = Inl e \<and>
                     (\<not> eh_retryable (le_classify env e) \<or> rt_calls tr = max_retries + 1)
     | Interrupted \<Rightarrow> le_interrupt env \<noteq> None)"
  using retry_outcome_ok(1) [of env "\<lparr>rt_checks = 0, rt_sleeps = [], rt_calls = 0\<rparr>" max_retries "le_overflow env" 0] assms
  by (auto simp: call_llm_with_retry_def outcome_ok_def split: llm_result.splits)

definition flaky_env :: "(string, string) llm_env" where
  "flaky_env = \<lparr>le_call = (\<lambda>n. if n < 2 then Inl ''529'' else Inr ''hello''),
     le_classify = (\<lambda>_. \<lparr>eh_overflow = False, eh_retryable = True, eh_backoff = Some (5 / 2)\<rparr>),
     le_backoff = (\<lambda>d. d + 1), le_interrupt = None, le_overflow = None\<rparr>"

theorem retry_outcome_witness: "rt_calls (snd (call_llm_with_retry flaky_env 1)) \<le> 2"
  using retry_outcome [of flaky_env 1, OF prod.collapse [symmetric]] by simp

text \<open>
  A transient failure does not lose the turn: when the first calls fail with retryable errors and a call
  within the budget succeeds, then without an interrupt check its response is the answer.
\<close>

theorem retry_reaches_success:
  assumes "le_interrupt env = None" and "j \<le> max_retries"
    and "\<And>k. k < j \<Longrightarrow> \<exists>e. le_call env k = Inl e \<and> eh_retryable (le_classify env e)"
    and "le_call env j = Inr r"
  shows "fst (call_llm_with_retry env max_retries) = Response r"
  using retry_loop_success [of env "\<lparr>rt_checks = 0, rt_sleeps = [], rt_calls = 0\<rparr>" j max_retries r "le_overflow env" 0] assms
  by (simp add: call_llm_with_retry_def)

theorem retry_reaches_success_witness: "fst (call_llm_with_retry flaky_env 3) = Response ''hello''"
  by (rule retry_reaches_success [of flaky_env 2]) (simp_all add: flaky_env_def)

text \<open>
  C40. The runaway guard is exact: on any history of tool turns the incremental counters give the verdict "halt"
  on precisely the turns at which the same turn was seen \<^verbatim>\<open>halt_threshold\<close> times in a row, or
  \<^verbatim>\<open>window_halt_threshold\<close> times among the last \<^verbatim>\<open>window_size\<close> turns; it never raises.
\<close>

theorem runaway_halt_exact:
  assumes "[] \<notin> set xs" "0 < rw_window_size cfg"
  shows "\<exists>ds g. observe_all cfg xs initial_runaway = Inr (ds, g) \<and> length ds = length xs \<and>
    (\<forall>i < length xs. ds ! i = DHalt \<longleftrightarrow>
       rw_halt cfg \<le> streak_of (take (Suc i) xs) \<or>
       rw_window_halt cfg \<le> int (count_list (last_n (rw_window_size cfg) (take (Suc i) xs)) (xs ! i)))"
proof -
  have "runaway_inv cfg [] initial_runaway"
    by (simp add: runaway_inv_def initial_runaway_def last_n_def count_of_def)
  from observe_all_run [OF this assms] obtain ds g where r: "observe_all cfg xs initial_runaway = Inr (ds, g)"
    "length ds = length xs" "\<forall>i < length xs. ds ! i = DHalt \<longleftrightarrow> must_halt cfg (take (Suc i) xs)" by auto
  have l: "i < length xs \<Longrightarrow> take (Suc i) xs \<noteq> [] \<and> last (take (Suc i) xs) = xs ! i" for i
    by (auto simp: take_Suc_conv_app_nth)
  show ?thesis using r l by (auto simp: must_halt_def)
qed

theorem runaway_halt_exact_witness:
  "\<exists>ds g. observe_all default_runaway (replicate 5 [''ls'']) initial_runaway = Inr (ds, g) \<and> ds ! 4 = DHalt"
  using runaway_halt_exact [of "replicate 5 [''ls'']" default_runaway]
  by (force simp: default_runaway_def numeral_eq_Suc)

text \<open>
  One streak can be warned about twice: after an alternating history the window detector warns at the first
  turn of a streak and the consecutive detector warns again at its third turn.
\<close>

theorem streak_warned_twice:
  "\<exists>ds g. observe_all default_runaway (concat (replicate 7 [[''a''], [''b'']]) @ [[''a''], [''a''], [''a'']]) initial_runaway = Inr (ds, g) \<and>
     drop 14 ds = [DWarn, DOk, DWarn]"
proof -
  have "map_sum id (\<lambda>(ds, g). drop 14 ds)
      (observe_all default_runaway (concat (replicate 7 [[''a''], [''b'']]) @ [[''a''], [''a''], [''a'']]) initial_runaway)
    = Inr [DWarn, DOk, DWarn]" by code_simp
  then show ?thesis by (auto simp: map_sum_def split: sum.splits)
qed

text \<open>
  The history of a tool-free call is tool-free: the flattened messages carry no tool calls, no tool call ids and
  no tool role, and no two neighbours but system messages have the same role.
\<close>

theorem stripped_history_clean:
  assumes "strip_tool_protocol_messages pr ms = Inr out"
  shows "(\<forall>m \<in> set out. map_of m ''tool_calls'' = None \<and> map_of m ''tool_call_id'' = None \<and> role_of m \<noteq> JStr ''tool'') \<and>
         roles_alternate out"
proof (cases "flatten_all pr ms")
  case (Inr fs)
  show ?thesis
  proof (cases fs)
    case Nil
    with assms Inr show ?thesis by (simp add: strip_tool_protocol_messages_def)
  next
    case (Cons f fs')
    with assms Inr flatten_all_clean [OF Inr] merge_roles_clean [of f fs' pr] show ?thesis
      by (auto simp: strip_tool_protocol_messages_def protocol_free_def)
  qed
qed (use assms in \<open>simp add: strip_tool_protocol_messages_def\<close>)

theorem stripped_history_clean_witness:
  "roles_alternate [[(''role'', JStr ''user''), (''content'', JStr (''[Result from ls]'' @ [CHR 0x0A] @ ''x''))]]"
proof -
  have "strip_tool_protocol_messages (\<lambda>_. []) [[(''role'', JStr ''tool''), (''name'', JStr ''ls''), (''content'', JStr ''x'')]] =
     Inr [[(''role'', JStr ''user''), (''content'', JStr (''[Result from ls]'' @ [CHR 0x0A] @ ''x''))]]"
    by (simp add: strip_tool_protocol_messages_def flatten_message_def show_json_def dict_or_def)
  from stripped_history_clean [OF this] show ?thesis by blast
qed

end
