(* ===== verification/Cron_Schedule.thy ===== *)
theory Cron_Schedule
  imports Anima_Prelude
begin

text \<open>
  The cron file of an anima, \<^verbatim>\<open>core/schedule_parser.py\<close>: the sections of \<^verbatim>\<open>cron.md\<close>, their directives, and
  the conversion of a POSIX cron expression for the scheduler. \<^verbatim>\<open>yaml.safe_load\<close>, \<^verbatim>\<open>re.compile\<close> and the
  constructor of \<^verbatim>\<open>CronTrigger\<close> are arguments (\<open>None\<close> or \<open>False\<close> where they raise). Line breaks and white
  space are those of ASCII. The parsing of \<^verbatim>\<open>heartbeat.md\<close> is not modelled.
\<close>

section \<open>Text helpers\<close>

text \<open>\<^verbatim>\<open>str.splitlines\<close>.\<close>

definition is_break :: "char \<Rightarrow> bool" where
  "is_break c = (of_char c \<in> {10, 11, 12, 13, 28, 29, 30 :: nat})"

fun break_lines :: "string \<Rightarrow> string \<Rightarrow> string list" where
  "break_lines acc [] = (if acc = [] then [] else [rev acc])"
| "break_lines acc (c # cs) =
     (if c = CHR 0x0D \<and> starts_with cs [CHR 0x0A] then break_lines acc cs
      else if is_break c then rev acc # break_lines [] cs
      else break_lines (c # acc) cs)"

definition splitlines :: "string \<Rightarrow> string list" where
  "splitlines s = break_lines [] s"

text \<open>The text behind the first occurrence of \<^verbatim>\<open>-->\<close>.\<close>

fun after_close :: "string \<Rightarrow> string option" where
  "after_close [] = None"
| "after_close (c # cs) = (if starts_with (c # cs) ''-->'' then Some (drop 2 cs) else after_close cs)"

lemma after_close_length: "after_close s = Some r \<Longrightarrow> length r \<le> length s"
  by (induction s) (auto split: if_splits)

text \<open>\<^verbatim>\<open>re.sub(r"<!--.*?-->", "", content, flags=re.DOTALL)\<close>.\<close>

function strip_html_comments :: "string \<Rightarrow> string" where
  "strip_html_comments [] = []"
| "strip_html_comments (c # cs) =
     (if starts_with (c # cs) ''<!--''
      then (case after_close (drop 3 cs) of Some rest \<Rightarrow> strip_html_comments rest | None \<Rightarrow> c # strip_html_comments cs)
      else c # strip_html_comments cs)"
  by pat_completeness auto
termination
  by (relation "measure length") (auto dest!: after_close_length)

definition strip_outer_quotes :: "string \<Rightarrow> string" where
  "strip_outer_quotes val =
     (if length val \<ge> 2 \<and> hd val \<in> {CHR 0x22, CHR 0x27} \<and> last val = hd val \<and> hd val \<notin> set (butlast (tl val))
      then butlast (tl val) else val)"

text \<open>\<^verbatim>\<open>re.sub(r"\s+#.*$", "", val)\<close> on one line.\<close>

fun strip_inline_comment :: "string \<Rightarrow> string" where
  "strip_inline_comment [] = []"
| "strip_inline_comment (c # cs) =
     (if is_space c \<and> (case dropWhile is_space cs of d # _ \<Rightarrow> d = CHR ''#'' | [] \<Rightarrow> False) then []
      else c # strip_inline_comment cs)"

text \<open>\<^verbatim>\<open>s.split(",")\<close> for one separator character.\<close>

fun split_on :: "char \<Rightarrow> string \<Rightarrow> string list" where
  "split_on d [] = [[]]"
| "split_on d (c # cs) =
     (case split_on d cs of
        p # ps \<Rightarrow> if c = d then [] # p # ps else (c # p) # ps
      | [] \<Rightarrow> [])"

text \<open>\<^verbatim>\<open>s.split(d, 1)\<close> where \<open>d\<close> occurs: the text before and behind the first occurrence.\<close>

definition split_once :: "char \<Rightarrow> string \<Rightarrow> string \<times> string" where
  "split_once d s = (takeWhile (\<lambda>c. c \<noteq> d) s, tl (dropWhile (\<lambda>c. c \<noteq> d) s))"

section \<open>The sections of cron.md\<close>

record cron_task =
  cr_name :: string
  cr_schedule :: string
  cr_type :: string
  cr_description :: string
  cr_command :: "string option"
  cr_tool :: "string option"
  cr_args :: json
  cr_skills :: "string list"
  cr_skip_pattern :: "string option"
  cr_trigger_heartbeat :: bool

definition contains :: "string \<Rightarrow> string \<Rightarrow> bool" where
  "contains s p = (\<exists>i \<in> set [0 ..< length s + 1]. starts_with (drop i s) p)"

definition split_skills :: "string \<Rightarrow> string list" where
  "split_skills s = [t \<leftarrow> map py_strip (if CHR '','' \<in> set s then split_on CHR '','' s else [s]). t \<noteq> []]"

fun normalize_skill_refs :: "json \<Rightarrow> string list" where
  "normalize_skill_refs (JStr s) = split_skills s"
| "normalize_skill_refs (JArr xs) = concat (map normalize_skill_refs xs)"
| "normalize_skill_refs _ = []"

text \<open>The indented or empty lines that continue a YAML block.\<close>

definition block_line :: "string \<Rightarrow> bool" where
  "block_line l = (starts_with l ''  '' \<or> py_strip l = [])"

fun join_lines :: "string list \<Rightarrow> string" where
  "join_lines [] = []"
| "join_lines [l] = l"
| "join_lines (l # m # ls) = l @ [CHR 0x0A] @ join_lines (m # ls)"

text \<open>\<^verbatim>\<open>if parsed and "args" in parsed: args = parsed["args"]\<close>; \<open>None\<close> is a \<^verbatim>\<open>YAMLError\<close>.\<close>

definition args_of_yaml :: "json option \<Rightarrow> json \<Rightarrow> py_error + json" where
  "args_of_yaml parsed old =
     (case parsed of
        None \<Rightarrow> Inr old
      | Some v \<Rightarrow>
          if \<not> truthy v then Inr old
          else (case v of
              JObj d \<Rightarrow> Inr (opt_or (map_of d ''args'') old)
            | JArr xs \<Rightarrow> if JStr ''args'' \<in> set xs then Inl (TypeError ''list indices'') else Inr old
            | JStr s \<Rightarrow> if contains s ''args'' then Inl (TypeError ''string indices'') else Inr old
            | _ \<Rightarrow> Inl (TypeError ''not iterable'')))"

definition skills_of_yaml :: "json option \<Rightarrow> string list \<Rightarrow> string list" where
  "skills_of_yaml parsed old =
     (case parsed of
        None \<Rightarrow> old
      | Some (JObj d) \<Rightarrow> normalize_skill_refs (opt_or (map_of d ''skills'') JNull)
      | Some _ \<Rightarrow> [])"

text \<open>A line without its list marker, and the value behind a directive.\<close>

definition directive_text :: "string \<Rightarrow> string" where
  "directive_text line = (let s = py_strip line in if starts_with s ''- '' then drop 2 s else s)"

definition directive_value :: "string \<Rightarrow> string \<Rightarrow> string" where
  "directive_value key s = strip_inline_comment (py_strip (drop (length key) s))"

text \<open>
  The body of a section. The description lines are collected in the field \<open>cr_description\<close> of the caller's
  accumulator; \<open>re_ok\<close> tells whether a pattern compiles.
\<close>

function parse_body ::
  "(string \<Rightarrow> json option) \<Rightarrow> (string \<Rightarrow> bool) \<Rightarrow> string list \<Rightarrow> cron_task \<Rightarrow> string list
   \<Rightarrow> py_error + cron_task \<times> string list" where
  "parse_body yaml re_ok [] t desc = Inr (t, desc)"
| "parse_body yaml re_ok (line # lines) t desc =
     (let s = directive_text line in
      if starts_with s ''schedule:''
      then parse_body yaml re_ok lines (t\<lparr>cr_schedule := strip_outer_quotes (directive_value ''schedule:'' s)\<rparr>) desc
      else if starts_with s ''type:'' then parse_body yaml re_ok lines (t\<lparr>cr_type := directive_value ''type:'' s\<rparr>) desc
      else if starts_with s ''command:''
      then parse_body yaml re_ok lines (t\<lparr>cr_command := Some (directive_value ''command:'' s)\<rparr>) desc
      else if starts_with s ''tool:'' then parse_body yaml re_ok lines (t\<lparr>cr_tool := Some (directive_value ''tool:'' s)\<rparr>) desc
      else if starts_with s ''skip_pattern:''
      then let val = strip_outer_quotes (directive_value ''skip_pattern:'' s)
           in parse_body yaml re_ok lines
                (if val \<noteq> [] \<and> re_ok val then t\<lparr>cr_skip_pattern := Some val\<rparr> else t) desc
      else if starts_with s ''trigger_heartbeat:''
      then parse_body yaml re_ok lines
             (t\<lparr>cr_trigger_heartbeat :=
                  str_lower (directive_value ''trigger_heartbeat:'' s) \<notin> {''false'', ''no'', ''0''}\<rparr>) desc
      else if starts_with s ''args:''
      then (case args_of_yaml (yaml (join_lines (line # takeWhile block_line lines))) (cr_args t) of
              Inl e \<Rightarrow> Inl e
            | Inr a \<Rightarrow> parse_body yaml re_ok (dropWhile block_line lines) (t\<lparr>cr_args := a\<rparr>) desc)
      else if starts_with s ''skills:''
      then parse_body yaml re_ok (dropWhile block_line lines)
             (t\<lparr>cr_skills := skills_of_yaml (yaml (join_lines (line # takeWhile block_line lines))) (cr_skills t)\<rparr>) desc
      else parse_body yaml re_ok lines t (desc @ [line]))"
  by pat_completeness auto
termination
  by (relation "measure (\<lambda>(yaml, re_ok, lines, t, desc). length lines)")
     (auto simp: less_Suc_eq_le intro: length_dropWhile_le)

definition blank_task :: "string \<Rightarrow> cron_task" where
  "blank_task name = \<lparr>cr_name = name, cr_schedule = [], cr_type = ''llm'', cr_description = [], cr_command = None,
     cr_tool = None, cr_args = JNull, cr_skills = [], cr_skip_pattern = None, cr_trigger_heartbeat = True\<rparr>"

definition parse_section ::
  "(string \<Rightarrow> json option) \<Rightarrow> (string \<Rightarrow> bool) \<Rightarrow> string \<Rightarrow> string list \<Rightarrow> py_error + cron_task" where
  "parse_section yaml re_ok name lines =
     (case parse_body yaml re_ok lines (blank_task name) [] of
        Inl e \<Rightarrow> Inl e
      | Inr (t, desc) \<Rightarrow> Inr (t\<lparr>cr_description := py_strip (join_lines desc)\<rparr>))"

text \<open>The loop over the lines; an empty title drops the lines behind it.\<close>

fun parse_lines ::
  "(string \<Rightarrow> json option) \<Rightarrow> (string \<Rightarrow> bool) \<Rightarrow> string list \<Rightarrow> string \<Rightarrow> string list \<Rightarrow> py_error + cron_task list" where
  "parse_lines yaml re_ok [] cur body =
     (if cur = [] then Inr []
      else case parse_section yaml re_ok cur body of Inl e \<Rightarrow> Inl e | Inr t \<Rightarrow> Inr [t])"
| "parse_lines yaml re_ok (line # lines) cur body =
     (if starts_with line ''## ''
      then if cur = [] then parse_lines yaml re_ok lines (py_strip (drop 3 line)) []
           else (case parse_section yaml re_ok cur body of
                   Inl e \<Rightarrow> Inl e
                 | Inr t \<Rightarrow> (case parse_lines yaml re_ok lines (py_strip (drop 3 line)) [] of
                                Inl e \<Rightarrow> Inl e | Inr ts \<Rightarrow> Inr (t # ts)))
      else parse_lines yaml re_ok lines cur (if cur = [] then body else body @ [line]))"

definition parse_cron_md ::
  "(string \<Rightarrow> json option) \<Rightarrow> (string \<Rightarrow> bool) \<Rightarrow> string \<Rightarrow> py_error + cron_task list" where
  "parse_cron_md yaml re_ok content = parse_lines yaml re_ok (splitlines (strip_html_comments content)) [] []"

section \<open>Days of the week\<close>

text \<open>\<^verbatim>\<open>int(s)\<close> on the characters that a cron expression may contain.\<close>

definition is_digit :: "char \<Rightarrow> bool" where
  "is_digit c = (48 \<le> (of_char c :: nat) \<and> of_char c \<le> (57 :: nat))"

definition digits_value :: "string \<Rightarrow> int" where
  "digits_value s = foldl (\<lambda>n c. n * 10 + (int (of_char c) - 48)) 0 s"

definition py_int :: "string \<Rightarrow> int option" where
  "py_int s =
     (case s of
        CHR ''-'' # cs \<Rightarrow> if cs \<noteq> [] \<and> list_all is_digit cs then Some (- digits_value cs) else None
      | _ \<Rightarrow> if s \<noteq> [] \<and> list_all is_digit s then Some (digits_value s) else None)"

text \<open>\<^verbatim>\<open>[(x - 1) % 7 for x in range(start, end + 1, step)]\<close>; a step of 0 raises, a negative one counts down.\<close>

definition posix_range_to_iso_values :: "int \<Rightarrow> int \<Rightarrow> int \<Rightarrow> int list option" where
  "posix_range_to_iso_values start stop step =
     (if step = 0 then None
      else let n = (if step > 0 then (stop - start) div step + 1 else (start - (stop + 2)) div (- step) + 1)
           in Some (map (\<lambda>k. (start + int k * step - 1) mod 7) [0 ..< nat n]))"

definition range_part :: "int \<Rightarrow> int \<Rightarrow> string" where
  "range_part a b = (if b = a then int_str a else int_str a @ ''-'' @ int_str b)"

fun group_parts :: "int \<Rightarrow> int \<Rightarrow> int list \<Rightarrow> string list" where
  "group_parts group_start prev [] = [range_part group_start prev]"
| "group_parts group_start prev (v # vs) =
     (if v = prev + 1 then group_parts group_start v vs else range_part group_start prev # group_parts v v vs)"

definition iso_values_to_parts :: "int list \<Rightarrow> string list" where
  "iso_values_to_parts vs = (case vs of [] \<Rightarrow> [] | v # vs' \<Rightarrow> group_parts v v vs')"

definition value_error :: "py_error + 'a" where
  "value_error = Inl (ValueError ''invalid literal for int()'')"

definition convert_part :: "string \<Rightarrow> py_error + string list" where
  "convert_part part =
     (if CHR ''/'' \<in> set part
      then (case split_once (CHR ''/'') part of (base, step) \<Rightarrow>
              if base = ''*'' then Inr [part]
              else if CHR ''-'' \<in> set base
              then (case split_once (CHR ''-'') base of (a, b) \<Rightarrow>
                      (case (py_int a, py_int b, py_int step) of
                         (Some x, Some y, Some k) \<Rightarrow>
                           (case posix_range_to_iso_values x y k of
                              None \<Rightarrow> value_error | Some vs \<Rightarrow> Inr (iso_values_to_parts vs))
                       | _ \<Rightarrow> value_error))
              else (case py_int base of
                      Some x \<Rightarrow> Inr [int_str ((x - 1) mod 7) @ ''/'' @ step]
                    | None \<Rightarrow> value_error))
      else if CHR ''-'' \<in> set part
      then (case split_once (CHR ''-'') part of (a, b) \<Rightarrow>
              (case (py_int a, py_int b) of
                 (Some x, Some y) \<Rightarrow>
                   (case posix_range_to_iso_values x y 1 of
                      None \<Rightarrow> value_error
                    | Some vs \<Rightarrow>
                        let s = (x - 1) mod 7; e = (y - 1) mod 7
                        in if s \<le> e then Inr [int_str s @ ''-'' @ int_str e] else Inr (iso_values_to_parts vs))
               | _ \<Rightarrow> value_error))
      else (case py_int part of Some x \<Rightarrow> Inr [int_str ((x - 1) mod 7)] | None \<Rightarrow> value_error))"

fun convert_parts :: "string list \<Rightarrow> py_error + string list" where
  "convert_parts [] = Inr []"
| "convert_parts (p # ps) =
     (case convert_part p of
        Inl e \<Rightarrow> Inl e
      | Inr qs \<Rightarrow> (case convert_parts ps of Inl e \<Rightarrow> Inl e | Inr rs \<Rightarrow> Inr (qs @ rs)))"

fun join_comma :: "string list \<Rightarrow> string" where
  "join_comma [] = []"
| "join_comma [p] = p"
| "join_comma (p # q # ps) = p @ '','' @ join_comma (q # ps)"

definition posix_dow_to_apsched :: "string \<Rightarrow> py_error + string" where
  "posix_dow_to_apsched dow =
     (if dow = ''*'' then Inr dow
      else case convert_parts (split_on (CHR '','') dow) of Inl e \<Rightarrow> Inl e | Inr ps \<Rightarrow> Inr (join_comma ps))"

section \<open>Schedules\<close>

record cron_fields =
  cf_minute :: string
  cf_hour :: string
  cf_day :: string
  cf_month :: string
  cf_day_of_week :: string

definition cron_char :: "char \<Rightarrow> bool" where
  "cron_char c = (is_digit c \<or> c \<in> {CHR ''*'', CHR ''/'', CHR ''-'', CHR '',''})"

text \<open>\<^verbatim>\<open>s.split()\<close>: the words between white space.\<close>

fun split_ws :: "string \<Rightarrow> string \<Rightarrow> string list" where
  "split_ws acc [] = (if acc = [] then [] else [rev acc])"
| "split_ws acc (c # cs) =
     (if is_space c then (if acc = [] then split_ws [] cs else rev acc # split_ws [] cs)
      else split_ws (c # acc) cs)"

text \<open>The regular expression: five words of cron characters (the text is stripped).\<close>

definition cron_expr :: "string \<Rightarrow> bool" where
  "cron_expr s = (length (split_ws [] s) = 5 \<and> list_all (list_all cron_char) (split_ws [] s))"

text \<open>\<open>accepts\<close> tells whether the constructor of \<^verbatim>\<open>CronTrigger\<close> takes the fields.\<close>

definition parse_schedule :: "(cron_fields \<Rightarrow> bool) \<Rightarrow> string \<Rightarrow> cron_fields option" where
  "parse_schedule accepts schedule =
     (let s = py_strip schedule in
      if s = [] then None
      else if \<not> cron_expr s then None
      else case split_ws [] s of
          [mi, h, d, mo, w] \<Rightarrow>
            (case posix_dow_to_apsched w of
               Inl _ \<Rightarrow> None
             | Inr w' \<Rightarrow>
                 let f = \<lparr>cf_minute = mi, cf_hour = h, cf_day = d, cf_month = mo, cf_day_of_week = w'\<rparr>
                 in if accepts f then Some f else None)
        | _ \<Rightarrow> None)"

section \<open>What the fields mean\<close>

text \<open>
  The days that a POSIX part denotes, in the scheduler's numbering (Monday is 0), for the parts made of the
  day numbers 0 to 7 (0 and 7 are Sunday): single days, ranges, and ranges with a step up to 3. The one
  range that is left out is \<^verbatim>\<open>0-7\<close>.
\<close>

definition iso_day :: "nat \<Rightarrow> int" where
  "iso_day x = (int x - 1) mod 7"

inductive posix_part :: "string \<Rightarrow> int set \<Rightarrow> bool" where
  single: "a < 8 \<Longrightarrow> posix_part (nat_str a) {iso_day a}"
| range: "a \<le> b \<Longrightarrow> b < 8 \<Longrightarrow> (a, b) \<noteq> (0, 7) \<Longrightarrow>
    posix_part (nat_str a @ ''-'' @ nat_str b) (iso_day ` {a .. b})"
| stepped: "a \<le> b \<Longrightarrow> b < 8 \<Longrightarrow> 0 < k \<Longrightarrow> k < 4 \<Longrightarrow>
    posix_part (nat_str a @ ''-'' @ nat_str b @ ''/'' @ nat_str k) (iso_day ` {x \<in> {a .. b}. (x - a) mod k = 0})"

text \<open>The days of a field in the scheduler's own syntax: days and ascending ranges, separated by commas.\<close>

definition aps_part_days :: "string \<Rightarrow> int list" where
  "aps_part_days p =
     (if CHR ''-'' \<in> set p
      then (case split_once (CHR ''-'') p of (a, b) \<Rightarrow>
              (case (py_int a, py_int b) of (Some x, Some y) \<Rightarrow> [x .. y] | _ \<Rightarrow> []))
      else (case py_int p of Some x \<Rightarrow> [x] | None \<Rightarrow> []))"

definition aps_days :: "string \<Rightarrow> int set" where
  "aps_days s = set (concat (map aps_part_days (split_on (CHR '','') s)))"

text \<open>Every such part is converted to parts that denote the same days; decided part by part.\<close>

definition converts_to :: "string \<Rightarrow> int list \<Rightarrow> bool" where
  "converts_to p days =
     (case convert_part p of
        Inl _ \<Rightarrow> False
      | Inr qs \<Rightarrow> qs \<noteq> [] \<and> list_all (\<lambda>q. CHR '','' \<notin> set q) qs \<and>
                  set (concat (map aps_part_days qs)) = set days)"

lemma table_single:
  "list_all (\<lambda>a. converts_to (nat_str a) [iso_day a]) [0 ..< 8]"
  by code_simp

lemma table_range:
  "list_all (\<lambda>a. list_all (\<lambda>b. (a, b) \<noteq> (0, 7) \<longrightarrow>
     converts_to (nat_str a @ ''-'' @ nat_str b) (map iso_day [a ..< Suc b])) [a ..< 8]) [0 ..< 8]"
  by code_simp

lemma table_step_low:
  "list_all (\<lambda>a. list_all (\<lambda>b. list_all (\<lambda>k.
     converts_to (nat_str a @ ''-'' @ nat_str b @ ''/'' @ nat_str k)
       (map iso_day (filter (\<lambda>x. (x - a) mod k = 0) [a ..< Suc b]))) [1 ..< 4]) [a ..< 8]) [0 ..< 3]"
  by code_simp

lemma table_step_high:
  "list_all (\<lambda>a. list_all (\<lambda>b. list_all (\<lambda>k.
     converts_to (nat_str a @ ''-'' @ nat_str b @ ''/'' @ nat_str k)
       (map iso_day (filter (\<lambda>x. (x - a) mod k = 0) [a ..< Suc b]))) [1 ..< 4]) [a ..< 8]) [3 ..< 8]"
  by code_simp

lemma posix_part_converts:
  assumes "posix_part p D"
  shows "\<exists>days. converts_to p days \<and> set days = D"
  using assms
proof cases
  case (single a)
  then have "converts_to p [iso_day a]" using table_single by (simp add: list_all_iff)
  with single show ?thesis by (intro exI [of _ "[iso_day a]"]) simp
next
  case (range a b)
  then have "converts_to p (map iso_day [a ..< Suc b])"
    using table_range [unfolded list_all_iff, THEN bspec [of _ _ a], THEN bspec [of _ _ b]] by (simp del: upt_Suc)
  with range show ?thesis by (intro exI [of _ "map iso_day [a ..< Suc b]"]) (simp add: atLeastLessThanSuc_atLeastAtMost del: upt_Suc)
next
  case (stepped a b k)
  then have "converts_to p (map iso_day (filter (\<lambda>x. (x - a) mod k = 0) [a ..< Suc b]))"
    using table_step_low [unfolded list_all_iff, THEN bspec [of _ _ a], THEN bspec [of _ _ b], THEN bspec [of _ _ k]]
      table_step_high [unfolded list_all_iff, THEN bspec [of _ _ a], THEN bspec [of _ _ b], THEN bspec [of _ _ k]]
    unfolding set_upt atLeastLessThan_iff by (cases "a < 3") (simp_all del: upt_Suc)
  with stepped show ?thesis
    by (intro exI [of _ "map iso_day (filter (\<lambda>x. (x - a) mod k = 0) [a ..< Suc b])"])
       (simp add: atLeastLessThanSuc_atLeastAtMost del: upt_Suc)
qed

lemma digits_no_comma: "CHR '','' \<notin> set (nat_str n)"
proof (induction n rule: nat_str.induct)
  case (1 n)
  have "char_of (48 + m) \<noteq> CHR '',''" if "m < 10" for m :: nat
  proof
    assume "char_of (48 + m) = CHR '',''"
    then have "of_char (char_of (48 + m) :: char) = (of_char (CHR '','') :: nat)" by simp
    then show False using that by (simp add: of_char_of take_bit_eq_mod)
  qed
  then have "CHR '','' \<noteq> char_of (48 + n mod 10)" "n < 10 \<Longrightarrow> CHR '','' \<noteq> char_of (48 + n)"
    using mod_less_divisor [of 10 n] by (metis zero_less_numeral)+
  then show ?case using 1 by (subst nat_str.simps) auto
qed

lemma posix_part_no_comma: "posix_part p D \<Longrightarrow> CHR '','' \<notin> set p"
  by (erule posix_part.cases) (auto simp: digits_no_comma)

lemma split_on_no_sep: "d \<notin> set s \<Longrightarrow> split_on d s = [s]"
  by (induction s) auto

lemma split_on_append: "d \<notin> set s \<Longrightarrow> split_on d (s @ d # t) = s # split_on d t"
proof (induction s)
  case Nil
  have "split_on d t \<noteq> []" by (induction t) (auto split: list.splits)
  then show ?case by (auto split: list.splits)
qed auto

lemma split_join_comma: "ps \<noteq> [] \<Longrightarrow> list_all (\<lambda>p. CHR '','' \<notin> set p) ps \<Longrightarrow> split_on (CHR '','') (join_comma ps) = ps"
  by (induction ps rule: join_comma.induct) (auto simp: split_on_no_sep split_on_append)

lemma convert_parts_exact:
  assumes "list_all2 posix_part ps Ds"
  shows "\<exists>qs. convert_parts ps = Inr qs \<and> (ps \<noteq> [] \<longrightarrow> qs \<noteq> []) \<and>
     list_all (\<lambda>q. CHR '','' \<notin> set q) qs \<and> set (concat (map aps_part_days qs)) = \<Union> (set Ds)"
  using assms
proof (induction ps Ds rule: list_all2_induct)
  case (Cons p ps D Ds)
  obtain qs where qs: "convert_part p = Inr qs" "qs \<noteq> []" "list_all (\<lambda>q. CHR '','' \<notin> set q) qs"
    "set (concat (map aps_part_days qs)) = D"
    using posix_part_converts [OF Cons.hyps(1)] by (cases "convert_part p") (auto simp: converts_to_def)
  from qs Cons.IH show ?case by auto
qed simp

section \<open>Properties\<close>

text \<open>
  Days of the week are converted exactly: a POSIX field that is a comma list of days, ranges and stepped ranges
  over the day numbers 0 to 7 (other than the range \<^verbatim>\<open>0-7\<close> without a step) becomes a field with which the scheduler
  fires on the same days.
\<close>

theorem dow_conversion_exact:
  assumes ne: "ps \<noteq> []" and parts: "list_all2 posix_part ps Ds"
  shows "\<exists>out. posix_dow_to_apsched (join_comma ps) = Inr out \<and> aps_days out = \<Union> (set Ds)"
proof -
  have nc: "list_all (\<lambda>p. CHR '','' \<notin> set p) ps"
    using parts by (induction rule: list_all2_induct) (auto dest: posix_part_no_comma)
  then have sp: "split_on (CHR '','') (join_comma ps) = ps" using ne by (intro split_join_comma)
  have star: "join_comma ps \<noteq> ''*''"
  proof
    assume "join_comma ps = ''*''"
    then have "ps = [''*'']" using sp by simp
    with parts obtain D where "posix_part ''*'' D" by (auto simp: list_all2_Cons1)
    then obtain days where "converts_to ''*'' days" using posix_part_converts by blast
    moreover have "convert_part ''*'' = value_error" by code_simp
    ultimately show False by (simp add: converts_to_def value_error_def)
  qed
  obtain qs where "convert_parts ps = Inr qs" "qs \<noteq> []" "list_all (\<lambda>q. CHR '','' \<notin> set q) qs"
    "set (concat (map aps_part_days qs)) = \<Union> (set Ds)"
    using convert_parts_exact [OF parts] ne by blast
  then show ?thesis using star sp by (simp add: posix_dow_to_apsched_def aps_days_def split_join_comma)
qed

theorem dow_conversion_exact_witness:
  "\<exists>out. posix_dow_to_apsched ''0-4,6'' = Inr out \<and> aps_days out = {6, 0, 1, 2, 3, 5}"
proof -
  have n: "nat_str 0 = ''0''" "nat_str 4 = ''4''" "nat_str 6 = ''6''" by code_simp+
  have d: "iso_day ` {0 .. 4} = {6, 0, 1, 2, 3}" "{iso_day 6} = {5}" by code_simp+
  have "posix_part ''0-4'' {6, 0, 1, 2, 3}" "posix_part ''6'' {5}"
    using posix_part.range [of 0 4] posix_part.single [of 6] unfolding n d by simp_all
  then have "list_all2 posix_part [''0-4'', ''6''] [{6, 0, 1, 2, 3}, {5}]" by simp
  from dow_conversion_exact [OF _ this] show ?thesis by (simp add: insert_commute)
qed

text \<open>
  The range over the whole week is lost: \<^verbatim>\<open>0-7\<close>, every day in POSIX numbering, becomes \<^verbatim>\<open>6-6\<close>, so the task runs on
  Sundays only; with the step \<^verbatim>\<open>/1\<close> the same range is converted to all seven days.
\<close>

theorem dow_whole_week_lost:
  "posix_dow_to_apsched ''0-7'' = Inr ''6-6'' \<and> aps_days ''6-6'' = {6} \<and>
   posix_dow_to_apsched ''0-7/1'' = Inr ''6,0-6'' \<and> aps_days ''6,0-6'' = {0, 1, 2, 3, 4, 5, 6}"
  by code_simp

definition section_titles :: "string list \<Rightarrow> string list" where
  "section_titles ls = [t \<leftarrow> map (\<lambda>l. py_strip (drop 3 l)) [l \<leftarrow> ls. starts_with l ''## '']. t \<noteq> []]"

lemma parse_body_name: "parse_body yaml re_ok ls t desc = Inr (t', desc') \<Longrightarrow> cr_name t' = cr_name t"
proof (induction yaml re_ok ls t desc rule: parse_body.induct)
  case (2 yaml re_ok line lines t desc)
  let ?s = "directive_text line"
  show ?case
  proof (cases "starts_with ?s ''args:''")
    case True
    with 2 show ?thesis by (auto simp: Let_def split: if_splits sum.splits)
  next
    case False
    with 2 show ?thesis by (auto simp: Let_def split: if_splits)
  qed
qed simp

lemma parse_section_name: "parse_section yaml re_ok name ls = Inr t \<Longrightarrow> cr_name t = name"
  by (auto simp: parse_section_def blank_task_def split: sum.splits dest!: parse_body_name)

lemma parse_lines_names:
  "parse_lines yaml re_ok ls cur body = Inr ts \<Longrightarrow>
   map cr_name ts = (if cur = [] then [] else [cur]) @ section_titles ls"
proof (induction yaml re_ok ls cur body arbitrary: ts rule: parse_lines.induct)
  case (1 yaml re_ok cur body)
  then show ?case by (auto simp: section_titles_def split: if_splits sum.splits dest: parse_section_name)
next
  case (2 yaml re_ok line lines cur body)
  show ?case
  proof (cases "starts_with line ''## ''")
    case True
    show ?thesis
    proof (cases "cur = []")
      case c: True
      with True 2(1) [OF True c] 2(4) show ?thesis by (simp add: section_titles_def)
    next
      case c: False
      with True 2(4) obtain t us where t: "parse_section yaml re_ok cur body = Inr t"
        "parse_lines yaml re_ok lines (py_strip (drop 3 line)) [] = Inr us" "ts = t # us"
        by (auto split: sum.splits)
      with 2(2) [OF True c t(1) t(2)] parse_section_name [OF t(1)] c True show ?thesis
        by (simp add: section_titles_def)
    qed
  next
    case False
    with 2 show ?thesis by (simp add: section_titles_def split: if_splits)
  qed
qed

text \<open>
  The tasks of a cron file: one task per section with a title, in the order of the file, named by the title
  without surrounding white space; the text between the sections never adds or drops a task.
\<close>

theorem cron_tasks_are_sections:
  assumes "parse_cron_md yaml re_ok content = Inr ts"
  shows "map cr_name ts = section_titles (splitlines (strip_html_comments content))"
  using parse_lines_names [of yaml re_ok _ "[]" "[]" ts] assms by (simp add: parse_cron_md_def)

definition demo_cron :: string where
  "demo_cron = ''## Morning'' @ [CHR 0x0A] @ ''schedule: 0 9 * * 1-5  # weekdays'' @ [CHR 0x0A] @ ''<!-- ## Old -->Plan the day''"

theorem cron_tasks_are_sections_witness:
  "map (map_sum id (map cr_name)) [parse_cron_md (\<lambda>_. None) (\<lambda>_. True) demo_cron] = [Inr [''Morning'']]"
proof -
  let ?t = "(blank_task ''Morning'')\<lparr>cr_schedule := ''0 9 * * 1-5'', cr_description := ''Plan the day''\<rparr>"
  have "parse_cron_md (\<lambda>_. None) (\<lambda>_. True) demo_cron = Inr [?t]" by code_simp
  moreover have "section_titles (splitlines (strip_html_comments demo_cron)) = [''Morning'']" by code_simp
  ultimately show ?thesis using cron_tasks_are_sections by fastforce
qed

text \<open>
  C0. A schedule that is accepted is a five-field expression: the first four fields reach the scheduler as they are
  and the fifth as the converted days of the week; anything else gives no trigger.
\<close>

theorem parse_schedule_fields:
  assumes "parse_schedule accepts sched = Some f"
  shows "\<exists>w. split_ws [] (py_strip sched) = [cf_minute f, cf_hour f, cf_day f, cf_month f, w] \<and>
             posix_dow_to_apsched w = Inr (cf_day_of_week f) \<and> accepts f \<and>
             list_all (list_all cron_char) [cf_minute f, cf_hour f, cf_day f, cf_month f, w]"
  using assms
  by (auto simp: parse_schedule_def cron_expr_def Let_def split: if_splits list.splits sum.splits)

theorem parse_schedule_fields_witness:
  "\<exists>w. posix_dow_to_apsched w = Inr ''0-4''"
proof -
  have "parse_schedule (\<lambda>_. True) '' 0 9 * * 1-5'' =
      Some \<lparr>cf_minute = ''0'', cf_hour = ''9'', cf_day = ''*'', cf_month = ''*'', cf_day_of_week = ''0-4''\<rparr>" by code_simp
  from parse_schedule_fields [OF this] show ?thesis by auto
qed

end
