(* ===== verification/Processing_Lease.thy ===== *)
theory Processing_Lease
  imports Anima_Prelude
begin

text \<open>
  The lease sidecars of claimed descriptors, \<^verbatim>\<open>core/platform/processing_lease.py\<close>: what is written beside a
  claimed descriptor, and how a later process decides from it whether the executor is still alive. The
  operating system is a record of three probes: the outcome of \<^verbatim>\<open>os.kill(pid, 0)\<close>, the creation time of a
  process and its command line (\<open>None\<close> where they cannot be read). The lease file is its decoded content,
  \<open>None\<close> when it is missing or not JSON.
\<close>

section \<open>Definitions\<close>

datatype probe = ProbeOk | NoProcess | NoPermission | BadPid | ProbeError

record proc_env =
  pe_kill :: "int \<Rightarrow> probe"
  pe_create_time :: "int \<Rightarrow> rat option"
  pe_cmdline :: "int \<Rightarrow> string option"

datatype liveness = Live | Dead | Unknown

text \<open>\<^verbatim>\<open>int(round(x * 100.0))\<close>, rounding halves to the even neighbour.\<close>

definition round_half_even :: "rat \<Rightarrow> int" where
  "round_half_even x =
     (let f = \<lfloor>x\<rfloor>; d = x - of_int f
      in if d < 1 / 2 then f else if d > 1 / 2 then f + 1 else if even f then f else f + 1)"

definition centisecond :: "rat \<Rightarrow> int" where
  "centisecond v = round_half_even (v * 100)"

text \<open>The identity of a task runner; all of it makes a lease of version 2.\<close>

record lease_v2_args =
  la_job_id :: "string option"
  la_task_pid :: "int option"
  la_pgid :: "int option"
  la_root_epoch :: "string option"
  la_attempt :: "int option"
  la_process_start_time :: "rat option"

definition write_processing_lease ::
  "proc_env \<Rightarrow> int \<Rightarrow> rat \<Rightarrow> string \<Rightarrow> string \<Rightarrow> int option \<Rightarrow> rat option \<Rightarrow> lease_v2_args \<Rightarrow> dict" where
  "write_processing_lease env self now anima task_id pid leased_at a =
     (let payload = [(''pid'', JInt (opt_or pid self)), (''anima'', JStr anima),
                     (''leased_at'', JFloat (opt_or leased_at now)), (''task_id'', JStr task_id)]
      in case (la_job_id a, la_task_pid a, la_pgid a, la_root_epoch a, la_attempt a) of
           (Some job, Some tp, Some pg, Some ep, Some n) \<Rightarrow>
             let start = (case la_process_start_time a of
                            Some t \<Rightarrow> t
                          | None \<Rightarrow> opt_or (pe_create_time env tp) now)
             in dict_merge payload
                  [(''schema_version'', JInt 2), (''job_id'', JStr job), (''task_pid'', JInt tp), (''pgid'', JInt pg),
                   (''root_epoch'', JStr ep), (''attempt'', JInt n), (''process_start_time'', JFloat start)]
         | _ \<Rightarrow> payload)"

definition read_processing_lease :: "json option \<Rightarrow> dict option" where
  "read_processing_lease file = (case file of Some (JObj d) \<Rightarrow> Some d | _ \<Rightarrow> None)"

definition positive_int :: "json option \<Rightarrow> int option" where
  "positive_int v = (case v of Some (JInt i) \<Rightarrow> if i > 0 then Some i else None | _ \<Rightarrow> None)"

definition finite_number :: "json option \<Rightarrow> rat option" where
  "finite_number v = (case v of Some (JInt i) \<Rightarrow> Some (of_int i) | Some (JFloat q) \<Rightarrow> Some q | _ \<Rightarrow> None)"

definition filled_str :: "json option \<Rightarrow> string option" where
  "filled_str v = (case v of Some (JStr s) \<Rightarrow> if s \<noteq> [] then Some s else None | _ \<Rightarrow> None)"

definition validate_common_fields :: "dict \<Rightarrow> string option \<Rightarrow> bool" where
  "validate_common_fields d expected =
     (positive_int (map_of d ''pid'') \<noteq> None \<and> filled_str (map_of d ''anima'') \<noteq> None \<and>
      finite_number (map_of d ''leased_at'') \<noteq> None \<and> filled_str (map_of d ''task_id'') \<noteq> None \<and>
      (case expected of None \<Rightarrow> True | Some a \<Rightarrow> filled_str (map_of d ''anima'') = Some a))"

definition pid_exists :: "proc_env \<Rightarrow> int \<Rightarrow> bool option" where
  "pid_exists env pid =
     (case pe_kill env pid of
        ProbeOk \<Rightarrow> Some True | NoProcess \<Rightarrow> Some False | NoPermission \<Rightarrow> Some True | BadPid \<Rightarrow> Some False
      | ProbeError \<Rightarrow> None)"

definition cmdline_matches_v1 :: "string \<Rightarrow> string \<Rightarrow> bool" where
  "cmdline_matches_v1 cmdline anima = (occurs_in ''core.supervisor.runner'' cmdline \<and> occurs_in anima cmdline)"

definition cmdline_matches_v2 :: "string \<Rightarrow> string \<Rightarrow> string \<Rightarrow> bool" where
  "cmdline_matches_v2 cmdline anima job =
     ((occurs_in ''core.supervisor.runner'' cmdline \<or> occurs_in ''core.supervisor.task_runner'' cmdline) \<and>
      occurs_in anima cmdline \<and> occurs_in job cmdline)"

definition classify_v1 :: "proc_env \<Rightarrow> int \<Rightarrow> string \<Rightarrow> liveness" where
  "classify_v1 env pid anima =
     (case pid_exists env pid of
        Some False \<Rightarrow> Dead
      | None \<Rightarrow> Unknown
      | Some True \<Rightarrow>
          (case pe_cmdline env pid of
             None \<Rightarrow> Unknown
           | Some c \<Rightarrow> if cmdline_matches_v1 c anima then Live else Dead))"

definition classify_v2 :: "proc_env \<Rightarrow> dict \<Rightarrow> string \<Rightarrow> liveness" where
  "classify_v2 env d anima =
     (case (positive_int (map_of d ''task_pid''), positive_int (map_of d ''pgid''), filled_str (map_of d ''root_epoch''),
            filled_str (map_of d ''job_id''), positive_int (map_of d ''attempt''), finite_number (map_of d ''process_start_time'')) of
        (Some tp, Some _, Some _, Some job, Some _, Some start) \<Rightarrow>
          (case pid_exists env tp of
             Some False \<Rightarrow> Dead
           | None \<Rightarrow> Unknown
           | Some True \<Rightarrow>
               if (case pe_create_time env tp of None \<Rightarrow> False | Some t \<Rightarrow> centisecond t \<noteq> centisecond start) then Dead
               else (case pe_cmdline env tp of
                   None \<Rightarrow> Unknown
                 | Some c \<Rightarrow> if cmdline_matches_v2 c anima job then Live else Dead))
      | _ \<Rightarrow> Dead)"

definition classify_processing_lease :: "proc_env \<Rightarrow> json option \<Rightarrow> string option \<Rightarrow> liveness" where
  "classify_processing_lease env file expected =
     (case file of
        Some (JObj d) \<Rightarrow>
          if \<not> validate_common_fields d expected then Dead
          else (case (positive_int (map_of d ''pid''), filled_str (map_of d ''anima'')) of
              (Some pid, Some anima) \<Rightarrow>
                (case map_of d ''schema_version'' of
                   None \<Rightarrow> classify_v1 env pid anima
                 | Some JNull \<Rightarrow> classify_v1 env pid anima
                 | Some v \<Rightarrow> if json_num v = Some 2 then classify_v2 env d anima
                             else if json_num v = Some 1 then classify_v1 env pid anima
                             else Dead)
            | _ \<Rightarrow> Dead)
      | _ \<Rightarrow> Dead)"

definition is_processing_lease_live :: "proc_env \<Rightarrow> json option \<Rightarrow> string option \<Rightarrow> bool" where
  "is_processing_lease_live env file expected = (classify_processing_lease env file expected \<in> {Live, Unknown})"

section \<open>Properties\<close>

definition v2_args :: "string \<Rightarrow> int \<Rightarrow> int \<Rightarrow> string \<Rightarrow> int \<Rightarrow> rat option \<Rightarrow> lease_v2_args" where
  "v2_args job tp pg ep n st = \<lparr>la_job_id = Some job, la_task_pid = Some tp, la_pgid = Some pg,
     la_root_epoch = Some ep, la_attempt = Some n, la_process_start_time = st\<rparr>"

lemma lease_fields:
  "write_processing_lease env self now anima tid pid at' (v2_args job tp pg ep n st) =
     [(''pid'', JInt (opt_or pid self)), (''anima'', JStr anima), (''leased_at'', JFloat (opt_or at' now)),
      (''task_id'', JStr tid), (''schema_version'', JInt 2), (''job_id'', JStr job), (''task_pid'', JInt tp),
      (''pgid'', JInt pg), (''root_epoch'', JStr ep), (''attempt'', JInt n),
      (''process_start_time'', JFloat (case st of Some t \<Rightarrow> t | None \<Rightarrow> opt_or (pe_create_time env tp) now))]"
  by (simp add: write_processing_lease_def v2_args_def Let_def)

text \<open>
  A runner lease identifies its process: a lease of version 2 that was written for a task runner is classified
  as live later exactly when the pid exists, its creation time (where it can be read) is the recorded one to the
  centisecond, and its command line names a runner, the anima and the job; the process being gone or the pid
  reused with another start time gives dead.
\<close>

theorem lease_identifies_process:
  assumes ok: "anima \<noteq> []" "tid \<noteq> []" "job \<noteq> []" "ep \<noteq> []" "0 < tp" "0 < pg" "1 \<le> n" "0 < opt_or pid self"
    and w: "d = write_processing_lease env0 self now anima tid pid at' (v2_args job tp pg ep n (Some st))"
  shows "(classify_processing_lease env (Some (JObj d)) (Some anima) = Live \<longleftrightarrow>
           pid_exists env tp = Some True \<and> (\<forall>t. pe_create_time env tp = Some t \<longrightarrow> centisecond t = centisecond st) \<and>
           (\<exists>c. pe_cmdline env tp = Some c \<and> cmdline_matches_v2 c anima job)) \<and>
         (pid_exists env tp = Some False \<or> (pid_exists env tp = Some True \<and>
            (\<exists>t. pe_create_time env tp = Some t \<and> centisecond t \<noteq> centisecond st)) \<longrightarrow>
            classify_processing_lease env (Some (JObj d)) (Some anima) = Dead)"
proof -
  have "classify_processing_lease env (Some (JObj d)) (Some anima) = classify_v2 env d anima"
    using ok by (simp add: w lease_fields classify_processing_lease_def validate_common_fields_def positive_int_def
        filled_str_def finite_number_def)
  moreover have "classify_v2 env d anima =
      (case pid_exists env tp of
         Some False \<Rightarrow> Dead
       | None \<Rightarrow> Unknown
       | Some True \<Rightarrow>
           if (case pe_create_time env tp of None \<Rightarrow> False | Some t \<Rightarrow> centisecond t \<noteq> centisecond st) then Dead
           else (case pe_cmdline env tp of
               None \<Rightarrow> Unknown | Some c \<Rightarrow> if cmdline_matches_v2 c anima job then Live else Dead))"
    using ok by (simp add: w lease_fields classify_v2_def positive_int_def filled_str_def finite_number_def)
  ultimately show ?thesis by (auto split: option.splits bool.splits)
qed

definition demo_env :: proc_env where
  "demo_env = \<lparr>pe_kill = (\<lambda>p. if p = 42 then ProbeOk else NoProcess), pe_create_time = (\<lambda>p. Some 100),
     pe_cmdline = (\<lambda>p. Some ''python -m core.supervisor.task_runner rin job7'')\<rparr>"

theorem lease_identifies_process_witness:
  "classify_processing_lease demo_env
     (Some (JObj (write_processing_lease demo_env 7 50 ''rin'' ''t1'' None None (v2_args ''job7'' 42 42 ''e1'' 1 (Some 100)))))
     (Some ''rin'') = Live"
proof -
  have "cmdline_matches_v2 ''python -m core.supervisor.task_runner rin job7'' ''rin'' ''job7''" by code_simp
  then show ?thesis
    using lease_identifies_process [of "''rin''" "''t1''" "''job7''" "''e1''" 42 42 1 None 7
        "write_processing_lease demo_env 7 50 ''rin'' ''t1'' None None (v2_args ''job7'' 42 42 ''e1'' 1 (Some 100))" demo_env 50 None 100 demo_env]
    by (simp add: demo_env_def pid_exists_def)
qed

text \<open>
  Recovery is conservative: a lease counts as not live only when it is missing, malformed or for another anima,
  when the recorded process is known to be gone, or when the process found there is known to be another one;
  where the system cannot tell, the lease counts as live.
\<close>

theorem lease_dead_needs_evidence:
  assumes "\<not> is_processing_lease_live env (Some (JObj d)) expected" and "validate_common_fields d expected"
    and "map_of d ''schema_version'' = None" and "positive_int (map_of d ''pid'') = Some pid"
    and "filled_str (map_of d ''anima'') = Some anima"
  shows "pid_exists env pid = Some False \<or> (\<exists>c. pe_cmdline env pid = Some c \<and> \<not> cmdline_matches_v1 c anima)"
  using assms
  by (auto simp: is_processing_lease_live_def classify_processing_lease_def classify_v1_def
      split: option.splits bool.splits if_splits)

theorem lease_dead_needs_evidence_witness:
  "pid_exists demo_env 9 = Some False"
proof -
  let ?d = "[(''pid'', JInt 9), (''anima'', JStr ''rin''), (''leased_at'', JFloat 1), (''task_id'', JStr ''t'')]"
  have "\<not> is_processing_lease_live demo_env (Some (JObj ?d)) None" by code_simp
  moreover have "validate_common_fields ?d None" by code_simp
  ultimately show ?thesis
    using lease_dead_needs_evidence [of demo_env ?d None 9 "''rin''"]
    by (simp add: positive_int_def filled_str_def) (simp add: pid_exists_def demo_env_def)
qed

end
