(* ===== verification/Json_Text.thy ===== *)
theory Json_Text
  imports Anima_Prelude "HOL-Library.Sublist"
begin

text \<open>
  Text as the journal files hold it: UTF-8 with Python's decoder for damaged bytes (\<^verbatim>\<open>errors="replace"\<close>),
  \<^verbatim>\<open>str.splitlines\<close> and \<^verbatim>\<open>str.strip\<close> with the separators outside ASCII, \<^verbatim>\<open>json.dumps\<close> for objects of strings
  (\<^verbatim>\<open>ensure_ascii=False\<close>, compact separators) and \<^verbatim>\<open>json.loads\<close>. Numbers are exact; Python's limits on
  recursion and on the digits of an integer are left out. The facts the journal relies on are at the end:
  the round trip, and that no proper prefix of an object is an object.
\<close>

section \<open>UTF-8\<close>

definition cont_byte :: "char \<Rightarrow> bool" where
  "cont_byte c = (128 \<le> (of_char c :: nat) \<and> of_char c < (192 :: nat))"

text \<open>\<^verbatim>\<open>len(s)\<close> and \<^verbatim>\<open>s[:n]\<close> count code points.\<close>

definition u_length :: "string \<Rightarrow> nat" where
  "u_length s = length (filter (\<lambda>c. \<not> cont_byte c) s)"

fun u_take :: "nat \<Rightarrow> string \<Rightarrow> string" where
  "u_take 0 s = []"
| "u_take (Suc n) [] = []"
| "u_take (Suc n) (c # cs) = c # takeWhile cont_byte cs @ u_take n (dropWhile cont_byte cs)"

text \<open>The ranges of the bytes that may follow a first byte; \<open>None\<close> for a byte that starts nothing.\<close>

definition follow :: "nat \<Rightarrow> (nat \<times> nat) list option" where
  "follow b =
     (if b < 0x80 then Some []
      else if 0xC2 \<le> b \<and> b \<le> 0xDF then Some [(0x80, 0xBF)]
      else if b = 0xE0 then Some [(0xA0, 0xBF), (0x80, 0xBF)]
      else if b = 0xED then Some [(0x80, 0x9F), (0x80, 0xBF)]
      else if 0xE1 \<le> b \<and> b \<le> 0xEF then Some [(0x80, 0xBF), (0x80, 0xBF)]
      else if b = 0xF0 then Some [(0x90, 0xBF), (0x80, 0xBF), (0x80, 0xBF)]
      else if 0xF1 \<le> b \<and> b \<le> 0xF3 then Some [(0x80, 0xBF), (0x80, 0xBF), (0x80, 0xBF)]
      else if b = 0xF4 then Some [(0x80, 0x8F), (0x80, 0xBF), (0x80, 0xBF)]
      else None)"

fun matching :: "(nat \<times> nat) list \<Rightarrow> string \<Rightarrow> nat" where
  "matching ((l, h) # rs) (c # cs) = (if l \<le> of_char c \<and> of_char c \<le> h then Suc (matching rs cs) else 0)"
| "matching _ _ = 0"

definition replacement :: string where
  "replacement = [CHR 0xEF, CHR 0xBF, CHR 0xBD]"

text \<open>\<^verbatim>\<open>bytes.decode("utf-8", errors="replace")\<close>: a maximal damaged piece becomes one replacement character.\<close>

function decode_replace :: "string \<Rightarrow> string" where
  "decode_replace [] = []"
| "decode_replace (c # cs) =
     (case follow (of_char c) of
        None \<Rightarrow> replacement @ decode_replace cs
      | Some rs \<Rightarrow>
          (if matching rs cs = length rs then c # take (matching rs cs) cs else replacement) @
          decode_replace (drop (matching rs cs) cs))"
  by pat_completeness auto

termination
  by (relation "measure length") auto

function utf8 :: "string \<Rightarrow> bool" where
  "utf8 [] = True"
| "utf8 (c # cs) =
     (case follow (of_char c) of
        None \<Rightarrow> False
      | Some rs \<Rightarrow> matching rs cs = length rs \<and> utf8 (drop (length rs) cs))"
  by pat_completeness auto

termination
  by (relation "measure length") auto

section \<open>Lines and white space\<close>

text \<open>The length of the line break at the head of a text, 0 if there is none.\<close>

definition break_at :: "string \<Rightarrow> nat" where
  "break_at s =
     (if starts_with s [CHR 0x0D, CHR 0x0A] then 2
      else if s \<noteq> [] \<and> of_char (hd s) \<in> {10, 11, 12, 13, 28, 29, 30 :: nat} then 1
      else if starts_with s [CHR 0xC2, CHR 0x85] then 2
      else if starts_with s [CHR 0xE2, CHR 0x80, CHR 0xA8] \<or> starts_with s [CHR 0xE2, CHR 0x80, CHR 0xA9] then 3
      else 0)"

function u_lines :: "string \<Rightarrow> string \<Rightarrow> string list" where
  "u_lines acc [] = (if acc = [] then [] else [rev acc])"
| "u_lines acc (c # cs) =
     (if break_at (c # cs) = 0 then u_lines (c # acc) cs
      else rev acc # u_lines [] (drop (break_at (c # cs) - 1) cs))"
  by pat_completeness auto

termination
  by (relation "measure (length \<circ> snd)") auto

definition u_splitlines :: "string \<Rightarrow> string list" where
  "u_splitlines s = u_lines [] s"

definition wide_spaces :: "string list" where
  "wide_spaces =
     [[CHR 0xC2, CHR 0x85], [CHR 0xC2, CHR 0xA0], [CHR 0xE1, CHR 0x9A, CHR 0x80]] @
     map (\<lambda>n. [CHR 0xE2, CHR 0x80, char_of n]) ([0x80..<0x8B] @ [0xA8, 0xA9, 0xAF]) @
     [[CHR 0xE2, CHR 0x81, CHR 0x9F], [CHR 0xE3, CHR 0x80, CHR 0x80]]"

definition space_at :: "(string \<Rightarrow> string) \<Rightarrow> string \<Rightarrow> nat" where
  "space_at dir s =
     (if s = [] then 0
      else if is_space (hd s) then 1
      else case find (\<lambda>w. starts_with s (dir w)) wide_spaces of None \<Rightarrow> 0 | Some w \<Rightarrow> length w)"

function skip_spaces :: "(string \<Rightarrow> string) \<Rightarrow> string \<Rightarrow> string" where
  "skip_spaces dir s = (if space_at dir s = 0 then s else skip_spaces dir (drop (space_at dir s) s))"
  by pat_completeness auto

termination
  by (relation "measure (length \<circ> snd)") (auto simp: space_at_def)

declare skip_spaces.simps [simp del]

text \<open>\<^verbatim>\<open>str.strip\<close>: the second pass reads the text, and the separators, backwards.\<close>

definition u_strip :: "string \<Rightarrow> string" where
  "u_strip s = rev (skip_spaces rev (rev (skip_spaces id s)))"

section \<open>Writing JSON\<close>

definition hex_digit :: "nat \<Rightarrow> char" where
  "hex_digit n = char_of (if n < 10 then 48 + n else 87 + n)"

definition escape_char :: "char \<Rightarrow> string" where
  "escape_char c =
     (if c = CHR 0x22 then [CHR 0x5C, CHR 0x22]
      else if c = CHR 0x5C then [CHR 0x5C, CHR 0x5C]
      else if c = CHR 0x0A then [CHR 0x5C, CHR ''n'']
      else if c = CHR 0x0D then [CHR 0x5C, CHR ''r'']
      else if c = CHR 0x09 then [CHR 0x5C, CHR ''t'']
      else if c = CHR 0x0C then [CHR 0x5C, CHR ''f'']
      else if c = CHR 0x08 then [CHR 0x5C, CHR ''b'']
      else if (of_char c :: nat) < 32
      then [CHR 0x5C, CHR ''u'', CHR ''0'', CHR ''0'', hex_digit (of_char c div 16), hex_digit (of_char c mod 16)]
      else [c])"

definition escape :: "string \<Rightarrow> string" where
  "escape s = concat (map escape_char s)"

definition dump_str :: "string \<Rightarrow> string" where
  "dump_str s = CHR 0x22 # escape s @ [CHR 0x22]"

fun dump_members :: "(string \<times> string) list \<Rightarrow> string" where
  "dump_members [] = []"
| "dump_members [(k, v)] = dump_str k @ CHR '':'' # dump_str v"
| "dump_members ((k, v) # m # ms) = dump_str k @ CHR '':'' # dump_str v @ CHR '','' # dump_members (m # ms)"

definition dumps :: "(string \<times> string) list \<Rightarrow> string" where
  "dumps d = CHR ''{'' # dump_members d @ ''}''"

section \<open>Reading JSON\<close>

definition json_space :: "char \<Rightarrow> bool" where
  "json_space c = (c \<in> {CHR '' '', CHR 0x09, CHR 0x0A, CHR 0x0D})"

definition skip_ws :: "string \<Rightarrow> string" where
  "skip_ws s = dropWhile json_space s"

definition json_digit :: "char \<Rightarrow> bool" where
  "json_digit c = (48 \<le> (of_char c :: nat) \<and> of_char c \<le> (57 :: nat))"

definition hex_value :: "char \<Rightarrow> nat option" where
  "hex_value c =
     (let n = of_char c :: nat in
      if json_digit c then Some (n - 48)
      else if 65 \<le> n \<and> n \<le> 70 then Some (n - 55)
      else if 97 \<le> n \<and> n \<le> 102 then Some (n - 87)
      else None)"

fun hex4 :: "string \<Rightarrow> nat option" where
  "hex4 (a # b # c # d # _) =
     (case (hex_value a, hex_value b, hex_value c, hex_value d) of
        (Some i, Some j, Some k, Some l) \<Rightarrow> Some (((i * 16 + j) * 16 + k) * 16 + l)
      | _ \<Rightarrow> None)"
| "hex4 _ = None"

text \<open>The UTF-8 bytes of a code point (also of a lone surrogate, which Python keeps).\<close>

definition encode_point :: "nat \<Rightarrow> string" where
  "encode_point n =
     (if n < 0x80 then [char_of n]
      else if n < 0x800 then [char_of (0xC0 + n div 64), char_of (0x80 + n mod 64)]
      else if n < 0x10000
      then [char_of (0xE0 + n div 4096), char_of (0x80 + n div 64 mod 64), char_of (0x80 + n mod 64)]
      else [char_of (0xF0 + n div 262144), char_of (0x80 + n div 4096 mod 64),
            char_of (0x80 + n div 64 mod 64), char_of (0x80 + n mod 64)])"

definition unescape_char :: "char \<Rightarrow> char option" where
  "unescape_char c =
     (if c \<in> {CHR 0x22, CHR 0x5C, CHR ''/''} then Some c
      else map_of [(CHR ''b'', CHR 0x08), (CHR ''f'', CHR 0x0C), (CHR ''n'', CHR 0x0A),
                   (CHR ''r'', CHR 0x0D), (CHR ''t'', CHR 0x09)] c)"

text \<open>The low half of a surrogate pair, written \<^verbatim>\<open>\uXXXX\<close> behind the high half.\<close>

fun low_surrogate :: "string \<Rightarrow> nat option" where
  "low_surrogate (a # b # r) =
     (if a = CHR 0x5C \<and> b = CHR ''u''
      then (case hex4 r of None \<Rightarrow> None | Some l \<Rightarrow> if 0xDC00 \<le> l \<and> l \<le> 0xDFFF then Some l else None)
      else None)"
| "low_surrogate _ = None"

text \<open>The rest of a string behind its opening quote: the value, and the text behind the closing quote.\<close>

function scan_str :: "string \<Rightarrow> (string \<times> string) option" where
  "scan_str [] = None"
| "scan_str (c # cs) =
     (if c = CHR 0x22 then Some ([], cs)
      else if c = CHR 0x5C then
        (case cs of
           [] \<Rightarrow> None
         | e # es \<Rightarrow>
             if e = CHR ''u'' then
               (case hex4 es of
                  None \<Rightarrow> None
                | Some u \<Rightarrow>
                    if 0xD800 \<le> u \<and> u \<le> 0xDBFF \<and> low_surrogate (drop 4 es) \<noteq> None
                    then map_option (map_prod (append (encode_point
                           (0x10000 + (u - 0xD800) * 1024 + (the (low_surrogate (drop 4 es)) - 0xDC00)))) id)
                         (scan_str (drop 10 es))
                    else map_option (map_prod (append (encode_point u)) id) (scan_str (drop 4 es)))
             else (case unescape_char e of
                     None \<Rightarrow> None
                   | Some d \<Rightarrow> map_option (map_prod (Cons d) id) (scan_str es)))
      else if (of_char c :: nat) < 32 then None
      else map_option (map_prod (Cons c) id) (scan_str cs))"
  by pat_completeness auto

termination
  by (relation "measure length") auto

text \<open>Numbers: an optional sign, the integer part, and an optional fraction and exponent.\<close>

definition json_digits_value :: "string \<Rightarrow> int" where
  "json_digits_value ds = foldl (\<lambda>n d. n * 10 + (int (of_char d) - 48)) 0 ds"

definition scan_frac :: "string \<Rightarrow> string \<times> string" where
  "scan_frac s =
     (case s of
        [] \<Rightarrow> ([], s)
      | c # cs \<Rightarrow> if c = CHR ''.'' \<and> takeWhile json_digit cs \<noteq> []
                then (takeWhile json_digit cs, dropWhile json_digit cs) else ([], s))"

definition scan_exp :: "string \<Rightarrow> int option \<times> string" where
  "scan_exp s =
     (case s of
        [] \<Rightarrow> (None, s)
      | c # cs \<Rightarrow>
          (let neg = starts_with cs ''-''; ds = (if neg \<or> starts_with cs ''+'' then drop 1 cs else cs)
           in if c \<in> {CHR ''e'', CHR ''E''} \<and> takeWhile json_digit ds \<noteq> []
              then (Some ((if neg then - 1 else 1) * json_digits_value (takeWhile json_digit ds)), dropWhile json_digit ds)
              else (None, s)))"

definition scan_int :: "string \<Rightarrow> (string \<times> string) option" where
  "scan_int s =
     (case s of
        [] \<Rightarrow> None
      | c # cs \<Rightarrow> if c = CHR ''0'' then Some ([c], cs)
                else if json_digit c then Some (takeWhile json_digit s, dropWhile json_digit s) else None)"

definition make_number :: "bool \<Rightarrow> string \<Rightarrow> string \<Rightarrow> int option \<Rightarrow> json" where
  "make_number neg int_part fr e =
     (let sgn = (if neg then - 1 else 1)
      in if fr = [] \<and> e = None then JInt (sgn * json_digits_value int_part)
         else JFloat (of_int sgn * (of_int (json_digits_value int_part) + of_int (json_digits_value fr) / 10 ^ length fr) *
                (let x = opt_or e 0 in if x < 0 then 1 / 10 ^ nat (- x) else 10 ^ nat x)))"

definition scan_number :: "string \<Rightarrow> (json \<times> string) option" where
  "scan_number s =
     (let neg = starts_with s ''-''
      in case scan_int (if neg then drop 1 s else s) of
           None \<Rightarrow> None
         | Some (i, r) \<Rightarrow>
             (case scan_frac r of (f, r1) \<Rightarrow> case scan_exp r1 of (e, r2) \<Rightarrow> Some (make_number neg i f e, r2)))"

definition literals :: "(string \<times> json) list" where
  "literals = [(''null'', JNull), (''true'', JBool True), (''false'', JBool False),
     (''NaN'', JNonFinite), (''Infinity'', JNonFinite), (''-Infinity'', JNonFinite)]"

text \<open>Values, the elements of an array and the members of an object; the first argument bounds the nesting.\<close>

fun scan_value :: "nat \<Rightarrow> string \<Rightarrow> (json \<times> string) option"
  and scan_elems :: "nat \<Rightarrow> json list \<Rightarrow> string \<Rightarrow> (json \<times> string) option"
  and scan_members :: "nat \<Rightarrow> dict \<Rightarrow> string \<Rightarrow> (json \<times> string) option" where
  "scan_value 0 s = None"
| "scan_value (Suc n) s =
     (case s of
        [] \<Rightarrow> None
      | c # cs \<Rightarrow>
          if c = CHR 0x22 then map_option (map_prod JStr id) (scan_str cs)
          else if c = CHR ''{'' then
            (if starts_with (skip_ws cs) ''}'' then Some (JObj [], drop 1 (skip_ws cs)) else scan_members n [] (skip_ws cs))
          else if c = CHR ''['' then
            (if starts_with (skip_ws cs) '']'' then Some (JArr [], drop 1 (skip_ws cs)) else scan_elems n [] (skip_ws cs))
          else (case find (\<lambda>(w, v). starts_with s w) literals of
                  Some (w, v) \<Rightarrow> Some (v, drop (length w) s)
                | None \<Rightarrow> scan_number s))"
| "scan_elems 0 acc s = None"
| "scan_elems (Suc n) acc s =
     (case scan_value n s of
        None \<Rightarrow> None
      | Some (v, r) \<Rightarrow>
          if starts_with (skip_ws r) '']'' then Some (JArr (rev (v # acc)), drop 1 (skip_ws r))
          else if starts_with (skip_ws r) '','' then scan_elems n (v # acc) (skip_ws (drop 1 (skip_ws r)))
          else None)"
| "scan_members 0 acc s = None"
| "scan_members (Suc n) acc s =
     (if \<not> starts_with s [CHR 0x22] then None
      else case scan_str (drop 1 s) of
        None \<Rightarrow> None
      | Some (k, r) \<Rightarrow>
          if \<not> starts_with (skip_ws r) '':'' then None
          else case scan_value n (skip_ws (drop 1 (skip_ws r))) of
            None \<Rightarrow> None
          | Some (v, r1) \<Rightarrow>
              if starts_with (skip_ws r1) ''}''
              then Some (JObj (dict_merge [] (rev ((k, v) # acc))), drop 1 (skip_ws r1))
              else if starts_with (skip_ws r1) '','' then scan_members n ((k, v) # acc) (skip_ws (drop 1 (skip_ws r1)))
              else None)"

text \<open>\<^verbatim>\<open>json.loads(s)\<close>; \<open>None\<close> is \<^verbatim>\<open>JSONDecodeError\<close>.\<close>

definition loads :: "string \<Rightarrow> json option" where
  "loads s =
     (case scan_value (Suc (length s)) (skip_ws s) of
        None \<Rightarrow> None
      | Some (v, r) \<Rightarrow> if skip_ws r = [] then Some v else None)"

section \<open>Facts on damaged text\<close>

lemma starts_with_prefix: "starts_with s p \<longleftrightarrow> prefix p s"
  by (auto simp: starts_with_def prefix_def) (metis append_take_drop_id)

lemma starts_with_mono: "starts_with s w \<Longrightarrow> starts_with (s @ t) w"
  by (auto simp: starts_with_prefix prefix_def)

lemma matching_append: "matching rs s = length rs \<Longrightarrow> matching rs (s @ t) = length rs"
  by (induction rs s rule: matching.induct) (auto split: if_splits)

lemma matching_take: "matching rs s = length rs \<Longrightarrow> matching rs (take (length rs) s @ t) = length rs"
  by (induction rs s rule: matching.induct) (auto split: if_splits)

lemma matching_le_length: "matching rs s \<le> length s"
  by (induction rs s rule: matching.induct) auto

lemma matching_short:
  "matching rs s = length rs \<Longrightarrow> prefix p s \<Longrightarrow> length p < length rs \<Longrightarrow> matching rs p = length p"
proof (induction rs s arbitrary: p rule: matching.induct)
  case (1 l h rs c cs)
  then show ?case by (cases p) (auto split: if_splits)
qed auto

lemma decode_replace_append: "utf8 s \<Longrightarrow> decode_replace (s @ t) = s @ decode_replace t"
proof (induction s rule: utf8.induct)
  case (2 c cs)
  then obtain rs where rs: "follow (of_char c) = Some rs" and m: "matching rs cs = length rs"
    and ok: "utf8 (drop (length rs) cs)"
    by (auto split: option.splits)
  have le: "length rs \<le> length cs" using matching_le_length [of rs cs] m by simp
  show ?case
    using 2 rs m ok le by (simp add: matching_append)
qed simp

lemma decode_replace_id: "utf8 s \<Longrightarrow> decode_replace s = s"
  using decode_replace_append [of s "[]"] by simp

lemma utf8_append: "utf8 s \<Longrightarrow> utf8 t \<Longrightarrow> utf8 (s @ t)"
proof (induction s rule: utf8.induct)
  case (2 c cs)
  then obtain rs where rs: "follow (of_char c) = Some rs" and m: "matching rs cs = length rs"
    and ok: "utf8 (drop (length rs) cs)"
    by (auto split: option.splits)
  have le: "length rs \<le> length cs" using matching_le_length [of rs cs] m by simp
  show ?case
    using 2 rs m ok le by (simp add: matching_append)
qed simp

text \<open>A text cut at any byte reads as a prefix of it, perhaps with one replacement character at the end.\<close>

lemma decode_replace_cut:
  "utf8 s \<Longrightarrow> prefix p s \<Longrightarrow> decode_replace p = p \<or> (\<exists>q. prefix q p \<and> decode_replace p = q @ replacement)"
proof (induction s arbitrary: p rule: utf8.induct)
  case (2 c cs)
  then obtain rs where rs: "follow (of_char c) = Some rs" and m: "matching rs cs = length rs"
    and ok: "utf8 (drop (length rs) cs)"
    by (auto split: option.splits)
  show ?case
  proof (cases p)
    case (Cons c' p')
    with \<open>prefix p (c # cs)\<close> have c': "c' = c" and p': "prefix p' cs" by auto
    show ?thesis
    proof (cases "length p' < length rs")
      case True
      with matching_short [OF m p'] have "decode_replace p = replacement" using Cons c' rs by simp
      then show ?thesis by (metis append_Nil Nil_prefix)
    next
      case False
      have tk: "take (length rs) p' = take (length rs) cs"
        using p' False by (auto simp: prefix_def)
      have mp: "matching rs p' = length rs"
        using matching_take [OF m, of "drop (length rs) p'"] by (simp add: tk [symmetric])
      have "prefix (drop (length rs) p') (drop (length rs) cs)"
        using p' False by (auto simp: prefix_def)
      then consider "decode_replace (drop (length rs) p') = drop (length rs) p'"
        | q where "prefix q (drop (length rs) p')" "decode_replace (drop (length rs) p') = q @ replacement"
        using "2.IH" [OF rs ok] by blast
      then show ?thesis
      proof cases
        case 1
        with mp show ?thesis using Cons c' rs by simp
      next
        case (2 q)
        have "prefix (c # take (length rs) p' @ q) p"
          using 2(1) Cons c' by (metis append_take_drop_id prefix_append prefix_order.order_refl Cons_prefix_Cons same_prefix_prefix)
        with 2(2) mp show ?thesis using Cons c' rs by (intro disjI2 exI [of _ "c # take (length rs) p' @ q"]) simp
      qed
    qed
  qed simp
qed simp

text \<open>A text without line breaks.\<close>

fun unbroken :: "string \<Rightarrow> bool" where
  "unbroken [] = True"
| "unbroken (c # cs) = (break_at (c # cs) = 0 \<and> unbroken cs)"

lemma break_at_prefix: "break_at (s @ t) = 0 \<Longrightarrow> break_at s = 0"
  by (auto simp: break_at_def hd_append dest: starts_with_mono split: if_splits)

lemma unbroken_prefix: "unbroken (s @ t) \<Longrightarrow> unbroken s"
  by (induction s) (auto dest: break_at_prefix [of "_ # _", simplified])

lemma u_lines_unbroken: "unbroken s \<Longrightarrow> u_lines acc s = (if acc = [] \<and> s = [] then [] else [rev acc @ s])"
  by (induction s arbitrary: acc) auto

text \<open>No break begins with the end of a text and goes on in the next one, when that begins in ASCII.\<close>

lemma starts_with_ascii:
  assumes "starts_with (s @ d # t) w" "s \<noteq> []" "(of_char d :: nat) < 128" "\<forall>x \<in> set (tl w). 128 \<le> (of_char x :: nat)"
  shows "starts_with s w"
proof (rule ccontr)
  assume "\<not> starts_with s w"
  with assms(1) obtain us where "w = s @ us" "us \<noteq> []" "prefix us (d # t)"
    by (auto simp: starts_with_prefix prefix_append)
  then have "d \<in> set (tl w)" using assms(2) by (cases us; cases s) auto
  with assms(3,4) show False by auto
qed

lemma break_at_ascii:
  assumes "s \<noteq> []" "break_at s = 0" "(of_char d :: nat) < 128"
  shows "break_at (s @ d # t) = 0"
proof -
  have hd: "of_char (hd s) \<notin> {10, 11, 12, 13, 28, 29, 30 :: nat}"
    using assms(1,2) by (auto simp: break_at_def split: if_splits)
  moreover have "\<not> starts_with (s @ d # t) [CHR 0x0D, CHR 0x0A]"
    using hd assms(1) by (cases s) (auto simp: starts_with_def)
  ultimately show ?thesis
    using assms starts_with_ascii [of s d t "[CHR 0xC2, CHR 0x85]"] starts_with_ascii [of s d t "[CHR 0xE2, CHR 0x80, CHR 0xA8]"]
      starts_with_ascii [of s d t "[CHR 0xE2, CHR 0x80, CHR 0xA9]"]
    by (auto simp: break_at_def split: if_splits)
qed

lemma u_lines_line:
  "unbroken s \<Longrightarrow> u_lines acc (s @ CHR 0x0A # t) = (rev acc @ s) # u_lines [] t"
proof (induction s arbitrary: acc)
  case Nil
  then show ?case by (simp add: break_at_def starts_with_def)
next
  case (Cons c cs)
  then show ?case using break_at_ascii [of "c # cs" "CHR 0x0A" t] by simp
qed

section \<open>An object is never a proper prefix of an object\<close>

lemma skip_ws_append: "skip_ws s \<noteq> [] \<Longrightarrow> skip_ws (s @ t) = skip_ws s @ t"
  by (auto simp: skip_ws_def dropWhile_append)

lemma suffix_skip_ws: "suffix (skip_ws s) s"
  by (simp add: skip_ws_def suffix_dropWhile)

lemma starts_with_simps:
  "starts_with s []" "\<not> starts_with [] (a # w)" "starts_with (c # cs) (a # w) \<longleftrightarrow> c = a \<and> starts_with cs w"
  by (auto simp: starts_with_def)

lemma starts_with_Cons: "starts_with s [c] \<longleftrightarrow> (\<exists>r. s = c # r)"
  by (auto simp: starts_with_prefix prefix_def)

lemma hex4_append: "4 \<le> length s \<Longrightarrow> hex4 (s @ t) = hex4 s"
  by (induction s rule: hex4.induct) auto

lemma hex4_length: "hex4 s = Some u \<Longrightarrow> 4 \<le> length s"
  by (induction s rule: hex4.induct) auto

lemma low_surrogate_append: "6 \<le> length s \<Longrightarrow> low_surrogate (s @ t) = low_surrogate s"
  by (induction s rule: low_surrogate.induct) (auto simp: hex4_append)

lemma low_surrogate_length: "low_surrogate s = Some u \<Longrightarrow> 6 \<le> length s"
  by (induction s rule: low_surrogate.induct) (auto split: if_splits option.splits dest: hex4_length)

lemma low_surrogate_scanned:
  assumes ok: "scan_str b = Some x"
  shows "low_surrogate (b @ t) = low_surrogate b"
proof -
  consider "b = []" | v where "b = [v]" | a c r where "b = a # c # r"
    by (cases b rule: low_surrogate.cases) auto
  then show ?thesis
  proof cases
    case 1
    with ok show ?thesis by simp
  next
    case (2 v)
    with ok have "v \<noteq> CHR 0x5C" by auto
    with 2 show ?thesis by (cases t) auto
  next
    case (3 a c r)
    show ?thesis
    proof (cases "a = CHR 0x5C \<and> c = CHR ''u''")
      case True
      then have "hex4 r \<noteq> None" using ok 3 by (auto split: option.splits)
      then have "hex4 (r @ t) = hex4 r" by (auto dest: hex4_length intro: hex4_append)
      then show ?thesis using 3 by simp
    qed (use 3 in auto)
  qed
qed

lemma append_single: "append [c] = Cons c"
  by (simp add: fun_eq_iff)

text \<open>One step of the string scanner: it ends, or it reads a piece \<open>a\<close> whose value does not depend on what follows.\<close>

lemma scan_str_step:
  assumes "scan_str s = Some (v, r)"
  obtains (quote) "s = CHR 0x22 # r" "v = []"
  | (piece) a b w v' where "s = a @ b" "a \<noteq> []" "v = w @ v'" "scan_str b = Some (v', r)"
      "\<And>t. scan_str (a @ b @ t) = map_option (map_prod (append w) id) (scan_str (b @ t))"
proof (cases s)
  case Nil
  with assms show ?thesis by simp
next
  case (Cons c cs)
  show ?thesis
  proof (cases "c = CHR 0x5C")
    case False
    show ?thesis
    proof (cases "c = CHR 0x22")
      case True
      then show ?thesis using assms Cons by (intro quote) auto
    next
      case ordinary: False
      then obtain v' where "scan_str cs = Some (v', r)" "v = c # v'" "\<not> (of_char c :: nat) < 32"
        using assms Cons False by (auto split: if_splits)
      then show ?thesis
        using Cons False ordinary by (intro piece [of "[c]" cs "[c]" v']) (auto simp: append_single)
    qed
  next
    case bs: True
    then obtain e es where cs: "cs = e # es" using assms Cons by (cases cs) auto
    show ?thesis
    proof (cases "e = CHR ''u''")
      case False
      then show ?thesis
        using assms Cons bs cs
        by (auto simp: append_single split: option.splits intro: piece [of "[c, e]" es "[_]"])
    next
      case True
      then obtain u where u: "hex4 es = Some u" using assms Cons bs cs by (auto split: option.splits)
      have l: "4 \<le> length es" by (rule hex4_length [OF u])
      show ?thesis
      proof (cases "0xD800 \<le> u \<and> u \<le> 0xDBFF \<and> low_surrogate (drop 4 es) \<noteq> None")
        case pair: True
        then have l10: "10 \<le> length es" by (auto dest: low_surrogate_length)
        obtain v' where v': "scan_str (drop 10 es) = Some (v', r)"
          "v = encode_point (0x10000 + (u - 0xD800) * 1024 + (the (low_surrogate (drop 4 es)) - 0xDC00)) @ v'"
          using assms Cons bs cs True u pair by auto
        have low: "low_surrogate (drop 4 es @ t) = low_surrogate (drop 4 es)" for t
          using l10 by (intro low_surrogate_append) simp
        show ?thesis
          using assms Cons bs cs True u pair v' l l10
          by (intro piece [of "c # e # take 10 es" "drop 10 es"])
             (auto simp: hex4_append low simp flip: append_assoc)
      next
        case single: False
        obtain v' where v': "scan_str (drop 4 es) = Some (v', r)" "v = encode_point u @ v'"
          using assms Cons bs cs True u single by (auto split: if_splits)
        show ?thesis
          using assms Cons bs cs True u single v' l low_surrogate_scanned [OF v'(1)]
          by (intro piece [of "c # e # take 4 es" "drop 4 es"]) (auto simp: hex4_append simp flip: append_assoc)
      qed
    qed
  qed
qed

lemma scan_str_append: "scan_str s = Some (v, r) \<Longrightarrow> scan_str (s @ t) = Some (v, r @ t)"
proof (induction "length s" arbitrary: s v rule: less_induct)
  case less
  from less.prems show ?case
  proof (cases rule: scan_str_step)
    case (piece a b w v')
    then show ?thesis using less.hyps [of b v'] by simp
  qed simp
qed

lemma scan_str_suffix: "scan_str s = Some (v, r) \<Longrightarrow> suffix (CHR 0x22 # r) s"
proof (induction "length s" arbitrary: s v rule: less_induct)
  case less
  from less.prems show ?case
  proof (cases rule: scan_str_step)
    case (piece a b w v')
    then have "suffix (CHR 0x22 # r) b" using less.hyps [of b v'] by auto
    with piece(1) show ?thesis by (simp add: suffix_appendI)
  qed auto
qed

text \<open>What may follow a number without becoming part of it.\<close>

definition number_char :: "char \<Rightarrow> bool" where
  "number_char c = (json_digit c \<or> c \<in> {CHR ''.'', CHR ''e'', CHR ''E'', CHR ''+'', CHR ''-''})"

definition delimited :: "string \<Rightarrow> bool" where
  "delimited r = (r \<noteq> [] \<and> \<not> number_char (hd r))"

lemma digits_append:
  "dropWhile json_digit s \<noteq> [] \<Longrightarrow>
   takeWhile json_digit (s @ t) = takeWhile json_digit s \<and> dropWhile json_digit (s @ t) = dropWhile json_digit s @ t"
  by (induction s) auto

lemma scan_int_append:
  "scan_int s = Some (i, r) \<Longrightarrow> r \<noteq> [] \<Longrightarrow> scan_int (s @ t) = Some (i, r @ t)"
  using digits_append [of s t] by (auto simp: scan_int_def split: list.splits if_splits)

lemma scan_frac_append:
  assumes "scan_frac r = (f, r1)" "r1 \<noteq> []" "hd r1 \<noteq> CHR ''.''"
  shows "scan_frac (r @ t) = (f, r1 @ t)"
proof (cases r)
  case (Cons c cs)
  then show ?thesis
    using assms digits_append [of cs t] by (auto simp: scan_frac_def split: if_splits)
qed (use assms in \<open>simp add: scan_frac_def\<close>)

lemma scan_exp_append:
  assumes "scan_exp r = (e, r1)" "delimited r1"
  shows "scan_exp (r @ t) = (e, r1 @ t)"
proof (cases r)
  case (Cons c cs)
  show ?thesis
  proof (cases "c \<in> {CHR ''e'', CHR ''E''}")
    case False
    then show ?thesis using Cons assms(1) by (auto simp: scan_exp_def Let_def)
  next
    case True
    then have e: "e \<noteq> None" using Cons assms by (auto simp: scan_exp_def delimited_def number_char_def Let_def split: if_splits)
    with Cons assms(1) have ne: "cs \<noteq> []" by (auto simp: scan_exp_def Let_def starts_with_def split: if_splits)
    have sw: "starts_with (cs @ t) [x] = starts_with cs [x]" for x
      using ne by (cases cs) (auto simp: starts_with_Cons)
    have "drop 1 (cs @ t) = drop 1 cs @ t" using ne by (cases cs) auto
    then show ?thesis
      using True Cons assms e sw digits_append [of "drop 1 cs" t] digits_append [of cs t]
      by (auto simp: scan_exp_def Let_def delimited_def split: if_splits)
  qed
qed (use assms in \<open>simp add: scan_exp_def delimited_def\<close>)

lemma scan_number_append:
  assumes "scan_number s = Some (v, r)" "delimited r"
  shows "scan_number (s @ t) = Some (v, r @ t)"
proof -
  define s' where "s' = (if starts_with s ''-'' then drop 1 s else s)"
  obtain i r0 f r1 e where i: "scan_int s' = Some (i, r0)" and f: "scan_frac r0 = (f, r1)"
    and e: "scan_exp r1 = (e, r)" and v: "v = make_number (starts_with s ''-'') i f e"
    using assms(1) by (auto simp: scan_number_def s'_def Let_def split: option.splits prod.splits)
  have ne: "r1 \<noteq> []" "hd r1 \<noteq> CHR ''.''"
    using e assms(2) by (auto simp: scan_exp_def delimited_def number_char_def split: list.splits)
  then have "r0 \<noteq> []" using f by (auto simp: scan_frac_def)
  have "s' \<noteq> []" using i by (auto simp: scan_int_def)
  then have "s \<noteq> []" by (auto simp: s'_def)
  then have "starts_with (s @ t) ''-'' = starts_with s ''-''" and "s' @ t = (if starts_with s ''-'' then drop 1 (s @ t) else s @ t)"
    by (cases s; auto simp: starts_with_Cons s'_def)+
  then show ?thesis
    using scan_int_append [OF i \<open>r0 \<noteq> []\<close>, of t] scan_frac_append [OF f ne, of t] scan_exp_append [OF e assms(2), of t] v
    by (simp add: scan_number_def Let_def)
qed

lemma find_literal_append:
  assumes "find (\<lambda>(w, v). starts_with s w) literals = Some (w, v)"
  shows "find (\<lambda>(w, v). starts_with (s @ t) w) literals = Some (w, v) \<and> drop (length w) (s @ t) = drop (length w) s @ t"
proof -
  have "starts_with s w" using assms by (auto simp: find_Some_iff)
  then obtain x where s: "s = w @ x" by (auto simp: starts_with_prefix prefix_def)
  have "(w, v) \<in> set literals" using assms by (auto simp: find_Some_iff dest: nth_mem)
  then show ?thesis unfolding s literals_def list.set by (elim insertE emptyE; simp add: starts_with_simps)
qed

lemma scan_number_no_literal:
  assumes "scan_number s = Some x"
  shows "find (\<lambda>(w, v). starts_with (s @ t) w) literals = None"
proof -
  obtain c cs where c: "(if starts_with s ''-'' then drop 1 s else s) = c # cs" "json_digit c"
    using assms by (auto simp: scan_number_def scan_int_def json_digit_def Let_def split: option.splits list.splits if_splits)
  then have no: "c \<noteq> CHR ''n''" "c \<noteq> CHR ''t''" "c \<noteq> CHR ''f''" "c \<noteq> CHR ''N''" "c \<noteq> CHR ''I''" by (auto simp: json_digit_def)
  show ?thesis
  proof (cases "starts_with s ''-''")
    case True
    with c have "s = CHR ''-'' # c # cs" by (auto simp: starts_with_Cons)
    with no show ?thesis by (simp add: literals_def starts_with_simps)
  next
    case False
    with c have "s = c # cs" by simp
    moreover have "c \<noteq> CHR ''-''" using False \<open>s = c # cs\<close> by (simp add: starts_with_simps)
    ultimately show ?thesis using no by (simp add: literals_def starts_with_simps)
  qed
qed

lemma delimited_after:
  "starts_with (skip_ws r) [c] \<Longrightarrow> c \<in> {CHR ''}'', CHR '']'', CHR '',''} \<Longrightarrow> delimited r"
  by (cases r) (auto simp: delimited_def skip_ws_def starts_with_Cons number_char_def json_digit_def json_space_def split: if_splits)

lemma skip_ws_sep:
  "starts_with (skip_ws r) [c] \<Longrightarrow>
   starts_with (skip_ws (r @ t)) [c] \<and> drop (Suc 0) (skip_ws (r @ t)) = drop (Suc 0) (skip_ws r) @ t"
  by (auto simp: starts_with_Cons skip_ws_append)

lemma skip_ws_not: "skip_ws r \<noteq> [] \<Longrightarrow> starts_with (skip_ws (r @ t)) [c] = starts_with (skip_ws r) [c]"
  by (auto simp: skip_ws_append starts_with_Cons neq_Nil_conv)

lemma scan_nonempty:
  "scan_value n s = Some x \<Longrightarrow> s \<noteq> []" "scan_elems n a s = Some x \<Longrightarrow> s \<noteq> []" "scan_members n m s = Some x \<Longrightarrow> s \<noteq> []"
proof -
  have V: "scan_value n [] = None" for n by (cases n) auto
  show "scan_value n s = Some x \<Longrightarrow> s \<noteq> []" using V by auto
  show "scan_elems n a s = Some x \<Longrightarrow> s \<noteq> []" using V by (cases n) auto
  show "scan_members n m s = Some x \<Longrightarrow> s \<noteq> []" by (cases n) (auto simp: starts_with_def)
qed

lemma scan_append:
  "(\<forall>s v r. scan_value n s = Some (v, r) \<longrightarrow> delimited r \<or> starts_with s ''{'' \<longrightarrow> scan_value n (s @ t) = Some (v, r @ t)) \<and>
   (\<forall>acc s v r. scan_elems n acc s = Some (v, r) \<longrightarrow> scan_elems n acc (s @ t) = Some (v, r @ t)) \<and>
   (\<forall>acc s v r. scan_members n acc s = Some (v, r) \<longrightarrow> scan_members n acc (s @ t) = Some (v, r @ t))"
proof (induction n)
  case (Suc n)
  have V: "scan_value n s = Some (v, r) \<Longrightarrow> delimited r \<or> starts_with s ''{'' \<Longrightarrow> scan_value n (s @ t) = Some (v, r @ t)"
    and E: "scan_elems n acc s = Some (v, r) \<Longrightarrow> scan_elems n acc (s @ t) = Some (v, r @ t)"
    and M: "scan_members n acc' s = Some (v, r) \<Longrightarrow> scan_members n acc' (s @ t) = Some (v, r @ t)" for s acc acc' v r
    using Suc.IH by blast+
  have "scan_value (Suc n) (s @ t) = Some (v, r @ t)"
    if ok: "scan_value (Suc n) s = Some (v, r)" and d: "delimited r \<or> starts_with s ''{''" for s v r
  proof (cases s)
    case (Cons c cs)
    consider "c = CHR 0x22" | "c = CHR ''{''" | "c = CHR ''[''" | "c \<noteq> CHR 0x22" "c \<noteq> CHR ''{''" "c \<noteq> CHR ''[''" by blast
    then show ?thesis
    proof cases
      case 1
      then show ?thesis using ok Cons by (auto simp: scan_str_append)
    next
      case 2
      then have ne: "skip_ws cs \<noteq> []" using ok Cons by (auto simp: starts_with_Cons split: if_splits dest: scan_nonempty)
      then obtain d ds where "skip_ws cs = d # ds" by (cases "skip_ws cs") auto
      then show ?thesis using ok Cons 2 skip_ws_append [OF ne, of t] M [of "[]" "d # ds" v r]
        by (auto simp: starts_with_simps split: if_splits)
    next
      case 3
      then have ne: "skip_ws cs \<noteq> []" using ok Cons by (auto simp: starts_with_Cons split: if_splits dest: scan_nonempty)
      then obtain d ds where "skip_ws cs = d # ds" by (cases "skip_ws cs") auto
      then show ?thesis using ok Cons 3 skip_ws_append [OF ne, of t] E [of "[]" "d # ds" v r]
        by (auto simp: starts_with_simps split: if_splits)
    next
      case 4
      show ?thesis
      proof (cases "find (\<lambda>(w, v). starts_with s w) literals")
        case None
        then have num: "scan_number s = Some (v, r)" using ok Cons 4 by simp
        have "delimited r" using d 4 Cons by (auto simp: starts_with_Cons)
        then show ?thesis
          using scan_number_append [OF num, of t] scan_number_no_literal [OF num, of t] Cons 4 by simp
      next
        case (Some p)
        then show ?thesis
          using ok Cons 4 find_literal_append [of s "fst p" "snd p" t] by (cases p) simp
      qed
    qed
  qed (use ok in simp)
  moreover have "scan_elems (Suc n) acc (s @ t) = Some (v, r @ t)" if ok: "scan_elems (Suc n) acc s = Some (v, r)" for acc s v r
  proof -
    obtain x r1 where x: "scan_value n s = Some (x, r1)" using ok by (auto split: option.splits)
    then have sep: "starts_with (skip_ws r1) '']'' \<or> \<not> starts_with (skip_ws r1) '']'' \<and> starts_with (skip_ws r1) '',''"
      using ok by (auto split: if_splits)
    then have x': "scan_value n (s @ t) = Some (x, r1 @ t)" using V [OF x] delimited_after [of r1] by auto
    from sep have "skip_ws r1 \<noteq> []" by (auto simp: starts_with_simps)
    note sk = skip_ws_append [OF this, of t] skip_ws_not [OF this, of t]
    show ?thesis
    proof (cases "starts_with (skip_ws r1) '']''")
      case True
      then show ?thesis using ok x x' sk by (auto simp: starts_with_Cons)
    next
      case False
      then have rest: "scan_elems n (x # acc) (skip_ws (drop 1 (skip_ws r1))) = Some (v, r)" using ok x sep by simp
      have "skip_ws (drop 1 (skip_ws r1) @ t) = skip_ws (drop 1 (skip_ws r1)) @ t"
        using scan_nonempty(2) [OF rest] by (rule skip_ws_append)
      then show ?thesis using False sep rest x' sk E [OF rest] by (auto simp: starts_with_Cons)
    qed
  qed
  moreover have "scan_members (Suc n) acc (s @ t) = Some (v, r @ t)" if ok: "scan_members (Suc n) acc s = Some (v, r)" for acc s v r
  proof -
    obtain cs k r0 where s: "s = CHR 0x22 # cs" and k: "scan_str cs = Some (k, r0)" and colon: "starts_with (skip_ws r0) '':''"
      using ok by (auto simp: starts_with_Cons split: option.splits if_splits)
    note sk0 = skip_ws_sep [OF colon, of t]
    obtain x r1 where x: "scan_value n (skip_ws (drop 1 (skip_ws r0))) = Some (x, r1)"
      using ok s k colon by (auto simp: starts_with_simps split: option.splits)
    then have sep: "starts_with (skip_ws r1) ''}'' \<or> \<not> starts_with (skip_ws r1) ''}'' \<and> starts_with (skip_ws r1) '',''"
      using ok s k colon by (auto simp: starts_with_simps split: if_splits)
    have nx: "skip_ws (drop 1 (skip_ws r0) @ t) = skip_ws (drop 1 (skip_ws r0)) @ t"
      using scan_nonempty(1) [OF x] by (rule skip_ws_append)
    have x': "scan_value n (skip_ws (drop 1 (skip_ws r0)) @ t) = Some (x, r1 @ t)" using sep V [OF x] delimited_after [of r1] by auto
    from sep have "skip_ws r1 \<noteq> []" by (auto simp: starts_with_simps)
    note sk = skip_ws_append [OF this, of t] skip_ws_not [OF this, of t]
    note base = s scan_str_append [OF k, of t] sk0 nx x'
    show ?thesis
    proof (cases "starts_with (skip_ws r1) ''}''")
      case True
      then show ?thesis using ok s k colon x base sk by (auto simp: starts_with_simps starts_with_Cons)
    next
      case False
      then have rest: "scan_members n ((k, x) # acc) (skip_ws (drop 1 (skip_ws r1))) = Some (v, r)"
        using ok s k colon x sep by (simp add: starts_with_simps)
      have "skip_ws (drop 1 (skip_ws r1) @ t) = skip_ws (drop 1 (skip_ws r1)) @ t"
        using scan_nonempty(3) [OF rest] by (rule skip_ws_append)
      then show ?thesis using False sep rest base sk M [OF rest] by (auto simp: starts_with_simps starts_with_Cons)
    qed
  qed
  ultimately show ?case by blast
qed simp

lemmas scan_members_append = scan_append [THEN conjunct2, THEN conjunct2, rule_format]

lemma scan_object_append:
  "scan_value n s = Some (v, r) \<Longrightarrow> starts_with s ''{'' \<Longrightarrow> scan_value n (s @ t) = Some (v, r @ t)"
  using scan_append by blast

text \<open>More fuel changes nothing.\<close>

lemma scan_more:
  "(\<forall>s x. scan_value n s = Some x \<longrightarrow> scan_value (Suc n) s = Some x) \<and>
   (\<forall>acc s x. scan_elems n acc s = Some x \<longrightarrow> scan_elems (Suc n) acc s = Some x) \<and>
   (\<forall>acc s x. scan_members n acc s = Some x \<longrightarrow> scan_members (Suc n) acc s = Some x)"
proof (induction n)
  case (Suc n)
  have V: "scan_value n s = Some x \<Longrightarrow> scan_value (Suc n) s = Some x"
    and E: "scan_elems n acc s = Some x \<Longrightarrow> scan_elems (Suc n) acc s = Some x"
    and M: "scan_members n acc' s = Some x \<Longrightarrow> scan_members (Suc n) acc' s = Some x" for s acc acc' x
    using Suc.IH by blast+
  have "scan_value (Suc (Suc n)) s = Some x" if "scan_value (Suc n) s = Some x" for s x
    using that by (auto simp only: scan_value.simps(2) split: list.splits if_splits option.splits dest: E M)
  moreover have "scan_elems (Suc (Suc n)) acc s = Some x" if "scan_elems (Suc n) acc s = Some x" for acc s x
    using that unfolding scan_elems.simps(2) [of n acc s] scan_elems.simps(2) [of "Suc n" acc s]
    by (auto simp del: scan_value.simps scan_elems.simps split: if_splits option.splits dest: E dest!: V)
  moreover have "scan_members (Suc (Suc n)) acc s = Some x" if "scan_members (Suc n) acc s = Some x" for acc s x
    using that unfolding scan_members.simps(2) [of n acc s] scan_members.simps(2) [of "Suc n" acc s]
    by (auto simp del: scan_value.simps scan_members.simps split: if_splits option.splits dest!: V) (rule M, assumption)
  ultimately show ?case by blast
qed simp

lemma scan_fuel: "scan_value n s = Some x \<Longrightarrow> n \<le> m \<Longrightarrow> scan_value m s = Some x"
proof (induction m)
  case (Suc m)
  show ?case
  proof (cases "n = Suc m")
    case False
    then have "scan_value m s = Some x" using Suc by simp
    then show ?thesis using scan_more [of m] by blast
  qed (use Suc.prems in blast)
qed simp

text \<open>A scanner returns the rest of its input; an object ends with its brace.\<close>

lemma scan_number_suffix: "scan_number s = Some (v, r) \<Longrightarrow> suffix r s"
proof -
  assume "scan_number s = Some (v, r)"
  moreover define s' where "s' = (if starts_with s ''-'' then drop 1 s else s)"
  ultimately obtain i r0 f r1 e where i: "scan_int s' = Some (i, r0)" and f: "scan_frac r0 = (f, r1)"
    and e: "scan_exp r1 = (e, r)"
    by (auto simp: scan_number_def Let_def split: option.splits prod.splits)
  have "suffix r r1"
    using e by (auto simp: scan_exp_def Let_def suffix_Cons split: list.splits if_splits
        intro: suffix_dropWhile suffix_order.trans [OF suffix_dropWhile suffix_drop])
  moreover have "suffix r1 r0" using f by (auto simp: scan_frac_def suffix_Cons suffix_dropWhile split: list.splits if_splits)
  moreover have "suffix r0 s'" using i by (auto simp: scan_int_def suffix_Cons suffix_dropWhile split: list.splits if_splits)
  moreover have "suffix s' s" by (simp add: s'_def suffix_drop)
  ultimately show "suffix r s" by (blast intro: suffix_order.trans)
qed

lemma scan_suffix:
  "(\<forall>s v r. scan_value n s = Some (v, r) \<longrightarrow> suffix r s) \<and>
   (\<forall>acc s v r. scan_elems n acc s = Some (v, r) \<longrightarrow> suffix r s) \<and>
   (\<forall>acc s v r. scan_members n acc s = Some (v, r) \<longrightarrow> suffix (CHR ''}'' # r) s)"
proof (induction n)
  case (Suc n)
  have V: "scan_value n s = Some (v, r) \<Longrightarrow> suffix r s"
    and E: "scan_elems n acc s = Some (v, r) \<Longrightarrow> suffix r s"
    and M: "scan_members n acc' s = Some (v, r) \<Longrightarrow> suffix (CHR ''}'' # r) s" for s acc acc' v r
    using Suc.IH by blast+
  have sk: "suffix x (drop k (skip_ws y)) \<Longrightarrow> suffix x y" "suffix x (skip_ws y) \<Longrightarrow> suffix x y" for x y k
    using suffix_skip_ws suffix_drop by (blast intro: suffix_order.trans)+
  have "suffix r s" if ok: "scan_value (Suc n) s = Some (v, r)" for s v r
  proof (cases s)
    case (Cons c cs)
    have "suffix r cs \<or> suffix r s"
      using ok Cons scan_str_suffix [of cs _ r] M [of "[]" "skip_ws cs" v r] E [of "[]" "skip_ws cs" v r] sk(1) [of r 1 cs] sk(2) [of r cs]
        scan_number_suffix [of s v r] suffix_drop [of _ s]
      by (auto split: if_splits option.splits dest: suffix_ConsD intro: sk)
    then show ?thesis using Cons by (auto intro: suffix_ConsI)
  qed (use ok in simp)
  moreover have "suffix r s" if ok: "scan_elems (Suc n) acc s = Some (v, r)" for acc s v r
  proof -
    obtain x r1 where x: "scan_value n s = Some (x, r1)" using ok by (auto split: option.splits)
    then have "suffix r r1"
      using ok E [of "x # acc" "skip_ws (drop 1 (skip_ws r1))" v r] sk(1) [of r 1 r1] sk(2) [of r "drop 1 (skip_ws r1)"]
      by (auto split: if_splits)
    with V [OF x] show ?thesis by (blast intro: suffix_order.trans)
  qed
  moreover have "suffix (CHR ''}'' # r) s" if ok: "scan_members (Suc n) acc s = Some (v, r)" for acc s v r
  proof -
    obtain cs k r0 x r1 where s: "s = CHR 0x22 # cs" and k: "scan_str cs = Some (k, r0)"
      and x: "scan_value n (skip_ws (drop 1 (skip_ws r0))) = Some (x, r1)"
      using ok by (auto simp: starts_with_Cons split: option.splits if_splits)
    have "suffix r0 s" using scan_str_suffix [OF k] s by (auto dest: suffix_ConsD intro: suffix_ConsI)
    moreover have "suffix r1 r0" using V [OF x] sk by blast
    moreover have "suffix (CHR ''}'' # r) r1"
    proof (cases "starts_with (skip_ws r1) ''}''")
      case True
      then have "skip_ws r1 = CHR ''}'' # r" using ok s k x by (auto simp: starts_with_simps starts_with_Cons split: if_splits)
      then show ?thesis using suffix_skip_ws [of r1] by simp
    next
      case False
      then have "scan_members n ((k, x) # acc) (skip_ws (drop 1 (skip_ws r1))) = Some (v, r)"
        using ok s k x by (auto simp: starts_with_simps split: if_splits)
      then show ?thesis using M sk by blast
    qed
    ultimately show ?thesis by (blast intro: suffix_order.trans)
  qed
  ultimately show ?case by blast
qed simp

text \<open>A text that was cut inside an object is no JSON, with or without a replacement character at the cut.\<close>

lemma torn_object:
  assumes full: "scan_value n (p @ t) = Some (v, [])" and brace: "starts_with p ''{''" and t: "t \<noteq> []"
  shows "loads p = None"
proof (rule ccontr)
  assume "loads p \<noteq> None"
  moreover have "skip_ws p = p" using brace by (auto simp: starts_with_Cons skip_ws_def json_space_def)
  ultimately obtain v' r where "scan_value (Suc (length p)) p = Some (v', r)"
    by (auto simp: loads_def simp del: scan_value.simps split: option.splits if_splits)
  then have "scan_value (Suc (length p)) (p @ t) = Some (v', r @ t)" using brace by (rule scan_object_append)
  from scan_fuel [OF this, of "max n (Suc (length p))"] scan_fuel [OF full, of "max n (Suc (length p))"] t
  show False by simp
qed

lemma loads_ends:
  assumes "loads p = Some v" "starts_with p ''{''"
  shows "\<exists>u r. p = u @ CHR ''}'' # r \<and> skip_ws r = []"
proof -
  have "skip_ws p = p" using assms(2) by (auto simp: starts_with_Cons skip_ws_def json_space_def)
  then obtain r where ok: "scan_value (Suc (length p)) p = Some (v, r)" and r: "skip_ws r = []"
    using assms(1) by (auto simp: loads_def simp del: scan_value.simps split: option.splits if_splits)
  obtain cs where p: "p = CHR ''{'' # cs" using assms(2) by (auto simp: starts_with_Cons)
  have "suffix (CHR ''}'' # r) (skip_ws cs)"
    using ok p scan_suffix [of "length p"] by (auto simp: starts_with_Cons split: if_splits)
  then have "suffix (CHR ''}'' # r) p" using p suffix_skip_ws [of cs] by (blast intro: suffix_order.trans suffix_ConsI)
  with r show ?thesis by (auto simp: suffix_def)
qed

lemma loads_replacement: "starts_with q ''{'' \<Longrightarrow> loads (q @ replacement) = None"
proof (rule ccontr)
  assume "starts_with q ''{''" "loads (q @ replacement) \<noteq> None"
  then obtain u r where e: "q @ replacement = u @ CHR ''}'' # r" and r: "skip_ws r = []"
    using loads_ends [of "q @ replacement"] starts_with_mono [of q "''{''" replacement] by auto
  have "last (q @ replacement) = CHR 0xBD" by (simp add: replacement_def)
  moreover have "last (u @ CHR ''}'' # r) = (if r = [] then CHR ''}'' else last r)" by simp
  moreover have "r \<noteq> [] \<Longrightarrow> json_space (last r)" using r by (auto simp: skip_ws_def dropWhile_eq_Nil_conv)
  ultimately show False using e by (auto simp: json_space_def split: if_splits)
qed

section \<open>Round trip\<close>

lemma escape_simps: "escape [] = []" "escape (c # cs) = escape_char c @ escape cs"
  by (simp_all add: escape_def)

lemma hex_value_digit: "n < 16 \<Longrightarrow> hex_value (hex_digit n) = Some n"
  by (auto simp: hex_value_def hex_digit_def json_digit_def Let_def)

lemma scan_escape_char: "scan_str (escape_char c @ s) = map_option (map_prod (Cons c) id) (scan_str s)"
proof (cases "(of_char c :: nat) < 32 \<and> c \<notin> {CHR 0x0A, CHR 0x0D, CHR 0x09, CHR 0x0C, CHR 0x08}")
  case True
  define n where "n = (of_char c :: nat)"
  have n: "n < 32" "c = char_of n" using True by (auto simp: n_def)
  have "hex4 (CHR ''0'' # CHR ''0'' # hex_digit (n div 16) # hex_digit (n mod 16) # s) = Some n"
    using n(1) by (simp add: hex_value_digit) (simp add: hex_value_def json_digit_def)
  moreover have "c \<noteq> CHR 0x22" "c \<noteq> CHR 0x5C"
    using conjunct1 [OF True] by (auto simp del: of_char_of)
  ultimately show ?thesis
    using True n by (simp add: escape_char_def n_def [symmetric] encode_point_def append_single)
next
  case False
  then consider "c = CHR 0x22" | "c = CHR 0x5C" | "c = CHR 0x0A" | "c = CHR 0x0D" | "c = CHR 0x09" | "c = CHR 0x0C" | "c = CHR 0x08"
    | "\<not> (of_char c :: nat) < 32" "c \<noteq> CHR 0x22" "c \<noteq> CHR 0x5C" by auto
  then show ?thesis
  proof cases
    case 8
    then have "escape_char c = [c]" by (auto simp: escape_char_def)
    with 8 show ?thesis by simp
  qed (simp_all add: escape_char_def unescape_char_def)
qed

lemma scan_escape: "scan_str (escape s @ CHR 0x22 # r) = Some (s, r)"
  by (induction s) (simp_all add: escape_simps scan_escape_char)

declare scan_value.simps [simp del] scan_elems.simps [simp del] scan_members.simps [simp del]

lemma scan_dump_str: "scan_value (Suc n) (dump_str s @ r) = Some (JStr s, r)"
  by (simp add: scan_value.simps dump_str_def scan_escape)

lemma skip_ws_Cons: "\<not> json_space c \<Longrightarrow> skip_ws (c # s) = c # s"
  by (simp add: skip_ws_def)

lemma scan_dump_members:
  "ms \<noteq> [] \<Longrightarrow> length ms < n \<Longrightarrow>
   scan_members n acc (dump_members ms @ CHR ''}'' # r) =
     Some (JObj (dict_merge [] (rev acc @ map (map_prod id JStr) ms)), r)"
proof (induction ms arbitrary: n acc rule: dump_members.induct)
  case (2 k v)
  then obtain m where n: "n = Suc (Suc m)" by (cases n; cases "n - 1") auto
  show ?case
    unfolding n scan_members.simps(2)
    using scan_dump_str [of m v "CHR ''}'' # r"]
    by (simp add: dump_str_def scan_escape starts_with_simps skip_ws_Cons json_space_def)
next
  case (3 k v m ms)
  then obtain i where n: "n = Suc (Suc i)" by (cases n; cases "n - 1") auto
  have IH: "scan_members (Suc i) ((k, JStr v) # acc) (dump_members (m # ms) @ CHR ''}'' # r) =
      Some (JObj (dict_merge [] (rev ((k, JStr v) # acc) @ map (map_prod id JStr) (m # ms))), r)"
    using 3 n by (intro "3.IH") auto
  have "\<exists>x. dump_members (m # ms) = CHR 0x22 # x" by (cases m; cases ms) (auto simp: dump_str_def)
  then have "skip_ws (dump_members (m # ms) @ CHR ''}'' # r) = dump_members (m # ms) @ CHR ''}'' # r"
    by (auto simp: skip_ws_Cons json_space_def)
  with IH show ?case
    unfolding n scan_members.simps(2) [of "Suc i"]
    using scan_dump_str [of i v "CHR '','' # dump_members (m # ms) @ CHR ''}'' # r"]
    by (simp add: id_def dump_str_def scan_escape starts_with_simps skip_ws_Cons json_space_def)
qed simp

lemma update_new: "k \<notin> fst ` set d \<Longrightarrow> AList.update k v d = d @ [(k, v)]"
  by (induction d) auto

lemma dict_merge_new: "distinct (map fst (d @ e)) \<Longrightarrow> dict_merge d e = d @ e"
proof (induction d e rule: dict_merge.induct)
  case (2 d k v e)
  then have "AList.update k v d = d @ [(k, v)]" by (intro update_new) auto
  with 2 show ?case by simp
qed simp

lemma length_dumps: "length d < length (dumps d)"
proof -
  have "length d \<le> length (dump_members d)" by (induction d rule: dump_members.induct) (auto simp: dump_str_def)
  then show ?thesis by (simp add: dumps_def)
qed

lemma scan_dumps:
  assumes "distinct (map fst d)"
  shows "scan_value (Suc (length (dumps d))) (dumps d) = Some (JObj (map (map_prod id JStr) d), [])"
proof (cases d)
  case Nil
  then show ?thesis by (simp add: dumps_def scan_value.simps skip_ws_Cons json_space_def starts_with_simps)
next
  case (Cons m ms)
  have "\<exists>x. dump_members d = CHR 0x22 # x" unfolding Cons by (cases m; cases ms) (auto simp: dump_str_def)
  then obtain x where x: "dump_members d = CHR 0x22 # x" by blast
  have "dict_merge [] (map (map_prod id JStr) d) = map (map_prod id JStr) d"
    using assms dict_merge_new [of "[]" "map (map_prod id JStr) d"] by (simp add: comp_def)
  then show ?thesis
    using scan_dump_members [of d "length (dumps d)" "[]" "[]"] Cons length_dumps [of d] x
    by (simp add: dumps_def scan_value.simps(2) skip_ws_Cons json_space_def starts_with_simps del: dump_members.simps)
qed

theorem loads_dumps:
  assumes "distinct (map fst d)"
  shows "loads (dumps d) = Some (JObj (map (map_prod id JStr) d))"
proof -
  have "skip_ws (dumps d) = dumps d" by (simp add: dumps_def skip_ws_Cons json_space_def)
  then show ?thesis using scan_dumps [OF assms] by (simp add: loads_def skip_ws_def)
qed

section \<open>Written lines\<close>

text \<open>ASCII text, and what escaping leaves of the bytes above it.\<close>

definition ascii :: "string \<Rightarrow> bool" where
  "ascii s = (\<forall>c \<in> set s. (of_char c :: nat) < 128)"

lemma utf8_ascii_Cons: "(of_char c :: nat) < 128 \<Longrightarrow> utf8 (c # s) = utf8 s"
  by (simp add: follow_def)

lemma utf8_ascii: "ascii s \<Longrightarrow> utf8 s"
  by (induction s) (auto simp: ascii_def utf8_ascii_Cons simp del: utf8.simps(2))

definition plain_char :: "char \<Rightarrow> bool" where
  "plain_char c = (32 \<le> (of_char c :: nat) \<and> of_char c < (128 :: nat))"

lemma plain_hex: "n < 16 \<Longrightarrow> plain_char (hex_digit n)"
  by (auto simp: plain_char_def hex_digit_def)

lemma plain_escape_char:
  assumes "(of_char c :: nat) < 128"
  shows "\<forall>d \<in> set (escape_char c). plain_char d"
proof -
  have "plain_char (hex_digit (of_char c mod 16))" and "plain_char (hex_digit (of_char c div 16))"
    using assms by (auto intro!: plain_hex)
  moreover have "plain_char c" if "\<not> (of_char c :: nat) < 32" using that assms by (simp add: plain_char_def)
  moreover have "plain_char x" if "x \<in> {CHR 0x22, CHR 0x5C, CHR ''n'', CHR ''r'', CHR ''t'', CHR ''f'', CHR ''b'', CHR ''u'', CHR ''0''}" for x
    using that by (auto simp: plain_char_def)
  ultimately show ?thesis unfolding escape_char_def by simp
qed

lemma ascii_escape_char: "(of_char c :: nat) < 128 \<Longrightarrow> ascii (escape_char c)"
  using plain_escape_char [of c] by (auto simp: ascii_def plain_char_def)

lemma escape_high: "\<not> (of_char c :: nat) < 128 \<Longrightarrow> escape_char c = [c]"
proof -
  assume high: "\<not> (of_char c :: nat) < 128"
  have "c \<noteq> CHR 0x22" "c \<noteq> CHR 0x5C" "c \<noteq> CHR 0x0A" "c \<noteq> CHR 0x0D" "c \<noteq> CHR 0x09" "c \<noteq> CHR 0x0C" "c \<noteq> CHR 0x08"
    by (rule notI, use high in simp)+
  then show ?thesis unfolding escape_char_def using high by simp
qed

lemma escape_high_all: "\<forall>c \<in> set s. 128 \<le> (of_char c :: nat) \<Longrightarrow> escape s = s"
  by (induction s) (auto simp: escape_simps escape_high)

lemma escape_append: "escape (s @ t) = escape s @ escape t"
  by (simp add: escape_def)

lemma follow_high: "follow b = Some rs \<Longrightarrow> (l, h) \<in> set rs \<Longrightarrow> 128 \<le> l"
  by (auto simp: follow_def split: if_splits)

lemma matching_high:
  "matching rs s = length rs \<Longrightarrow> (\<And>l h. (l, h) \<in> set rs \<Longrightarrow> 128 \<le> l) \<Longrightarrow>
   \<forall>c \<in> set (take (length rs) s). 128 \<le> (of_char c :: nat)"
  by (induction rs s rule: matching.induct) (auto split: if_splits intro: order_trans)

lemma utf8_escape: "utf8 s \<Longrightarrow> utf8 (escape s)"
proof (induction s rule: utf8.induct)
  case (2 c cs)
  then obtain rs where rs: "follow (of_char c) = Some rs" and m: "matching rs cs = length rs"
    and ok: "utf8 (drop (length rs) cs)"
    by (auto split: option.splits)
  show ?case
  proof (cases "(of_char c :: nat) < 128")
    case True
    then have "rs = []" using rs by (simp add: follow_def)
    then have "utf8 (escape cs)" using "2.IH" [OF rs] ok by simp
    then show ?thesis using True by (simp add: escape_simps utf8_append utf8_ascii ascii_escape_char del: utf8.simps)
  next
    case False
    have "\<forall>c \<in> set (take (length rs) cs). 128 \<le> (of_char c :: nat)"
      using m follow_high [OF rs] by (rule matching_high)
    then have tk: "escape (take (length rs) cs) = take (length rs) cs" by (rule escape_high_all)
    have "escape cs = take (length rs) cs @ escape (drop (length rs) cs)"
      using escape_append [of "take (length rs) cs" "drop (length rs) cs"] tk by simp
    moreover have "length (take (length rs) cs) = length rs" using m matching_le_length [of rs cs] by simp
    ultimately show ?thesis
      using False rs ok "2.IH" [OF rs ok] matching_take [OF m] by (simp add: escape_simps escape_high)
  qed
qed (simp add: escape_simps)

lemma utf8_dumps: "\<forall>(k, v) \<in> set d. utf8 k \<and> utf8 v \<Longrightarrow> utf8 (dumps d)"
proof -
  assume "\<forall>(k, v) \<in> set d. utf8 k \<and> utf8 v"
  then have "utf8 (dump_members d)"
    by (induction d rule: dump_members.induct)
       (auto simp: dump_str_def utf8_ascii_Cons utf8_append utf8_escape simp del: utf8.simps(2))
  then show ?thesis by (simp add: dumps_def utf8_ascii_Cons utf8_append del: utf8.simps(2))
qed

text \<open>Texts without the separators U+0085, U+2028 and U+2029, which \<^verbatim>\<open>json.dumps\<close> writes as they are.\<close>

fun no_separator :: "string \<Rightarrow> bool" where
  "no_separator [] = True"
| "no_separator (c # cs) =
     (\<not> starts_with (c # cs) [CHR 0xC2, CHR 0x85] \<and> \<not> starts_with (c # cs) [CHR 0xE2, CHR 0x80, CHR 0xA8] \<and>
      \<not> starts_with (c # cs) [CHR 0xE2, CHR 0x80, CHR 0xA9] \<and> no_separator cs)"

lemma break_at_plain: "plain_char c \<Longrightarrow> break_at (c # s) = 0"
  by (auto simp: break_at_def starts_with_simps plain_char_def)

lemma unbroken_plain: "\<forall>d \<in> set s. plain_char d \<Longrightarrow> unbroken t \<Longrightarrow> unbroken (s @ t)"
  by (induction s) (auto simp: break_at_plain)

lemma starts_escape:
  assumes "starts_with (escape s @ d # t) w" "plain_char d" "\<forall>c \<in> set w. 128 \<le> (of_char c :: nat)"
  shows "starts_with s w"
  using assms
proof (induction w arbitrary: s)
  case (Cons a w)
  show ?case
  proof (cases s)
    case Nil
    then show ?thesis using Cons.prems by (auto simp: escape_simps starts_with_simps plain_char_def)
  next
    case s: (Cons c cs)
    show ?thesis
    proof (cases "(of_char c :: nat) < 128")
      case True
      then obtain e es where "escape_char c = e # es" "plain_char e"
        using plain_escape_char [of c] by (cases "escape_char c") (auto simp: escape_char_def split: if_splits)
      then show ?thesis using Cons.prems s by (auto simp: escape_simps starts_with_simps plain_char_def)
    next
      case False
      then show ?thesis using Cons.prems Cons.IH [of cs] s by (auto simp: escape_simps escape_high starts_with_simps)
    qed
  qed
qed (simp add: starts_with_simps)

lemma unbroken_escape:
  "no_separator s \<Longrightarrow> plain_char d \<Longrightarrow> unbroken t \<Longrightarrow> unbroken (escape s @ d # t)"
proof (induction s)
  case (Cons c cs)
  show ?case
  proof (cases "(of_char c :: nat) < 128")
    case True
    then show ?thesis using Cons by (simp add: escape_simps unbroken_plain plain_escape_char)
  next
    case False
    have e: "escape (c # cs) @ d # t = c # escape cs @ d # t" using False by (simp add: escape_simps escape_high)
    have "\<not> starts_with (c # escape cs @ d # t) w"
      if "w \<in> {[CHR 0xC2, CHR 0x85], [CHR 0xE2, CHR 0x80, CHR 0xA8], [CHR 0xE2, CHR 0x80, CHR 0xA9]}" for w
      using that Cons.prems(1,2) starts_escape [of "c # cs" d t w] unfolding e by (auto simp del: of_char_of)
    moreover have "of_char c \<notin> {10, 11, 12, 13, 28, 29, 30 :: nat}" "c \<noteq> CHR 0x0D"
      using False by (auto simp del: of_char_of)
    moreover have "\<not> starts_with (c # escape cs @ d # t) [CHR 0x0D, CHR 0x0A]"
      using \<open>c \<noteq> CHR 0x0D\<close> by (simp add: starts_with_simps)
    ultimately have "break_at (c # escape cs @ d # t) = 0" by (simp add: break_at_def)
    then show ?thesis using Cons False by (simp add: escape_simps escape_high)
  qed
qed (simp add: escape_simps break_at_plain)

lemma unbroken_dumps: "\<forall>(k, v) \<in> set d. no_separator k \<and> no_separator v \<Longrightarrow> unbroken (dumps d)"
proof -
  have one: "unbroken (dump_str s @ t)" if "no_separator s" "unbroken t" for s t
    using unbroken_escape [OF that(1), of "CHR 0x22" t] that(2) by (simp add: dump_str_def break_at_plain plain_char_def)
  assume "\<forall>(k, v) \<in> set d. no_separator k \<and> no_separator v"
  then have "unbroken (dump_members d @ t)" if "unbroken t" for t
    using that
    by (induction d rule: dump_members.induct) (auto simp: one break_at_plain plain_char_def)
  from this [of "''}''"] show ?thesis by (simp add: dumps_def break_at_plain plain_char_def)
qed

section \<open>Stripping\<close>

lemma skip_spaces_id: "space_at dir s = 0 \<Longrightarrow> skip_spaces dir s = s"
  by (subst skip_spaces.simps) simp

lemma suffix_skip_spaces: "suffix (skip_spaces dir s) s"
proof (induction dir s rule: skip_spaces.induct)
  case (1 dir s)
  show ?case
  proof (cases "space_at dir s = 0")
    case False
    then show ?thesis
      using 1 suffix_drop [of "space_at dir s" s] by (subst skip_spaces.simps) (auto intro: suffix_order.trans)
  qed (simp add: skip_spaces_id)
qed

lemma space_at_zero:
  assumes "\<not> is_space c" "list_all (\<lambda>w. \<not> starts_with [c] (take 1 (dir w)) \<and> dir w \<noteq> []) wide_spaces"
  shows "space_at dir (c # s) = 0"
proof -
  have "\<not> starts_with (c # s) (dir w)" if "w \<in> set wide_spaces" for w
    using assms(2) that by (cases "dir w") (auto simp: list_all_iff starts_with_simps)
  then have "find (\<lambda>w. starts_with (c # s) (dir w)) wide_spaces = None" by (simp add: find_None_iff)
  with assms(1) show ?thesis by (simp add: space_at_def)
qed

lemma space_at_marks:
  "space_at id (CHR ''{'' # s) = 0" "space_at rev (CHR ''}'' # s) = 0" "space_at rev (CHR 0xBD # s) = 0"
  by (rule space_at_zero; code_simp)+

lemma u_strip_object: "u_strip (CHR ''{'' # s @ ''}'') = CHR ''{'' # s @ ''}''"
  by (simp add: u_strip_def skip_spaces_id space_at_marks)

lemma u_strip_replacement: "u_strip (CHR ''{'' # s @ replacement) = CHR ''{'' # s @ replacement"
  by (simp add: u_strip_def skip_spaces_id space_at_marks replacement_def)

lemma u_strip_open: "prefix (u_strip (CHR ''{'' # s)) (CHR ''{'' # s)"
  using suffix_skip_spaces [of rev "rev (CHR ''{'' # s)"]
  by (simp add: u_strip_def skip_spaces_id space_at_marks suffix_to_prefix)

section \<open>Pieces of text\<close>

lemma follow_cont:
  "follow b = Some rs \<Longrightarrow> (l, h) \<in> set rs \<Longrightarrow> 128 \<le> l \<and> h < 192"
  by (auto simp: follow_def split: if_splits)

lemma matching_cont:
  "matching rs s = length rs \<Longrightarrow> (\<And>l h. (l, h) \<in> set rs \<Longrightarrow> 128 \<le> l \<and> h < 192) \<Longrightarrow>
   \<forall>c \<in> set (take (length rs) s). cont_byte c"
  by (induction rs s rule: matching.induct) (fastforce split: if_splits simp: cont_byte_def)+

lemma utf8_hd: "utf8 (c # cs) \<Longrightarrow> \<not> cont_byte c"
  by (auto simp: follow_def cont_byte_def split: option.splits if_splits)

text \<open>The first character of a UTF-8 text and the rest.\<close>

lemma utf8_char:
  assumes "utf8 (c # cs)"
  obtains rs where "follow (of_char c) = Some rs" "matching rs cs = length rs" "utf8 (drop (length rs) cs)"
    "takeWhile cont_byte cs = take (length rs) cs" "dropWhile cont_byte cs = drop (length rs) cs"
    "length (take (length rs) cs) = length rs"
proof -
  obtain rs where rs: "follow (of_char c) = Some rs" "matching rs cs = length rs" "utf8 (drop (length rs) cs)"
    using assms by (auto split: option.splits)
  have all: "\<forall>c \<in> set (take (length rs) cs). cont_byte c"
    using rs(2) follow_cont [OF rs(1)] by (rule matching_cont)
  have stop: "drop (length rs) cs = [] \<or> \<not> cont_byte (hd (drop (length rs) cs))"
    using utf8_hd rs(3) by (cases "drop (length rs) cs") auto
  have "takeWhile cont_byte (take (length rs) cs @ drop (length rs) cs) = take (length rs) cs"
    "dropWhile cont_byte (take (length rs) cs @ drop (length rs) cs) = drop (length rs) cs"
    using all stop by (cases "drop (length rs) cs"; simp add: takeWhile_append2 dropWhile_append2 del: append_take_drop_id)+
  moreover have "length (take (length rs) cs) = length rs" using rs(2) matching_le_length [of rs cs] by simp
  ultimately show thesis using rs that by simp
qed

lemma utf8_u_take: "utf8 s \<Longrightarrow> utf8 (u_take n s)"
proof (induction n s rule: u_take.induct)
  case (3 n c cs)
  then obtain rs where rs: "follow (of_char c) = Some rs" "matching rs cs = length rs" "utf8 (drop (length rs) cs)"
    "takeWhile cont_byte cs = take (length rs) cs" "dropWhile cont_byte cs = drop (length rs) cs"
    "length (take (length rs) cs) = length rs"
    by (elim utf8_char)
  then show ?case using "3.IH" matching_take [OF rs(2)] by simp
qed simp_all

lemma u_take_prefix: "prefix (u_take n s) s"
proof (induction n s rule: u_take.induct)
  case (3 n c cs)
  then have "prefix (takeWhile cont_byte cs @ u_take n (dropWhile cont_byte cs)) (takeWhile cont_byte cs @ dropWhile cont_byte cs)"
    by (simp del: takeWhile_dropWhile_id)
  then show ?case by simp
qed simp_all

lemma no_separator_prefix: "no_separator (s @ t) \<Longrightarrow> no_separator s"
  by (induction s) (auto dest: starts_with_mono [of "_ # _", simplified])

lemma no_separator_suffix: "no_separator (s @ t) \<Longrightarrow> no_separator t"
  by (induction s) auto

lemma no_separator_cont: "\<forall>c \<in> set s. cont_byte c \<Longrightarrow> no_separator t \<Longrightarrow> no_separator (s @ t)"
  by (induction s) (auto simp: starts_with_simps cont_byte_def)

lemma starts_with_long: "length w \<le> length s \<Longrightarrow> starts_with (s @ t) w = starts_with s w"
  by (simp add: starts_with_def)

lemma no_separator_append: "utf8 s \<Longrightarrow> no_separator s \<Longrightarrow> no_separator t \<Longrightarrow> no_separator (s @ t)"
proof (induction s rule: utf8.induct)
  case (2 c cs)
  obtain rs where rs: "follow (of_char c) = Some rs" "matching rs cs = length rs" "utf8 (drop (length rs) cs)"
    "length (take (length rs) cs) = length rs"
    using "2.prems"(1) by (elim utf8_char)
  have cs: "no_separator (take (length rs) cs @ drop (length rs) cs)" using "2.prems"(2) by simp
  have "no_separator (drop (length rs) cs @ t)"
    using "2.IH" [OF rs(1) rs(3)] no_separator_suffix [OF cs] "2.prems"(3) by blast
  then have "no_separator (take (length rs) cs @ drop (length rs) cs @ t)"
    using no_separator_cont [OF matching_cont [OF rs(2) follow_cont [OF rs(1)]]] by blast
  then have rest: "no_separator (cs @ t)" by (metis append.assoc append_take_drop_id)
  define seps where "seps = {[CHR 0xC2, CHR 0x85], [CHR 0xE2, CHR 0x80, CHR 0xA8], [CHR 0xE2, CHR 0x80, CHR 0xA9]}"
  have "\<not> starts_with (c # cs @ t) w" if "w \<in> seps" for w
  proof (cases "c = hd w")
    case True
    have "length w \<le> length (c # cs)" using rs(1,4) True that by (auto simp: follow_def seps_def)
    moreover have "\<not> starts_with (c # cs) w" using "2.prems"(2) that by (auto simp: seps_def)
    ultimately show ?thesis using starts_with_long [of w "c # cs" t] by simp
  next
    case False
    then show ?thesis using that by (auto simp: seps_def starts_with_simps)
  qed
  then show ?case using rest by (simp add: seps_def)
qed simp

end
