(* ===== verification/Streaming_Journal.thy ===== *)
theory Streaming_Journal
  imports Json_Text
begin

text \<open>
  The write-ahead journal of streaming output, \<^verbatim>\<open>core/memory/streaming_journal.py\<close>: class
  \<^verbatim>\<open>StreamingJournal\<close> with the recovery after a crash. Files are byte strings. What a call of the operating
  system does is an argument: the number of bytes a write brings to the file before it raises \<^verbatim>\<open>OSError\<close>
  (\<open>None\<close>: all of them), and whether \<^verbatim>\<open>open\<close>, \<^verbatim>\<open>read_text\<close>, \<^verbatim>\<open>write_text\<close> and \<^verbatim>\<open>unlink\<close> succeed. Bytes that a
  failed write left in the buffer of the file object are written first by the next one. Clock readings are arguments.
  Texts are UTF-8, so that encoding them cannot fail. Directories can always be made.
\<close>

section \<open>Definitions\<close>

text \<open>The paths: the default thread has a file of its own name, the others a directory; one legacy name.\<close>

datatype jpath = DefaultJournal string | ThreadJournal string string | LegacyJournal

definition journal_path :: "string \<Rightarrow> string \<Rightarrow> jpath" where
  "journal_path session thread = (if thread = ''default'' then DefaultJournal session else ThreadJournal session thread)"

record journal_fs =
  jf_files :: "(jpath \<times> string) list"
  jf_episodes :: "(string \<times> string) list"

record journal =
  jo_session :: string
  jo_thread :: string
  jo_fd :: bool
  jo_pending :: string
  jo_buffer :: string
  jo_last_flush :: rat
  jo_finalized :: bool

definition new_journal :: "string \<Rightarrow> string \<Rightarrow> journal" where
  "new_journal session thread =
     \<lparr>jo_session = session, jo_thread = thread, jo_fd = False, jo_pending = [], jo_buffer = [],
      jo_last_flush = 0, jo_finalized = False\<rparr>"

definition own_path :: "journal \<Rightarrow> jpath" where
  "own_path j = journal_path (jo_session j) (jo_thread j)"

subsection \<open>Writing\<close>

text \<open>Bytes handed to the file object: what is left over from failed writes goes first.\<close>

definition fd_write :: "nat option \<Rightarrow> string \<Rightarrow> journal \<times> journal_fs \<Rightarrow> journal \<times> journal_fs" where
  "fd_write w bytes s =
     (case s of (j, fs) \<Rightarrow>
        let all = jo_pending j @ bytes; n = (case w of None \<Rightarrow> length all | Some k \<Rightarrow> k)
        in (j\<lparr>jo_pending := drop n all\<rparr>,
            fs\<lparr>jf_files := AList.update (own_path j) (opt_or (map_of (jf_files fs) (own_path j)) [] @ take n all) (jf_files fs)\<rparr>))"

text \<open>\<^verbatim>\<open>event.setdefault("ts", ...)\<close> and \<^verbatim>\<open>json.dumps\<close> with a line feed.\<close>

definition event_line :: "string \<Rightarrow> (string \<times> string) list \<Rightarrow> string" where
  "event_line ts event = dumps (event @ [(''ts'', ts)]) @ [CHR 0x0A]"

definition write_event ::
  "nat option \<Rightarrow> string \<Rightarrow> (string \<times> string) list \<Rightarrow> journal \<times> journal_fs \<Rightarrow> journal \<times> journal_fs" where
  "write_event w ts event s = (if \<not> jo_fd (fst s) then s else fd_write w (event_line ts event) s)"

definition flush_buffer :: "nat option \<Rightarrow> string \<Rightarrow> rat \<Rightarrow> journal \<times> journal_fs \<Rightarrow> journal \<times> journal_fs" where
  "flush_buffer w ts now s =
     (if jo_buffer (fst s) = [] \<or> \<not> jo_fd (fst s) then s
      else case write_event w ts [(''ev'', ''text''), (''t'', jo_buffer (fst s))] s of (j, fs) \<Rightarrow>
             (j\<lparr>jo_buffer := [], jo_last_flush := now\<rparr>, fs))"

text \<open>Closing the file object writes what is left over; what still fails is lost.\<close>

definition close_fd :: "nat option \<Rightarrow> journal \<times> journal_fs \<Rightarrow> journal \<times> journal_fs" where
  "close_fd w s =
     (if \<not> jo_fd (fst s) then s
      else case fd_write w [] s of (j, fs) \<Rightarrow> (j\<lparr>jo_fd := False, jo_pending := []\<rparr>, fs))"

text \<open>
  What one operation meets: the monotonic clock at its start and after a flush, the local time of its two
  events, and the outcomes of its writes.
\<close>

record journal_env =
  je_now :: rat
  je_later :: rat
  je_ts1 :: string
  je_ts2 :: string
  je_write1 :: "nat option"
  je_write2 :: "nat option"
  je_close :: "nat option"

definition journal_live :: "journal \<Rightarrow> bool" where
  "journal_live j = (jo_fd j \<and> \<not> jo_finalized j)"

definition write_text :: "journal_env \<Rightarrow> string \<Rightarrow> journal \<times> journal_fs \<Rightarrow> journal \<times> journal_fs" where
  "write_text e text s =
     (if \<not> journal_live (fst s) then s
      else let s1 = ((fst s)\<lparr>jo_buffer := jo_buffer (fst s) @ text\<rparr>, snd s)
           in if 500 \<le> u_length (jo_buffer (fst s1)) \<or> 1 \<le> je_now e - jo_last_flush (fst s1)
              then flush_buffer (je_write1 e) (je_ts1 e) (je_later e) s1 else s1)"

definition tool_event :: "string \<Rightarrow> string \<Rightarrow> string \<Rightarrow> string \<Rightarrow> string \<Rightarrow> (string \<times> string) list" where
  "tool_event ev tool field summary tool_id =
     [(''ev'', ev), (''tool'', tool), (field, u_take 200 summary)] @ (if tool_id = [] then [] else [(''tool_id'', tool_id)])"

definition write_tool_start ::
  "journal_env \<Rightarrow> string \<Rightarrow> string \<Rightarrow> string \<Rightarrow> journal \<times> journal_fs \<Rightarrow> journal \<times> journal_fs" where
  "write_tool_start e tool args tool_id s =
     (if \<not> journal_live (fst s) then s
      else write_event (je_write2 e) (je_ts2 e) (tool_event ''tool_start'' tool ''args_summary'' args tool_id)
             (flush_buffer (je_write1 e) (je_ts1 e) (je_later e) s))"

definition write_tool_end ::
  "journal_env \<Rightarrow> string \<Rightarrow> string \<Rightarrow> string \<Rightarrow> journal \<times> journal_fs \<Rightarrow> journal \<times> journal_fs" where
  "write_tool_end e tool result tool_id s =
     (if \<not> journal_live (fst s) then s
      else write_event (je_write2 e) (je_ts2 e) (tool_event ''tool_end'' tool ''result_summary'' result tool_id)
             (flush_buffer (je_write1 e) (je_ts1 e) (je_later e) s))"

definition remove_file :: "bool \<Rightarrow> jpath \<Rightarrow> journal_fs \<Rightarrow> journal_fs" where
  "remove_file ok p fs = (if ok then fs\<lparr>jf_files := AList.delete p (jf_files fs)\<rparr> else fs)"

definition finalize :: "journal_env \<Rightarrow> bool \<Rightarrow> string \<Rightarrow> journal \<times> journal_fs \<Rightarrow> journal \<times> journal_fs" where
  "finalize e unlink_ok summary s =
     (if \<not> journal_live (fst s) then s
      else case write_event (je_write2 e) (je_ts2 e) [(''ev'', ''done''), (''summary'', u_take 500 summary)]
                  (flush_buffer (je_write1 e) (je_ts1 e) (je_later e) s) of (j, fs) \<Rightarrow>
           (case close_fd (je_close e) (j\<lparr>jo_finalized := True\<rparr>, fs) of (j', fs') \<Rightarrow>
              (j', remove_file unlink_ok (own_path j') fs')))"

definition close_journal :: "journal_env \<Rightarrow> journal \<times> journal_fs \<Rightarrow> journal \<times> journal_fs" where
  "close_journal e s =
     (if jo_finalized (fst s) then s
      else close_fd (je_close e) (flush_buffer (je_write1 e) (je_ts1 e) (je_later e) s))"

subsection \<open>Recovery\<close>

record recovery =
  rc_trigger :: json
  rc_from_person :: json
  rc_session_id :: json
  rc_started_at :: json
  rc_texts :: "json list"
  rc_tool_calls :: "dict list"
  rc_last_event_at :: json
  rc_is_complete :: bool

definition empty_recovery :: recovery where
  "empty_recovery =
     \<lparr>rc_trigger = JStr [], rc_from_person = JStr [], rc_session_id = JStr [], rc_started_at = JStr [],
      rc_texts = [], rc_tool_calls = [], rc_last_event_at = JStr [], rc_is_complete = False\<rparr>"

definition get_or_empty :: "dict \<Rightarrow> string \<Rightarrow> json" where
  "get_or_empty d k = opt_or (map_of d k) (JStr [])"

text \<open>The last element with a property, changed; \<open>None\<close> when there is none.\<close>

fun update_first :: "('a \<Rightarrow> bool) \<Rightarrow> ('a \<Rightarrow> 'a) \<Rightarrow> 'a list \<Rightarrow> 'a list option" where
  "update_first P f [] = None"
| "update_first P f (x # xs) = (if P x then Some (f x # xs) else map_option (Cons x) (update_first P f xs))"

definition update_last :: "('a \<Rightarrow> bool) \<Rightarrow> ('a \<Rightarrow> 'a) \<Rightarrow> 'a list \<Rightarrow> 'a list option" where
  "update_last P f xs = map_option rev (update_first P f (rev xs))"

definition call_started :: "dict \<Rightarrow> bool" where
  "call_started tc = (map_of tc ''status'' = Some (JStr ''started''))"

definition complete_call :: "dict \<Rightarrow> dict \<Rightarrow> dict" where
  "complete_call entry tc =
     AList.update ''result_summary'' (get_or_empty entry ''result_summary'') (AList.update ''status'' (JStr ''completed'') tc)"

definition started_call :: "dict \<Rightarrow> dict" where
  "started_call entry =
     [(''tool'', get_or_empty entry ''tool''), (''args_summary'', get_or_empty entry ''args_summary''),
      (''status'', JStr ''started'')] @
     (if dict_truthy entry ''tool_id'' then [(''tool_id'', get_or_empty entry ''tool_id'')] else [])"

definition end_call :: "dict \<Rightarrow> dict list \<Rightarrow> dict list" where
  "end_call entry calls =
     (let tool = get_or_empty entry ''tool''; tid = get_or_empty entry ''tool_id'';
          by_id = (if truthy tid then update_last (\<lambda>tc. map_of tc ''tool_id'' = Some tid \<and> call_started tc) (complete_call entry) calls
                   else None)
      in case by_id of
           Some cs \<Rightarrow> cs
         | None \<Rightarrow>
             (case update_last (\<lambda>tc. map_of tc ''tool'' = Some tool \<and> call_started tc) (complete_call entry) calls of
                Some cs \<Rightarrow> cs
              | None \<Rightarrow> calls @ [[(''tool'', tool), (''result_summary'', get_or_empty entry ''result_summary''),
                                (''status'', JStr ''completed'')] @ (if truthy tid then [(''tool_id'', tid)] else [])]))"

text \<open>One decoded entry; the chain of \<^verbatim>\<open>elif\<close>s on \<^verbatim>\<open>ev\<close>.\<close>

definition recover_entry :: "dict \<Rightarrow> recovery \<Rightarrow> recovery" where
  "recover_entry entry st =
     (let ev = get_or_empty entry ''ev''; ts = get_or_empty entry ''ts'';
          st1 = (if truthy ts then st\<lparr>rc_last_event_at := ts\<rparr> else st)
      in if ev = JStr ''start'' then
           st1\<lparr>rc_trigger := get_or_empty entry ''trigger'', rc_from_person := get_or_empty entry ''from'',
               rc_session_id := get_or_empty entry ''session_id'', rc_started_at := ts\<rparr>
         else if ev = JStr ''text'' then st1\<lparr>rc_texts := rc_texts st1 @ [get_or_empty entry ''t'']\<rparr>
         else if ev = JStr ''tool_start'' then st1\<lparr>rc_tool_calls := rc_tool_calls st1 @ [started_call entry]\<rparr>
         else if ev = JStr ''tool_end'' then st1\<lparr>rc_tool_calls := end_call entry (rc_tool_calls st1)\<rparr>
         else if ev = JStr ''done'' then st1\<lparr>rc_is_complete := True\<rparr>
         else st1)"

text \<open>One line: blank and corrupted lines are skipped; a line that is JSON but no object raises.\<close>

definition recover_line :: "string \<Rightarrow> recovery \<Rightarrow> py_error + recovery" where
  "recover_line raw st =
     (let line = u_strip raw
      in if line = [] then Inr st
         else case loads line of
                None \<Rightarrow> Inr st
              | Some (JObj entry) \<Rightarrow> Inr (recover_entry entry st)
              | Some _ \<Rightarrow> Inl (AttributeError ''get''))"

fun recover_lines :: "string list \<Rightarrow> recovery \<Rightarrow> py_error + recovery" where
  "recover_lines [] st = Inr st"
| "recover_lines (l # ls) st = (case recover_line l st of Inl e \<Rightarrow> Inl e | Inr st' \<Rightarrow> recover_lines ls st')"

fun join_texts :: "json list \<Rightarrow> string option" where
  "join_texts [] = Some []"
| "join_texts (JStr s # xs) = map_option (append s) (join_texts xs)"
| "join_texts _ = None"

definition recover_bytes :: "string \<Rightarrow> py_error + recovery \<times> string" where
  "recover_bytes bytes =
     (case recover_lines (u_splitlines (decode_replace bytes)) empty_recovery of
        Inl e \<Rightarrow> Inl e
      | Inr st \<Rightarrow> (case join_texts (rc_texts st) of
                    None \<Rightarrow> Inl (TypeError ''join'') | Some text \<Rightarrow> Inr (st, text)))"

text \<open>\<^verbatim>\<open>recover\<close>: a legacy file of the chat session gets its new name first.\<close>

definition migrate_legacy :: "string \<Rightarrow> string \<Rightarrow> journal_fs \<Rightarrow> journal_fs" where
  "migrate_legacy session thread fs =
     (if thread = ''default'' \<and> map_of (jf_files fs) (DefaultJournal session) = None \<and> session = ''chat''
      then (case map_of (jf_files fs) LegacyJournal of
              None \<Rightarrow> fs
            | Some bytes \<Rightarrow>
                fs\<lparr>jf_files := AList.update (DefaultJournal session) bytes (AList.delete LegacyJournal (jf_files fs))\<rparr>)
      else fs)"

definition recover ::
  "bool \<Rightarrow> string \<Rightarrow> string \<Rightarrow> journal_fs \<Rightarrow> (py_error + (recovery \<times> string) option) \<times> journal_fs" where
  "recover read_ok session thread fs =
     (let fs1 = migrate_legacy session thread fs
      in case map_of (jf_files fs1) (journal_path session thread) of
           None \<Rightarrow> (Inr None, fs1)
         | Some bytes \<Rightarrow>
             if \<not> read_ok then (Inr None, fs1)
             else case recover_bytes bytes of Inl e \<Rightarrow> (Inl e, fs1) | Inr r \<Rightarrow> (Inr (Some r), fs1))"

definition confirm_recovery :: "bool \<Rightarrow> bool \<Rightarrow> string \<Rightarrow> string \<Rightarrow> journal_fs \<Rightarrow> journal_fs" where
  "confirm_recovery unlink_ok legacy_ok session thread fs =
     (let fs1 = remove_file unlink_ok (journal_path session thread) fs
      in if session = ''chat'' \<and> thread = ''default'' then remove_file legacy_ok LegacyJournal fs1 else fs1)"

definition has_orphan :: "string \<Rightarrow> journal_fs \<Rightarrow> bool" where
  "has_orphan session fs =
     (map_of (jf_files fs) (DefaultJournal session) \<noteq> None \<or>
      session = ''chat'' \<and> map_of (jf_files fs) LegacyJournal \<noteq> None \<or>
      list_ex (\<lambda>(p, _). case p of ThreadJournal s _ \<Rightarrow> s = session | _ \<Rightarrow> False) (jf_files fs))"

text \<open>The thread directories come in the order of the file list.\<close>

definition thread_orphans :: "string \<Rightarrow> journal_fs \<Rightarrow> string list" where
  "thread_orphans session fs =
     concat (map (\<lambda>(p, _). case p of ThreadJournal s th \<Rightarrow> if s = session \<and> th \<noteq> session then [th] else [] | _ \<Rightarrow> [])
       (jf_files fs))"

definition list_orphan_thread_ids :: "string \<Rightarrow> journal_fs \<Rightarrow> string list" where
  "list_orphan_thread_ids session fs =
     (if map_of (jf_files fs) (DefaultJournal session) \<noteq> None \<or>
         session = ''chat'' \<and> map_of (jf_files fs) LegacyJournal \<noteq> None then [''default''] else []) @
     thread_orphans session fs"

subsection \<open>Opening\<close>

text \<open>
  The episode file of a recovered journal; \<open>pr\<close> is \<^verbatim>\<open>str\<close> on a JSON value. The name carries the second, so that a
  second recovery in the same second replaces the file.
\<close>

definition persist_recovery ::
  "(json \<Rightarrow> string) \<Rightarrow> string \<Rightarrow> string \<Rightarrow> bool \<Rightarrow> recovery \<times> string \<Rightarrow> journal_fs \<Rightarrow> journal_fs" where
  "persist_recovery pr date hhmmss write_ok r fs =
     (let nl = [CHR 0x0A];
          content = ''# Recovered Streaming Journal ('' @ pr (rc_trigger (fst r)) @ '')'' @ nl @
            ''- from: '' @ pr (rc_from_person (fst r)) @ nl @ ''- session_id: '' @ pr (rc_session_id (fst r)) @ nl @
            ''- started_at: '' @ pr (rc_started_at (fst r)) @ nl @ ''- last_event_at: '' @ pr (rc_last_event_at (fst r)) @ nl @
            ''- complete: '' @ (if rc_is_complete (fst r) then ''True'' else ''False'') @ nl @ nl @
            ''## Recovered Text'' @ nl @ nl @ snd r
      in if write_ok
         then fs\<lparr>jf_episodes := AList.update (date @ ''_recovered-'' @ hhmmss @ ''.md'') content (jf_episodes fs)\<rparr>
         else fs)"

definition salvage_orphan ::
  "(json \<Rightarrow> string) \<Rightarrow> string \<Rightarrow> string \<Rightarrow> bool \<Rightarrow> bool \<Rightarrow> journal \<Rightarrow> journal_fs \<Rightarrow> py_error + journal_fs" where
  "salvage_orphan pr date hhmmss read_ok write_ok j fs =
     (if map_of (jf_files fs) (own_path j) = None then Inr fs
      else case recover read_ok (jo_session j) (jo_thread j) fs of
             (Inl e, _) \<Rightarrow> Inl e
           | (Inr (Some r), fs1) \<Rightarrow> Inr (if snd r = [] then fs1 else persist_recovery pr date hhmmss write_ok r fs1)
           | (Inr None, fs1) \<Rightarrow> Inr fs1)"

definition start_event :: "string \<Rightarrow> string \<Rightarrow> string \<Rightarrow> (string \<times> string) list" where
  "start_event trigger from_person session_id =
     [(''ev'', ''start''), (''trigger'', trigger), (''from'', from_person), (''session_id'', session_id)]"

definition open_journal ::
  "(json \<Rightarrow> string) \<Rightarrow> string \<Rightarrow> string \<Rightarrow> bool \<Rightarrow> bool \<Rightarrow> bool \<Rightarrow> journal_env \<Rightarrow> string \<Rightarrow> string \<Rightarrow> string
   \<Rightarrow> journal \<times> journal_fs \<Rightarrow> (py_error + unit) \<times> journal \<times> journal_fs" where
  "open_journal pr date hhmmss read_ok write_ok open_ok e trigger from_person session_id s =
     (case s of (j, fs) \<Rightarrow>
        case salvage_orphan pr date hhmmss read_ok write_ok j fs of
          Inl err \<Rightarrow> (Inl err, j, fs)
        | Inr fs1 \<Rightarrow>
            if \<not> open_ok then (Inr (), j\<lparr>jo_fd := False, jo_pending := []\<rparr>, fs1)
            else (Inr (), write_event (je_write1 e) (je_ts1 e) (start_event trigger from_person session_id)
                    (j\<lparr>jo_fd := True, jo_pending := [], jo_buffer := [], jo_last_flush := je_now e, jo_finalized := False\<rparr>,
                     fs1\<lparr>jf_files := AList.update (own_path j) [] (jf_files fs1)\<rparr>)))"

section \<open>The specification: a list of events\<close>

text \<open>The operations of an open journal.\<close>

datatype jop =
    OpText journal_env string
  | OpToolStart journal_env string string string
  | OpToolEnd journal_env string string string

fun jstep :: "jop \<Rightarrow> journal \<times> journal_fs \<Rightarrow> journal \<times> journal_fs" where
  "jstep (OpText e t) s = write_text e t s"
| "jstep (OpToolStart e tool args tid) s = write_tool_start e tool args tid s"
| "jstep (OpToolEnd e tool result tid) s = write_tool_end e tool result tid s"

text \<open>
  The abstract journal: the events with their time stamps, no bytes, no files, no failing writes; the buffer as in
  the code.
\<close>

record jlog =
  jl_events :: "(string \<times> (string \<times> string) list) list"
  jl_buffer :: string
  jl_last_flush :: rat

definition log_add :: "string \<Rightarrow> (string \<times> string) list \<Rightarrow> jlog \<Rightarrow> jlog" where
  "log_add ts event l = l\<lparr>jl_events := jl_events l @ [(ts, event)]\<rparr>"

definition log_flush :: "string \<Rightarrow> rat \<Rightarrow> jlog \<Rightarrow> jlog" where
  "log_flush ts now l =
     (if jl_buffer l = [] then l
      else (log_add ts [(''ev'', ''text''), (''t'', jl_buffer l)] l)\<lparr>jl_buffer := [], jl_last_flush := now\<rparr>)"

fun log_step :: "jop \<Rightarrow> jlog \<Rightarrow> jlog" where
  "log_step (OpText e t) l =
     (let l1 = l\<lparr>jl_buffer := jl_buffer l @ t\<rparr>
      in if 500 \<le> u_length (jl_buffer l1) \<or> 1 \<le> je_now e - jl_last_flush l1 then log_flush (je_ts1 e) (je_later e) l1 else l1)"
| "log_step (OpToolStart e tool args tid) l =
     log_add (je_ts2 e) (tool_event ''tool_start'' tool ''args_summary'' args tid) (log_flush (je_ts1 e) (je_later e) l)"
| "log_step (OpToolEnd e tool result tid) l =
     log_add (je_ts2 e) (tool_event ''tool_end'' tool ''result_summary'' result tid) (log_flush (je_ts1 e) (je_later e) l)"

definition log_lines :: "(string \<times> (string \<times> string) list) list \<Rightarrow> string" where
  "log_lines evs = concat (map (\<lambda>(ts, ev). event_line ts ev) evs)"

text \<open>The file holds the first bytes of the events, the file object the others.\<close>

definition shows_log :: "journal \<times> journal_fs \<Rightarrow> jlog \<Rightarrow> bool" where
  "shows_log s l \<longleftrightarrow>
     journal_live (fst s) \<and> jo_buffer (fst s) = jl_buffer l \<and> jo_last_flush (fst s) = jl_last_flush l \<and>
     (\<exists>d. map_of (jf_files (snd s)) (own_path (fst s)) = Some d \<and> d @ jo_pending (fst s) = log_lines (jl_events l))"

lemma log_lines_snoc: "log_lines (evs @ [(ts, ev)]) = log_lines evs @ event_line ts ev"
  by (simp add: log_lines_def)

lemma shows_write_event:
  assumes "shows_log s l"
  shows "shows_log (write_event w ts ev s) (log_add ts ev l)"
proof -
  obtain j fs d where s: "s = (j, fs)" and live: "journal_live j" and d: "map_of (jf_files fs) (own_path j) = Some d"
    and eq: "d @ jo_pending j = log_lines (jl_events l)"
    using assms by (cases s) (auto simp: shows_log_def)
  define n where "n = (case w of None \<Rightarrow> length (jo_pending j @ event_line ts ev) | Some k \<Rightarrow> k)"
  have "(d @ take n (jo_pending j @ event_line ts ev)) @ drop n (jo_pending j @ event_line ts ev) =
      log_lines (jl_events l @ [(ts, ev)])"
    using eq by (simp add: log_lines_snoc del: take_append drop_append)
  then show ?thesis
    using assms live d s
    by (simp add: shows_log_def write_event_def fd_write_def log_add_def journal_live_def own_path_def Let_def
        n_def [symmetric] update_conv del: take_append drop_append append_assoc)
qed

lemma shows_flush_buffer: "shows_log s l \<Longrightarrow> shows_log (flush_buffer w ts now s) (log_flush ts now l)"
proof (cases "jl_buffer l = []")
  case True
  moreover assume "shows_log s l"
  ultimately show ?thesis by (auto simp: shows_log_def flush_buffer_def log_flush_def)
next
  case False
  assume a: "shows_log s l"
  then have "shows_log (write_event w ts [(''ev'', ''text''), (''t'', jo_buffer (fst s))] s)
      (log_add ts [(''ev'', ''text''), (''t'', jl_buffer l)] l)"
    using shows_write_event [OF a] by (simp add: shows_log_def)
  with a False show ?thesis
    by (auto simp: shows_log_def flush_buffer_def log_flush_def journal_live_def own_path_def split: prod.splits)
qed

lemma shows_step: "shows_log s l \<Longrightarrow> shows_log (jstep op s) (log_step op l)"
proof (cases op)
  case (OpText e t)
  assume a: "shows_log s l"
  then have b: "shows_log ((fst s)\<lparr>jo_buffer := jo_buffer (fst s) @ t\<rparr>, snd s) (l\<lparr>jl_buffer := jl_buffer l @ t\<rparr>)"
    by (simp add: shows_log_def journal_live_def own_path_def)
  show ?thesis
    using a b shows_flush_buffer [OF b, of "je_write1 e" "je_ts1 e" "je_later e"] OpText
    by (auto simp: write_text_def Let_def shows_log_def)
next
  case (OpToolStart e tool args tid)
  assume a: "shows_log s l"
  then show ?thesis
    using OpToolStart shows_write_event [OF shows_flush_buffer [OF a]] by (simp add: write_tool_start_def shows_log_def)
next
  case (OpToolEnd e tool result tid)
  assume a: "shows_log s l"
  then show ?thesis
    using OpToolEnd shows_write_event [OF shows_flush_buffer [OF a]] by (simp add: write_tool_end_def shows_log_def)
qed

interpretation wal: simulation jstep log_step shows_log "\<lambda>_. True"
  by unfold_locales (rule shows_step)

section \<open>Recovery from any cut of the file\<close>

text \<open>The recovery the events stand for.\<close>

definition entry_of :: "string \<times> (string \<times> string) list \<Rightarrow> dict" where
  "entry_of x = map (map_prod id JStr) (snd x @ [(''ts'', fst x)])"

definition log_recovery :: "(string \<times> (string \<times> string) list) list \<Rightarrow> recovery \<Rightarrow> recovery" where
  "log_recovery evs st = fold (\<lambda>x. recover_entry (entry_of x)) evs st"

definition text_ok :: "string \<Rightarrow> bool" where
  "text_ok s = (utf8 s \<and> no_separator s)"

definition event_ok :: "string \<times> (string \<times> string) list \<Rightarrow> bool" where
  "event_ok x = (distinct (map fst (snd x @ [(''ts'', fst x)])) \<and> (\<forall>(k, v) \<in> set (snd x @ [(''ts'', fst x)]). text_ok k \<and> text_ok v))"

lemma recover_line_body:
  assumes "event_ok x"
  shows "recover_line (dumps (snd x @ [(''ts'', fst x)])) st = Inr (recover_entry (entry_of x) st)"
proof -
  have "u_strip (dumps d) = dumps d" for d by (simp add: dumps_def u_strip_object)
  then show ?thesis
    using loads_dumps [of "snd x @ [(''ts'', fst x)]"] assms
    by (simp add: recover_line_def event_ok_def entry_of_def Let_def) (simp add: dumps_def)
qed

text \<open>The piece of a line that a crash leaves is skipped.\<close>

lemma recover_line_torn:
  assumes x: "event_ok x" and p: "prefix p (dumps (snd x @ [(''ts'', fst x)]))" and short: "p \<noteq> dumps (snd x @ [(''ts'', fst x)])"
    and ne: "p \<noteq> []"
  shows "recover_line p st = Inr st \<and> unbroken p"
proof -
  define body where "body = dumps (snd x @ [(''ts'', fst x)])"
  have b: "unbroken body" using x unbroken_dumps [of "snd x @ [(''ts'', fst x)]"]
    unfolding body_def by (auto simp: event_ok_def text_ok_def)
  obtain y where p': "p = CHR ''{'' # y" using p ne by (cases p) (auto simp: dumps_def)
  obtain t where t: "body = u_strip p @ t" "t \<noteq> []"
  proof -
    have "prefix (u_strip p) p" unfolding p' by (rule u_strip_open)
    then obtain z z' where "p = u_strip p @ z" "body = p @ z'" "z' \<noteq> []"
      using p short unfolding body_def prefix_def by (metis append_Nil2)
    then show thesis using that [of "z @ z'"] by (metis append.assoc append_is_Nil_conv)
  qed
  have "loads (u_strip p) = None" if "u_strip p \<noteq> []"
  proof (rule torn_object [where t = t])
    show "scan_value (Suc (length body)) (u_strip p @ t) = Some (JObj (map (map_prod id JStr) (snd x @ [(''ts'', fst x)])), [])"
      using scan_dumps [of "snd x @ [(''ts'', fst x)]"] x t(1) by (simp add: event_ok_def body_def [symmetric])
    show "starts_with (u_strip p) ''{''"
      using that t(1) by (cases "u_strip p") (auto simp: body_def dumps_def starts_with_simps)
  qed (rule t(2))
  then have "recover_line p st = Inr st" by (simp add: recover_line_def Let_def)
  moreover have "unbroken p" using b p by (auto simp: body_def prefix_def dest: unbroken_prefix)
  ultimately show ?thesis ..
qed

lemma unbroken_replacement: "unbroken q \<Longrightarrow> unbroken (q @ replacement)"
proof (induction q)
  case Nil
  then show ?case by (simp add: replacement_def break_at_def starts_with_simps)
next
  case (Cons c cs)
  have "starts_with (cs @ replacement) w = starts_with cs w" if "w \<in> {[CHR 0x85], [CHR 0x80, CHR 0xA8], [CHR 0x80, CHR 0xA9], [CHR 0x0A]}" for w
    using that by (cases cs; cases "tl cs") (auto simp: replacement_def starts_with_simps)
  with Cons show ?case by (auto simp: break_at_def starts_with_simps split: if_splits)
qed

lemma recover_line_replaced:
  "recover_line (CHR ''{'' # q @ replacement) st = Inr st"
  using loads_replacement [of "CHR ''{'' # q"] u_strip_replacement [of q]
  by (simp add: recover_line_def starts_with_simps)

lemma recover_torn:
  assumes x: "event_ok x" and p: "prefix p (dumps (snd x @ [(''ts'', fst x)]))" and short: "p \<noteq> dumps (snd x @ [(''ts'', fst x)])"
  shows "recover_lines (u_splitlines (decode_replace p)) st = Inr st"
proof (cases "p = []")
  case True
  then show ?thesis by (simp add: u_splitlines_def)
next
  case False
  have "utf8 (dumps (snd x @ [(''ts'', fst x)]))" using x by (intro utf8_dumps) (auto simp: event_ok_def text_ok_def)
  then consider "decode_replace p = p" | q where "prefix q p" "decode_replace p = q @ replacement"
    using decode_replace_cut [OF _ p] by blast
  then show ?thesis
  proof cases
    case 1
    then show ?thesis
      using recover_line_torn [OF x p short False, of st] False by (simp add: u_splitlines_def u_lines_unbroken)
  next
    case (2 q)
    obtain y where "p = CHR ''{'' # y" using p False by (cases p) (auto simp: dumps_def)
    then have "decode_replace p = CHR ''{'' # decode_replace y" by (simp add: follow_def)
    with 2(2) obtain z where z: "q = CHR ''{'' # z" by (cases q) (auto simp: replacement_def)
    have "unbroken q" using recover_line_torn [OF x p short False] 2(1) by (auto simp: prefix_def dest: unbroken_prefix)
    then have "unbroken (q @ replacement)" by (rule unbroken_replacement)
    then show ?thesis using 2(2) z recover_line_replaced [of z st] by (simp add: u_splitlines_def u_lines_unbroken)
  qed
qed

lemma recover_lines_append:
  "recover_lines (ls @ ms) st = (case recover_lines ls st of Inl e \<Rightarrow> Inl e | Inr st' \<Rightarrow> recover_lines ms st')"
  by (induction ls arbitrary: st) (auto split: sum.splits)

text \<open>
  Any cut of the bytes of a list of events reads as the first events, and every event whose line is in the cut is
  among them.
\<close>

lemma recover_cut:
  assumes "\<forall>x \<in> set evs. event_ok x" "prefix d (log_lines evs)"
  shows "\<exists>k \<le> length evs. recover_lines (u_splitlines (decode_replace d)) st = Inr (log_recovery (take k evs) st) \<and>
    (k < length evs \<longrightarrow> length d < length (log_lines (take (Suc k) evs)))"
  using assms
proof (induction evs arbitrary: d st)
  case Nil
  then show ?case by (simp add: log_lines_def u_splitlines_def log_recovery_def)
next
  case (Cons x evs)
  define body where "body = dumps (snd x @ [(''ts'', fst x)])"
  have x: "event_ok x" using Cons.prems(1) by simp
  have utf: "utf8 body" unfolding body_def using x by (intro utf8_dumps) (auto simp: event_ok_def text_ok_def)
  have unb: "unbroken body" unfolding body_def using x by (intro unbroken_dumps) (auto simp: event_ok_def text_ok_def)
  have lines: "log_lines (x # evs) = body @ CHR 0x0A # log_lines evs"
    by (simp add: log_lines_def event_line_def body_def split: prod.split)
  from Cons.prems(2) consider (torn) "prefix d body" "d \<noteq> body" | (bare) "d = body" | (whole) d' where "d = body @ CHR 0x0A # d'" "prefix d' (log_lines evs)"
    unfolding lines by (auto simp: prefix_append prefix_Cons)
  then show ?case
  proof cases
    case torn
    then have "recover_lines (u_splitlines (decode_replace d)) st = Inr st"
      using recover_torn [OF x, of d] by (simp add: body_def)
    moreover have "length d < length (log_lines (take 1 (x # evs)))"
      using torn(1) by (auto simp: log_lines_def event_line_def body_def split: prod.split dest: prefix_length_le)
    ultimately show ?thesis by (intro exI [of _ 0]) (simp add: log_recovery_def)
  next
    case bare
    have "body \<noteq> []" by (simp add: body_def dumps_def)
    then have "u_splitlines (decode_replace d) = [body]"
      using bare decode_replace_id [OF utf] u_lines_unbroken [OF unb, of "[]"] by (simp add: u_splitlines_def)
    then have "recover_lines (u_splitlines (decode_replace d)) st = Inr (log_recovery (take 1 (x # evs)) st)"
      using recover_line_body [OF x, of st] by (simp add: body_def log_recovery_def)
    moreover have "length d < length (log_lines (take 2 (x # evs)))"
      using bare by (cases evs) (auto simp: log_lines_def event_line_def body_def split: prod.split)
    ultimately show ?thesis by (intro exI [of _ 1]) (simp add: numeral_2_eq_2)
  next
    case (whole d')
    obtain k where k: "k \<le> length evs"
      "recover_lines (u_splitlines (decode_replace d')) (recover_entry (entry_of x) st) =
         Inr (log_recovery (take k evs) (recover_entry (entry_of x) st))"
      "k < length evs \<longrightarrow> length d' < length (log_lines (take (Suc k) evs))"
      using Cons.IH [OF _ whole(2)] Cons.prems(1) by auto
    have "decode_replace d = body @ CHR 0x0A # decode_replace d'"
      using decode_replace_append [OF utf, of "CHR 0x0A # d'"] whole(1) by (simp add: follow_def)
    then have "u_splitlines (decode_replace d) = body # u_splitlines (decode_replace d')"
      using u_lines_line [OF unb, of "[]"] by (simp add: u_splitlines_def)
    then have "recover_lines (u_splitlines (decode_replace d)) st = Inr (log_recovery (take (Suc k) (x # evs)) st)"
      using recover_line_body [OF x, of st] k(2) by (simp add: body_def log_recovery_def)
    moreover have "Suc k < length (x # evs) \<longrightarrow> length d < length (log_lines (take (Suc (Suc k)) (x # evs)))"
      using k(3) whole(1) by (auto simp: log_lines_def event_line_def body_def split: prod.splits)
    ultimately show ?thesis using k(1) by (intro exI [of _ "Suc k"]) simp
  qed
qed

text \<open>The whole file gives all the events.\<close>

lemma recover_all:
  "\<forall>x \<in> set evs. event_ok x \<Longrightarrow> recover_lines (u_splitlines (decode_replace (log_lines evs))) st = Inr (log_recovery evs st)"
proof -
  assume "\<forall>x \<in> set evs. event_ok x"
  from recover_cut [OF this, of "log_lines evs" st] obtain k where k: "k \<le> length evs"
    "recover_lines (u_splitlines (decode_replace (log_lines evs))) st = Inr (log_recovery (take k evs) st)"
    "k < length evs \<longrightarrow> length (log_lines evs) < length (log_lines (take (Suc k) evs))" by auto
  have "length (log_lines (take n evs)) \<le> length (log_lines evs)" for n
    using append_take_drop_id [of n evs] by (metis log_lines_def map_append concat_append length_append le_add1)
  then have "\<not> k < length evs" using k(3) by (meson not_less)
  then have "take k evs = evs" by simp
  with k(2) show ?thesis by simp
qed

section \<open>What a recovery contains\<close>

lemma text_ok_append: "text_ok s \<Longrightarrow> text_ok t \<Longrightarrow> text_ok (s @ t)"
  by (simp add: text_ok_def utf8_append no_separator_append)

lemma text_ok_take: "text_ok s \<Longrightarrow> text_ok (u_take n s)"
  using u_take_prefix [of n s] unfolding text_ok_def prefix_def by (metis no_separator_prefix utf8_u_take)

text \<open>Literal keys and values.\<close>

lemma text_ok_literal [simp]:
  "text_ok []" "text_ok ''ev''" "text_ok ''t''" "text_ok ''ts''" "text_ok ''text''" "text_ok ''tool''" "text_ok ''tool_id''"
  "text_ok ''args_summary''" "text_ok ''result_summary''" "text_ok ''tool_start''" "text_ok ''tool_end''" "text_ok ''start''"
  "text_ok ''trigger''" "text_ok ''from''" "text_ok ''session_id''"
  by (code_simp, code_simp, code_simp, code_simp, code_simp, code_simp, code_simp, code_simp, code_simp, code_simp,
      code_simp, code_simp, code_simp, code_simp, code_simp)

fun op_ok :: "jop \<Rightarrow> bool" where
  "op_ok (OpText e t) = (text_ok (je_ts1 e) \<and> text_ok t)"
| "op_ok (OpToolStart e tool args tid) = (text_ok (je_ts1 e) \<and> text_ok (je_ts2 e) \<and> text_ok tool \<and> text_ok args \<and> text_ok tid)"
| "op_ok (OpToolEnd e tool result tid) = (text_ok (je_ts1 e) \<and> text_ok (je_ts2 e) \<and> text_ok tool \<and> text_ok result \<and> text_ok tid)"

definition log_ok :: "jlog \<Rightarrow> bool" where
  "log_ok l = ((\<forall>x \<in> set (jl_events l). event_ok x) \<and> text_ok (jl_buffer l))"

lemma log_ok_add: "log_ok l \<Longrightarrow> event_ok (ts, ev) \<Longrightarrow> log_ok (log_add ts ev l)"
  by (auto simp: log_ok_def log_add_def)

lemma log_ok_flush: "log_ok l \<Longrightarrow> text_ok ts \<Longrightarrow> log_ok (log_flush ts now l)"
  by (auto simp: log_ok_def log_flush_def log_add_def event_ok_def)

lemma event_ok_tool:
  "text_ok ts \<Longrightarrow> text_ok tool \<Longrightarrow> text_ok summary \<Longrightarrow> text_ok tid \<Longrightarrow>
   event_ok (ts, tool_event ''tool_start'' tool ''args_summary'' summary tid) \<and>
   event_ok (ts, tool_event ''tool_end'' tool ''result_summary'' summary tid)"
  by (auto simp: event_ok_def tool_event_def text_ok_take)

lemma log_ok_step: "log_ok l \<Longrightarrow> op_ok op \<Longrightarrow> log_ok (log_step op l)"
proof (cases op)
  case (OpText e t)
  assume a: "log_ok l" "op_ok op"
  then have "log_ok (l\<lparr>jl_buffer := jl_buffer l @ t\<rparr>)" using OpText by (auto simp: log_ok_def text_ok_append)
  then show ?thesis using OpText a log_ok_flush by (auto simp: Let_def)
next
  case (OpToolStart e tool args tid)
  assume "log_ok l" "op_ok op"
  then show ?thesis using OpToolStart event_ok_tool by (auto intro!: log_ok_add log_ok_flush)
next
  case (OpToolEnd e tool result tid)
  assume "log_ok l" "op_ok op"
  then show ?thesis using OpToolEnd event_ok_tool by (auto intro!: log_ok_add log_ok_flush)
qed

lemma log_ok_run: "log_ok l \<Longrightarrow> list_all op_ok ops \<Longrightarrow> log_ok (fold log_step ops l)"
  by (induction ops arbitrary: l) (auto intro: log_ok_step)

text \<open>The text of the events, and the text of the operations.\<close>

definition log_text :: "(string \<times> (string \<times> string) list) list \<Rightarrow> string" where
  "log_text evs = concat (map (\<lambda>(ts, ev). if map_of ev ''ev'' = Some ''text'' then opt_or (map_of ev ''t'') [] else []) evs)"

fun op_text :: "jop \<Rightarrow> string" where
  "op_text (OpText e t) = t"
| "op_text _ = []"

definition written :: "jop list \<Rightarrow> string" where
  "written ops = concat (map op_text ops)"

lemma log_text_append: "log_text (a @ b) = log_text a @ log_text b"
  by (simp add: log_text_def)

lemma log_text_add: "log_text (jl_events (log_add ts ev l)) = log_text (jl_events l) @ log_text [(ts, ev)]"
  by (simp add: log_text_def log_add_def)

lemma log_text_flush: "log_text (jl_events (log_flush ts now l)) @ jl_buffer (log_flush ts now l) = log_text (jl_events l) @ jl_buffer l"
  by (simp add: log_flush_def log_text_add) (simp add: log_text_def)

lemma log_text_step: "log_text (jl_events (log_step op l)) @ jl_buffer (log_step op l) = log_text (jl_events l) @ jl_buffer l @ op_text op"
proof (cases op)
  case (OpText e t)
  then show ?thesis using log_text_flush [of "je_ts1 e" "je_later e" "l\<lparr>jl_buffer := jl_buffer l @ t\<rparr>"] by (simp add: Let_def)
next
  case (OpToolStart e tool args tid)
  have "jl_buffer (log_flush ts now l) = []" for ts now by (simp add: log_flush_def)
  with OpToolStart log_text_flush [of "je_ts1 e" "je_later e" l] show ?thesis
    by (simp add: log_text_add) (simp add: log_text_def tool_event_def log_add_def)
next
  case (OpToolEnd e tool result tid)
  have "jl_buffer (log_flush ts now l) = []" for ts now by (simp add: log_flush_def)
  with OpToolEnd log_text_flush [of "je_ts1 e" "je_later e" l] show ?thesis
    by (simp add: log_text_add) (simp add: log_text_def tool_event_def log_add_def)
qed

lemma log_text_run:
  "log_text (jl_events (fold log_step ops l)) @ jl_buffer (fold log_step ops l) = log_text (jl_events l) @ jl_buffer l @ written ops"
proof (induction ops arbitrary: l)
  case (Cons op ops)
  then show ?case using log_text_step [of op l] by (simp add: written_def)
qed (simp add: written_def)

lemma map_of_entry: "map_of (map (map_prod id JStr) l) k = map_option JStr (map_of l k)"
  by (induction l) auto

lemma texts_entry:
  "rc_texts (recover_entry (entry_of x) st) =
     rc_texts st @ (if map_of (snd x) ''ev'' = Some ''text'' then [JStr (opt_or (map_of (snd x) ''t'') [])] else [])"
proof -
  have "get_or_empty (entry_of x) k = JStr (opt_or (map_of (snd x) k) [])" if "k \<noteq> ''ts''" for k
    using that by (cases "map_of (snd x) k") (simp_all add: get_or_empty_def entry_of_def map_of_entry map_add_def split: option.splits)
  from this [of "''ev''"] this [of "''t''"] show ?thesis
    by (cases "map_of (snd x) ''ev''") (auto simp: recover_entry_def Let_def)
qed

lemma join_texts_append: "join_texts xs = Some a \<Longrightarrow> join_texts (xs @ [JStr b]) = Some (a @ b)"
  by (induction xs arbitrary: a rule: join_texts.induct) auto

lemma join_log_recovery:
  "join_texts (rc_texts st) = Some a \<Longrightarrow> join_texts (rc_texts (log_recovery evs st)) = Some (a @ log_text evs)"
proof (induction evs arbitrary: st a)
  case (Cons x evs)
  have "log_text (x # evs) = log_text [x] @ log_text evs" by (simp add: log_text_def)
  moreover have "join_texts (rc_texts (recover_entry (entry_of x) st)) = Some (a @ log_text [x])"
    using Cons.prems by (auto simp: texts_entry log_text_def join_texts_append split: prod.split)
  ultimately show ?case using Cons.IH by (simp add: log_recovery_def)
qed (simp add: log_recovery_def log_text_def)

lemma recover_bytes_cut:
  assumes "\<forall>x \<in> set evs. event_ok x" "prefix d (log_lines evs)"
  shows "\<exists>k \<le> length evs. recover_bytes d = Inr (log_recovery (take k evs) empty_recovery, log_text (take k evs)) \<and>
    (k < length evs \<longrightarrow> length d < length (log_lines (take (Suc k) evs)))"
  using recover_cut [OF assms, of empty_recovery] join_log_recovery [of empty_recovery "[]"]
  by (force simp: recover_bytes_def empty_recovery_def)

lemma recover_bytes_all:
  "\<forall>x \<in> set evs. event_ok x \<Longrightarrow> recover_bytes (log_lines evs) = Inr (log_recovery evs empty_recovery, log_text evs)"
  using recover_all [of evs empty_recovery] join_log_recovery [of empty_recovery "[]" evs]
  by (simp add: recover_bytes_def empty_recovery_def)

section \<open>Crash safety\<close>

text \<open>The abstract journal after \<^verbatim>\<open>open\<close>.\<close>

definition opened_log :: "journal_env \<Rightarrow> string \<Rightarrow> string \<Rightarrow> string \<Rightarrow> jlog" where
  "opened_log e trigger from_person session_id =
     \<lparr>jl_events = [(je_ts1 e, start_event trigger from_person session_id)], jl_buffer = [], jl_last_flush = je_now e\<rparr>"

definition start_ok :: "journal_env \<Rightarrow> string \<Rightarrow> string \<Rightarrow> string \<Rightarrow> bool" where
  "start_ok e trigger from_person session_id =
     (text_ok (je_ts1 e) \<and> text_ok trigger \<and> text_ok from_person \<and> text_ok session_id)"

lemma opened_log_ok: "start_ok e trigger from_person session_id \<Longrightarrow> log_ok (opened_log e trigger from_person session_id)"
  by (auto simp: start_ok_def log_ok_def opened_log_def start_event_def event_ok_def)

lemma opened_log_text: "log_text (jl_events (opened_log e trigger from_person session_id)) = []"
  by (simp add: opened_log_def log_text_def start_event_def)

lemma shows_open:
  assumes "open_journal pr date hms read_ok write_ok True e trigger from_person session_id s = (Inr (), s0)"
  shows "shows_log s0 (opened_log e trigger from_person session_id)"
proof -
  obtain j fs where s: "s = (j, fs)" by (cases s)
  define j1 where "j1 = j\<lparr>jo_fd := True, jo_pending := [], jo_buffer := [], jo_last_flush := je_now e, jo_finalized := False\<rparr>"
  obtain fs1 where s0: "s0 = write_event (je_write1 e) (je_ts1 e) (start_event trigger from_person session_id)
      (j1, fs1\<lparr>jf_files := AList.update (own_path j) [] (jf_files fs1)\<rparr>)"
    using assms s by (auto simp: open_journal_def j1_def split: sum.splits)
  have "shows_log (j1, fs1\<lparr>jf_files := AList.update (own_path j) [] (jf_files fs1)\<rparr>) \<lparr>jl_events = [], jl_buffer = [], jl_last_flush = je_now e\<rparr>"
    by (simp add: shows_log_def j1_def journal_live_def own_path_def update_conv log_lines_def)
  from shows_write_event [OF this] show ?thesis by (simp add: s0 log_add_def opened_log_def)
qed

lemma shows_run:
  "open_journal pr date hms read_ok write_ok True e trigger from_person session_id s = (Inr (), s0) \<Longrightarrow>
   shows_log (fold jstep ops s0) (fold log_step ops (opened_log e trigger from_person session_id))"
  by (rule wal.sim_run [OF _ shows_open]) (simp add: list_all_iff)

text \<open>
  C29. Crash safety of texts without the line separators U+0085, U+2028 and U+2029 (\<open>start_ok\<close>, \<open>op_ok\<close>: valid UTF-8 and
  none of the three in any text, tool name, id or time stamp): whatever writes failed and wherever the file was cut, the
  recovery reads exactly the first events of the run, among them every event whose line is in the file, and its text is a
  prefix of the text that was written. The condition is needed: the journal writes the three characters unescaped and the
  recovery splits lines at them, so that a complete line is dropped (lemma \<^verbatim>\<open>separator_loses_text\<close>).
\<close>

theorem journal_crash_safe:
  assumes opened: "open_journal pr date hms read_ok write_ok True e trigger from_person session_id s = (Inr (), s0)"
    and ok: "start_ok e trigger from_person session_id" "list_all op_ok ops"
    and disk: "map_of (jf_files (snd (fold jstep ops s0))) (own_path (fst (fold jstep ops s0))) = Some d"
    and cut: "prefix d' d"
  defines "evs \<equiv> jl_events (fold log_step ops (opened_log e trigger from_person session_id))"
  shows "\<exists>k \<le> length evs. recover_bytes d' = Inr (log_recovery (take k evs) empty_recovery, log_text (take k evs)) \<and>
    (k < length evs \<longrightarrow> length d' < length (log_lines (take (Suc k) evs))) \<and> prefix (log_text (take k evs)) (written ops)"
proof -
  define l where "l = fold log_step ops (opened_log e trigger from_person session_id)"
  have "log_ok l" unfolding l_def using ok by (intro log_ok_run opened_log_ok)
  then have evs: "\<forall>x \<in> set evs. event_ok x" by (simp add: log_ok_def evs_def l_def)
  have "d @ jo_pending (fst (fold jstep ops s0)) = log_lines evs"
    using shows_run [OF opened, of ops] disk by (simp add: shows_log_def evs_def)
  then have "prefix d' (log_lines evs)" using cut by (metis prefix_order.trans prefixI)
  from recover_bytes_cut [OF evs this] obtain k where k: "k \<le> length evs"
    "recover_bytes d' = Inr (log_recovery (take k evs) empty_recovery, log_text (take k evs))"
    "k < length evs \<longrightarrow> length d' < length (log_lines (take (Suc k) evs))" by blast
  have "log_text evs @ jl_buffer l = written ops"
    using log_text_run [of ops "opened_log e trigger from_person session_id"]
    by (simp add: evs_def l_def opened_log_text) (simp add: opened_log_def)
  moreover have "log_text evs = log_text (take k evs) @ log_text (drop k evs)"
    using log_text_append [of "take k evs" "drop k evs"] by simp
  ultimately have "prefix (log_text (take k evs)) (written ops)" by (metis append.assoc prefixI)
  with k show ?thesis by blast
qed

subsection \<open>Without failing writes\<close>

fun op_clean :: "jop \<Rightarrow> bool" where
  "op_clean (OpText e t) = (je_write1 e = None)"
| "op_clean (OpToolStart e tool args tid) = (je_write1 e = None \<and> je_write2 e = None)"
| "op_clean (OpToolEnd e tool result tid) = (je_write1 e = None \<and> je_write2 e = None)"

lemma pending_write: "jo_pending (fst s) = [] \<Longrightarrow> jo_pending (fst (write_event None ts ev s)) = []"
  by (auto simp: write_event_def fd_write_def split: prod.splits)

lemma pending_flush: "jo_pending (fst s) = [] \<Longrightarrow> jo_pending (fst (flush_buffer None ts now s)) = []"
  using pending_write [of s ts "[(''ev'', ''text''), (''t'', jo_buffer (fst s))]"]
  by (auto simp: flush_buffer_def split: prod.splits)

lemma pending_step: "op_clean op \<Longrightarrow> jo_pending (fst s) = [] \<Longrightarrow> jo_pending (fst (jstep op s)) = []"
  by (cases op) (auto simp: write_text_def write_tool_start_def write_tool_end_def Let_def intro!: pending_write pending_flush)

lemma pending_run: "list_all op_clean ops \<Longrightarrow> jo_pending (fst s) = [] \<Longrightarrow> jo_pending (fst (fold jstep ops s)) = []"
proof (induction ops arbitrary: s)
  case (Cons op ops)
  then have "jo_pending (fst (jstep op s)) = []" by (intro pending_step) auto
  then show ?case using Cons.IH [of "jstep op s"] Cons.prems(1) by simp
qed simp

lemma pending_open:
  "open_journal pr date hms read_ok write_ok True e trigger from_person session_id s = (Inr (), s0) \<Longrightarrow> je_write1 e = None \<Longrightarrow>
   jo_pending (fst s0) = []"
  by (auto simp: open_journal_def intro!: pending_write split: prod.splits sum.splits)

lemma recover_own:
  assumes "map_of (jf_files fs) (journal_path session thread) = Some d"
  shows "recover True session thread fs = (case recover_bytes d of Inl e \<Rightarrow> (Inl e, fs) | Inr r \<Rightarrow> (Inr (Some r), fs))"
proof -
  have "migrate_legacy session thread fs = fs" using assms by (auto simp: migrate_legacy_def journal_path_def split: if_splits)
  with assms show ?thesis by (simp add: recover_def)
qed

text \<open>A buffer that was not flushed is short, and younger than a second at the last write.\<close>

lemma log_buffer_bounded:
  "u_length (jl_buffer l) < 500 \<Longrightarrow> u_length (jl_buffer (log_step op l)) < 500"
  by (cases op) (auto simp: log_flush_def log_add_def Let_def u_length_def)

lemma log_buffer_run: "u_length (jl_buffer l) < 500 \<Longrightarrow> u_length (jl_buffer (fold log_step ops l)) < 500"
  by (induction ops arbitrary: l) (auto intro: log_buffer_bounded)

lemma log_buffer_young:
  "jl_buffer (log_step (OpText e t) l) \<noteq> [] \<Longrightarrow> je_now e - jl_last_flush (log_step (OpText e t) l) < 1"
  by (auto simp: log_flush_def log_add_def Let_def split: if_splits)

text \<open>What a clean run has put into the file.\<close>

lemma clean_file:
  assumes opened: "open_journal pr date hms read_ok write_ok True e trigger from_person session_id s = (Inr (), s0)" "je_write1 e = None"
    and ok: "start_ok e trigger from_person session_id" "list_all op_ok ops" "list_all op_clean ops"
  defines "l \<equiv> fold log_step ops (opened_log e trigger from_person session_id)"
  shows "shows_log (fold jstep ops s0) l \<and> jo_pending (fst (fold jstep ops s0)) = [] \<and> log_ok l \<and>
    log_text (jl_events l) @ jl_buffer l = written ops"
proof -
  have "jo_pending (fst (fold jstep ops s0)) = []" using opened ok(3) by (intro pending_run pending_open)
  moreover have "log_ok l" unfolding l_def using ok by (intro log_ok_run opened_log_ok)
  moreover have "log_text (jl_events l) @ jl_buffer l = written ops"
    using log_text_run [of ops "opened_log e trigger from_person session_id"]
    by (simp add: l_def opened_log_text) (simp add: opened_log_def)
  ultimately show ?thesis using shows_run [OF opened(1), of ops] by (simp add: l_def)
qed

lemma clean_recover:
  assumes "shows_log s l" "jo_pending (fst s) = []" "log_ok l"
  shows "recover True (jo_session (fst s)) (jo_thread (fst s)) (snd s) =
    (Inr (Some (log_recovery (jl_events l) empty_recovery, log_text (jl_events l))), snd s)"
proof -
  have "map_of (jf_files (snd s)) (journal_path (jo_session (fst s)) (jo_thread (fst s))) = Some (log_lines (jl_events l))"
    using assms by (auto simp: shows_log_def own_path_def)
  then show ?thesis using recover_own recover_bytes_all assms(3) by (simp add: log_ok_def)
qed

text \<open>
  When the writes succeed, a crash between two operations loses the buffer only: the recovered text followed by the
  buffer is the text that was written, the buffer has less than 500 characters, and if the last operation was a
  text it came less than a second after the last flush.
\<close>

theorem journal_loses_buffer_only:
  assumes opened: "open_journal pr date hms read_ok write_ok True e trigger from_person session_id s = (Inr (), s0)" "je_write1 e = None"
    and ok: "start_ok e trigger from_person session_id" "list_all op_ok ops" "list_all op_clean ops"
  defines "s1 \<equiv> fold jstep ops s0"
  shows "\<exists>r text. recover True (jo_session (fst s1)) (jo_thread (fst s1)) (snd s1) = (Inr (Some (r, text)), snd s1) \<and>
    text @ jo_buffer (fst s1) = written ops \<and> u_length (jo_buffer (fst s1)) < 500 \<and>
    (\<forall>ops' e' t. ops = ops' @ [OpText e' t] \<longrightarrow> jo_buffer (fst s1) \<noteq> [] \<longrightarrow> je_now e' - jo_last_flush (fst s1) < 1)"
proof -
  define l where "l = fold log_step ops (opened_log e trigger from_person session_id)"
  have sl: "shows_log s1 l" "jo_pending (fst s1) = []" "log_ok l" "log_text (jl_events l) @ jl_buffer l = written ops"
    using clean_file [OF opened ok] by (simp_all add: s1_def l_def)
  have b: "jo_buffer (fst s1) = jl_buffer l" "jo_last_flush (fst s1) = jl_last_flush l" using sl(1) by (simp_all add: shows_log_def)
  have "u_length (jl_buffer l) < 500" unfolding l_def by (rule log_buffer_run) (simp add: opened_log_def u_length_def)
  moreover have "je_now e' - jl_last_flush l < 1" if "ops = ops' @ [OpText e' t]" "jl_buffer l \<noteq> []" for ops' e' t
    using that log_buffer_young [of e' t "fold log_step ops' (opened_log e trigger from_person session_id)"] by (simp add: l_def)
  ultimately show ?thesis using clean_recover [OF sl(1,2,3)] sl(4) b by auto
qed

lemma journal_names [simp]:
  "jo_session (fst (write_event w ts ev s)) = jo_session (fst s)" "jo_thread (fst (write_event w ts ev s)) = jo_thread (fst s)"
  "jo_session (fst (flush_buffer w ts now s)) = jo_session (fst s)" "jo_thread (fst (flush_buffer w ts now s)) = jo_thread (fst s)"
  "jo_session (fst (close_fd w s)) = jo_session (fst s)" "jo_thread (fst (close_fd w s)) = jo_thread (fst s)"
proof -
  show w: "jo_session (fst (write_event w ts ev s)) = jo_session (fst s)" "jo_thread (fst (write_event w ts ev s)) = jo_thread (fst s)" for ev
    by (auto simp: write_event_def fd_write_def Let_def split: prod.splits)
  show "jo_session (fst (flush_buffer w ts now s)) = jo_session (fst s)" "jo_thread (fst (flush_buffer w ts now s)) = jo_thread (fst s)"
    using w [of "[(''ev'', ''text''), (''t'', jo_buffer (fst s))]"] by (auto simp: flush_buffer_def split: prod.splits)
  show "jo_session (fst (close_fd w s)) = jo_session (fst s)" "jo_thread (fst (close_fd w s)) = jo_thread (fst s)"
    by (auto simp: close_fd_def fd_write_def Let_def split: prod.splits)
qed

lemma close_keeps_file:
  assumes "map_of (jf_files (snd s)) (own_path (fst s)) = Some d" "jo_pending (fst s) = []"
  shows "map_of (jf_files (snd (close_fd w s))) (own_path (fst s)) = Some d"
  using assms by (cases s) (auto simp: close_fd_def fd_write_def Let_def update_conv own_path_def)

lemma finalize_effect:
  assumes "journal_live (fst s)"
  shows "own_path (fst (finalize e True summary s)) = own_path (fst s) \<and> jo_finalized (fst (finalize e True summary s)) \<and>
    map_of (jf_files (snd (finalize e True summary s))) (own_path (fst s)) = None"
proof -
  define s2 where "s2 = write_event (je_write2 e) (je_ts2 e) [(''ev'', ''done''), (''summary'', u_take 500 summary)]
    (flush_buffer (je_write1 e) (je_ts1 e) (je_later e) s)"
  define s3 where "s3 = close_fd (je_close e) ((fst s2)\<lparr>jo_finalized := True\<rparr>, snd s2)"
  have "finalize e True summary s = (fst s3, remove_file True (own_path (fst s3)) (snd s3))"
    using assms by (simp add: finalize_def s2_def [symmetric] s3_def split: prod.splits)
  moreover have "own_path (fst s3) = own_path (fst s)" by (simp add: s3_def s2_def own_path_def)
  moreover have "jo_finalized (fst s3)" by (auto simp: s3_def close_fd_def fd_write_def Let_def split: prod.splits)
  ultimately show ?thesis by (simp add: remove_file_def delete_conv)
qed

text \<open>
  Closing writes the buffer too, so that the recovery has the whole text; finalizing removes the file, and closing
  after it does nothing.
\<close>

theorem closed_journal_complete:
  assumes opened: "open_journal pr date hms read_ok write_ok True e trigger from_person session_id s = (Inr (), s0)" "je_write1 e = None"
    and ok: "start_ok e trigger from_person session_id" "list_all op_ok ops" "list_all op_clean ops"
    and last: "je_write1 e' = None" "text_ok (je_ts1 e')"
  defines "s1 \<equiv> fold jstep ops s0"
  shows "(\<exists>r. recover True (jo_session (fst s1)) (jo_thread (fst s1)) (snd (close_journal e' s1)) =
      (Inr (Some (r, written ops)), snd (close_journal e' s1))) \<and>
    map_of (jf_files (snd (finalize e' True summary s1))) (own_path (fst s1)) = None \<and>
    close_journal e'' (finalize e' True summary s1) = finalize e' True summary s1"
proof -
  define l where "l = fold log_step ops (opened_log e trigger from_person session_id)"
  have sl: "shows_log s1 l" "jo_pending (fst s1) = []" "log_ok l" "log_text (jl_events l) @ jl_buffer l = written ops"
    using clean_file [OF opened ok] by (simp_all add: s1_def l_def)
  have live: "journal_live (fst s1)" using sl(1) by (simp add: shows_log_def)
  define s2 where "s2 = flush_buffer None (je_ts1 e') (je_later e') s1"
  define l2 where "l2 = log_flush (je_ts1 e') (je_later e') l"
  have s2: "shows_log s2 l2" "jo_pending (fst s2) = []" "log_ok l2"
    using shows_flush_buffer [OF sl(1)] pending_flush [OF sl(2)] log_ok_flush [OF sl(3) last(2)] by (simp_all add: s2_def l2_def)
  have tx: "log_text (jl_events l2) = written ops"
    using log_text_flush [of "je_ts1 e'" "je_later e'" l] sl(4) by (simp add: l2_def) (simp add: log_flush_def split: if_splits)
  have p: "own_path (fst s2) = journal_path (jo_session (fst s1)) (jo_thread (fst s1))" by (simp add: s2_def own_path_def)
  have c: "close_journal e' s1 = close_fd (je_close e') s2" using live last(1) by (simp add: close_journal_def journal_live_def s2_def)
  have "map_of (jf_files (snd s2)) (own_path (fst s2)) = Some (log_lines (jl_events l2))" using s2 by (auto simp: shows_log_def)
  from close_keeps_file [OF this s2(2)] have
    "map_of (jf_files (snd (close_journal e' s1))) (journal_path (jo_session (fst s1)) (jo_thread (fst s1))) = Some (log_lines (jl_events l2))"
    unfolding c p .
  then have "recover True (jo_session (fst s1)) (jo_thread (fst s1)) (snd (close_journal e' s1)) =
      (Inr (Some (log_recovery (jl_events l2) empty_recovery, written ops)), snd (close_journal e' s1))"
    using recover_own recover_bytes_all s2(3) tx by (simp add: log_ok_def)
  moreover have "own_path (fst (finalize e' True summary s1)) = own_path (fst s1) \<and> jo_finalized (fst (finalize e' True summary s1)) \<and>
      map_of (jf_files (snd (finalize e' True summary s1))) (own_path (fst s1)) = None"
    by (rule finalize_effect [OF live])
  ultimately show ?thesis by (auto simp: close_journal_def)
qed

section \<open>Orphans\<close>

lemma orphan_listed_iff:
  "th \<in> set (list_orphan_thread_ids session fs) \<longleftrightarrow>
     th = ''default'' \<and> (map_of (jf_files fs) (DefaultJournal session) \<noteq> None \<or>
       session = ''chat'' \<and> map_of (jf_files fs) LegacyJournal \<noteq> None) \<or>
     ThreadJournal session th \<in> fst ` set (jf_files fs) \<and> th \<noteq> session"
  by (force simp: list_orphan_thread_ids_def thread_orphans_def image_iff split: jpath.splits)

text \<open>A thread with the name of its session type has an orphan that no listing shows.\<close>

lemma thread_named_like_session_missed:
  "has_orphan session \<lparr>jf_files = [(journal_path session session, d)], jf_episodes = []\<rparr> \<and>
   (session \<noteq> ''default'' \<longrightarrow>
     list_orphan_thread_ids session \<lparr>jf_files = [(journal_path session session, d)], jf_episodes = []\<rparr> = [])"
  by (simp add: has_orphan_def list_orphan_thread_ids_def thread_orphans_def journal_path_def)

section \<open>Witnesses\<close>

definition journal_demo_env :: "rat \<Rightarrow> journal_env" where
  "journal_demo_env now =
     \<lparr>je_now = now, je_later = now, je_ts1 = ''2026-01-01T00:00:00'', je_ts2 = ''2026-01-01T00:00:01'',
      je_write1 = None, je_write2 = None, je_close = None\<rparr>"

definition journal_demo_start :: "(py_error + unit) \<times> journal \<times> journal_fs" where
  "journal_demo_start =
     open_journal (\<lambda>_. []) ''2026-01-01'' ''000000'' True True True (journal_demo_env 0) ''message:bob'' ''bob'' ''s1''
       (new_journal ''chat'' ''default'', \<lparr>jf_files = [], jf_episodes = []\<rparr>)"

definition journal_demo_ops :: "jop list" where
  "journal_demo_ops =
     [OpText (journal_demo_env (1 / 2)) ''Let me '', OpToolStart (journal_demo_env 1) ''search'' ''cats'' ''t1'',
      OpText (journal_demo_env (3 / 2)) ''see'']"

text \<open>
  A line separator in the text, here U+2028 between two letters, breaks the line of its event in two pieces that are
  no JSON: the file is complete and the recovery has no text.
\<close>

lemma separator_loses_text:
  "(let text = ''a'' @ [CHR 0xE2, CHR 0x80, CHR 0xA8] @ ''b'';
        s = write_text (journal_demo_env 5) text (snd journal_demo_start)
    in utf8 text \<and> jo_buffer (fst s) = [] \<and> jo_pending (fst s) = [] \<and>
       (case recover True ''chat'' ''default'' (snd s) of (Inr (Some (r, t)), _) \<Rightarrow> t = [] | _ \<Rightarrow> False))"
  by code_simp

lemma journal_demo:
  "open_journal (\<lambda>_. []) ''2026-01-01'' ''000000'' True True True (journal_demo_env 0) ''message:bob'' ''bob'' ''s1''
     (new_journal ''chat'' ''default'', \<lparr>jf_files = [], jf_episodes = []\<rparr>) = (Inr (), snd journal_demo_start)"
  "je_write1 (journal_demo_env 0) = None" "start_ok (journal_demo_env 0) ''message:bob'' ''bob'' ''s1''"
  "list_all op_ok journal_demo_ops" "list_all op_clean journal_demo_ops"
  by (code_simp, code_simp, code_simp, code_simp, code_simp)

lemma journal_demo_written: "written journal_demo_ops = ''Let me see''"
  by code_simp

theorem journal_crash_safe_witness:
  "\<exists>k \<le> length (jl_events (fold log_step journal_demo_ops (opened_log (journal_demo_env 0) ''message:bob'' ''bob'' ''s1''))).
     prefix (log_text (take k (jl_events (fold log_step journal_demo_ops (opened_log (journal_demo_env 0) ''message:bob'' ''bob'' ''s1'')))))
       (written journal_demo_ops)"
proof -
  define d where "d = the (map_of (jf_files (snd (fold jstep journal_demo_ops (snd journal_demo_start)))) (DefaultJournal ''chat''))"
  have c: "map_of (jf_files (snd (fold jstep journal_demo_ops (snd journal_demo_start))))
      (own_path (fst (fold jstep journal_demo_ops (snd journal_demo_start)))) = Some d"
    unfolding d_def by code_simp
  show ?thesis using journal_crash_safe [OF journal_demo(1,3,4) c, of "take 100 d"] by (auto simp: take_is_prefix)
qed

theorem journal_loses_buffer_only_witness:
  "\<exists>text. text @ jo_buffer (fst (fold jstep journal_demo_ops (snd journal_demo_start))) = ''Let me see''"
  using journal_loses_buffer_only [OF journal_demo] journal_demo_written by auto

theorem closed_journal_complete_witness:
  "\<exists>r. recover True ''chat'' ''default'' (snd (close_journal (journal_demo_env 2) (fold jstep journal_demo_ops (snd journal_demo_start)))) =
     (Inr (Some (r, ''Let me see'')), snd (close_journal (journal_demo_env 2) (fold jstep journal_demo_ops (snd journal_demo_start))))"
proof -
  have l: "je_write1 (journal_demo_env 2) = None" "text_ok (je_ts1 (journal_demo_env 2))" by code_simp+
  have "jo_session (fst (fold jstep journal_demo_ops (snd journal_demo_start))) = ''chat''"
    "jo_thread (fst (fold jstep journal_demo_ops (snd journal_demo_start))) = ''default''" by code_simp+
  then show ?thesis using closed_journal_complete [OF journal_demo l, of "[]" "journal_demo_env 2"] journal_demo_written by auto
qed

end
