(* ===== verification/Background_Tasks.thy ===== *)
theory Background_Tasks
  imports Json_Text "HOL-Library.Product_Lexorder" "HOL-Library.List_Lexorder" "HOL-Library.Char_ord"
begin

text \<open>
  Background execution of long tool calls, \<^verbatim>\<open>core/background.py\<close>: class \<^verbatim>\<open>BackgroundTaskManager\<close> and the rotation of
  the DM logs. Task objects live on a heap (a list, the address is the position), because the coroutine of a
  task goes on with its object when the dictionary no longer has it. The storage directory is a list of file stems
  with the decoded content, \<open>None\<close> when a file is no JSON. Clock readings, fresh ids, the outcome of a
  file write and the outcome of the tool are arguments. A coroutine is split at its \<^verbatim>\<open>await\<close>s: what comes after the
  completion callback is a step of its own.
\<close>

section \<open>Data\<close>

datatype bg_status = BgPending | BgRunning | BgCompleted | BgFailed

fun bg_status_value :: "bg_status \<Rightarrow> string" where
  "bg_status_value BgPending = ''pending''"
| "bg_status_value BgRunning = ''running''"
| "bg_status_value BgCompleted = ''completed''"
| "bg_status_value BgFailed = ''failed''"

definition bg_status_of :: "string \<Rightarrow> bg_status option" where
  "bg_status_of s = find (\<lambda>st. bg_status_value st = s) [BgPending, BgRunning, BgCompleted, BgFailed]"

record bg_task =
  bt_id :: string
  bt_anima :: string
  bt_tool :: string
  bt_args :: dict
  bt_status :: bg_status
  bt_created :: rat
  bt_completed :: "rat option"
  bt_result :: "string option"
  bt_error :: "string option"

definition opt_json :: "('a \<Rightarrow> json) \<Rightarrow> 'a option \<Rightarrow> json" where
  "opt_json f x = (case x of None \<Rightarrow> JNull | Some v \<Rightarrow> f v)"

definition bg_to_dict :: "bg_task \<Rightarrow> dict" where
  "bg_to_dict t =
     [(''task_id'', JStr (bt_id t)), (''anima_name'', JStr (bt_anima t)), (''tool_name'', JStr (bt_tool t)),
      (''tool_args'', JObj (bt_args t)), (''status'', JStr (bg_status_value (bt_status t))),
      (''created_at'', JFloat (bt_created t)), (''completed_at'', opt_json JFloat (bt_completed t)),
      (''result'', opt_json JStr (bt_result t)), (''error'', opt_json JStr (bt_error t))]"

definition bg_summary :: "bg_task \<Rightarrow> string" where
  "bg_summary t =
     (if bt_status t = BgCompleted then ''['' @ bt_tool t @ ''] completed: '' @ u_take 200 (opt_or (bt_result t) [])
      else if bt_status t = BgFailed then ''['' @ bt_tool t @ ''] failed: '' @ opt_or (bt_error t) ''None''
      else ''['' @ bt_tool t @ ''] '' @ bg_status_value (bt_status t))"

record bg_mgr =
  bg_name :: string
  bg_eligible :: "(string \<times> int) list"
  bg_retention_minutes :: int
  bg_max_completed :: int
  bg_heap :: "bg_task list"
  bg_tasks :: "(string \<times> nat) list"
  bg_async :: "(string \<times> nat) list"
  bg_disk :: "(string \<times> json option) list"

section \<open>Construction\<close>

definition default_eligible_tools :: "(string \<times> int) list" where
  "default_eligible_tools =
     [(''generate_character_assets'', 30), (''generate_fullbody'', 30), (''generate_bustup'', 30), (''generate_icon'', 30),
      (''generate_chibi'', 30), (''generate_3d_model'', 30), (''generate_rigged_model'', 30), (''generate_animations'', 30),
      (''local_llm'', 60), (''run_command'', 60)]"

text \<open>The configuration's two limits; \<open>None\<close> when it cannot be loaded.\<close>

definition resolve_memory_limits :: "(int \<times> int) option \<Rightarrow> int option \<Rightarrow> int option \<Rightarrow> int \<times> int" where
  "resolve_memory_limits cfg retention max_completed =
     (let r = (case (retention, cfg) of (None, Some c) \<Rightarrow> Some (fst c) | _ \<Rightarrow> retention);
          m = (case (max_completed, cfg) of (None, Some c) \<Rightarrow> Some (snd c) | _ \<Rightarrow> max_completed)
      in (max 0 (opt_or r 60), max 0 (opt_or m 200)))"

text \<open>An empty table of eligible tools counts as none; \<open>dir_name\<close> is the name of the anima directory.\<close>

definition new_manager ::
  "(int \<times> int) option \<Rightarrow> string \<Rightarrow> string \<Rightarrow> (string \<times> int) list option \<Rightarrow> int option \<Rightarrow> int option \<Rightarrow> (string \<times> json option) list
   \<Rightarrow> bg_mgr" where
  "new_manager cfg dir_name anima_name eligible retention max_completed disk =
     (case resolve_memory_limits cfg retention max_completed of (r, m) \<Rightarrow>
        \<lparr>bg_name = (if anima_name = [] then dir_name else anima_name),
         bg_eligible = (case eligible of Some (t # ts) \<Rightarrow> t # ts | _ \<Rightarrow> default_eligible_tools),
         bg_retention_minutes = r, bg_max_completed = m, bg_heap = [], bg_tasks = [], bg_async = [], bg_disk = disk\<rparr>)"

text \<open>\<open>profile_eligible\<close> stands for \<^verbatim>\<open>get_eligible_tools_from_profiles(profiles)\<close>, empty without profiles.\<close>

definition from_profiles ::
  "(int \<times> int) option \<Rightarrow> string \<Rightarrow> string \<Rightarrow> (string \<times> int) list \<Rightarrow> (string \<times> int) list \<Rightarrow> (string \<times> json option) list \<Rightarrow> bg_mgr" where
  "from_profiles cfg dir_name anima_name profile_eligible config_eligible disk =
     new_manager cfg dir_name anima_name
       (Some (dict_merge (dict_merge default_eligible_tools profile_eligible) config_eligible)) None None disk"

definition is_eligible :: "bg_mgr \<Rightarrow> string \<Rightarrow> bool" where
  "is_eligible m tool = (map_of (bg_eligible m) tool \<noteq> None)"

section \<open>Eviction\<close>

definition bg_terminal :: "bg_task \<Rightarrow> bool" where
  "bg_terminal t = (bt_status t \<in> {BgCompleted, BgFailed})"

definition evict_key :: "bg_task \<Rightarrow> rat \<times> rat \<times> string" where
  "evict_key t = (opt_or (bt_completed t) (bt_created t), bt_created t, bt_id t)"

definition expired :: "rat \<Rightarrow> bg_mgr \<Rightarrow> bg_task \<Rightarrow> bool" where
  "expired now m t =
     (bg_terminal t \<and> (case bt_completed t of None \<Rightarrow> False | Some c \<Rightarrow> c \<le> now - of_int (bg_retention_minutes m * 60)))"

definition expired_ids :: "rat \<Rightarrow> bg_mgr \<Rightarrow> string list" where
  "expired_ids now m = map fst (filter (\<lambda>(_, a). expired now m (bg_heap m ! a)) (bg_tasks m))"

definition retained_terminal :: "rat \<Rightarrow> bg_mgr \<Rightarrow> bg_task list" where
  "retained_terminal now m =
     map (\<lambda>(_, a). bg_heap m ! a)
       (filter (\<lambda>(i, a). i \<notin> set (expired_ids now m) \<and> bg_terminal (bg_heap m ! a)) (bg_tasks m))"

definition overflow_ids :: "rat \<Rightarrow> bg_mgr \<Rightarrow> string list" where
  "overflow_ids now m =
     (let retained = retained_terminal now m; overflow = int (length retained) - bg_max_completed m
      in if overflow > 0 then map bt_id (take (nat overflow) (sort_key evict_key retained)) else [])"

definition evict_completed_tasks :: "rat \<Rightarrow> bg_mgr \<Rightarrow> nat \<times> bg_mgr" where
  "evict_completed_tasks now m =
     (let ids = expired_ids now m @ overflow_ids now m
      in (length (remdups ids), m\<lparr>bg_tasks := filter (\<lambda>(i, _). i \<notin> set ids) (bg_tasks m)\<rparr>))"

section \<open>Storage\<close>

definition save_task :: "bool \<Rightarrow> bg_task \<Rightarrow> bg_mgr \<Rightarrow> (py_error + unit) \<times> bg_mgr" where
  "save_task write_ok t m =
     (if write_ok then (Inr (), m\<lparr>bg_disk := AList.update (bt_id t) (Some (JObj (bg_to_dict t))) (bg_disk m)\<rparr>)
      else (Inl (StorageError ''write''), m))"

definition json_str :: "json \<Rightarrow> string option" where
  "json_str j = (case j of JStr s \<Rightarrow> Some s | _ \<Rightarrow> None)"

definition opt_field :: "(json \<Rightarrow> 'a option) \<Rightarrow> json option \<Rightarrow> 'a option option" where
  "opt_field f x = (case x of None \<Rightarrow> Some None | Some JNull \<Rightarrow> Some None | Some j \<Rightarrow> map_option Some (f j))"

text \<open>
  A stored task. A missing key or an unknown status makes it unreadable (\<open>Inr None\<close>); a document that is no object
  raises. Python does not look at the types of the other fields; a field of another type than \<^verbatim>\<open>to_dict\<close> writes is
  an error here.
\<close>

definition decode_task :: "dict \<Rightarrow> py_error + bg_task option" where
  "decode_task data =
     (if \<exists>k \<in> {''task_id'', ''anima_name'', ''tool_name'', ''status''}. map_of data k = None then Inr None
      else case (json_str (the (map_of data ''task_id'')), json_str (the (map_of data ''anima_name'')),
                 json_str (the (map_of data ''tool_name'')), json_str (the (map_of data ''status''))) of
        (Some i, Some n, Some tool, Some st) \<Rightarrow>
          (case bg_status_of st of
             None \<Rightarrow> Inr None
           | Some status \<Rightarrow>
               (case (opt_or (map_of data ''tool_args'') (JObj []), json_num (opt_or (map_of data ''created_at'') (JFloat 0)),
                      opt_field json_num (map_of data ''completed_at''), opt_field json_str (map_of data ''result''),
                      opt_field json_str (map_of data ''error'')) of
                  (JObj args, Some created, Some completed, Some result, Some error) \<Rightarrow>
                    Inr (Some \<lparr>bt_id = i, bt_anima = n, bt_tool = tool, bt_args = args, bt_status = status,
                       bt_created = created, bt_completed = completed, bt_result = result, bt_error = error\<rparr>)
                | _ \<Rightarrow> Inl (TypeError ''field'')))
      | _ \<Rightarrow> Inl (TypeError ''field''))"

definition load_task :: "string \<Rightarrow> bg_mgr \<Rightarrow> py_error + bg_task option" where
  "load_task i m =
     (case map_of (bg_disk m) i of
        None \<Rightarrow> Inr None
      | Some None \<Rightarrow> Inr None
      | Some (Some (JObj data)) \<Rightarrow> decode_task data
      | Some (Some _) \<Rightarrow> Inl (TypeError ''indices''))"

section \<open>Submitting and running\<close>

definition bg_new_task :: "rat \<Rightarrow> string \<Rightarrow> string \<Rightarrow> dict \<Rightarrow> bg_mgr \<Rightarrow> bg_task" where
  "bg_new_task now i tool args m =
     \<lparr>bt_id = i, bt_anima = bg_name m, bt_tool = tool, bt_args = args, bt_status = BgRunning, bt_created = now,
      bt_completed = None, bt_result = None, bt_error = None\<rparr>"

text \<open>\<^verbatim>\<open>submit\<close>, and \<^verbatim>\<open>submit_async\<close> without an id: a failing write leaves the task in memory without a coroutine.\<close>

definition submit_as :: "rat \<Rightarrow> bool \<Rightarrow> string \<Rightarrow> string \<Rightarrow> dict \<Rightarrow> bg_mgr \<Rightarrow> (py_error + string) \<times> bg_mgr" where
  "submit_as now write_ok i tool args m =
     (let m1 = snd (evict_completed_tasks now m);
          a = length (bg_heap m1);
          t = bg_new_task now i tool args m1;
          m2 = m1\<lparr>bg_heap := bg_heap m1 @ [t], bg_tasks := AList.update i a (bg_tasks m1)\<rparr>
      in case save_task write_ok t m2 of
           (Inl e, m3) \<Rightarrow> (Inl e, m3)
         | (Inr _, m3) \<Rightarrow> (Inr i, m3\<lparr>bg_async := AList.update i a (bg_async m3)\<rparr>))"

definition submit :: "rat \<Rightarrow> bool \<Rightarrow> string \<Rightarrow> string \<Rightarrow> dict \<Rightarrow> bg_mgr \<Rightarrow> (py_error + string) \<times> bg_mgr" where
  "submit now write_ok uid tool args m = submit_as now write_ok uid tool args m"

definition submit_async :: "rat \<Rightarrow> bool \<Rightarrow> string \<Rightarrow> string option \<Rightarrow> string \<Rightarrow> dict \<Rightarrow> bg_mgr \<Rightarrow> (py_error + string) \<times> bg_mgr" where
  "submit_async now write_ok uid task_id tool args m =
     submit_as now write_ok (if opt_truthy task_id then the task_id else uid) tool args m"

text \<open>How a tool call ends; \<^verbatim>\<open>CancelledError\<close> is no \<^verbatim>\<open>Exception\<close>, so that no clause of the code catches it.\<close>

datatype outcome = Returned "string option" | Raised string | Cancelled

definition ended_task :: "rat \<Rightarrow> outcome \<Rightarrow> bg_task \<Rightarrow> bg_task" where
  "ended_task now out t =
     (case out of
        Returned r \<Rightarrow> t\<lparr>bt_status := BgCompleted, bt_result := r, bt_completed := Some now\<rparr>
      | Raised e \<Rightarrow> t\<lparr>bt_status := BgFailed, bt_error := Some e, bt_completed := Some now\<rparr>
      | Cancelled \<Rightarrow> t)"

text \<open>
  \<^verbatim>\<open>_run_task\<close> and \<^verbatim>\<open>_run_task_async\<close> from the end of the tool call to the callback. When the file cannot be
  written the exception leaves the \<^verbatim>\<open>finally\<close> clause at once.
\<close>

definition run_task_end :: "rat \<Rightarrow> bool \<Rightarrow> outcome \<Rightarrow> nat \<Rightarrow> bg_mgr \<Rightarrow> (py_error + unit) \<times> bg_mgr" where
  "run_task_end now write_ok out a m =
     (let t = ended_task now out (bg_heap m ! a)
      in case save_task write_ok t (m\<lparr>bg_heap := (bg_heap m)[a := t]\<rparr>) of
           (Inl e, m1) \<Rightarrow> (Inl e, m1)
         | (Inr _, m1) \<Rightarrow> (Inr (), m1\<lparr>bg_async := AList.delete (bt_id t) (bg_async m1)\<rparr>))"

section \<open>Queries\<close>

definition get_task :: "string \<Rightarrow> bg_mgr \<Rightarrow> py_error + bg_task option" where
  "get_task i m = (case map_of (bg_tasks m) i of Some a \<Rightarrow> Inr (Some (bg_heap m ! a)) | None \<Rightarrow> load_task i m)"

fun load_others :: "string list \<Rightarrow> bg_mgr \<Rightarrow> py_error + bg_task list" where
  "load_others [] m = Inr []"
| "load_others (i # is) m =
     (case load_task i m of
        Inl e \<Rightarrow> Inl e
      | Inr x \<Rightarrow> (case load_others is m of Inl e \<Rightarrow> Inl e | Inr ts \<Rightarrow> Inr (case x of None \<Rightarrow> ts | Some t \<Rightarrow> t # ts)))"

definition bg_list_tasks :: "bg_status option \<Rightarrow> bg_mgr \<Rightarrow> py_error + bg_task list" where
  "bg_list_tasks status m =
     (case load_others (filter (\<lambda>i. map_of (bg_tasks m) i = None) (map fst (bg_disk m))) m of
        Inl e \<Rightarrow> Inl e
      | Inr others \<Rightarrow>
          Inr (sort_key (\<lambda>t. - bt_created t)
                 (filter (\<lambda>t. status = None \<or> status = Some (bt_status t)) (map (\<lambda>(_, a). bg_heap m ! a) (bg_tasks m) @ others))))"

definition active_count :: "bg_mgr \<Rightarrow> nat" where
  "active_count m = length (filter (\<lambda>(_, a). bt_status (bg_heap m ! a) = BgRunning) (bg_tasks m))"

section \<open>Clean-up of old files\<close>

text \<open>
  The test on one decoded file: whether it goes. \<open>Inl\<close>: the document is no object, or a time is no number.
\<close>

definition older :: "json option \<Rightarrow> rat \<Rightarrow> py_error + bool" where
  "older x cutoff =
     (case x of
        None \<Rightarrow> Inr False
      | Some j \<Rightarrow> if \<not> truthy j then Inr False
                 else case json_num j of None \<Rightarrow> Inl (TypeError ''<'') | Some q \<Rightarrow> Inr (q < cutoff))"

definition stale_file :: "rat \<Rightarrow> int \<Rightarrow> json \<Rightarrow> py_error + bool" where
  "stale_file now max_age_hours doc =
     (case doc of
        JObj data \<Rightarrow>
          (if map_of data ''status'' \<in> {Some (JStr ''completed''), Some (JStr ''failed'')}
           then older (map_of data ''completed_at'') (now - of_int (max_age_hours * 3600))
           else if map_of data ''status'' = Some (JStr ''running'')
           then older (map_of data ''created_at'') (now - 48 * 3600)
           else Inr False)
      | _ \<Rightarrow> Inl (AttributeError ''get''))"

definition stored_id :: "json \<Rightarrow> string" where
  "stored_id doc = (case doc of JObj data \<Rightarrow> (case map_of data ''task_id'' of Some (JStr i) \<Rightarrow> i | _ \<Rightarrow> []) | _ \<Rightarrow> [])"

text \<open>One file after the other; files that are no JSON, or cannot be removed (\<open>unlink_ok\<close>), stay.\<close>

fun cleanup_files :: "rat \<Rightarrow> int \<Rightarrow> (string \<Rightarrow> bool) \<Rightarrow> (string \<times> json option) list \<Rightarrow> bg_mgr \<Rightarrow> (py_error + nat) \<times> bg_mgr" where
  "cleanup_files now age unlink_ok [] m = (Inr 0, m)"
| "cleanup_files now age unlink_ok ((stem, doc) # fs) m =
     (case doc of
        None \<Rightarrow> cleanup_files now age unlink_ok fs m
      | Some j \<Rightarrow>
          (case stale_file now age j of
             Inl e \<Rightarrow> (Inl e, m)
           | Inr stale \<Rightarrow>
               if stale \<and> unlink_ok stem
               then (case cleanup_files now age unlink_ok fs
                            (m\<lparr>bg_disk := AList.delete stem (bg_disk m), bg_tasks := AList.delete (stored_id j) (bg_tasks m)\<rparr>) of
                       (Inl e, m') \<Rightarrow> (Inl e, m')
                     | (Inr n, m') \<Rightarrow> (Inr (n + 1), m'))
               else cleanup_files now age unlink_ok fs m))"

definition cleanup_old_tasks :: "rat \<Rightarrow> int \<Rightarrow> (string \<Rightarrow> bool) \<Rightarrow> bg_mgr \<Rightarrow> (py_error + nat) \<times> bg_mgr" where
  "cleanup_old_tasks now max_age_hours unlink_ok m = cleanup_files now max_age_hours unlink_ok (bg_disk m) m"

section \<open>Rotation of the DM logs\<close>

text \<open>
  Whether a line is recent: what cannot be decoded or has no readable time stamp is kept. A document that is no
  object, or a stamp that is no string, raises \<^verbatim>\<open>TypeError\<close>, which nothing catches. \<open>fromiso\<close> is
  \<^verbatim>\<open>ensure_aware(datetime.fromisoformat(s))\<close> in seconds, \<open>None\<close> when it raises \<^verbatim>\<open>ValueError\<close>.
\<close>

definition dm_recent :: "(string \<Rightarrow> rat option) \<Rightarrow> rat \<Rightarrow> string \<Rightarrow> py_error + bool" where
  "dm_recent fromiso cutoff line =
     (case loads line of
        None \<Rightarrow> Inr True
      | Some (JObj entry) \<Rightarrow>
          (case map_of entry ''ts'' of
             None \<Rightarrow> Inr True
           | Some (JStr ts) \<Rightarrow> Inr (case fromiso ts of None \<Rightarrow> True | Some t \<Rightarrow> cutoff \<le> t)
           | Some _ \<Rightarrow> Inl (TypeError ''fromisoformat''))
      | Some _ \<Rightarrow> Inl (TypeError ''indices''))"

fun dm_split :: "(string \<Rightarrow> rat option) \<Rightarrow> rat \<Rightarrow> string list \<Rightarrow> py_error + string list \<times> string list" where
  "dm_split fromiso cutoff [] = Inr ([], [])"
| "dm_split fromiso cutoff (l # ls) =
     (if u_strip l = [] then dm_split fromiso cutoff ls
      else case dm_recent fromiso cutoff l of
             Inl e \<Rightarrow> Inl e
           | Inr keep \<Rightarrow>
               (case dm_split fromiso cutoff ls of
                  Inl e \<Rightarrow> Inl e
                | Inr (recent, old) \<Rightarrow> Inr (if keep then (l # recent, old) else (recent, l # old))))"

definition dm_join :: "string list \<Rightarrow> string" where
  "dm_join ls = concat (map (\<lambda>l. l @ [CHR 0x0A]) ls)"

text \<open>
  One log file; \<open>write_ok\<close> tells whether the writes succeed (a failing one is logged and skipped; here it happens
  before the archive is touched). The result counts the archived and the kept lines.
\<close>

definition rotate_dm_file ::
  "(string \<Rightarrow> rat option) \<Rightarrow> rat \<Rightarrow> string \<Rightarrow> bool \<Rightarrow> string \<Rightarrow> (string \<times> string) list
   \<Rightarrow> py_error + ((string \<times> string) list \<times> (nat \<times> nat) option)" where
  "rotate_dm_file fromiso cutoff date write_ok stem files =
     (case dm_split fromiso cutoff (u_splitlines (opt_or (map_of files (stem @ ''.jsonl'')) [])) of
        Inl e \<Rightarrow> Inl e
      | Inr (recent, old) \<Rightarrow>
          if old = [] \<or> \<not> write_ok then Inr (files, None)
          else let archive = stem @ ''.'' @ date @ ''.archive.jsonl''
               in Inr (AList.update (stem @ ''.jsonl'') (dm_join recent)
                         (AList.update archive (opt_or (map_of files archive) [] @ dm_join old) files),
                       Some (length old, length recent)))"

fun rotate_dm_logs ::
  "(string \<Rightarrow> rat option) \<Rightarrow> rat \<Rightarrow> string \<Rightarrow> (string \<Rightarrow> bool) \<Rightarrow> string list \<Rightarrow> (string \<times> string) list
   \<Rightarrow> py_error + ((string \<times> string) list \<times> (string \<times> nat \<times> nat) list)" where
  "rotate_dm_logs fromiso cutoff date write_ok [] files = Inr (files, [])"
| "rotate_dm_logs fromiso cutoff date write_ok (stem # stems) files =
     (if occurs_in ''.archive.'' (stem @ ''.jsonl'') then rotate_dm_logs fromiso cutoff date write_ok stems files
      else case rotate_dm_file fromiso cutoff date (write_ok stem) stem files of
             Inl e \<Rightarrow> Inl e
           | Inr (files1, r) \<Rightarrow>
               (case rotate_dm_logs fromiso cutoff date write_ok stems files1 of
                  Inl e \<Rightarrow> Inl e
                | Inr (files2, rs) \<Rightarrow> Inr (files2, (case r of None \<Rightarrow> rs | Some c \<Rightarrow> (stem @ ''.jsonl'', c) # rs))))"

section \<open>Round trip of a stored task\<close>

lemma status_roundtrip: "bg_status_of (bg_status_value st) = Some st"
  by (cases st) (simp_all add: bg_status_of_def)

lemma opt_field_roundtrip: "(\<And>v. f (g v) = Some v) \<Longrightarrow> (\<And>v. g v \<noteq> JNull) \<Longrightarrow> opt_field f (Some (opt_json g x)) = Some x"
proof (cases x)
  case (Some v)
  moreover assume "\<And>v. f (g v) = Some v" "\<And>v. g v \<noteq> JNull"
  then have "f (g v) = Some v" "g v \<noteq> JNull" by auto
  ultimately show ?thesis by (cases "g v") (simp_all add: opt_field_def opt_json_def)
qed (simp add: opt_field_def opt_json_def)

lemma decode_to_dict: "decode_task (bg_to_dict t) = Inr (Some t)"
  using opt_field_roundtrip [of json_num JFloat "bt_completed t"] opt_field_roundtrip [of json_str JStr "bt_result t"]
    opt_field_roundtrip [of json_str JStr "bt_error t"]
  by (simp add: decode_task_def bg_to_dict_def status_roundtrip json_str_def)

section \<open>The manager and its coroutines\<close>

text \<open>
  The event loop interleaves submissions with fresh ids, the ends of tool calls, evictions and clean-ups; writing a
  file succeeds.
\<close>

inductive bg_work :: "bg_mgr \<Rightarrow> bg_mgr \<Rightarrow> bool" where
  submit: "i \<notin> bt_id ` set (bg_heap m) \<Longrightarrow> bg_work m (snd (submit_as now True i tool args m))"
| ended: "(i, a) \<in> set (bg_async m) \<Longrightarrow> bg_work m (snd (run_task_end now True out a m))"
| evict: "bg_work m (snd (evict_completed_tasks now m))"

inductive bg_step :: "bg_mgr \<Rightarrow> bg_mgr \<Rightarrow> bool" where
  work: "bg_work m m' \<Longrightarrow> bg_step m m'"
| cleanup: "bg_step m (snd (cleanup_old_tasks now age unlink_ok m))"

definition points_to :: "bg_task list \<Rightarrow> (string \<times> nat) list \<Rightarrow> bool" where
  "points_to heap ts = (\<forall>i a. (i, a) \<in> set ts \<longrightarrow> a < length heap \<and> bt_id (heap ! a) = i)"

definition all_stored :: "bg_task list \<Rightarrow> (string \<times> json option) list \<Rightarrow> (string \<times> nat) list \<Rightarrow> bool" where
  "all_stored heap disk ts = (\<forall>i a. (i, a) \<in> set ts \<longrightarrow> map_of disk i = Some (Some (JObj (bg_to_dict (heap ! a)))))"

definition well_ended :: "bg_task \<Rightarrow> bool" where
  "well_ended t \<longleftrightarrow> (bg_terminal t \<longleftrightarrow> bt_completed t \<noteq> None)"

definition none_ended :: "bg_task list \<Rightarrow> (string \<times> nat) list \<Rightarrow> bool" where
  "none_ended heap ts = (\<forall>i a. (i, a) \<in> set ts \<longrightarrow> bt_status (heap ! a) = BgRunning)"

definition bg_inv :: "bg_mgr \<Rightarrow> bool" where
  "bg_inv m \<longleftrightarrow>
     distinct (map fst (bg_tasks m)) \<and> distinct (map fst (bg_async m)) \<and> distinct (map bt_id (bg_heap m)) \<and>
     distinct (map fst (bg_disk m)) \<and> 0 \<le> bg_max_completed m \<and> points_to (bg_heap m) (bg_tasks m) \<and> points_to (bg_heap m) (bg_async m) \<and>
     all_stored (bg_heap m) (bg_disk m) (bg_tasks m) \<and> (\<forall>t \<in> set (bg_heap m). well_ended t) \<and>
     none_ended (bg_heap m) (bg_async m)"

lemmas bg_inv_defs = bg_inv_def points_to_def all_stored_def none_ended_def

lemma bg_inv_fewer:
  "bg_inv m \<Longrightarrow> distinct (map fst ts) \<Longrightarrow> set ts \<subseteq> set (bg_tasks m) \<Longrightarrow> bg_inv (m\<lparr>bg_tasks := ts\<rparr>)"
  by (auto simp: bg_inv_defs)

lemma distinct_fst_filter: "distinct (map fst xs) \<Longrightarrow> distinct (map fst (filter P xs))"
  by (induction xs) auto

lemma evict_keeps:
  "bg_heap (snd (evict_completed_tasks now m)) = bg_heap m" "bg_disk (snd (evict_completed_tasks now m)) = bg_disk m"
  "bg_async (snd (evict_completed_tasks now m)) = bg_async m" "set (bg_tasks (snd (evict_completed_tasks now m))) \<subseteq> set (bg_tasks m)"
  by (auto simp: evict_completed_tasks_def Let_def)

lemma bg_inv_evict: "bg_inv m \<Longrightarrow> bg_inv (snd (evict_completed_tasks now m))"
  unfolding evict_completed_tasks_def Let_def snd_conv
  by (rule bg_inv_fewer) (auto simp: bg_inv_def intro: distinct_fst_filter)

lemma points_toD: "points_to heap ts \<Longrightarrow> (i, a) \<in> set ts \<Longrightarrow> a < length heap \<and> bt_id (heap ! a) = i"
  by (simp add: points_to_def)

lemma points_to_inj:
  "distinct (map bt_id heap) \<Longrightarrow> points_to heap xs \<Longrightarrow> points_to heap ys \<Longrightarrow> (i, a) \<in> set xs \<Longrightarrow> (i', a') \<in> set ys \<Longrightarrow> i = i' \<longleftrightarrow> a = a'"
  using points_toD [of heap xs i a] points_toD [of heap ys i' a'] nth_eq_iff_index_eq [of "map bt_id heap" a a'] by auto

lemma update_fresh: "i \<notin> fst ` set xs \<Longrightarrow> AList.update i a xs = xs @ [(i, a)]"
  by (induction xs) auto

lemma points_to_fresh: "points_to heap ts \<Longrightarrow> i \<notin> bt_id ` set heap \<Longrightarrow> i \<notin> fst ` set ts"
  by (force simp: points_to_def)

lemma points_to_snoc: "points_to heap ts \<Longrightarrow> points_to (heap @ [t]) (ts @ [(bt_id t, length heap)])"
  by (auto simp: points_to_def nth_append intro: less_SucI)

text \<open>What a submission with a fresh id leaves.\<close>

lemma submit_state:
  assumes inv: "bg_inv m" and new: "i \<notin> bt_id ` set (bg_heap m)"
    and m1_def: "m1 = snd (evict_completed_tasks now m)" and t_def: "t = bg_new_task now i tool args m1"
  shows "snd (submit_as now True i tool args m) =
    m1\<lparr>bg_heap := bg_heap m @ [t], bg_tasks := bg_tasks m1 @ [(i, length (bg_heap m))],
       bg_disk := AList.update i (Some (JObj (bg_to_dict t))) (bg_disk m), bg_async := bg_async m @ [(i, length (bg_heap m))]\<rparr>"
proof -
  have m1: "bg_inv m1" "bg_heap m1 = bg_heap m" "bg_disk m1 = bg_disk m" "bg_async m1 = bg_async m"
    using bg_inv_evict [OF inv] evict_keeps [of now m] by (simp_all add: m1_def)
  have "i \<notin> fst ` set (bg_tasks m1)" "i \<notin> fst ` set (bg_async m1)"
    using m1 new by (auto simp: bg_inv_def dest: points_to_fresh)
  then show ?thesis
    using m1 by (simp add: submit_as_def Let_def m1_def [symmetric] t_def [symmetric] save_task_def update_fresh)
       (simp add: t_def bg_new_task_def)
qed

lemma bg_inv_submit:
  assumes inv: "bg_inv m" and new: "i \<notin> bt_id ` set (bg_heap m)"
  shows "bg_inv (snd (submit_as now True i tool args m))"
proof -
  define m1 where "m1 = snd (evict_completed_tasks now m)"
  define t where "t = bg_new_task now i tool args m1"
  have m1: "bg_inv m1" "bg_heap m1 = bg_heap m" "bg_disk m1 = bg_disk m" "bg_async m1 = bg_async m"
    using bg_inv_evict [OF inv] evict_keeps [of now m] by (simp_all add: m1_def)
  have fresh: "i \<notin> fst ` set (bg_tasks m1)" "i \<notin> fst ` set (bg_async m1)"
    using m1 new by (auto simp: bg_inv_def dest: points_to_fresh)
  have t: "bt_id t = i" "well_ended t" "bt_status t = BgRunning" by (simp_all add: t_def bg_new_task_def well_ended_def bg_terminal_def)
  have pt: "points_to (bg_heap m @ [t]) (ts @ [(i, length (bg_heap m))])" if "points_to (bg_heap m) ts" for ts
    using points_to_snoc [OF that, of t] t(1) by simp
  have st: "all_stored (bg_heap m @ [t]) (AList.update i (Some (JObj (bg_to_dict t))) (bg_disk m)) (bg_tasks m1 @ [(i, length (bg_heap m))])"
    unfolding all_stored_def
  proof (intro allI impI)
    fix i' a' assume x: "(i', a') \<in> set (bg_tasks m1 @ [(i, length (bg_heap m))])"
    show "map_of (AList.update i (Some (JObj (bg_to_dict t))) (bg_disk m)) i' = Some (Some (JObj (bg_to_dict ((bg_heap m @ [t]) ! a'))))"
    proof (cases "(i', a') \<in> set (bg_tasks m1)")
      case True
      then have "i' \<noteq> i" using fresh(1) by force
      moreover have "a' < length (bg_heap m)" "map_of (bg_disk m) i' = Some (Some (JObj (bg_to_dict (bg_heap m ! a'))))"
        using m1 True by (auto simp: bg_inv_defs)
      ultimately show ?thesis by (simp add: nth_append update_conv')
    qed (use x in \<open>simp add: update_conv'\<close>)
  qed
  have ne: "none_ended (bg_heap m @ [t]) (bg_async m @ [(i, length (bg_heap m))])"
    using m1 t(3) by (auto simp: bg_inv_defs nth_append)
  show ?thesis
    using m1 fresh t pt st ne new
    by (simp add: submit_state [OF inv new m1_def t_def] bg_inv_def distinct_update)
qed

text \<open>What the end of a tool call leaves.\<close>

lemma ended_state:
  "t = ended_task now out (bg_heap m ! a) \<Longrightarrow>
   snd (run_task_end now True out a m) =
     m\<lparr>bg_heap := (bg_heap m)[a := t], bg_disk := AList.update (bt_id t) (Some (JObj (bg_to_dict t))) (bg_disk m),
        bg_async := AList.delete (bt_id t) (bg_async m)\<rparr>"
  by (simp add: run_task_end_def Let_def save_task_def)

lemma ended_id: "bt_id (ended_task now out t) = bt_id t"
  by (cases out) (simp_all add: ended_task_def)

lemma bg_inv_ended:
  assumes inv: "bg_inv m" and job: "(i, a) \<in> set (bg_async m)"
  shows "bg_inv (snd (run_task_end now True out a m))"
proof -
  define t where "t = ended_task now out (bg_heap m ! a)"
  have a: "a < length (bg_heap m)" "bt_id (bg_heap m ! a) = i" "\<not> bg_terminal (bg_heap m ! a)"
    using inv job by (auto simp: bg_inv_defs bg_terminal_def)
  have t: "bt_id t = i" using a by (simp add: t_def ended_id)
  have we: "well_ended t"
    using inv a by (cases out) (auto simp: t_def ended_task_def well_ended_def bg_terminal_def bg_inv_def)
  have ids: "map bt_id ((bg_heap m)[a := t]) = map bt_id (bg_heap m)"
    using a t by (metis list_update_id map_update)
  have pt: "points_to ((bg_heap m)[a := t]) ts" if "points_to (bg_heap m) ts" for ts
    using that a t by (auto simp: points_to_def nth_list_update)
  have inj: "i' = i \<longleftrightarrow> a' = a" if "(i', a') \<in> set (bg_tasks m) \<or> (i', a') \<in> set (bg_async m)" for i' a'
    using that inv job points_to_inj [of "bg_heap m" "bg_tasks m" "bg_async m" i' a' i a]
      points_to_inj [of "bg_heap m" "bg_async m" "bg_async m" i' a' i a] by (auto simp: bg_inv_def)
  have st: "all_stored ((bg_heap m)[a := t]) (AList.update i (Some (JObj (bg_to_dict t))) (bg_disk m)) (bg_tasks m)"
    unfolding all_stored_def
  proof (intro allI impI)
    fix i' a' assume "(i', a') \<in> set (bg_tasks m)"
    with inj [of i' a'] inv a(1)
    show "map_of (AList.update i (Some (JObj (bg_to_dict t))) (bg_disk m)) i' = Some (Some (JObj (bg_to_dict ((bg_heap m)[a := t] ! a'))))"
      by (cases "i' = i") (auto simp: bg_inv_defs update_conv')
  qed
  have ne: "none_ended ((bg_heap m)[a := t]) (AList.delete i (bg_async m))"
    unfolding none_ended_def
  proof (intro allI impI)
    fix i' a' assume "(i', a') \<in> set (AList.delete i (bg_async m))"
    then have "(i', a') \<in> set (bg_async m)" "i' \<noteq> i" by (auto simp: AList.delete_eq)
    with inj [of i' a'] inv show "bt_status ((bg_heap m)[a := t] ! a') = BgRunning" by (auto simp: bg_inv_defs)
  qed
  have "points_to (bg_heap m) (AList.delete i (bg_async m))" using inv by (auto simp: bg_inv_defs AList.delete_eq)
  moreover have "\<forall>t' \<in> set ((bg_heap m)[a := t]). well_ended t'"
    using inv we set_update_subset_insert [of "bg_heap m" a t] by (auto simp: bg_inv_def)
  ultimately show ?thesis
    using inv t ids pt st ne by (simp add: ended_state [OF t_def] bg_inv_def distinct_delete distinct_update)
qed

text \<open>A clean-up removes a task of the memory together with its file, or more from memory only.\<close>

lemma stored_id_dict: "stored_id (JObj (bg_to_dict t)) = bt_id t"
  by (simp add: stored_id_def bg_to_dict_def)

lemma bg_inv_remove:
  assumes inv: "bg_inv m" and fl: "map_of (bg_disk m) stem = Some (Some j)"
  shows "bg_inv (m\<lparr>bg_disk := AList.delete stem (bg_disk m), bg_tasks := AList.delete (stored_id j) (bg_tasks m)\<rparr>)"
proof -
  have "map_of (AList.delete stem (bg_disk m)) i = Some (Some (JObj (bg_to_dict (bg_heap m ! a))))"
    if "(i, a) \<in> set (AList.delete (stored_id j) (bg_tasks m))" for i a
  proof -
    have x: "(i, a) \<in> set (bg_tasks m)" "i \<noteq> stored_id j" using that by (auto simp: AList.delete_eq)
    then have d: "map_of (bg_disk m) i = Some (Some (JObj (bg_to_dict (bg_heap m ! a))))" "bt_id (bg_heap m ! a) = i"
      using inv by (auto simp: bg_inv_defs)
    then have "i \<noteq> stem" using fl x(2) stored_id_dict [of "bg_heap m ! a"] by auto
    with d show ?thesis by (simp add: delete_conv)
  qed
  moreover have "set (AList.delete (stored_id j) (bg_tasks m)) \<subseteq> set (bg_tasks m)" by (auto simp: AList.delete_eq)
  ultimately show ?thesis
    using inv by (auto simp: bg_inv_def points_to_def all_stored_def distinct_delete dest: subsetD)
qed

lemma bg_inv_cleanup:
  "bg_inv m \<Longrightarrow> distinct (map fst fs) \<Longrightarrow> (\<forall>(stem, doc) \<in> set fs. map_of (bg_disk m) stem = Some doc) \<Longrightarrow>
   bg_inv (snd (cleanup_files now age ok fs m))"
proof (induction now age ok fs m rule: cleanup_files.induct)
  case (2 now age ok stem doc fs m)
  show ?case
  proof (cases doc)
    case None
    then show ?thesis using "2.IH"(1) "2.prems" by simp
  next
    case (Some j)
    show ?thesis
    proof (cases "stale_file now age j = Inr True \<and> ok stem")
      case True
      define m' where "m' = m\<lparr>bg_disk := AList.delete stem (bg_disk m), bg_tasks := AList.delete (stored_id j) (bg_tasks m)\<rparr>"
      have "bg_inv m'" unfolding m'_def using "2.prems"(1,3) Some by (intro bg_inv_remove) auto
      moreover have "\<forall>(stem', doc') \<in> set fs. map_of (bg_disk m') stem' = Some doc'"
        using "2.prems"(2,3) by (force simp: m'_def delete_conv)
      ultimately have "bg_inv (snd (cleanup_files now age ok fs m'))"
        using "2.IH"(2) [OF Some, of True] True "2.prems"(2) by (simp add: m'_def)
      moreover have "snd (cleanup_files now age ok ((stem, doc) # fs) m) = snd (cleanup_files now age ok fs m')"
        using Some True by (auto simp: m'_def split: prod.splits sum.splits)
      ultimately show ?thesis by simp
    next
      case False
      then show ?thesis using "2.IH"(3) "2.prems" Some by (cases "stale_file now age j") auto
    qed
  qed
qed simp

definition bg_init :: "bg_mgr \<Rightarrow> bool" where
  "bg_init m \<longleftrightarrow> bg_heap m = [] \<and> bg_tasks m = [] \<and> bg_async m = [] \<and> distinct (map fst (bg_disk m)) \<and> 0 \<le> bg_max_completed m"

lemma bg_inv_work: "bg_work m m' \<Longrightarrow> bg_inv m \<Longrightarrow> bg_inv m'"
  by (induction rule: bg_work.induct) (auto intro: bg_inv_submit bg_inv_ended bg_inv_evict)

lemma bg_inv_step: "bg_step m m' \<Longrightarrow> bg_inv m \<Longrightarrow> bg_inv m'"
proof (induction rule: bg_step.induct)
  case (cleanup m now age unlink_ok)
  then show ?case unfolding cleanup_old_tasks_def by (intro bg_inv_cleanup) (auto simp: bg_inv_def)
qed (rule bg_inv_work)

interpretation bg: step_invariant bg_init bg_step bg_inv
  by (unfold_locales, simp add: bg_init_def bg_inv_defs, rule bg_inv_step)

lemma new_manager_init: "distinct (map fst disk) \<Longrightarrow> bg_init (new_manager cfg dir n eligible r k disk)"
  by (auto simp: new_manager_def bg_init_def resolve_memory_limits_def Let_def split: prod.splits)

section \<open>Eviction is invisible\<close>

lemma get_task_stored:
  "bg_inv m \<Longrightarrow> map_of (bg_tasks m) i = Some a \<Longrightarrow> load_task i m = Inr (Some (bg_heap m ! a))"
  by (auto simp: bg_inv_defs load_task_def decode_to_dict dest: map_of_SomeD)

lemma map_of_filter_keys: "map_of (filter (\<lambda>(k, _). P k) xs) i = (if P i then map_of xs i else None)"
  by (induction xs) auto

text \<open>
  Whatever has happened, an eviction changes no answer of \<^verbatim>\<open>get_task\<close>: what leaves the memory is read back from its
  file unchanged.
\<close>

theorem eviction_invisible:
  assumes "bg_step\<^sup>*\<^sup>* (new_manager cfg dir n eligible r k disk) m" "distinct (map fst disk)"
  shows "get_task i (snd (evict_completed_tasks now m)) = get_task i m"
proof -
  have inv: "bg_inv m" by (rule bg.inv_reachable [OF new_manager_init [OF assms(2)] assms(1)])
  define ids where "ids = expired_ids now m @ overflow_ids now m"
  have "map_of (bg_tasks (snd (evict_completed_tasks now m))) i = (if i \<notin> set ids then map_of (bg_tasks m) i else None)"
    by (simp add: evict_completed_tasks_def ids_def Let_def map_of_filter_keys [where P = "\<lambda>k. k \<notin> _ \<and> k \<notin> _"])
  moreover have "load_task i (snd (evict_completed_tasks now m)) = load_task i m"
    by (simp add: load_task_def evict_keeps)
  ultimately show ?thesis
    using get_task_stored [OF inv, of i] by (auto simp: get_task_def evict_keeps split: option.splits)
qed

section \<open>What stays in memory\<close>

lemma in_tasks_heap: "bg_inv m \<Longrightarrow> (i, a) \<in> set (bg_tasks m) \<Longrightarrow> bt_id (bg_heap m ! a) = i"
  by (auto simp: bg_inv_defs)

lemma retained_ids:
  assumes "bg_inv m"
  shows "map bt_id (retained_terminal now m) =
    map fst (filter (\<lambda>(i, a). i \<notin> set (expired_ids now m) \<and> bg_terminal (bg_heap m ! a)) (bg_tasks m))"
  using in_tasks_heap [OF assms] by (auto simp: retained_terminal_def)

lemma overflow_retained: "set (overflow_ids now m) \<subseteq> bt_id ` set (retained_terminal now m)"
  by (auto simp: overflow_ids_def Let_def dest!: in_set_takeD)

lemma expired_ids_iff:
  "bg_inv m \<Longrightarrow> (i, a) \<in> set (bg_tasks m) \<Longrightarrow> i \<in> set (expired_ids now m) \<longleftrightarrow> expired now m (bg_heap m ! a)"
proof
  assume inv: "bg_inv m" and x: "(i, a) \<in> set (bg_tasks m)"
  {
    assume "i \<in> set (expired_ids now m)"
    then obtain b where "(i, b) \<in> set (bg_tasks m)" "expired now m (bg_heap m ! b)" by (auto simp: expired_ids_def)
    moreover from this have "b = a" using inv x by (auto simp: bg_inv_def dest: eq_key_imp_eq_value)
    ultimately show "expired now m (bg_heap m ! a)" by simp
  next
    assume "expired now m (bg_heap m ! a)"
    then have "(i, a) \<in> set (filter (\<lambda>(_, a). expired now m (bg_heap m ! a)) (bg_tasks m))" using x by simp
    then show "i \<in> set (expired_ids now m)" unfolding expired_ids_def by force
  }
qed

lemma kept_iff:
  "(i, a) \<in> set (bg_tasks (snd (evict_completed_tasks now m))) \<longleftrightarrow>
   (i, a) \<in> set (bg_tasks m) \<and> i \<notin> set (expired_ids now m) \<and> i \<notin> set (overflow_ids now m)"
  by (auto simp: evict_completed_tasks_def Let_def)

text \<open>The tasks that overflow are the first of the sorted list, the others are its rest.\<close>

lemma overflow_split:
  assumes inv: "bg_inv m" and t: "t \<in> set (retained_terminal now m)"
  defines "S \<equiv> sort_key evict_key (retained_terminal now m)"
    and "n \<equiv> nat (int (length (retained_terminal now m)) - bg_max_completed m)"
  shows "if bt_id t \<in> set (overflow_ids now m) then t \<in> set (take n S) else t \<in> set (drop n S)"
proof -
  have "t \<in> set S" using t by (simp add: S_def)
  then have S: "t \<in> set (take n S) \<union> set (drop n S)" unfolding set_append [symmetric] by simp
  have ov: "overflow_ids now m = map bt_id (take n S)" by (simp add: overflow_ids_def Let_def S_def n_def)
  have "distinct (map bt_id (retained_terminal now m))"
    unfolding retained_ids [OF inv] using inv by (auto simp: bg_inv_def intro: distinct_fst_filter)
  then have inj: "inj_on bt_id (set S)" by (simp add: distinct_map S_def)
  have "t \<in> set (take n S)" if "bt_id t \<in> set (overflow_ids now m)"
  proof -
    have "bt_id t \<in> bt_id ` set (take n S)" using that ov by simp
    then obtain u where "u \<in> set (take n S)" "bt_id u = bt_id t" by (metis imageE)
    then have "u = t" using inj t by (auto simp: S_def inj_on_def dest: in_set_takeD)
    with \<open>u \<in> set (take n S)\<close> show ?thesis by simp
  qed
  moreover have "t \<notin> set (take n S)" if "bt_id t \<notin> set (overflow_ids now m)" using that ov by auto
  ultimately show ?thesis using S by auto
qed

lemma length_filter_notin:
  "distinct xs \<Longrightarrow> distinct ys \<Longrightarrow> set ys \<subseteq> set xs \<Longrightarrow> length (filter (\<lambda>x. x \<notin> set ys) xs) = length xs - length ys"
proof -
  assume a: "distinct xs" "distinct ys" "set ys \<subseteq> set xs"
  have "length (filter (\<lambda>x. x \<notin> set ys) xs) = card (set xs - set ys)"
    using a(1) by (simp add: distinct_card [symmetric] set_diff_eq)
  also have "\<dots> = length xs - length ys" using a by (simp add: card_Diff_subset distinct_card)
  finally show ?thesis .
qed

lemma kept_terminal_count:
  assumes inv: "bg_inv m"
  shows "int (length (filter (\<lambda>(_, a). bg_terminal (bg_heap m ! a)) (bg_tasks (snd (evict_completed_tasks now m))))) \<le> bg_max_completed m"
proof -
  have limit: "0 \<le> bg_max_completed m" using inv by (simp add: bg_inv_def)
  define R where "R = retained_terminal now m"
  define n where "n = nat (int (length R) - bg_max_completed m)"
  have ids: "map bt_id R = map fst (filter (\<lambda>(i, a). i \<notin> set (expired_ids now m) \<and> bg_terminal (bg_heap m ! a)) (bg_tasks m))"
    unfolding R_def by (rule retained_ids [OF inv])
  have d: "distinct (map bt_id R)" unfolding ids using inv by (auto simp: bg_inv_def intro: distinct_fst_filter)
  have ov: "overflow_ids now m = map bt_id (take n (sort_key evict_key R))" by (simp add: overflow_ids_def Let_def R_def n_def)
  have "map fst (filter (\<lambda>(_, a). bg_terminal (bg_heap m ! a)) (bg_tasks (snd (evict_completed_tasks now m)))) =
      filter (\<lambda>i. i \<notin> set (overflow_ids now m)) (map bt_id R)"
    unfolding ids by (simp add: evict_completed_tasks_def Let_def filter_map comp_def case_prod_beta conj_ac)
  then have "length (filter (\<lambda>(_, a). bg_terminal (bg_heap m ! a)) (bg_tasks (snd (evict_completed_tasks now m)))) =
      length (filter (\<lambda>i. i \<notin> set (overflow_ids now m)) (map bt_id R))"
    by (metis length_map)
  also have "\<dots> = length R - length (overflow_ids now m)"
  proof -
    have "distinct (map bt_id (sort_key evict_key R))" using d by (simp add: distinct_map)
    then have "distinct (overflow_ids now m)" unfolding ov take_map [symmetric] by (rule distinct_take)
    then show ?thesis using length_filter_notin [OF d] overflow_retained [of now m] by (simp add: R_def)
  qed
  also have "\<dots> = length R - n" unfolding ov using limit by (simp add: n_def)
  finally show ?thesis using limit by (simp add: n_def)
qed

text \<open>
  After an eviction at most \<^verbatim>\<open>max_completed_tasks_in_memory\<close> ended tasks are in memory, none of them expired, every
  running task is still there, and an ended task that had to go although it was not expired ended no later than
  those that stayed.
\<close>

theorem eviction_limits:
  assumes reach: "bg_step\<^sup>*\<^sup>* (new_manager cfg dir n eligible r k disk) m" "distinct (map fst disk)"
    and m': "m' = snd (evict_completed_tasks now m)"
  shows "int (length (filter (\<lambda>(_, a). bg_terminal (bg_heap m ! a)) (bg_tasks m'))) \<le> bg_max_completed m \<and>
    (\<forall>(i, a) \<in> set (bg_tasks m'). \<not> expired now m (bg_heap m ! a)) \<and>
    (\<forall>(i, a) \<in> set (bg_tasks m). \<not> bg_terminal (bg_heap m ! a) \<longrightarrow> (i, a) \<in> set (bg_tasks m')) \<and>
    (\<forall>(i, a) \<in> set (bg_tasks m) - set (bg_tasks m'). \<not> expired now m (bg_heap m ! a) \<longrightarrow>
      (\<forall>(j, b) \<in> set (bg_tasks m'). bg_terminal (bg_heap m ! b) \<longrightarrow> evict_key (bg_heap m ! a) \<le> evict_key (bg_heap m ! b)))"
proof -
  have inv: "bg_inv m" by (rule bg.inv_reachable [OF new_manager_init [OF reach(2)] reach(1)])
  have ret: "bg_heap m ! a \<in> set (retained_terminal now m)"
    if "(i, a) \<in> set (bg_tasks m)" "\<not> expired now m (bg_heap m ! a)" "bg_terminal (bg_heap m ! a)" for i a
    using that expired_ids_iff [OF inv] by (force simp: retained_terminal_def)
  have run: "(i, a) \<in> set (bg_tasks m')" if x: "(i, a) \<in> set (bg_tasks m)" "\<not> bg_terminal (bg_heap m ! a)" for i a
  proof -
    have "i \<notin> set (overflow_ids now m)"
    proof
      assume "i \<in> set (overflow_ids now m)"
      then obtain j b where b: "(j, b) \<in> set (bg_tasks m)" "bg_terminal (bg_heap m ! b)" "bt_id (bg_heap m ! b) = i"
        using overflow_retained [of now m] by (fastforce simp: retained_terminal_def)
      then have "j = i" using in_tasks_heap [OF inv] by simp
      then have "b = a" using b(1) x(1) inv by (auto simp: bg_inv_def dest: eq_key_imp_eq_value)
      with b x show False by simp
    qed
    moreover have "\<not> expired now m (bg_heap m ! a)" using x(2) by (simp add: expired_def)
    ultimately show ?thesis using x expired_ids_iff [OF inv x(1)] by (simp add: m' kept_iff)
  qed
  have ord: "evict_key (bg_heap m ! a) \<le> evict_key (bg_heap m ! b)"
    if "(i, a) \<in> set (bg_tasks m)" "(i, a) \<notin> set (bg_tasks m')" "\<not> expired now m (bg_heap m ! a)"
      "(j, b) \<in> set (bg_tasks m')" "bg_terminal (bg_heap m ! b)" for i a j b
  proof -
    define S where "S = sort_key evict_key (retained_terminal now m)"
    define n where "n = nat (int (length (retained_terminal now m)) - bg_max_completed m)"
    have b: "(j, b) \<in> set (bg_tasks m)" "j \<notin> set (overflow_ids now m)" "\<not> expired now m (bg_heap m ! b)"
      using that(4) expired_ids_iff [OF inv, of j b now] by (auto simp: m' kept_iff)
    have ov: "i \<in> set (overflow_ids now m)" using that(1,2,3) expired_ids_iff [OF inv that(1)] by (simp add: m' kept_iff)
    have ta: "bg_terminal (bg_heap m ! a)" using run that(1,2) by blast
    have "bg_heap m ! a \<in> set (take n S)"
      using overflow_split [OF inv ret [OF that(1,3) ta]] ov in_tasks_heap [OF inv that(1)] by (simp add: S_def n_def)
    moreover have "bg_heap m ! b \<in> set (drop n S)"
      using overflow_split [OF inv ret [OF b(1,3) that(5)]] b(2) in_tasks_heap [OF inv b(1)] by (simp add: S_def n_def)
    moreover have "sorted (map evict_key (take n S @ drop n S))" by (simp add: S_def del: map_append)
    ultimately show ?thesis unfolding map_append sorted_append by auto
  qed
  have "\<not> expired now m (bg_heap m ! a)" if "(i, a) \<in> set (bg_tasks m')" for i a
    using that expired_ids_iff [OF inv, of i a now] by (simp add: m' kept_iff)
  with kept_terminal_count [OF inv, of now] run ord show ?thesis by (auto simp: m')
qed

section \<open>Results stay, cancelled tasks run for ever\<close>

text \<open>A task object without a coroutine does not change, and without a clean-up its file does not either.\<close>

definition settled :: "nat \<Rightarrow> bg_task \<Rightarrow> bg_mgr \<Rightarrow> bool" where
  "settled a t m \<longleftrightarrow> a < length (bg_heap m) \<and> bg_heap m ! a = t \<and> a \<notin> snd ` set (bg_async m)"

definition filed :: "bg_task \<Rightarrow> bg_mgr \<Rightarrow> bool" where
  "filed t m \<longleftrightarrow> map_of (bg_disk m) (bt_id t) = Some (Some (JObj (bg_to_dict t)))"

lemma settled_work:
  assumes work: "bg_work m m'" and inv: "bg_inv m" and st: "settled a t m"
  shows "settled a t m' \<and> (filed t m \<longrightarrow> filed t m')"
  using work
proof cases
  case (submit i now tool args)
  have "bt_id t \<in> bt_id ` set (bg_heap m)" using st by (auto simp: settled_def)
  then have "bt_id t \<noteq> i" using submit(2) by metis
  then show ?thesis
    using st by (auto simp: submit(1) submit_state [OF inv submit(2) refl refl] settled_def filed_def nth_append update_conv')
next
  case (ended i b now out)
  have b: "b < length (bg_heap m)" "b \<noteq> a" using inv ended(2) st by (auto simp: bg_inv_defs settled_def image_iff)
  then have "bt_id (bg_heap m ! b) \<noteq> bt_id t"
    using inv st nth_eq_iff_index_eq [of "map bt_id (bg_heap m)" a b] by (auto simp: bg_inv_def settled_def)
  then show ?thesis
    using st b by (auto simp: ended(1) ended_state [OF refl] settled_def filed_def ended_id update_conv' AList.delete_eq)
next
  case (evict now)
  then show ?thesis using st by (simp add: settled_def filed_def evict_keeps)
qed

lemma cleanup_keeps: "bg_heap (snd (cleanup_files now age ok fs m)) = bg_heap m \<and> bg_async (snd (cleanup_files now age ok fs m)) = bg_async m"
proof (induction fs arbitrary: m)
  case (Cons f fs)
  have "snd (case x of (Inl e, m') \<Rightarrow> (Inl e, m') | (Inr k, m') \<Rightarrow> (Inr (k + 1), m')) = snd x" for x :: "(py_error + nat) \<times> bg_mgr"
    by (cases x; cases "fst x") auto
  with Cons show ?case by (cases f) (auto split: option.splits sum.splits)
qed simp

lemma settled_step:
  assumes "bg_step m m'" "bg_inv m" "settled a t m"
  shows "settled a t m'"
  using assms(1)
proof cases
  case work
  then show ?thesis using settled_work assms by blast
next
  case (cleanup now age unlink_ok)
  then show ?thesis using assms(3) by (simp add: settled_def cleanup_old_tasks_def cleanup_keeps)
qed

lemma ended_settles:
  assumes "bg_inv m" "(i, a) \<in> set (bg_async m)" "t = ended_task now out (bg_heap m ! a)"
  shows "settled a t (snd (run_task_end now True out a m)) \<and> filed t (snd (run_task_end now True out a m)) \<and> bt_id t = i"
proof -
  have a: "a < length (bg_heap m)" "bt_id t = i" using assms by (auto simp: bg_inv_defs ended_id)
  have "b \<noteq> a" if "(j, b) \<in> set (AList.delete i (bg_async m))" for j b
    using that assms(1,2) points_to_inj [of "bg_heap m" "bg_async m" "bg_async m" j b i a] by (auto simp: bg_inv_def AList.delete_eq)
  with a show ?thesis by (force simp: ended_state [OF assms(3)] settled_def filed_def update_conv')
qed

text \<open>
  The result of a tool call can be retrieved at any later time until a clean-up removes it, whatever is submitted,
  ends or is evicted meanwhile.
\<close>

theorem result_stays_retrievable:
  assumes reach: "bg_step\<^sup>*\<^sup>* (new_manager cfg dir n eligible r k disk) m" "distinct (map fst disk)"
    and job: "(i, a) \<in> set (bg_async m)" and later: "bg_work\<^sup>*\<^sup>* (snd (run_task_end now True out a m)) m2"
  shows "get_task i m2 = Inr (Some (ended_task now out (bg_heap m ! a)))"
proof -
  have inv: "bg_inv m" by (rule bg.inv_reachable [OF new_manager_init [OF reach(2)] reach(1)])
  define t where "t = ended_task now out (bg_heap m ! a)"
  have start: "settled a t (snd (run_task_end now True out a m))" "filed t (snd (run_task_end now True out a m))" "bt_id t = i"
    using ended_settles [OF inv job t_def] by auto
  have "bg_inv m2 \<and> settled a t m2 \<and> filed t m2"
    using later
  proof (induction rule: rtranclp_induct)
    case base
    then show ?case using start bg_inv_ended [OF inv job] by simp
  next
    case (step x y)
    then show ?case using settled_work [of x y a t] bg_inv_work [of x y] by blast
  qed
  then have m2: "bg_inv m2" "settled a t m2" "filed t m2" by auto
  show ?thesis
  proof (cases "map_of (bg_tasks m2) i")
    case None
    then show ?thesis using m2(3) start(3) by (simp add: get_task_def load_task_def filed_def decode_to_dict t_def)
  next
    case (Some b)
    then have "b < length (bg_heap m2)" "bt_id (bg_heap m2 ! b) = i" using m2(1) by (auto simp: bg_inv_defs dest: map_of_SomeD)
    then have "b = a"
      using m2(1,2) start(3) nth_eq_iff_index_eq [of "map bt_id (bg_heap m2)" a b] by (auto simp: bg_inv_def settled_def)
    with Some m2(2) show ?thesis by (simp add: get_task_def settled_def t_def)
  qed
qed

text \<open>
  A task whose coroutine was cancelled keeps the status running although nothing runs: no later step changes it, and
  only a clean-up of files older than two days removes it.
\<close>

theorem cancelled_task_stays_running:
  assumes reach: "bg_step\<^sup>*\<^sup>* (new_manager cfg dir n eligible r k disk) m" "distinct (map fst disk)"
    and job: "(i, a) \<in> set (bg_async m)" and later: "bg_step\<^sup>*\<^sup>* (snd (run_task_end now True Cancelled a m)) m2"
  shows "bt_status (bg_heap m2 ! a) = BgRunning \<and> (i, a) \<notin> set (bg_async m2)"
proof -
  have inv: "bg_inv m" by (rule bg.inv_reachable [OF new_manager_init [OF reach(2)] reach(1)])
  define t where "t = ended_task now Cancelled (bg_heap m ! a)"
  have "bg_inv m2 \<and> settled a t m2"
    using later
  proof (induction rule: rtranclp_induct)
    case base
    then show ?case using ended_settles [OF inv job t_def] bg_inv_ended [OF inv job] by simp
  next
    case (step x y)
    then show ?case using settled_step [of x y a t] bg_inv_step [of x y] by blast
  qed
  moreover have "bt_status t = BgRunning" using inv job by (auto simp: bg_inv_defs t_def ended_task_def)
  ultimately show ?thesis by (force simp: settled_def)
qed

section \<open>Rotation loses no line\<close>

lemma unbroken_context: "(\<forall>k < length l. break_at (drop k l @ s) = 0) \<Longrightarrow> unbroken l"
proof (induction l)
  case (Cons c cs)
  have "break_at (c # cs) = 0" using Cons.prems break_at_prefix [of "c # cs" s] by fastforce
  moreover have "\<forall>k < length cs. break_at (drop k cs @ s) = 0" using Cons.prems by (metis Suc_less_eq drop_Suc_Cons length_Cons)
  ultimately show ?case using Cons.IH by simp
qed simp

lemma u_lines_unbroken_all:
  "(\<forall>k < length acc. break_at (drop k (rev acc) @ s) = 0) \<Longrightarrow> l \<in> set (u_lines acc s) \<Longrightarrow> unbroken l"
proof (induction acc s rule: u_lines.induct)
  case (1 acc)
  then show ?case using unbroken_context [of "rev acc" "[]"] by (auto split: if_splits)
next
  case (2 acc c cs)
  show ?case
  proof (cases "break_at (c # cs) = 0")
    case True
    have "break_at (drop k (rev (c # acc)) @ cs) = 0" if "k < length (c # acc)" for k
      using that "2.prems"(1) True by (cases "k < length acc") (auto simp: less_Suc_eq)
    then show ?thesis using "2.IH"(1) True "2.prems"(2) by auto
  next
    case False
    then show ?thesis using "2.IH"(2) "2.prems" unbroken_context [of "rev acc" "c # cs"] by auto
  qed
qed

lemma split_join: "\<forall>l \<in> set ls. unbroken l \<Longrightarrow> u_splitlines (dm_join ls) = ls"
proof (induction ls)
  case (Cons l ls)
  then show ?case using u_lines_line [of l "[]" "dm_join ls"] by (simp add: u_splitlines_def dm_join_def)
qed (simp add: u_splitlines_def dm_join_def)

lemma dm_split_parts:
  "dm_split fromiso cutoff ls = Inr (recent, old) \<Longrightarrow>
   recent = filter (\<lambda>l. u_strip l \<noteq> [] \<and> dm_recent fromiso cutoff l = Inr True) ls \<and>
   old = filter (\<lambda>l. u_strip l \<noteq> [] \<and> dm_recent fromiso cutoff l = Inr False) ls"
  by (induction ls arbitrary: recent old) (auto split: if_splits sum.splits prod.splits)

lemma dm_split_length:
  "dm_split fromiso cutoff ls = Inr (recent, old) \<Longrightarrow> length old + length recent = length (filter (\<lambda>l. u_strip l \<noteq> []) ls)"
  by (induction ls arbitrary: recent old) (auto split: if_splits sum.splits prod.splits)

text \<open>
  A rotation moves the old lines to the archive and keeps the others, in order; only blank lines are dropped.
\<close>

theorem rotation_keeps_lines:
  assumes "rotate_dm_file fromiso cutoff date True stem files = Inr (files', Some (n, k))"
    and "map_of files (stem @ ''.jsonl'') = Some content" "map_of files (stem @ ''.'' @ date @ ''.archive.jsonl'') = None"
  shows "\<exists>active archived. map_of files' (stem @ ''.jsonl'') = Some active \<and>
    map_of files' (stem @ ''.'' @ date @ ''.archive.jsonl'') = Some archived \<and>
    u_splitlines active = filter (\<lambda>l. u_strip l \<noteq> [] \<and> dm_recent fromiso cutoff l = Inr True) (u_splitlines content) \<and>
    u_splitlines archived = filter (\<lambda>l. u_strip l \<noteq> [] \<and> dm_recent fromiso cutoff l = Inr False) (u_splitlines content) \<and>
    n + k = length (filter (\<lambda>l. u_strip l \<noteq> []) (u_splitlines content))"
proof -
  obtain recent old where sp: "dm_split fromiso cutoff (u_splitlines content) = Inr (recent, old)"
    using assms by (auto simp: rotate_dm_file_def split: sum.splits)
  have f: "files' = AList.update (stem @ ''.jsonl'') (dm_join recent)
      (AList.update (stem @ ''.'' @ date @ ''.archive.jsonl'') (dm_join old) files)" "n = length old" "k = length recent"
    using assms sp by (auto simp: rotate_dm_file_def Let_def split: if_splits)
  have ub: "unbroken l" if "l \<in> set (u_splitlines content)" for l
    using that u_lines_unbroken_all [of "[]" content l] by (simp add: u_splitlines_def)
  have parts: "recent = filter (\<lambda>l. u_strip l \<noteq> [] \<and> dm_recent fromiso cutoff l = Inr True) (u_splitlines content)"
    "old = filter (\<lambda>l. u_strip l \<noteq> [] \<and> dm_recent fromiso cutoff l = Inr False) (u_splitlines content)"
    using dm_split_parts [OF sp] by auto
  have "u_splitlines (dm_join recent) = recent" "u_splitlines (dm_join old) = old"
    using ub by (auto simp: parts intro!: split_join)
  moreover have "length old + length recent = length (filter (\<lambda>l. u_strip l \<noteq> []) (u_splitlines content))"
    using dm_split_length [OF sp] .
  ultimately show ?thesis using f parts by (auto simp: update_conv')
qed

section \<open>Witnesses\<close>

definition bg_demo :: bg_mgr where
  "bg_demo = new_manager None ''sakura'' [] None (Some 1) (Some 5) []"

definition bg_demo_submitted :: bg_mgr where
  "bg_demo_submitted = snd (submit_as 0 True ''t1'' ''local_llm'' [] bg_demo)"

definition bg_demo_ended :: bg_mgr where
  "bg_demo_ended = snd (run_task_end 10 True (Returned (Some ''ok'')) 0 bg_demo_submitted)"

lemma bg_demo_job: "(''t1'', 0) \<in> set (bg_async bg_demo_submitted)"
  by code_simp

lemma bg_demo_reachable:
  "bg_step\<^sup>*\<^sup>* (new_manager None ''sakura'' [] None (Some 1) (Some 5) []) bg_demo_submitted"
  "bg_step\<^sup>*\<^sup>* (new_manager None ''sakura'' [] None (Some 1) (Some 5) []) bg_demo_ended"
proof -
  have "''t1'' \<notin> bt_id ` set (bg_heap bg_demo)" by (simp add: bg_demo_def new_manager_def split: prod.split)
  then have "bg_work bg_demo bg_demo_submitted" unfolding bg_demo_submitted_def by (rule bg_work.submit)
  then show s: "bg_step\<^sup>*\<^sup>* (new_manager None ''sakura'' [] None (Some 1) (Some 5) []) bg_demo_submitted"
    using bg_step.work bg_demo_def by (auto intro: r_into_rtranclp)
  have "bg_work bg_demo_submitted bg_demo_ended" unfolding bg_demo_ended_def using bg_demo_job by (rule bg_work.ended)
  then show "bg_step\<^sup>*\<^sup>* (new_manager None ''sakura'' [] None (Some 1) (Some 5) []) bg_demo_ended"
    using s bg_step.work by (auto intro: rtranclp.rtrancl_into_rtrancl)
qed

theorem eviction_invisible_witness:
  "get_task ''t1'' (snd (evict_completed_tasks 100 bg_demo_ended)) = get_task ''t1'' bg_demo_ended \<and>
   bg_tasks (snd (evict_completed_tasks 100 bg_demo_ended)) = []"
proof -
  have "bg_tasks (snd (evict_completed_tasks 100 bg_demo_ended)) = []" by code_simp
  with eviction_invisible [OF bg_demo_reachable(2)] show ?thesis by simp
qed

theorem eviction_limits_witness:
  "int (length (filter (\<lambda>(_, a). bg_terminal (bg_heap bg_demo_ended ! a)) (bg_tasks (snd (evict_completed_tasks 20 bg_demo_ended))))) \<le> 5"
proof -
  have "bg_max_completed bg_demo_ended = 5" by code_simp
  with eviction_limits [OF bg_demo_reachable(2) _ refl, of 20] show ?thesis by simp
qed

theorem result_stays_retrievable_witness:
  "get_task ''t1'' (snd (evict_completed_tasks 100 bg_demo_ended)) =
     Inr (Some (ended_task 10 (Returned (Some ''ok'')) (bg_heap bg_demo_submitted ! 0)))"
proof -
  have "bg_work\<^sup>*\<^sup>* (snd (run_task_end 10 True (Returned (Some ''ok'')) 0 bg_demo_submitted)) (snd (evict_completed_tasks 100 bg_demo_ended))"
    unfolding bg_demo_ended_def by (rule r_into_rtranclp) (rule bg_work.evict)
  with result_stays_retrievable [OF bg_demo_reachable(1) _ bg_demo_job] show ?thesis by simp
qed

theorem cancelled_task_stays_running_witness:
  "bt_status (bg_heap (snd (run_task_end 10 True Cancelled 0 bg_demo_submitted)) ! 0) = BgRunning"
  using cancelled_task_stays_running [OF bg_demo_reachable(1) _ bg_demo_job, of 10] by simp

definition dm_demo_old :: string where
  "dm_demo_old = dumps [(''ts'', ''old''), (''text'', ''hi'')]"

definition dm_demo_files :: "(string \<times> string) list" where
  "dm_demo_files = [(''a-b.jsonl'', dm_demo_old @ [CHR 0x0A])]"

theorem rotation_keeps_lines_witness:
  "\<exists>archived. map_of (fst (projr (rotate_dm_file (\<lambda>_. Some 1) 5 ''20260101'' True ''a-b'' dm_demo_files))) ''a-b.20260101.archive.jsonl'' = Some archived \<and>
     u_splitlines archived = [dm_demo_old]"
proof -
  have a: "rotate_dm_file (\<lambda>_. Some 1) 5 ''20260101'' True ''a-b'' dm_demo_files =
      Inr (fst (projr (rotate_dm_file (\<lambda>_. Some 1) 5 ''20260101'' True ''a-b'' dm_demo_files)), Some (1, 0))" by code_simp
  have b: "map_of dm_demo_files (''a-b'' @ ''.jsonl'') = Some (dm_demo_old @ [CHR 0x0A])" by code_simp
  have c: "map_of dm_demo_files (''a-b'' @ ''.'' @ ''20260101'' @ ''.archive.jsonl'') = None" by code_simp
  have "filter (\<lambda>l. u_strip l \<noteq> [] \<and> dm_recent (\<lambda>_. Some 1) 5 l = Inr False) (u_splitlines (dm_demo_old @ [CHR 0x0A])) = [dm_demo_old]"
    by code_simp
  with rotation_keeps_lines [OF a b c] show ?thesis by auto
qed

end
