(* ===== verification/File_Access.thy ===== *)
theory File_Access
  imports Anima_Prelude "HOL-Library.Sublist"
begin

text \<open>
  Where an anima may read and write: the policy helpers of \<^verbatim>\<open>core/file_access_policy.py\<close>, the decision
  \<^verbatim>\<open>_check_file_permission\<close> of \<^verbatim>\<open>core/tooling/handler_perms.py\<close> with \<^verbatim>\<open>core/tooling/handler_base.py\<close>, the company
  membership of \<^verbatim>\<open>core/company.py\<close> and \<^verbatim>\<open>core/config/anima_registry.py\<close>, and the permission record of
  \<^verbatim>\<open>core/config/schemas.py\<close>. An absolute path is the list of its components. What the file system answers is a
  record of functions: following symbolic links (\<^verbatim>\<open>Path.resolve\<close>), the lexical absolute path, existence,
  whether a directory can be made (or is there), directory contents, and the decoded status files. The error texts are constructors.
\<close>

section \<open>Paths\<close>

type_synonym path = "string list"

text \<open>\<^verbatim>\<open>Path.is_relative_to\<close>, \<^verbatim>\<open>Path.parent\<close>, \<^verbatim>\<open>Path.name\<close>.\<close>

definition under :: "path \<Rightarrow> path \<Rightarrow> bool" where
  "under p rt = prefix rt p"

definition parent_dir :: "path \<Rightarrow> path" where
  "parent_dir p = butlast p"

definition base_name :: "path \<Rightarrow> string" where
  "base_name p = (if p = [] then [] else last p)"

text \<open>The components of a path string, without empty ones and single dots.\<close>

fun split_slash :: "string \<Rightarrow> string \<Rightarrow> string list" where
  "split_slash acc [] = [rev acc]"
| "split_slash acc (c # cs) = (if c = CHR ''/'' then rev acc # split_slash [] cs else split_slash (c # acc) cs)"

definition components :: "string \<Rightarrow> path" where
  "components s = filter (\<lambda>c. c \<noteq> [] \<and> c \<noteq> ''.'') (split_slash [] s)"

definition is_absolute :: "string \<Rightarrow> bool" where
  "is_absolute s = starts_with s ''/''"

text \<open>\<^verbatim>\<open>base / s\<close>: an absolute right operand replaces the left one.\<close>

definition join_path :: "path \<Rightarrow> string \<Rightarrow> path" where
  "join_path base s = (if is_absolute s then components s else base @ components s)"

record file_system =
  fs_resolve :: "string \<Rightarrow> path"
  fs_expand :: "string \<Rightarrow> path"
  fs_abspath :: "string \<Rightarrow> path"
  fs_canon :: "path \<Rightarrow> path"
  fs_is_symlink :: "path \<Rightarrow> bool"
  fs_exists :: "path \<Rightarrow> bool"
  fs_mkdir :: "path \<Rightarrow> bool"
  fs_children :: "path \<Rightarrow> (string \<times> bool) list option"
  fs_status :: "path \<Rightarrow> json option"

section \<open>Company membership\<close>

text \<open>\<open>fs_status d\<close> is the content of \<^verbatim>\<open>status.json\<close> in the directory \<open>d\<close>, \<open>None\<close> when it cannot be read as JSON.\<close>

definition read_anima_company_checked :: "file_system \<Rightarrow> path \<Rightarrow> bool \<times> string option" where
  "read_anima_company_checked fs d =
     (case fs_status fs d of
        Some (JObj data) \<Rightarrow>
          (case map_of data ''company'' of
             Some (JStr raw) \<Rightarrow> (True, if py_strip raw = [] then None else Some (py_strip raw))
           | _ \<Rightarrow> (True, None))
      | _ \<Rightarrow> (False, None))"

definition read_anima_company :: "file_system \<Rightarrow> path \<Rightarrow> string option" where
  "read_anima_company fs d = snd (read_anima_company_checked fs d)"

definition get_company :: "file_system \<Rightarrow> string \<Rightarrow> path \<Rightarrow> string option" where
  "get_company fs name animas_dir =
     (if name = [] then None
      else let candidate = fs_canon fs (join_path animas_dir name)
           in if parent_dir candidate \<noteq> fs_canon fs animas_dir then None else read_anima_company fs candidate)"

section \<open>Roots\<close>

text \<open>
  \<^verbatim>\<open>company_shared_write_root\<close>: the directory \<^verbatim>\<open>shared\<close> of the anima's company, if no symbolic link and no odd name
  leads elsewhere.
\<close>

definition company_shared_write_root :: "file_system \<Rightarrow> path \<Rightarrow> path option" where
  "company_shared_write_root fs anima_dir =
     (case get_company fs (base_name anima_dir) (parent_dir anima_dir) of
        None \<Rightarrow> None
      | Some company \<Rightarrow>
          let data_dir = parent_dir (parent_dir (fs_canon fs anima_dir));
              companies_dir = fs_canon fs (data_dir @ [''companies'']);
              company_root = join_path companies_dir company
          in if parent_dir company_root \<noteq> companies_dir \<or> fs_is_symlink fs company_root then None
             else let real_root = fs_canon fs company_root
                  in if parent_dir real_root \<noteq> companies_dir then None
                     else if fs_is_symlink fs (real_root @ [''shared'']) then None
                     else let shared = fs_canon fs (real_root @ [''shared''])
                          in if parent_dir shared \<noteq> real_root then None else Some shared)"

definition data_dir_of :: "file_system \<Rightarrow> path \<Rightarrow> path" where
  "data_dir_of fs anima_dir = parent_dir (parent_dir (fs_canon fs anima_dir))"

text \<open>The loop over the configured roots; a root inside the data directory is an error.\<close>

fun charter_roots :: "file_system \<Rightarrow> path \<Rightarrow> path option \<Rightarrow> string list \<Rightarrow> py_error + path list" where
  "charter_roots fs data_dir shared [] = Inr []"
| "charter_roots fs data_dir shared (rt # roots) =
     (let resolved = fs_expand fs rt
      in if under resolved data_dir \<and> \<not> (case shared of None \<Rightarrow> False | Some s \<Rightarrow> under resolved s)
         then Inl (ValueError ''config.file_roots_inside_data_dir'')
         else case charter_roots fs data_dir shared roots of Inl e \<Rightarrow> Inl e | Inr rs \<Rightarrow> Inr (resolved # rs))"

text \<open>\<^verbatim>\<open>tuple(dict.fromkeys(xs))\<close>: the first occurrences in order.\<close>

definition unique_keys :: "'a list \<Rightarrow> 'a list" where
  "unique_keys xs = rev (remdups (rev xs))"

text \<open>The company's shared directory is made first; when that fails the call raises.\<close>

definition effective_write_roots :: "file_system \<Rightarrow> path \<Rightarrow> string list \<Rightarrow> string option \<Rightarrow> py_error + path list" where
  "effective_write_roots fs anima_dir file_roots task_cwd =
     (let shared = company_shared_write_root fs anima_dir
      in if (case shared of None \<Rightarrow> False | Some s \<Rightarrow> \<not> fs_mkdir fs s) then Inl (StorageError ''mkdir'')
         else case charter_roots fs (data_dir_of fs anima_dir) shared file_roots of
           Inl e \<Rightarrow> Inl e
         | Inr rs \<Rightarrow> Inr (unique_keys ((case shared of None \<Rightarrow> [] | Some s \<Rightarrow> [s]) @ rs @
                       (case task_cwd of None \<Rightarrow> [] | Some c \<Rightarrow> [fs_expand fs c]))))"

definition shared_tool_cache_write_root :: "file_system \<Rightarrow> path \<Rightarrow> path option" where
  "shared_tool_cache_write_root fs anima_dir =
     (let data_dir = data_dir_of fs anima_dir; cache_root = data_dir @ [''cache'']
      in if fs_is_symlink fs cache_root \<or> \<not> fs_mkdir fs cache_root then None
         else if parent_dir (fs_canon fs cache_root) \<noteq> data_dir then None else Some (fs_canon fs cache_root))"

definition resolve_denied_roots :: "file_system \<Rightarrow> string list \<Rightarrow> path list" where
  "resolve_denied_roots fs roots = map (fs_resolve fs) roots"

text \<open>\<open>fs_children\<close> lists the names with the information whether they are directories, in the order of \<^verbatim>\<open>sorted\<close>.\<close>

definition company_denied_roots :: "file_system \<Rightarrow> path \<Rightarrow> path list" where
  "company_denied_roots fs anima_dir =
     (case get_company fs (base_name anima_dir) (parent_dir anima_dir) of
        None \<Rightarrow> []
      | Some company \<Rightarrow>
          let companies_dir = parent_dir (parent_dir anima_dir) @ [''companies'']
          in case fs_children fs companies_dir of
               None \<Rightarrow> []
             | Some entries \<Rightarrow>
                 map (\<lambda>(name, _). fs_canon fs (companies_dir @ [name])) (filter (\<lambda>(name, is_dir). name \<noteq> company \<and> is_dir) entries))"

definition drop_nested :: "path list \<Rightarrow> path list" where
  "drop_nested roots = filter (\<lambda>r. \<not> (\<exists>other \<in> set roots. other \<noteq> r \<and> under r other)) roots"

definition merged_roots :: "file_system \<Rightarrow> path \<Rightarrow> string list \<Rightarrow> path list" where
  "merged_roots fs anima_dir configured = unique_keys (resolve_denied_roots fs configured @ company_denied_roots fs anima_dir)"

definition resolve_effective_denied_roots :: "file_system \<Rightarrow> path \<Rightarrow> string list \<Rightarrow> path list" where
  "resolve_effective_denied_roots fs anima_dir configured = drop_nested (merged_roots fs anima_dir configured)"

definition find_denied_root :: "path \<Rightarrow> path list \<Rightarrow> path option" where
  "find_denied_root resolved roots = find (\<lambda>r. under resolved r) roots"

text \<open>The protected cache, reached by the resolved or by the lexical path.\<close>

definition find_internal_cache_root :: "file_system \<Rightarrow> string \<Rightarrow> path \<Rightarrow> path option" where
  "find_internal_cache_root fs p anima_dir =
     (let rt = fs_canon fs anima_dir
      in if \<exists>candidate \<in> {fs_resolve fs p, fs_abspath fs p}. under candidate (rt @ [''.codex_home''])
         then Some (rt @ [''.codex_home'']) else None)"

definition shell_internal_deny_paths :: "file_system \<Rightarrow> path \<Rightarrow> path list" where
  "shell_internal_deny_paths fs anima_dir = [fs_canon fs (fs_canon fs anima_dir @ [''.codex_home''])]"

section \<open>The decision\<close>

record permissions =
  pc_file_roots :: "string list"
  pc_file_roots_readonly :: "string list"
  pc_file_roots_denied :: "string list"

definition default_permissions :: permissions where
  "default_permissions = \<lparr>pc_file_roots = [''/''], pc_file_roots_readonly = [], pc_file_roots_denied = []\<rparr>"

text \<open>What the tool handler knows; the framework directories are those that exist, resolved.\<close>

record handler =
  ph_superuser :: bool
  ph_anima_dir :: path
  ph_subordinate_activity :: "path list"
  ph_descendant_activity :: "path list"
  ph_peer_activity :: "path list"
  ph_descendant_state_files :: "path list"
  ph_descendant_state_dirs :: "path list"
  ph_subordinate_management :: "path list"
  ph_subordinate_roots :: "path list"
  ph_framework_dirs :: "path list"
  ph_external_skill_roots :: "path list"
  ph_global_permissions :: path

datatype refusal =
    InternalCache path
  | UnderDenied path
  | GlobalPermissions
  | OutsideAnimaDir
  | ProtectedFile path
  | ProtectedDir string
  | OtherAnima
  | ReadOnlyDir path
  | NotAllowed "path list"

definition protected_files :: "path list" where
  "protected_files = [[''permissions.md''], [''permissions.json''], [''identity.md''], [''bootstrap.md''], [''status.json''],
     [''state'', ''bm25_longterm_index.json''], [''state'', ''bm25_longterm_index.dirty'']]"

definition protected_dirs :: "string list" where
  "protected_dirs = [''activity_log'']"

definition is_global_permissions_write_blocked :: "file_system \<Rightarrow> handler \<Rightarrow> path \<Rightarrow> refusal option" where
  "is_global_permissions_write_blocked fs h target =
     (if fs_canon fs target = fs_canon fs (ph_global_permissions h) then Some GlobalPermissions else None)"

definition is_protected_write :: "file_system \<Rightarrow> path \<Rightarrow> path \<Rightarrow> refusal option" where
  "is_protected_write fs anima_dir target =
     (let resolved = fs_canon fs target; rt = fs_canon fs anima_dir
      in if \<not> under resolved rt then Some OutsideAnimaDir
         else let rel = drop (length rt) resolved
              in if rel \<in> set protected_files then Some (ProtectedFile rel)
                 else if rel \<noteq> [] \<and> hd rel \<in> set protected_dirs then Some (ProtectedDir (hd rel))
                 else None)"

definition resolved_file_deny_roots :: "file_system \<Rightarrow> handler \<Rightarrow> permissions \<Rightarrow> path list" where
  "resolved_file_deny_roots fs h c =
     (if ph_superuser h then [] else resolve_effective_denied_roots fs (ph_anima_dir h) (pc_file_roots_denied c))"

definition find_denied_file_root :: "handler \<Rightarrow> path \<Rightarrow> path list \<Rightarrow> path option" where
  "find_denied_file_root h resolved roots = (if ph_superuser h then None else find_denied_root resolved roots)"

text \<open>The grants that do not come from \<^verbatim>\<open>file_roots\<close>, in the order of the code.\<close>

definition special_grant :: "handler \<Rightarrow> bool \<Rightarrow> path \<Rightarrow> bool" where
  "special_grant h write p =
     (\<not> write \<and> (list_ex (under p) (ph_subordinate_activity h) \<or> list_ex (under p) (ph_descendant_activity h) \<or>
                 list_ex (under p) (ph_peer_activity h) \<or> p \<in> set (ph_descendant_state_files h) \<or>
                 list_ex (under p) (ph_descendant_state_dirs h)) \<or>
      p \<in> set (ph_subordinate_management h) \<or>
      \<not> write \<and> (p \<in> set (ph_subordinate_roots h) \<or> list_ex (under p) (ph_framework_dirs h) \<or>
                 list_ex (under p) (ph_external_skill_roots h)))"

text \<open>The part behind the grants: other animas, \<^verbatim>\<open>file_roots\<close> and the read-only roots.\<close>

definition roots_decision :: "file_system \<Rightarrow> handler \<Rightarrow> permissions \<Rightarrow> bool \<Rightarrow> path list \<Rightarrow> path \<Rightarrow> refusal option" where
  "roots_decision fs h c write write_roots p =
     (let own = fs_canon fs (ph_anima_dir h);
          allowed = (if write then write_roots else map (fs_resolve fs) (filter is_absolute (pc_file_roots c)));
          readonly = map (fs_resolve fs) (filter is_absolute (pc_file_roots_readonly c))
      in if under p (parent_dir own) \<and> \<not> under p own then Some OtherAnima
         else if pc_file_roots c = [''/''] then None
         else if list_ex (under p) allowed then None
         else if pc_file_roots c = [] then Some (NotAllowed [])
         else case find (under p) readonly of
                Some r \<Rightarrow> if write then Some (ReadOnlyDir r) else None
              | None \<Rightarrow> Some (NotAllowed (allowed @ readonly)))"

definition check_file_permission ::
  "file_system \<Rightarrow> handler \<Rightarrow> permissions \<Rightarrow> bool \<Rightarrow> bool \<Rightarrow> string \<Rightarrow> py_error + refusal option" where
  "check_file_permission fs h c write trusted p =
     (if ph_superuser h then Inr None
      else
        let resolved = fs_resolve fs p;
            denied_roots = resolved_file_deny_roots fs h c;
            cache = (if denied_roots \<noteq> [] \<and> \<not> (write \<and> trusted) then find_internal_cache_root fs p (ph_anima_dir h) else None)
        in case cache of
             Some r \<Rightarrow> Inr (Some (InternalCache r))
           | None \<Rightarrow>
               (case find_denied_file_root h (fs_canon fs resolved) denied_roots of
                  Some r \<Rightarrow> Inr (Some (UnderDenied r))
                | None \<Rightarrow>
                    let global = (if write then is_global_permissions_write_blocked fs h resolved else None)
                    in case global of
                         Some r \<Rightarrow> Inr (Some r)
                       | None \<Rightarrow>
                           (case (if write then effective_write_roots fs (ph_anima_dir h) (pc_file_roots c) None else Inr []) of
                              Inl e \<Rightarrow> Inl e
                            | Inr write_roots \<Rightarrow>
                                if under resolved (fs_canon fs (ph_anima_dir h))
                                then Inr (if write then is_protected_write fs (ph_anima_dir h) resolved else None)
                                else if special_grant h write resolved then Inr None
                                else Inr (roots_decision fs h c write write_roots resolved))))"

section \<open>Lemmas\<close>

text \<open>What is used of the file system: resolving twice is resolving once, and the root is its own resolution.\<close>

definition resolving :: "file_system \<Rightarrow> bool" where
  "resolving fs = ((\<forall>q. fs_canon fs (fs_canon fs q) = fs_canon fs q) \<and> (\<forall>s. fs_canon fs (fs_resolve fs s) = fs_resolve fs s) \<and>
                   fs_expand fs ''/'' = [])"

lemma resolvingD [simp]:
  assumes "resolving fs"
  shows "fs_canon fs (fs_canon fs q) = fs_canon fs q" "fs_canon fs (fs_resolve fs s) = fs_resolve fs s" "fs_expand fs ''/'' = []"
  using assms by (simp_all add: resolving_def)

lemma under_refl [simp]: "under p p"
  by (simp add: under_def)

lemma under_root [simp]: "under p []"
  by (simp add: under_def)

lemma under_trans: "under p q \<Longrightarrow> under q r \<Longrightarrow> under p r"
  unfolding under_def by (rule prefix_order.trans)

lemma under_antisym: "under p q \<Longrightarrow> under q p \<Longrightarrow> p = q"
  unfolding under_def by (rule prefix_order.antisym)

lemma under_linear: "under p q \<Longrightarrow> under p r \<Longrightarrow> under q r \<or> under r q"
  unfolding under_def using prefix_same_cases by blast

lemma under_parent: "under p (parent_dir p)"
  by (cases p rule: rev_cases) (auto simp: under_def parent_dir_def)

lemma set_unique_keys [simp]: "set (unique_keys xs) = set xs"
  by (simp add: unique_keys_def)

lemma distinct_unique_keys [simp]: "distinct (unique_keys xs)"
  by (simp add: unique_keys_def)

lemma find_denied_None: "find_denied_root q roots = None \<longleftrightarrow> (\<forall>r \<in> set roots. \<not> under q r)"
  by (auto simp: find_denied_root_def find_None_iff)

lemma find_denied_Some: "find_denied_root q roots = Some r \<Longrightarrow> r \<in> set roots \<and> under q r"
  by (auto simp: find_denied_root_def find_Some_iff)

text \<open>The roots that are kept have no other above them, and each root has a kept one above it.\<close>

lemma drop_nested_antichain:
  assumes "r \<in> set (drop_nested roots)" "r' \<in> set (drop_nested roots)" "under r r'"
  shows "r = r'"
  using assms by (auto simp: drop_nested_def)

lemma drop_nested_covers:
  assumes "r \<in> set roots"
  shows "\<exists>r' \<in> set (drop_nested roots). under r r'"
  using assms
proof (induction "length r" arbitrary: r rule: less_induct)
  case less
  show ?case
  proof (cases "\<exists>other \<in> set roots. other \<noteq> r \<and> under r other")
    case True
    then obtain other where other: "other \<in> set roots" "other \<noteq> r" "under r other"
      by blast
    then have "length other < length r"
      by (auto simp: under_def prefix_def)
    from less.hyps [OF this other(1)] other(3) show ?thesis
      by (meson under_trans)
  next
    case False
    with less.prems have "r \<in> set (drop_nested roots)"
      by (auto simp: drop_nested_def)
    then show ?thesis
      by (metis under_refl)
  qed
qed

lemma drop_nested_same: "(\<exists>r \<in> set (drop_nested roots). under q r) \<longleftrightarrow> (\<exists>r \<in> set roots. under q r)"
  proof
  assume "\<exists>r \<in> set (drop_nested roots). under q r"
  then show "\<exists>r \<in> set roots. under q r"
    by (auto simp: drop_nested_def)
next
  assume "\<exists>r \<in> set roots. under q r"
  then show "\<exists>r \<in> set (drop_nested roots). under q r"
    by (meson drop_nested_covers under_trans)
qed

lemma effective_denied_iff:
  "(\<exists>r \<in> set (resolve_effective_denied_roots fs d configured). under q r) \<longleftrightarrow>
     (\<exists>r \<in> set (resolve_denied_roots fs configured) \<union> set (company_denied_roots fs d). under q r)"
  by (simp add: resolve_effective_denied_roots_def merged_roots_def drop_nested_same)

lemma drop_nested_Nil [simp]: "drop_nested roots = [] \<longleftrightarrow> roots = []"
proof (cases roots)
  case (Cons r rs)
  from drop_nested_covers [of r roots] Cons show ?thesis
    by auto
qed (simp add: drop_nested_def)

lemma unique_keys_Nil [simp]: "unique_keys xs = [] \<longleftrightarrow> xs = []"
  by (metis set_empty set_unique_keys)

text \<open>A configured root is lawful outside the data directory or inside the company's shared directory.\<close>

definition lawful_roots :: "file_system \<Rightarrow> path \<Rightarrow> string list \<Rightarrow> bool" where
  "lawful_roots fs d roots =
     (\<forall>rt \<in> set roots. under (fs_expand fs rt) (data_dir_of fs d) \<longrightarrow>
        (case company_shared_write_root fs d of None \<Rightarrow> False | Some s \<Rightarrow> under (fs_expand fs rt) s))"

text \<open>The company's shared directory, if there is a company, can be made.\<close>

definition shared_ready :: "file_system \<Rightarrow> path \<Rightarrow> bool" where
  "shared_ready fs d = (case company_shared_write_root fs d of None \<Rightarrow> True | Some s \<Rightarrow> fs_mkdir fs s)"

lemma charter_roots_eq:
  "charter_roots fs data_dir shared roots =
     (if \<forall>rt \<in> set roots. under (fs_expand fs rt) data_dir \<longrightarrow> (case shared of None \<Rightarrow> False | Some s \<Rightarrow> under (fs_expand fs rt) s)
      then Inr (map (fs_expand fs) roots) else Inl (ValueError ''config.file_roots_inside_data_dir''))"
  by (induction roots) (auto simp: Let_def)

lemma effective_write_roots_eq:
  "effective_write_roots fs d roots cwd =
     (if \<not> shared_ready fs d then Inl (StorageError ''mkdir'')
      else if lawful_roots fs d roots
      then Inr (unique_keys ((case company_shared_write_root fs d of None \<Rightarrow> [] | Some s \<Rightarrow> [s]) @ map (fs_expand fs) roots @
                  (case cwd of None \<Rightarrow> [] | Some c \<Rightarrow> [fs_expand fs c])))
      else Inl (ValueError ''config.file_roots_inside_data_dir''))"
  by (auto simp: effective_write_roots_def Let_def charter_roots_eq lawful_roots_def shared_ready_def split: option.splits)

lemma find_Some_member: "find P xs = Some x \<Longrightarrow> x \<in> set xs \<and> P x"
  by (auto simp: find_Some_iff)

lemma protected_write_None:
  "is_protected_write fs d q = None \<longleftrightarrow>
     (\<exists>rel. fs_canon fs q = fs_canon fs d @ rel \<and> rel \<notin> set protected_files \<and> (rel = [] \<or> hd rel \<notin> set protected_dirs))"
  by (auto simp: is_protected_write_def Let_def under_def prefix_def)

lemma roots_decision_write:
  "roots_decision fs h c True rs q = None \<longleftrightarrow>
     (under q (parent_dir (fs_canon fs (ph_anima_dir h))) \<longrightarrow> under q (fs_canon fs (ph_anima_dir h))) \<and>
     (pc_file_roots c = [''/''] \<or> (\<exists>r \<in> set rs. under q r))"
  by (auto simp: roots_decision_def Let_def list_ex_iff split: option.splits)

lemma roots_decision_read:
  "roots_decision fs h c False rs q = None \<longleftrightarrow>
     (under q (parent_dir (fs_canon fs (ph_anima_dir h))) \<longrightarrow> under q (fs_canon fs (ph_anima_dir h))) \<and>
     (pc_file_roots c = [''/''] \<or>
      pc_file_roots c \<noteq> [] \<and> (\<exists>r \<in> set (pc_file_roots c @ pc_file_roots_readonly c). is_absolute r \<and> under q (fs_resolve fs r)))"
  by (auto simp: roots_decision_def Let_def list_ex_iff find_None_iff dest!: find_Some_member split: option.splits)

section \<open>Properties\<close>

text \<open>
  The merged deny roots refuse exactly the paths below a configured root or below another company's directory, and no
  root that is kept lies in another, so that the sandbox can mount one directory for each of them.
\<close>

theorem effective_deny_complete:
  "(find_denied_root q (resolve_effective_denied_roots fs d configured) \<noteq> None \<longleftrightarrow>
      (\<exists>r \<in> set (resolve_denied_roots fs configured) \<union> set (company_denied_roots fs d). under q r)) \<and>
   (\<forall>r r'. r \<in> set (resolve_effective_denied_roots fs d configured) \<and>
           r' \<in> set (resolve_effective_denied_roots fs d configured) \<and> under r r' \<longrightarrow> r = r') \<and>
   distinct (resolve_effective_denied_roots fs d configured)"
proof (intro conjI)
  show "find_denied_root q (resolve_effective_denied_roots fs d configured) \<noteq> None \<longleftrightarrow>
      (\<exists>r \<in> set (resolve_denied_roots fs configured) \<union> set (company_denied_roots fs d). under q r)"
    using effective_denied_iff [of fs d configured q] by (simp add: find_denied_None del: not_None_eq)
next
  show "\<forall>r r'. r \<in> set (resolve_effective_denied_roots fs d configured) \<and>
           r' \<in> set (resolve_effective_denied_roots fs d configured) \<and> under r r' \<longrightarrow> r = r'"
    unfolding resolve_effective_denied_roots_def using drop_nested_antichain by blast
next
  show "distinct (resolve_effective_denied_roots fs d configured)"
    by (simp add: resolve_effective_denied_roots_def drop_nested_def merged_roots_def)
qed

text \<open>
  C12. A deny root overrides every grant, for reads and writes: own directory, shared directories, supervision, and
  \<^verbatim>\<open>file_roots = ["/"]\<close>.
\<close>

theorem deny_overrides:
  assumes "resolving fs" "\<not> ph_superuser h"
    and "r \<in> set (resolve_denied_roots fs (pc_file_roots_denied c)) \<union> set (company_denied_roots fs (ph_anima_dir h))"
    and "under (fs_resolve fs p) r"
  shows "\<exists>reason. check_file_permission fs h c write trusted p = Inr (Some reason) \<and>
           (case reason of UnderDenied r' \<Rightarrow> under (fs_resolve fs p) r' | InternalCache _ \<Rightarrow> True | _ \<Rightarrow> False)"
proof -
  let ?roots = "resolve_effective_denied_roots fs (ph_anima_dir h) (pc_file_roots_denied c)"
  have "\<exists>r \<in> set ?roots. under (fs_resolve fs p) r"
    using assms(3,4) by (simp only: effective_denied_iff) blast
  then obtain r' where r': "find_denied_root (fs_resolve fs p) ?roots = Some r'"
    by (metis find_denied_None option.exhaust)
  from find_denied_Some [OF r'] r' assms(1,2) show ?thesis
    by (auto simp: check_file_permission_def resolved_file_deny_roots_def find_denied_file_root_def Let_def split: option.splits)
qed

text \<open>
  Who may write what, as one rule: nothing denied, not the global permissions, the configured roots are lawful, and the
  path is in the own directory and not protected, or a management file of a subordinate, or outside the directories of
  all animas and below the company's shared directory or a configured root.
\<close>

definition may_write :: "file_system \<Rightarrow> handler \<Rightarrow> permissions \<Rightarrow> path \<Rightarrow> bool" where
  "may_write fs h c q =
     (let own = fs_canon fs (ph_anima_dir h)
      in (\<exists>rel. q = own @ rel \<and> rel \<notin> set protected_files \<and> (rel = [] \<or> hd rel \<notin> set protected_dirs)) \<or>
         \<not> under q own \<and> q \<in> set (ph_subordinate_management h) \<or>
         \<not> under q (parent_dir own) \<and>
           ((\<exists>s. company_shared_write_root fs (ph_anima_dir h) = Some s \<and> under q s) \<or>
            (\<exists>rt \<in> set (pc_file_roots c). under q (fs_expand fs rt))))"

lemma may_write_own:
  assumes "fs_canon fs q = q" "under q (fs_canon fs (ph_anima_dir h))"
  shows "is_protected_write fs (ph_anima_dir h) q = None \<longleftrightarrow> may_write fs h c q"
proof -
  have "under q (parent_dir (fs_canon fs (ph_anima_dir h)))"
    using assms(2) under_parent under_trans by blast
  with assms show ?thesis
    by (simp add: protected_write_None may_write_def Let_def)
qed

lemma may_write_elsewhere:
  assumes "resolving fs" "\<not> under q (fs_canon fs (ph_anima_dir h))"
  shows "special_grant h True q \<or>
         roots_decision fs h c True
           (unique_keys ((case company_shared_write_root fs (ph_anima_dir h) of None \<Rightarrow> [] | Some s \<Rightarrow> [s]) @
              map (fs_expand fs) (pc_file_roots c))) q = None \<longleftrightarrow> may_write fs h c q"
proof -
  have "\<not> (\<exists>rel. q = fs_canon fs (ph_anima_dir h) @ rel)"
    using assms(2) by (auto simp: under_def)
  with assms show ?thesis
    by (auto simp: special_grant_def roots_decision_write may_write_def Let_def split: option.splits)
qed

lemma check_write_allowed:
  assumes "resolving fs" "\<not> ph_superuser h"
  shows "check_file_permission fs h c True trusted p = Inr None \<longleftrightarrow>
     (let q = fs_resolve fs p; d = ph_anima_dir h; eff = resolve_effective_denied_roots fs d (pc_file_roots_denied c)
      in find_denied_root q eff = None \<and>
         (eff = [] \<or> trusted \<or> find_internal_cache_root fs p d = None) \<and>
         q \<noteq> fs_canon fs (ph_global_permissions h) \<and>
         shared_ready fs d \<and> lawful_roots fs d (pc_file_roots c) \<and>
         may_write fs h c q)"
proof -
  let ?eff = "resolve_effective_denied_roots fs (ph_anima_dir h) (pc_file_roots_denied c)"
  let ?roots = "unique_keys ((case company_shared_write_root fs (ph_anima_dir h) of None \<Rightarrow> [] | Some s \<Rightarrow> [s]) @
                    map (fs_expand fs) (pc_file_roots c))"
  have "may_write fs h c (fs_resolve fs p) \<longleftrightarrow>
        (if under (fs_resolve fs p) (fs_canon fs (ph_anima_dir h)) then is_protected_write fs (ph_anima_dir h) (fs_resolve fs p)
         else if special_grant h True (fs_resolve fs p) then None
         else roots_decision fs h c True ?roots (fs_resolve fs p)) = None"
    using assms may_write_own [of fs "fs_resolve fs p" h c] may_write_elsewhere [of fs "fs_resolve fs p" h c] by auto
  then show ?thesis
    using assms
    by (cases "find_internal_cache_root fs p (ph_anima_dir h)"; cases "find_denied_root (fs_resolve fs p) ?eff")
       (simp_all add: check_file_permission_def Let_def resolved_file_deny_roots_def find_denied_file_root_def
          is_global_permissions_write_blocked_def effective_write_roots_eq)
qed


text \<open>
  C13. The write-access charter: while no configured root contains the data directory, everything an anima may write below
  the data directory is an unprotected path of its own directory, a management file of a subordinate, or in the shared
  directory of its company.
\<close>

theorem charter_confines_writes:
  assumes "resolving fs" "\<not> ph_superuser h"
    and "\<forall>rt \<in> set (pc_file_roots c). \<not> under (data_dir_of fs (ph_anima_dir h)) (fs_expand fs rt)"
    and "check_file_permission fs h c True trusted p = Inr None"
    and "under (fs_resolve fs p) (data_dir_of fs (ph_anima_dir h))"
  shows "is_protected_write fs (ph_anima_dir h) (fs_resolve fs p) = None \<or>
         fs_resolve fs p \<in> set (ph_subordinate_management h) \<or>
         (\<exists>s. company_shared_write_root fs (ph_anima_dir h) = Some s \<and> under (fs_resolve fs p) s)"
proof -
  let ?q = "fs_resolve fs p" and ?d = "ph_anima_dir h"
  have may: "may_write fs h c ?q" and lawful: "lawful_roots fs ?d (pc_file_roots c)"
    using assms(4) unfolding check_write_allowed [OF assms(1,2)] by (simp_all add: Let_def)
  have "\<exists>s. company_shared_write_root fs ?d = Some s \<and> under ?q s"
    if rt: "rt \<in> set (pc_file_roots c)" "under ?q (fs_expand fs rt)" for rt
  proof -
    have "under (fs_expand fs rt) (data_dir_of fs ?d)"
      using under_linear [OF rt(2) assms(5)] assms(3) rt(1) by blast
    with lawful rt show ?thesis
      by (cases "company_shared_write_root fs ?d") (auto simp: lawful_roots_def intro: under_trans)
  qed
  with may assms(1) show ?thesis
    by (auto simp: may_write_def Let_def protected_write_None)
qed

text \<open>
  The directories of the other animas: whatever the configured roots say, an access below them is allowed only by one of
  the supervision, peer or shared grants, and a write only to a management file of a subordinate.
\<close>

lemma other_animas_isolated:
  assumes "\<not> ph_superuser h" "check_file_permission fs h c write trusted p = Inr None"
    and "under (fs_resolve fs p) (parent_dir (fs_canon fs (ph_anima_dir h)))"
    and "\<not> under (fs_resolve fs p) (fs_canon fs (ph_anima_dir h))"
  shows "special_grant h write (fs_resolve fs p) \<and> (write \<longrightarrow> fs_resolve fs p \<in> set (ph_subordinate_management h))"
proof -
  have "special_grant h write (fs_resolve fs p)"
    using assms
    by (auto simp: check_file_permission_def Let_def roots_decision_def split: option.splits sum.splits if_splits)
  then show ?thesis
    by (auto simp: special_grant_def)
qed

section \<open>Where the charter and the code differ\<close>

text \<open>
  The charter protects \<^verbatim>\<open>.codex_home\<close>; the check guards it only while some directory is denied.
\<close>

lemma codex_home_unguarded:
  assumes "resolving fs" "pc_file_roots_denied c = []" "company_denied_roots fs (ph_anima_dir h) = []"
    and "lawful_roots fs (ph_anima_dir h) (pc_file_roots c)" "shared_ready fs (ph_anima_dir h)"
    and "fs_resolve fs p = fs_canon fs (ph_anima_dir h) @ [''.codex_home'', name]"
    and "fs_resolve fs p \<noteq> fs_canon fs (ph_global_permissions h)"
  shows "check_file_permission fs h c True trusted p = Inr None"
proof (cases "ph_superuser h")
  case True
  then show ?thesis by (simp add: check_file_permission_def)
next
  case False
  have "may_write fs h c (fs_resolve fs p)"
    using assms(6) by (simp add: may_write_def Let_def protected_files_def protected_dirs_def)
  then show ?thesis
    unfolding check_write_allowed [OF assms(1) False]
    using assms by (simp add: Let_def resolve_effective_denied_roots_def merged_roots_def resolve_denied_roots_def
        unique_keys_def find_denied_None drop_nested_def)
qed

text \<open>
  The charter wants the configured roots outside the data directory; the default root \<^verbatim>\<open>/\<close> lies outside in the sense of
  the check and opens everything in it but the directories of the animas.
\<close>

lemma root_grant_opens_data_dir:
  assumes "resolving fs" "company_denied_roots fs (ph_anima_dir h) = []" "data_dir_of fs (ph_anima_dir h) \<noteq> []"
    and "shared_ready fs (ph_anima_dir h)"
    and "\<not> under (fs_resolve fs p) (parent_dir (fs_canon fs (ph_anima_dir h)))"
    and "fs_resolve fs p \<noteq> fs_canon fs (ph_global_permissions h)"
  shows "check_file_permission fs h default_permissions True trusted p = Inr None"
proof (cases "ph_superuser h")
  case True
  then show ?thesis by (simp add: check_file_permission_def)
next
  case False
  have "may_write fs h default_permissions (fs_resolve fs p)"
    using assms(1,5) by (simp add: may_write_def Let_def default_permissions_def)
  moreover have "lawful_roots fs (ph_anima_dir h) (pc_file_roots default_permissions)"
    using assms(1,3) by (simp add: lawful_roots_def default_permissions_def under_def)
  ultimately show ?thesis
    unfolding check_write_allowed [OF assms(1) False]
    using assms by (simp add: Let_def resolve_effective_denied_roots_def merged_roots_def resolve_denied_roots_def
        unique_keys_def find_denied_None drop_nested_def default_permissions_def)
qed

section \<open>Witnesses\<close>

text \<open>A file system without links, with two companies; alice works for acme and supervises bob.\<close>

definition plain_fs :: file_system where
  "plain_fs =
     \<lparr>fs_resolve = components, fs_expand = components, fs_abspath = components, fs_canon = id, fs_is_symlink = (\<lambda>_. False),
      fs_exists = (\<lambda>_. True), fs_mkdir = (\<lambda>_. True),
      fs_children = (\<lambda>d. if d = [''data'', ''companies''] then Some [(''acme'', True), (''rival'', True)] else None),
      fs_status = (\<lambda>_. Some (JObj [(''company'', JStr ''acme'')]))\<rparr>"

definition alice :: handler where
  "alice =
     \<lparr>ph_superuser = False, ph_anima_dir = [''data'', ''animas'', ''alice''], ph_subordinate_activity = [],
      ph_descendant_activity = [], ph_peer_activity = [], ph_descendant_state_files = [], ph_descendant_state_dirs = [],
      ph_subordinate_management = [[''data'', ''animas'', ''bob'', ''cron.md'']], ph_subordinate_roots = [],
      ph_framework_dirs = [], ph_external_skill_roots = [], ph_global_permissions = [''data'', ''permissions.global.json'']\<rparr>"

definition work_permissions :: permissions where
  "work_permissions = \<lparr>pc_file_roots = [''/work''], pc_file_roots_readonly = [], pc_file_roots_denied = [''/work/secret'']\<rparr>"

lemma plain_fs_simps [simp]:
  "fs_resolve plain_fs = components" "fs_expand plain_fs = components" "fs_canon plain_fs = id"
  by (simp_all add: plain_fs_def)

lemma resolving_plain: "resolving plain_fs"
  by (simp add: resolving_def) code_simp

lemma alice_simps [simp]: "ph_superuser alice = False" "ph_anima_dir alice = [''data'', ''animas'', ''alice'']"
  by (simp_all add: alice_def)

text \<open>A path below another company's directory stays closed although the roots allow everything.\<close>

theorem deny_overrides_witness:
  "\<exists>reason. check_file_permission plain_fs alice default_permissions False False ''/data/companies/rival/plan.md'' = Inr (Some reason) \<and>
     (case reason of UnderDenied r' \<Rightarrow> under (fs_resolve plain_fs ''/data/companies/rival/plan.md'') r' | InternalCache _ \<Rightarrow> True | _ \<Rightarrow> False)"
proof -
  have path: "components ''/data/companies/rival/plan.md'' = [''data'', ''companies'', ''rival'', ''plan.md'']"
    by code_simp
  have "[''data'', ''companies'', ''rival''] \<in> set (company_denied_roots plain_fs (ph_anima_dir alice))"
    by code_simp
  then show ?thesis
    using deny_overrides [OF resolving_plain, of alice "[''data'', ''companies'', ''rival'']" default_permissions
        "''/data/companies/rival/plan.md''" False False]
    by (simp add: path under_def)
qed


text \<open>A write to a management file of bob, who is supervised.\<close>

theorem charter_confines_writes_witness:
  "check_file_permission plain_fs alice work_permissions True False ''/data/animas/bob/cron.md'' = Inr None \<and>
   (is_protected_write plain_fs (ph_anima_dir alice) (fs_resolve plain_fs ''/data/animas/bob/cron.md'') = None \<or>
    fs_resolve plain_fs ''/data/animas/bob/cron.md'' \<in> set (ph_subordinate_management alice) \<or>
    (\<exists>s. company_shared_write_root plain_fs (ph_anima_dir alice) = Some s \<and>
         under (fs_resolve plain_fs ''/data/animas/bob/cron.md'') s))"
proof -
  have allowed: "check_file_permission plain_fs alice work_permissions True False ''/data/animas/bob/cron.md'' = Inr None"
    by code_simp
  have roots: "\<forall>rt \<in> set (pc_file_roots work_permissions). \<not> under (data_dir_of plain_fs (ph_anima_dir alice)) (fs_expand plain_fs rt)"
    and inside: "under (fs_resolve plain_fs ''/data/animas/bob/cron.md'') (data_dir_of plain_fs (ph_anima_dir alice))"
    by code_simp+
  have "\<not> ph_superuser alice"
    by simp
  from allowed charter_confines_writes [OF resolving_plain this roots allowed inside] show ?thesis
    by (rule conjI)
qed

theorem effective_deny_complete_witness:
  "resolve_effective_denied_roots plain_fs (ph_anima_dir alice) [''/work/secret'', ''/work/secret/inner''] =
     [[''work'', ''secret''], [''data'', ''companies'', ''rival'']] \<and>
   find_denied_root [''work'', ''secret'', ''x'']
     (resolve_effective_denied_roots plain_fs (ph_anima_dir alice) [''/work/secret'', ''/work/secret/inner'']) \<noteq> None"
proof
  show "resolve_effective_denied_roots plain_fs (ph_anima_dir alice) [''/work/secret'', ''/work/secret/inner''] =
     [[''work'', ''secret''], [''data'', ''companies'', ''rival'']]"
    by code_simp
  have "\<exists>r \<in> set (resolve_denied_roots plain_fs [''/work/secret'', ''/work/secret/inner'']) \<union>
           set (company_denied_roots plain_fs (ph_anima_dir alice)). under [''work'', ''secret'', ''x''] r"
    by code_simp
  then show "find_denied_root [''work'', ''secret'', ''x'']
     (resolve_effective_denied_roots plain_fs (ph_anima_dir alice) [''/work/secret'', ''/work/secret/inner'']) \<noteq> None"
    using effective_deny_complete [of "[''work'', ''secret'', ''x'']" plain_fs "ph_anima_dir alice"
        "[''/work/secret'', ''/work/secret/inner'']"] by blast
qed

end
