(* ===== verification/Org_Chart.thy ===== *)
theory Org_Chart
  imports File_Access
begin

text \<open>
  The organisation: who supervises whom (\<^verbatim>\<open>core/tooling/org_helpers.py\<close>), the directories a supervisor is given
  (\<^verbatim>\<open>ToolHandler.__init__\<close> in \<^verbatim>\<open>core/tooling/handler.py\<close>), the control of subordinates
  (\<^verbatim>\<open>core/tooling/handler_subordinate_control.py\<close>) and the company boundary (\<^verbatim>\<open>core/company.py\<close>). The table of animas is
  what \<^verbatim>\<open>load_config\<close> returns, an error when it raises; the readings of one call coincide. Directories, status files and
  the own activity log are the state of the control operations. The texts of the replies are constructors.
\<close>

section \<open>The table of animas\<close>

record anima_cfg =
  ac_supervisor :: "string option"
  ac_aliases :: "string list"

type_synonym anima_table = "(string \<times> anima_cfg) list"

definition alias_matches :: "string \<Rightarrow> anima_cfg \<Rightarrow> bool" where
  "alias_matches stripped c =
     list_ex (\<lambda>alias. str_lower (py_strip alias) = str_lower stripped \<or> py_strip alias = stripped) (ac_aliases c)"

definition resolve_anima_name :: "py_error + anima_table \<Rightarrow> string \<Rightarrow> string" where
  "resolve_anima_name config raw =
     (let stripped = py_strip raw; lower = str_lower stripped
      in case config of
           Inl _ \<Rightarrow> lower
         | Inr animas \<Rightarrow>
             if map_of animas lower \<noteq> None then lower
             else (case find (\<lambda>(_, c). alias_matches stripped c) animas of
                     Some (canonical, _) \<Rightarrow> canonical
                   | None \<Rightarrow> lower))"

definition supervised_by :: "anima_table \<Rightarrow> string \<Rightarrow> string list" where
  "supervised_by animas boss = map fst (filter (\<lambda>(_, c). ac_supervisor c = Some boss) animas)"

lemma supervised_names: "set (supervised_by animas boss) \<subseteq> set (map fst animas)"
  by (auto simp: supervised_by_def)

text \<open>The loop of \<^verbatim>\<open>_get_all_descendants\<close>: the names seen, the queue, and the result so far.\<close>

function descend :: "anima_table \<Rightarrow> string list \<Rightarrow> string list \<Rightarrow> string list \<Rightarrow> string list" where
  "descend animas visited [] acc = acc"
| "descend animas visited (current # queue) acc =
     (if current \<in> set visited then descend animas visited queue acc
      else descend animas (current # visited) (queue @ supervised_by animas current) (acc @ [current]))"
  by pat_completeness auto

termination
proof (relation "measures [\<lambda>(animas, visited, queue, acc). card ((set (map fst animas) \<union> set queue) - set visited),
                           \<lambda>(animas, visited, queue, acc). length queue]", goal_cases)
  case 1
  then show ?case by simp
next
  case (2 animas visited current queue acc)
  then have "(set (map fst animas) \<union> set queue) - set visited = (set (map fst animas) \<union> set (current # queue)) - set visited"
    by auto
  then show ?case by simp
next
  case (3 animas visited current queue acc)
  have "(set (map fst animas) \<union> set (queue @ supervised_by animas current)) - set (current # visited) \<subset>
        (set (map fst animas) \<union> set (current # queue)) - set visited"
    using 3 supervised_names [of animas current] by auto
  then show ?case
    by (simp add: psubset_card_mono)
qed

definition get_all_descendants :: "py_error + anima_table \<Rightarrow> string \<Rightarrow> string option \<Rightarrow> py_error + string list" where
  "get_all_descendants config me root_name =
     (case config of
        Inl e \<Rightarrow> Inl e
      | Inr animas \<Rightarrow>
          let boss = (if opt_truthy root_name then the root_name else me)
          in Inr (descend animas [boss] (supervised_by animas boss) []))"

definition get_direct_subordinates :: "py_error + anima_table \<Rightarrow> string \<Rightarrow> py_error + string list" where
  "get_direct_subordinates config me =
     (case config of Inl e \<Rightarrow> Inl e | Inr animas \<Rightarrow> Inr (supervised_by animas me))"

datatype org_refusal =
    SelfOperation
  | ConfigFailed
  | AnimaNotFound string
  | NotDirectSubordinate string "string option"
  | NotDescendant string

definition check_subordinate :: "py_error + anima_table \<Rightarrow> string \<Rightarrow> string \<Rightarrow> org_refusal option" where
  "check_subordinate config me target_name =
     (let target = resolve_anima_name config target_name
      in if target = me then Some SelfOperation
         else case config of
                Inl _ \<Rightarrow> Some ConfigFailed
              | Inr animas \<Rightarrow>
                  (case map_of animas target of
                     None \<Rightarrow> Some (AnimaNotFound target)
                   | Some c \<Rightarrow> if ac_supervisor c \<noteq> Some me then Some (NotDirectSubordinate target (ac_supervisor c)) else None))"

definition check_descendant :: "py_error + anima_table \<Rightarrow> string \<Rightarrow> string \<Rightarrow> py_error + org_refusal option" where
  "check_descendant config me target_name =
     (let target = resolve_anima_name config target_name
      in if target = me then Inr (Some SelfOperation)
         else case get_all_descendants config me None of
                Inl e \<Rightarrow> Inl e
              | Inr ds \<Rightarrow> if target \<notin> set ds then Inr (Some (NotDescendant target)) else Inr None)"

section \<open>The directories a tool handler knows\<close>

definition management_names :: "string list" where
  "management_names = [''cron.md'', ''heartbeat.md'', ''status.json'', ''injection.md'']"

text \<open>
  \<open>h\<close> holds what the handler has from elsewhere; the lists stay empty when the configuration cannot be read.
\<close>

definition cache_supervision ::
  "file_system \<Rightarrow> py_error + anima_table \<Rightarrow> path \<Rightarrow> string \<Rightarrow> handler \<Rightarrow> handler" where
  "cache_supervision fs config animas_dir me h =
     (case config of
        Inl _ \<Rightarrow> h\<lparr>ph_subordinate_activity := [], ph_subordinate_management := [], ph_subordinate_roots := [],
                   ph_descendant_activity := [], ph_descendant_state_files := [], ph_descendant_state_dirs := [], ph_peer_activity := []\<rparr>
      | Inr animas \<Rightarrow>
          let dir = (\<lambda>name. fs_canon fs (join_path animas_dir name));
              my_supervisor = (case map_of animas me of None \<Rightarrow> None | Some c \<Rightarrow> ac_supervisor c);
              peers = map fst (filter (\<lambda>(name, c). name \<noteq> me \<and> ac_supervisor c = my_supervisor) animas);
              ds = descend animas [me] (supervised_by animas me) []
          in h\<lparr>ph_subordinate_activity := map (\<lambda>n. dir n @ [''activity_log'']) (supervised_by animas me),
               ph_peer_activity := map (\<lambda>n. dir n @ [''activity_log'']) peers,
               ph_subordinate_management := concat (map (\<lambda>n. map (\<lambda>f. dir n @ [f]) management_names) ds),
               ph_subordinate_roots := map dir ds,
               ph_descendant_activity := map (\<lambda>n. dir n @ [''activity_log'']) ds,
               ph_descendant_state_files := concat (map (\<lambda>n.
                 [dir n @ [''state'', ''current_state.md''], dir n @ [''status.json''], dir n @ [''identity.md''],
                  dir n @ [''injection.md''], dir n @ [''state'', ''task_queue.jsonl'']]) ds),
               ph_descendant_state_dirs := concat (map (\<lambda>n. [dir n @ [''state'', ''pending''], dir n @ [''state'', ''plans'']]) ds)\<rparr>)"

section \<open>Control of subordinates\<close>

text \<open>
  A status file is absent, cannot be read (\<^verbatim>\<open>OSError\<close> or \<^verbatim>\<open>JSONDecodeError\<close>), is no UTF-8, or holds a JSON value. The
  state is keyed by the directory of the anima.
\<close>

datatype status_doc = StMissing | StUnreadable | StNotUtf8 | StJson json

record org_state =
  og_dir :: "path \<Rightarrow> bool"
  og_status :: "path \<Rightarrow> status_doc"
  og_current :: "path \<Rightarrow> string option option"
  og_log :: "(string \<times> string) list"

datatype org_reply =
    InvalidArguments string
  | Refused org_refusal
  | AlreadyDisabled string
  | DisabledSuccess string string
  | AlreadyEnabled string
  | EnabledSuccess string
  | RestartSuccess string string
  | BgModelChanged string string
  | BgModelCleared string
  | StateOf string "string option option"

text \<open>\<^verbatim>\<open>existing\<close>: the decoded content, an empty dict when there is none.\<close>

definition read_existing :: "org_state \<Rightarrow> path \<Rightarrow> py_error + json" where
  "read_existing st d =
     (case og_status st d of
        StMissing \<Rightarrow> Inr (JObj [])
      | StUnreadable \<Rightarrow> Inr (JObj [])
      | StNotUtf8 \<Rightarrow> Inl (ValueError ''UnicodeDecodeError'')
      | StJson j \<Rightarrow> Inr j)"

definition write_status :: "path \<Rightarrow> dict \<Rightarrow> org_state \<Rightarrow> (py_error + unit) \<times> org_state" where
  "write_status d data st =
     (if og_dir st d then (Inr (), st\<lparr>og_status := (og_status st)(d := StJson (JObj data))\<rparr>)
      else (Inl (StorageError ''FileNotFoundError''), st))"

definition log_tool :: "string \<Rightarrow> string \<Rightarrow> org_state \<Rightarrow> org_state" where
  "log_tool tool target st = st\<lparr>og_log := og_log st @ [(tool, target)]\<rparr>"

text \<open>The writes of the handlers: \<open>change\<close> gives the new content or the reply when there is nothing to do.\<close>

definition change_status ::
  "string \<Rightarrow> path \<Rightarrow> string \<Rightarrow> (dict \<Rightarrow> org_reply + dict) \<Rightarrow> org_reply \<Rightarrow> org_state \<Rightarrow> (py_error + org_reply) \<times> org_state" where
  "change_status tool d target change done_reply st =
     (case read_existing st d of
        Inl e \<Rightarrow> (Inl e, st)
      | Inr (JObj existing) \<Rightarrow>
          (case change existing of
             Inl reply \<Rightarrow> (Inr reply, st)
           | Inr data \<Rightarrow>
               (case write_status d data st of
                  (Inl e, st1) \<Rightarrow> (Inl e, st1)
                | (Inr _, st1) \<Rightarrow> (Inr done_reply, log_tool tool target st1)))
      | Inr _ \<Rightarrow> (Inl (AttributeError ''get''), st))"

definition enabled_in :: "dict \<Rightarrow> bool" where
  "enabled_in data = (case map_of data ''enabled'' of None \<Rightarrow> True | Some v \<Rightarrow> truthy v)"

text \<open>The guard that the handlers share: the name is required and denotes a descendant.\<close>

definition guarded ::
  "py_error + anima_table \<Rightarrow> string \<Rightarrow> string \<Rightarrow> (org_state \<Rightarrow> (py_error + org_reply) \<times> org_state)
   \<Rightarrow> org_state \<Rightarrow> (py_error + org_reply) \<times> org_state" where
  "guarded config me target act st =
     (if target = [] then (Inr (InvalidArguments ''name is required''), st)
      else case check_descendant config me target of
             Inl e \<Rightarrow> (Inl e, st)
           | Inr (Some r) \<Rightarrow> (Inr (Refused r), st)
           | Inr None \<Rightarrow> act st)"

definition disable_subordinate ::
  "py_error + anima_table \<Rightarrow> path \<Rightarrow> string \<Rightarrow> string \<Rightarrow> string \<Rightarrow> org_state \<Rightarrow> (py_error + org_reply) \<times> org_state" where
  "disable_subordinate config animas_dir me name reason st =
     (let target = resolve_anima_name config name
      in guarded config me target
           (change_status ''disable_subordinate'' (join_path animas_dir target) target
              (\<lambda>data. if \<not> enabled_in data then Inl (AlreadyDisabled target)
                      else Inr (AList.update ''enabled'' (JBool False) data))
              (DisabledSuccess target reason)) st)"

definition enable_subordinate ::
  "py_error + anima_table \<Rightarrow> path \<Rightarrow> string \<Rightarrow> string \<Rightarrow> org_state \<Rightarrow> (py_error + org_reply) \<times> org_state" where
  "enable_subordinate config animas_dir me name st =
     (let target = resolve_anima_name config name
      in guarded config me target
           (change_status ''enable_subordinate'' (join_path animas_dir target) target
              (\<lambda>data. if enabled_in data then Inl (AlreadyEnabled target)
                      else Inr (AList.update ''enabled'' (JBool True) data))
              (EnabledSuccess target)) st)"

text \<open>Here the name is used as given.\<close>

definition restart_subordinate ::
  "py_error + anima_table \<Rightarrow> path \<Rightarrow> string \<Rightarrow> string \<Rightarrow> string \<Rightarrow> org_state \<Rightarrow> (py_error + org_reply) \<times> org_state" where
  "restart_subordinate config animas_dir me target reason st =
     guarded config me target
       (\<lambda>st. case read_existing st (join_path animas_dir target) of
          Inl e \<Rightarrow> (Inl e, st)
        | Inr (JObj existing) \<Rightarrow>
            (case write_status (join_path animas_dir target) (AList.update ''restart_requested'' (JBool True) existing) st of
               (Inl e, st1) \<Rightarrow> (Inl e, st1)
             | (Inr _, st1) \<Rightarrow> (Inr (RestartSuccess target reason), log_tool ''restart_subordinate'' target st1))
        | Inr _ \<Rightarrow> (Inl (TypeError ''item assignment''), st)) st"

definition set_or_pop :: "string \<Rightarrow> string \<Rightarrow> dict \<Rightarrow> dict" where
  "set_or_pop key v data = (if v \<noteq> [] then AList.update key (JStr v) data else AList.delete key data)"

text \<open>\<^verbatim>\<open>update_status_model\<close> with the two background fields.\<close>

definition update_background_model :: "path \<Rightarrow> string \<Rightarrow> string \<Rightarrow> org_state \<Rightarrow> (py_error + unit) \<times> org_state" where
  "update_background_model d model credential st =
     (case og_status st d of
        StMissing \<Rightarrow> (Inl (StorageError ''FileNotFoundError''), st)
      | StUnreadable \<Rightarrow> (Inl (ValueError ''JSONDecodeError''), st)
      | StNotUtf8 \<Rightarrow> (Inl (ValueError ''UnicodeDecodeError''), st)
      | StJson (JObj data) \<Rightarrow>
          (Inr (), st\<lparr>og_status := (og_status st)(d := StJson (JObj
             (set_or_pop ''background_credential'' credential (set_or_pop ''background_model'' model data))))\<rparr>)
      | StJson _ \<Rightarrow> (Inl (TypeError ''item assignment''), st))"

definition set_subordinate_background_model ::
  "py_error + anima_table \<Rightarrow> path \<Rightarrow> string \<Rightarrow> string \<Rightarrow> string \<Rightarrow> string option \<Rightarrow> org_state \<Rightarrow> (py_error + org_reply) \<times> org_state" where
  "set_subordinate_background_model config animas_dir me target model credential st =
     guarded config me target
       (\<lambda>st. case update_background_model (join_path animas_dir target) model (opt_or credential []) st of
          (Inl e, st1) \<Rightarrow> (Inl e, st1)
        | (Inr _, st1) \<Rightarrow>
            (Inr (if model \<noteq> [] then BgModelChanged target model else BgModelCleared target),
             log_tool ''set_subordinate_background_model'' target st1)) st"

text \<open>The current state: \<open>None\<close> without the file, \<open>Some None\<close> when it cannot be read.\<close>

definition read_subordinate_state ::
  "py_error + anima_table \<Rightarrow> path \<Rightarrow> string \<Rightarrow> string \<Rightarrow> org_state \<Rightarrow> (py_error + org_reply) \<times> org_state" where
  "read_subordinate_state config animas_dir me target st =
     guarded config me target
       (\<lambda>st. (Inr (StateOf target (map_option (map_option py_strip) (og_current st (join_path animas_dir target)))),
              log_tool ''read_subordinate_state'' target st)) st"

datatype org_call =
    CDisable string string
  | CEnable string
  | CRestart string string
  | CBgModel string string "string option"
  | CReadState string

fun org_exec :: "py_error + anima_table \<Rightarrow> path \<Rightarrow> string \<Rightarrow> org_call \<Rightarrow> org_state \<Rightarrow> (py_error + org_reply) \<times> org_state" where
  "org_exec config animas_dir me (CDisable n r) = disable_subordinate config animas_dir me n r"
| "org_exec config animas_dir me (CEnable n) = enable_subordinate config animas_dir me n"
| "org_exec config animas_dir me (CRestart n r) = restart_subordinate config animas_dir me n r"
| "org_exec config animas_dir me (CBgModel n m c) = set_subordinate_background_model config animas_dir me n m c"
| "org_exec config animas_dir me (CReadState n) = read_subordinate_state config animas_dir me n"

text \<open>Calls of several animas, in the order in which they happen.\<close>

fun org_run :: "py_error + anima_table \<Rightarrow> path \<Rightarrow> (string \<times> org_call) list \<Rightarrow> org_state \<Rightarrow> org_state" where
  "org_run config animas_dir [] st = st"
| "org_run config animas_dir ((me, call) # calls) st = org_run config animas_dir calls (snd (org_exec config animas_dir me call st))"

section \<open>The company boundary\<close>

record boundary =
  bc_cross :: bool
  bc_to :: "string option"
  bc_display :: string
  bc_via :: string

definition checked_company_membership :: "file_system \<Rightarrow> string \<Rightarrow> path \<Rightarrow> bool \<times> string option" where
  "checked_company_membership fs name animas_dir =
     (if name = [] then (False, None)
      else let candidate = fs_canon fs (join_path (fs_canon fs animas_dir) name)
           in if parent_dir candidate \<noteq> fs_canon fs animas_dir then (False, None) else read_anima_company_checked fs candidate)"

text \<open>\<open>display\<close>: the display name of a company, from its configuration file.\<close>

definition safe_display_name :: "(string \<Rightarrow> string) \<Rightarrow> string option \<Rightarrow> string" where
  "safe_display_name display c = (if opt_truthy c then display (the c) else [])"

text \<open>A company name in the answer of the server: \<open>None\<close> when it is neither null nor a non-empty string.\<close>

definition server_company :: "json option \<Rightarrow> string option option" where
  "server_company v =
     (case v of
        None \<Rightarrow> Some None
      | Some JNull \<Rightarrow> Some None
      | Some (JStr s) \<Rightarrow> (if s = [] then None else Some (Some s))
      | Some _ \<Rightarrow> None)"

definition fail_closed :: boundary where
  "fail_closed = \<lparr>bc_cross = True, bc_to = None, bc_display = [], bc_via = ''fail_closed''\<rparr>"

definition server_boundary :: "json \<Rightarrow> boundary" where
  "server_boundary answer =
     (case answer of
        JObj payload \<Rightarrow>
          (case map_of payload ''cross_company'' of
             Some (JBool cross) \<Rightarrow>
               (case (server_company (map_of payload ''from_company''), server_company (map_of payload ''to_company'')) of
                  (Some from', Some to') \<Rightarrow>
                    if from' \<noteq> None \<and> to' \<noteq> None \<and> cross \<noteq> (from' \<noteq> to') then fail_closed
                    else \<lparr>bc_cross = cross, bc_to = to',
                           bc_display = (case map_of payload ''to_display_name'' of
                                           Some (JStr s) \<Rightarrow> if py_strip s = [] then opt_or to' [] else s
                                         | _ \<Rightarrow> opt_or to' []),
                           bc_via = ''server''\<rparr>
                | _ \<Rightarrow> fail_closed)
           | _ \<Rightarrow> fail_closed)
      | _ \<Rightarrow> fail_closed)"

text \<open>\<open>answer\<close>: what the host server says, \<open>None\<close> when it cannot be reached or answers with an error.\<close>

definition check_company_boundary ::
  "file_system \<Rightarrow> (string \<Rightarrow> string) \<Rightarrow> json option \<Rightarrow> path \<Rightarrow> string \<Rightarrow> string \<Rightarrow> boundary" where
  "check_company_boundary fs display answer animas_dir from_anima to_anima =
     (case (checked_company_membership fs from_anima animas_dir, checked_company_membership fs to_anima animas_dir) of
        ((True, from'), (True, to')) \<Rightarrow>
          \<lparr>bc_cross = (from' \<noteq> None \<and> to' \<noteq> None \<and> from' \<noteq> to'), bc_to = to', bc_display = safe_display_name display to',
           bc_via = ''local''\<rparr>
      | _ \<Rightarrow> (case answer of None \<Rightarrow> fail_closed | Some j \<Rightarrow> server_boundary j))"

section \<open>The chain of supervision\<close>

definition supervises :: "anima_table \<Rightarrow> (string \<times> string) set" where
  "supervises animas = {(boss, sub). sub \<in> set (supervised_by animas boss)}"

lemma supervises_iff: "(boss, sub) \<in> supervises animas \<longleftrightarrow> (\<exists>c. (sub, c) \<in> set animas \<and> ac_supervisor c = Some boss)"
  by (auto simp: supervises_def supervised_by_def image_iff)

lemma supervised_set: "set (supervised_by animas boss) = supervises animas `` {boss}"
  by (auto simp: supervises_def)

lemma closed_reach:
  assumes "R `` V \<subseteq> V"
  shows "R\<^sup>* `` V = V"
  using assms by (metis Image_closed_trancl)

text \<open>
  The loop adds what can be reached from the names seen and the queue, provided that what is supervised by a name seen
  is seen or queued.
\<close>

lemma descend_reach:
  assumes "supervises animas `` set visited \<subseteq> set visited \<union> set queue"
  shows "set (descend animas visited queue acc) =
           set acc \<union> ((supervises animas)\<^sup>* `` (set visited \<union> set queue) - set visited)"
  using assms
proof (induction animas visited queue acc rule: descend.induct)
  case (1 animas visited acc)
  then show ?case
    by (simp add: closed_reach)
next
  case (2 animas visited current queue acc)
  let ?R = "supervises animas"
  show ?case
  proof (cases "current \<in> set visited")
    case True
    then have "set visited \<union> set (current # queue) = set visited \<union> set queue"
      by auto
    with 2 True show ?thesis by simp
  next
    case False
    let ?queue = "queue @ supervised_by animas current"
    have step: "?R `` set (current # visited) \<subseteq> set (current # visited) \<union> set ?queue"
      using "2.prems" by (auto simp: supervised_set)
    have same: "?R\<^sup>* `` (set (current # visited) \<union> set ?queue) = ?R\<^sup>* `` (set visited \<union> set (current # queue))"
      by (auto simp: supervised_set intro: converse_rtrancl_into_rtrancl)
    have "current \<in> ?R\<^sup>* `` (set visited \<union> set (current # queue))"
      by auto
    then have "set acc \<union> {current} \<union> (?R\<^sup>* `` (set visited \<union> set (current # queue)) - insert current (set visited)) =
        set acc \<union> (?R\<^sup>* `` (set visited \<union> set (current # queue)) - set visited)"
      using False by blast
    then show ?thesis
      using "2.IH"(2) [OF False step] False unfolding same by (simp add: Un_assoc)
  qed
qed

lemma descend_distinct:
  "distinct acc \<Longrightarrow> set acc \<subseteq> set visited \<Longrightarrow> distinct (descend animas visited queue acc)"
  by (induction animas visited queue acc rule: descend.induct) auto

lemma descendants_set:
  "set (descend animas [boss] (supervised_by animas boss) []) = (supervises animas)\<^sup>+ `` {boss} - {boss}"
proof -
  have "(supervises animas)\<^sup>* `` ({boss} \<union> supervises animas `` {boss}) - {boss} = (supervises animas)\<^sup>+ `` {boss} - {boss}"
    by (auto simp: rtrancl_eq_or_trancl intro: trancl_into_trancl2)
  then show ?thesis
    using descend_reach [of animas "[boss]" "supervised_by animas boss" "[]"] by (auto simp: supervised_set)
qed

lemma own_descendants:
  "get_all_descendants (Inr animas) me None = Inr (descend animas [me] (supervised_by animas me) [])"
  by (simp add: get_all_descendants_def opt_truthy_def)

text \<open>
  C33. The descendants are exactly the other animas that the chain of supervision reaches, each once, and the search ends
  even when the configured supervision has a cycle.
\<close>

theorem descendants_exact:
  "\<exists>ds. get_all_descendants (Inr animas) me None = Inr ds \<and> distinct ds \<and>
        (\<forall>d. d \<in> set ds \<longleftrightarrow> d \<noteq> me \<and> (me, d) \<in> (supervises animas)\<^sup>+)"
proof (intro exI conjI allI)
  show "get_all_descendants (Inr animas) me None = Inr (descend animas [me] (supervised_by animas me) [])"
    by (rule own_descendants)
  show "distinct (descend animas [me] (supervised_by animas me) [])"
    by (rule descend_distinct) simp_all
  show "d \<in> set (descend animas [me] (supervised_by animas me) []) \<longleftrightarrow> d \<noteq> me \<and> (me, d) \<in> (supervises animas)\<^sup>+" for d
    unfolding descendants_set by auto
qed

lemma check_descendant_iff:
  "check_descendant (Inr animas) me name = Inr None \<longleftrightarrow>
     resolve_anima_name (Inr animas) name \<noteq> me \<and> (me, resolve_anima_name (Inr animas) name) \<in> (supervises animas)\<^sup>+"
  by (simp add: check_descendant_def own_descendants descendants_set Let_def)

lemma check_subordinate_iff:
  assumes "distinct (map fst animas)"
  shows "check_subordinate (Inr animas) me name = None \<longleftrightarrow>
     resolve_anima_name (Inr animas) name \<noteq> me \<and> (me, resolve_anima_name (Inr animas) name) \<in> supervises animas"
  using assms by (auto simp: check_subordinate_def supervises_iff Let_def dest: eq_key_imp_eq_value split: option.splits)

text \<open>
  C10. Writing into the directory of another anima is possible only to the four management files of an anima below in the
  chain of supervision, whatever roots are configured.
\<close>

theorem management_confined:
  assumes "\<not> ph_superuser h"
    and "check_file_permission fs (cache_supervision fs (Inr animas) animas_dir me h) c True trusted p = Inr None"
    and "under (fs_resolve fs p) (parent_dir (fs_canon fs (ph_anima_dir h)))"
    and "\<not> under (fs_resolve fs p) (fs_canon fs (ph_anima_dir h))"
  shows "\<exists>d f. d \<noteq> me \<and> (me, d) \<in> (supervises animas)\<^sup>+ \<and> f \<in> set management_names \<and>
               fs_resolve fs p = fs_canon fs (join_path animas_dir d) @ [f]"
proof -
  let ?h = "cache_supervision fs (Inr animas) animas_dir me h"
  have "ph_anima_dir ?h = ph_anima_dir h" "ph_superuser ?h = ph_superuser h"
    by (simp_all add: cache_supervision_def Let_def)
  then have "fs_resolve fs p \<in> set (ph_subordinate_management ?h)"
    using other_animas_isolated [of ?h fs c True trusted p] assms by simp
  then obtain d f where "d \<in> set (descend animas [me] (supervised_by animas me) [])"
      and "f \<in> set management_names" "fs_resolve fs p = fs_canon fs (join_path animas_dir d) @ [f]"
    by (auto simp: cache_supervision_def Let_def)
  then show ?thesis
    unfolding descendants_set by auto
qed

section \<open>Authority\<close>

lemma change_status_frame:
  "d' \<noteq> d \<Longrightarrow> og_status (snd (change_status tool d target change reply st)) d' = og_status st d'"
  by (auto simp: change_status_def log_tool_def write_status_def split: sum.splits json.splits if_splits)

lemma guarded_authority:
  assumes "og_status (snd (guarded config me n act st)) d \<noteq> og_status st d"
    and "\<And>d'. d' \<noteq> join_path animas_dir n \<Longrightarrow> og_status (snd (act st)) d' = og_status st d'"
  shows "\<exists>n. d = join_path animas_dir n \<and> check_descendant config me n = Inr None"
proof -
  have "check_descendant config me n = Inr None" "guarded config me n act st = act st"
    using assms(1) by (auto simp: guarded_def split: sum.splits option.splits if_splits)
  with assms show ?thesis by metis
qed

lemma org_exec_authority:
  assumes "og_status (snd (org_exec config animas_dir me call st)) d \<noteq> og_status st d"
  shows "\<exists>n. d = join_path animas_dir n \<and> check_descendant config me n = Inr None"
proof (cases call)
  case (CDisable n r)
  from assms [unfolded CDisable org_exec.simps disable_subordinate_def Let_def] show ?thesis
    by (rule guarded_authority) (rule change_status_frame)
next
  case (CEnable n)
  from assms [unfolded CEnable org_exec.simps enable_subordinate_def Let_def] show ?thesis
    by (rule guarded_authority) (rule change_status_frame)
next
  case (CRestart n r)
  from assms [unfolded CRestart org_exec.simps restart_subordinate_def] show ?thesis
    by (rule guarded_authority) (auto simp: log_tool_def write_status_def split: sum.splits json.splits if_splits)
next
  case (CBgModel n m c)
  from assms [unfolded CBgModel org_exec.simps set_subordinate_background_model_def] show ?thesis
    by (rule guarded_authority) (auto simp: log_tool_def update_background_model_def split: sum.splits json.splits status_doc.splits)
next
  case (CReadState n)
  from assms [unfolded CReadState org_exec.simps read_subordinate_state_def] show ?thesis
    by (rule guarded_authority) (simp add: log_tool_def)
qed

text \<open>
  C9. However the animas call the control operations, a status file changes only when one of the callers is above the anima
  that the directory is named for.
\<close>

theorem control_confined:
  assumes "og_status (org_run (Inr animas) animas_dir calls st) d \<noteq> og_status st d"
  shows "\<exists>(me, call) \<in> set calls. \<exists>n. d = join_path animas_dir n \<and>
           resolve_anima_name (Inr animas) n \<noteq> me \<and> (me, resolve_anima_name (Inr animas) n) \<in> (supervises animas)\<^sup>+"
  using assms
proof (induction calls arbitrary: st)
  case Nil
  then show ?case by simp
next
  case (Cons mc calls)
  obtain me call where mc: "mc = (me, call)"
    by (cases mc)
  let ?st = "snd (org_exec (Inr animas) animas_dir me call st)"
  show ?case
  proof (cases "og_status ?st d = og_status st d")
    case True
    then show ?thesis
      using Cons.IH [of ?st] Cons.prems mc by auto
  next
    case False
    from org_exec_authority [OF this] show ?thesis
      by (auto simp: mc check_descendant_iff)
  qed
qed

lemma guarded_ok:
  "check_descendant config me target = Inr None \<Longrightarrow> target \<noteq> [] \<Longrightarrow> guarded config me target act st = act st"
  by (simp add: guarded_def)

lemma enabled_update [simp]: "enabled_in (AList.update ''enabled'' (JBool b) data) = b"
  by (simp add: enabled_in_def update_conv')

lemma disable_enabled:
  assumes "resolve_anima_name config n = t" "t \<noteq> []" "check_descendant config me t = Inr None"
    and "og_dir st (join_path animas_dir t)" "read_existing st (join_path animas_dir t) = Inr (JObj data)" "enabled_in data"
  shows "disable_subordinate config animas_dir me n reason st =
     (Inr (DisabledSuccess t reason),
      log_tool ''disable_subordinate'' t
        (st\<lparr>og_status := (og_status st)(join_path animas_dir t := StJson (JObj (AList.update ''enabled'' (JBool False) data)))\<rparr>))"
  using assms by (simp add: disable_subordinate_def Let_def guarded_ok change_status_def write_status_def)

lemma enable_disabled:
  assumes "resolve_anima_name config n = t" "t \<noteq> []" "check_descendant config me t = Inr None"
    and "og_dir st (join_path animas_dir t)" "read_existing st (join_path animas_dir t) = Inr (JObj data)" "\<not> enabled_in data"
  shows "enable_subordinate config animas_dir me n st =
     (Inr (EnabledSuccess t),
      log_tool ''enable_subordinate'' t
        (st\<lparr>og_status := (og_status st)(join_path animas_dir t := StJson (JObj (AList.update ''enabled'' (JBool True) data)))\<rparr>))"
  using assms by (simp add: enable_subordinate_def Let_def guarded_ok change_status_def write_status_def)

text \<open>
  Disabling a descendant and enabling it again gives back its status file: every other field as it was, and enabled.
\<close>

theorem disable_enable_roundtrip:
  assumes "resolve_anima_name config n = t" "t \<noteq> []" "check_descendant config me t = Inr None"
    and "og_dir st (join_path animas_dir t)" "og_status st (join_path animas_dir t) = StJson (JObj data)" "enabled_in data"
  shows "\<exists>st1 st2 data1 data2.
     disable_subordinate config animas_dir me n reason st = (Inr (DisabledSuccess t reason), st1) \<and>
     og_status st1 (join_path animas_dir t) = StJson (JObj data1) \<and> \<not> enabled_in data1 \<and>
     enable_subordinate config animas_dir me n st1 = (Inr (EnabledSuccess t), st2) \<and>
     og_status st2 (join_path animas_dir t) = StJson (JObj data2) \<and> enabled_in data2 \<and>
     (\<forall>k. k \<noteq> ''enabled'' \<longrightarrow> map_of data1 k = map_of data k \<and> map_of data2 k = map_of data k) \<and>
     (\<forall>d. d \<noteq> join_path animas_dir t \<longrightarrow> og_status st2 d = og_status st d)"
proof -
  let ?d = "join_path animas_dir t"
  let ?data1 = "AList.update ''enabled'' (JBool False) data"
  let ?st1 = "log_tool ''disable_subordinate'' t (st\<lparr>og_status := (og_status st)(?d := StJson (JObj ?data1))\<rparr>)"
  have dis: "disable_subordinate config animas_dir me n reason st = (Inr (DisabledSuccess t reason), ?st1)"
    by (rule disable_enabled) (use assms in \<open>simp_all add: read_existing_def\<close>)
  have "og_dir ?st1 ?d" "read_existing ?st1 ?d = Inr (JObj ?data1)" "\<not> enabled_in ?data1"
    using assms(4) by (simp_all add: log_tool_def read_existing_def)
  note en = enable_disabled [OF assms(1-3) this]
  let ?data2 = "AList.update ''enabled'' (JBool True) ?data1"
  show ?thesis
    by (rule exI [of _ ?st1], rule exI, rule exI [of _ ?data1], rule exI [of _ ?data2], intro conjI, rule dis,
        simp add: log_tool_def, simp, rule en)
       (simp_all add: log_tool_def update_conv')
qed

text \<open>A status file that cannot be read is replaced by the one field the operation sets.\<close>

lemma unreadable_status_replaced:
  assumes "resolve_anima_name config n = t" "t \<noteq> []" "check_descendant config me t = Inr None"
    and "og_dir st (join_path animas_dir t)" "og_status st (join_path animas_dir t) = StUnreadable"
  shows "og_status (snd (disable_subordinate config animas_dir me n reason st)) (join_path animas_dir t) =
           StJson (JObj [(''enabled'', JBool False)])"
proof -
  have "read_existing st (join_path animas_dir t) = Inr (JObj [])" "enabled_in []"
    using assms(5) by (simp_all add: read_existing_def enabled_in_def)
  from disable_enabled [OF assms(1-4) this] show ?thesis
    by (simp add: log_tool_def)
qed

text \<open>A restart accepts the same names as the other operations, but then looks for the directory of the name as given.\<close>

lemma restart_name_not_resolved:
  assumes "check_descendant config me n = Inr None" "n \<noteq> []" "\<not> og_dir st (join_path animas_dir n)"
    and "og_status st (join_path animas_dir n) = StMissing"
  shows "restart_subordinate config animas_dir me n reason st = (Inl (StorageError ''FileNotFoundError''), st)"
  using assms by (simp add: restart_subordinate_def guarded_ok read_existing_def write_status_def)

section \<open>Companies\<close>

text \<open>
  The boundary is open only when both memberships are known to be compatible, from the own files or from a consistent
  answer of the server; in every other case it is closed.
\<close>

theorem boundary_fails_closed:
  assumes "\<not> bc_cross (check_company_boundary fs display answer animas_dir a b)"
  shows "(\<exists>ca cb. checked_company_membership fs a animas_dir = (True, ca) \<and> checked_company_membership fs b animas_dir = (True, cb) \<and>
            (ca = None \<or> cb = None \<or> ca = cb)) \<or>
         (\<exists>payload ca cb. answer = Some (JObj payload) \<and> map_of payload ''cross_company'' = Some (JBool False) \<and>
            server_company (map_of payload ''from_company'') = Some ca \<and> server_company (map_of payload ''to_company'') = Some cb \<and>
            (ca = None \<or> cb = None \<or> ca = cb))"
proof -
  have server: "\<exists>payload ca cb. j = JObj payload \<and> map_of payload ''cross_company'' = Some (JBool False) \<and>
            server_company (map_of payload ''from_company'') = Some ca \<and> server_company (map_of payload ''to_company'') = Some cb \<and>
            (ca = None \<or> cb = None \<or> ca = cb)"
    if "\<not> bc_cross (server_boundary j)" for j
    using that unfolding server_boundary_def fail_closed_def
    by (auto split: json.splits option.splits if_splits)
  obtain ra ca rb cb where m: "checked_company_membership fs a animas_dir = (ra, ca)" "checked_company_membership fs b animas_dir = (rb, cb)"
    by (metis surj_pair)
  show ?thesis
  proof (cases "ra \<and> rb")
    case True
    with assms m show ?thesis
      by (auto simp: check_company_boundary_def)
  next
    case False
    then obtain j where "answer = Some j" "\<not> bc_cross (server_boundary j)"
      using assms m by (cases answer) (auto simp: check_company_boundary_def fail_closed_def split: bool.splits)
    with server show ?thesis by blast
  qed
qed

section \<open>Witnesses\<close>

text \<open>ann supervises bob, bob supervises cid; bob has an alias.\<close>

definition demo_animas :: anima_table where
  "demo_animas =
     [(''ann'', \<lparr>ac_supervisor = None, ac_aliases = []\<rparr>), (''bob'', \<lparr>ac_supervisor = Some ''ann'', ac_aliases = [''Robert'']\<rparr>),
      (''cid'', \<lparr>ac_supervisor = Some ''bob'', ac_aliases = []\<rparr>)]"

definition demo_org :: org_state where
  "demo_org =
     \<lparr>og_dir = (\<lambda>d. d \<in> {[''animas'', ''ann''], [''animas'', ''bob''], [''animas'', ''cid'']}),
      og_status = (\<lambda>d. if d = [''animas'', ''cid''] then StJson (JObj [(''model'', JStr ''m'')]) else StMissing),
      og_current = (\<lambda>_. None), og_log = []\<rparr>"

lemma demo_org_facts:
  "join_path [''animas''] ''cid'' = [''animas'', ''cid'']"
  "resolve_anima_name (Inr demo_animas) ''CID'' = ''cid''" "check_descendant (Inr demo_animas) ''ann'' ''cid'' = Inr None"
  "og_dir demo_org (join_path [''animas''] ''cid'')"
  "og_status demo_org (join_path [''animas''] ''cid'') = StJson (JObj [(''model'', JStr ''m'')])"
  "enabled_in [(''model'', JStr ''m'')]"
  by code_simp+

theorem disable_enable_roundtrip_witness:
  "\<exists>st1 st2 data1 data2.
     disable_subordinate (Inr demo_animas) [''animas''] ''ann'' ''CID'' [] demo_org = (Inr (DisabledSuccess ''cid'' []), st1) \<and>
     og_status st1 [''animas'', ''cid''] = StJson (JObj data1) \<and> \<not> enabled_in data1 \<and>
     enable_subordinate (Inr demo_animas) [''animas''] ''ann'' ''CID'' st1 = (Inr (EnabledSuccess ''cid''), st2) \<and>
     og_status st2 [''animas'', ''cid''] = StJson (JObj data2) \<and> enabled_in data2"
proof -
  have "''cid'' \<noteq> []"
    by simp
  from disable_enable_roundtrip [OF demo_org_facts(2) this demo_org_facts(3-6), of "[]", unfolded demo_org_facts(1)] show ?thesis
    by (elim exE conjE, intro exI conjI)
qed

theorem control_confined_witness:
  "og_status (org_run (Inr demo_animas) [''animas''] [(''ann'', CDisable ''CID'' [])] demo_org) [''animas'', ''cid''] \<noteq>
     og_status demo_org [''animas'', ''cid''] \<and>
   (\<exists>(me, call) \<in> set [(''ann'', CDisable ''CID'' [])]. \<exists>n. [''animas'', ''cid''] = join_path [''animas''] n \<and>
      resolve_anima_name (Inr demo_animas) n \<noteq> me \<and> (me, resolve_anima_name (Inr demo_animas) n) \<in> (supervises demo_animas)\<^sup>+)"
proof -
  have "read_existing demo_org (join_path [''animas''] ''cid'') = Inr (JObj [(''model'', JStr ''m'')])"
    using demo_org_facts(5) by (simp add: read_existing_def)
  note run = disable_enabled [OF demo_org_facts(2) _ demo_org_facts(3,4) this demo_org_facts(6), of "[]"]
  have changed: "og_status (org_run (Inr demo_animas) [''animas''] [(''ann'', CDisable ''CID'' [])] demo_org) [''animas'', ''cid''] \<noteq>
      og_status demo_org [''animas'', ''cid'']"
    using run demo_org_facts(1,5) by (simp add: log_tool_def)
  from changed control_confined [OF changed] show ?thesis
    by (rule conjI)
qed

theorem management_confined_witness:
  "check_file_permission plain_fs (cache_supervision plain_fs (Inr demo_animas) [''data'', ''animas''] ''ann''
       (alice\<lparr>ph_anima_dir := [''data'', ''animas'', ''ann'']\<rparr>)) default_permissions True False ''/data/animas/cid/cron.md'' = Inr None \<and>
   (\<exists>d f. d \<noteq> ''ann'' \<and> (''ann'', d) \<in> (supervises demo_animas)\<^sup>+ \<and> f \<in> set management_names \<and>
          fs_resolve plain_fs ''/data/animas/cid/cron.md'' = fs_canon plain_fs (join_path [''data'', ''animas''] d) @ [f])"
proof -
  let ?h = "alice\<lparr>ph_anima_dir := [''data'', ''animas'', ''ann'']\<rparr>"
  have allowed: "check_file_permission plain_fs (cache_supervision plain_fs (Inr demo_animas) [''data'', ''animas''] ''ann'' ?h)
      default_permissions True False ''/data/animas/cid/cron.md'' = Inr None"
    by code_simp
  have place: "under (fs_resolve plain_fs ''/data/animas/cid/cron.md'') (parent_dir (fs_canon plain_fs (ph_anima_dir ?h)))"
      "\<not> under (fs_resolve plain_fs ''/data/animas/cid/cron.md'') (fs_canon plain_fs (ph_anima_dir ?h))"
    by code_simp+
  have "\<not> ph_superuser ?h"
    by simp
  from allowed management_confined [OF this allowed place] show ?thesis
    by (rule conjI)
qed

theorem boundary_fails_closed_witness:
  "\<not> bc_cross (check_company_boundary plain_fs id None [''data'', ''animas''] ''ann'' ''bob'') \<and>
   (\<exists>ca cb. checked_company_membership plain_fs ''ann'' [''data'', ''animas''] = (True, ca) \<and>
      checked_company_membership plain_fs ''bob'' [''data'', ''animas''] = (True, cb) \<and> (ca = None \<or> cb = None \<or> ca = cb))"
proof -
  have "\<not> bc_cross (check_company_boundary plain_fs id None [''data'', ''animas''] ''ann'' ''bob'')"
    by code_simp
  with boundary_fails_closed [OF this] show ?thesis
    by simp
qed

end
