(* ===== verification/Delegation.thy ===== *)
theory Delegation
  imports Org_Chart Task_Dispatch Json_Text
begin

text \<open>
  The tools \<^verbatim>\<open>delegate_task\<close> and \<^verbatim>\<open>task_tracker\<close> of \<^verbatim>\<open>core/tooling/handler_delegation.py\<close>: the chain of supervision and
  the company boundary of \<^verbatim>\<open>Org_Chart\<close> guard a publication of \<^verbatim>\<open>Task_Dispatch\<close>, which the task board, a direct message
  and the own activity log follow. The new task id is the argument \<open>uid\<close>; the clock readings of one call coincide.
\<close>

section \<open>State and arguments\<close>

record delegation_sys =
  dg_queue :: queue_sys
  dg_dms :: "(string \<times> string) list"
  dg_log :: "(string \<times> string) list"

record delegate_args =
  da_name :: string
  da_instruction :: string
  da_summary :: string
  da_criteria :: "json option"
  da_workspace :: string
  da_model :: "json option"

text \<open>
  What surrounds a call: the configuration, the file system with the animas directory, the answer of the host about
  companies, the model check per anima, the workspace resolution, whether a direct message is wanted, what the messenger
  does (\<open>None\<close> without one), and the process state of the animas.
\<close>

record delegate_env =
  de_config :: "py_error + anima_table"
  de_fs :: file_system
  de_animas_dir :: path
  de_display :: "string \<Rightarrow> string"
  de_answer :: "json option"
  de_model_error :: "string \<Rightarrow> string \<Rightarrow> string option"
  de_workspace :: "json \<Rightarrow> py_error + string"
  de_dm_enabled :: bool
  de_messenger :: "bool option"
  de_socket :: "string \<Rightarrow> bool"
  de_status :: "string \<Rightarrow> status_doc"

datatype dm_result = DmSkipped | DmSent | DmFailed | NoMessenger

datatype delegate_reply =
    DInvalid string
  | DRefused org_refusal
  | DUnverifiable
  | DCrossCompany string
  | DPersistenceFailed
  | Delegated string string dm_result bool

text \<open>The criteria that are strings.\<close>

definition criteria_strings :: "json option \<Rightarrow> json list" where
  "criteria_strings v = (case v of Some (JArr xs) \<Rightarrow> filter is_str xs | _ \<Rightarrow> [])"

definition delegation_payload :: "string \<Rightarrow> string \<Rightarrow> string \<Rightarrow> string \<Rightarrow> json list \<Rightarrow> string \<Rightarrow> string \<Rightarrow> string \<Rightarrow> dict" where
  "delegation_payload me submitted_at tid summary criteria instruction wd model =
     [(''task_type'', JStr ''llm''), (''task_id'', JStr tid), (''title'', JStr summary), (''description'', JStr instruction),
      (''context'', JStr []), (''acceptance_criteria'', JArr criteria), (''constraints'', JArr []), (''file_paths'', JArr []),
      (''submitted_by'', JStr me), (''submitted_at'', JStr submitted_at), (''reply_to'', JStr me),
      (''source'', JStr ''delegation''), (''working_directory'', JStr wd), (''model'', JStr model)]"

text \<open>\<^verbatim>\<open>_record_taskboard_delegation\<close>; a failure leaves what was written before it.\<close>

definition delegation_card :: "string \<Rightarrow> string \<Rightarrow> string \<Rightarrow> string \<Rightarrow> board_column \<Rightarrow> board_db \<Rightarrow> py_error + board_db" where
  "delegation_card now anima tid actor column b =
     (case upsert_metadata now anima tid actor (Some ''metadata_upserted'')
             (no_update\<lparr>mu_visibility := Some VActive, mu_column := Some (Some column), mu_source_ref := Some (Some (source_ref anima tid))\<rparr>) b of
        Inl e \<Rightarrow> Inl e
      | Inr (_, b') \<Rightarrow> Inr b')"

definition record_taskboard_delegation :: "string \<Rightarrow> string \<Rightarrow> string \<Rightarrow> string \<Rightarrow> string \<Rightarrow> board_db \<Rightarrow> board_db" where
  "record_taskboard_delegation now delegated_to tid delegator tracking b =
     (case delegation_card now delegated_to tid delegator CTodo b of
        Inl _ \<Rightarrow> b
      | Inr b1 \<Rightarrow>
          if tracking = [] then b1
          else (case delegation_card now delegator tracking delegator CWaiting b1 of Inl _ \<Rightarrow> b1 | Inr b2 \<Rightarrow> b2))"

definition process_warning :: "delegate_env \<Rightarrow> string \<Rightarrow> bool" where
  "process_warning env target =
     (\<not> de_socket env target \<and> (case de_status env target of StJson (JObj d) \<Rightarrow> \<not> enabled_in d | _ \<Rightarrow> False))"

text \<open>The part behind the checks: publication, cards, message, log.\<close>

definition delegate_publish ::
  "delegate_env \<Rightarrow> attempt_identity option \<Rightarrow> string \<Rightarrow> string \<Rightarrow> string \<Rightarrow> exc_heap \<Rightarrow> nat option \<Rightarrow> (dict \<Rightarrow> 'r \<Rightarrow> http_outcome \<times> 'r)
   \<Rightarrow> string \<Rightarrow> string \<Rightarrow> dict \<Rightarrow> delegation_sys \<Rightarrow> 'r \<Rightarrow> delegate_reply \<times> delegation_sys \<times> 'r" where
  "delegate_publish env ident now later uid h fault send me target payload s r =
     (case publish_delegation (de_model_error env target) (de_workspace env) ident now later uid h fault True send target payload me uid
             (dg_queue s) r of
        (Inl (ValueError m), q, r') \<Rightarrow> (DInvalid m, s\<lparr>dg_queue := q\<rparr>, r')
      | (Inl _, q, r') \<Rightarrow> (DPersistenceFailed, s\<lparr>dg_queue := q\<rparr>, r')
      | (Inr used_host, q, r') \<Rightarrow>
          let q1 = (if used_host then q else q\<lparr>qs_board := record_taskboard_delegation later target uid me uid (qs_board q)\<rparr>);
              dm = (case de_messenger env of
                      None \<Rightarrow> NoMessenger
                    | Some sent \<Rightarrow> if \<not> de_dm_enabled env then DmSkipped else if sent then DmSent else DmFailed)
          in (Delegated target uid dm (process_warning env target),
              s\<lparr>dg_queue := q1, dg_dms := dg_dms s @ (if dm = DmSent then [(target, uid)] else []),
                dg_log := dg_log s @ [(''delegate_task'', target)]\<rparr>, r'))"

definition delegate_task ::
  "delegate_env \<Rightarrow> attempt_identity option \<Rightarrow> string \<Rightarrow> string \<Rightarrow> string \<Rightarrow> exc_heap \<Rightarrow> nat option \<Rightarrow> (dict \<Rightarrow> 'r \<Rightarrow> http_outcome \<times> 'r)
   \<Rightarrow> string \<Rightarrow> delegate_args \<Rightarrow> delegation_sys \<Rightarrow> 'r \<Rightarrow> (py_error + delegate_reply) \<times> delegation_sys \<times> 'r" where
  "delegate_task env ident now later uid h fault send me args s r =
     (let target = resolve_anima_name (de_config env) (da_name args);
          instruction = da_instruction args;
          summary = (if da_summary args \<noteq> [] then da_summary args else u_take 100 instruction);
          resolved = (if da_workspace args = [] then Inr [] else de_workspace env (JStr (da_workspace args)))
      in case resolved of
           Inl (ValueError m) \<Rightarrow> (Inr (DInvalid m), s, r)
         | Inl e \<Rightarrow> (Inl e, s, r)
         | Inr wd \<Rightarrow>
             if (case da_model args of None \<Rightarrow> False | Some JNull \<Rightarrow> False | Some v \<Rightarrow> \<not> is_str v) then (Inr (DInvalid ''model must be a string''), s, r)
             else
               let model = (case da_model args of Some (JStr m) \<Rightarrow> py_strip m | _ \<Rightarrow> [])
               in if target = [] then (Inr (DInvalid ''name is required''), s, r)
                  else if instruction = [] then (Inr (DInvalid ''instruction is required''), s, r)
                  else case check_subordinate (de_config env) me target of
                         Some e \<Rightarrow> (Inr (DRefused e), s, r)
                       | None \<Rightarrow>
                           (case (if model = [] then None else de_model_error env target model) of
                              Some m \<Rightarrow> (Inr (DInvalid m), s, r)
                            | None \<Rightarrow>
                                let b = check_company_boundary (de_fs env) (de_display env) (de_answer env) (de_animas_dir env) me target
                                in if bc_cross b
                                   then (Inr (if bc_via b = ''fail_closed'' then DUnverifiable else DCrossCompany (bc_display b)), s, r)
                                   else
                                     (case delegate_publish env ident now later uid h fault send me target
                                             (delegation_payload me now uid summary (criteria_strings (da_criteria args)) instruction wd model) s r of
                                        (reply, s', r') \<Rightarrow> (Inr reply, s', r'))))"

section \<open>Tracking\<close>

record track_entry =
  tr_task_id :: string
  tr_delegated_to :: json
  tr_summary :: string
  tr_delegated_at :: string
  tr_status :: json
  tr_updated :: string

definition track_of :: "task_entry \<Rightarrow> track_entry" where
  "track_of e =
     \<lparr>tr_task_id = te_task_id e, tr_delegated_to = opt_or (map_of (te_meta e) ''delegated_to'') (JStr []),
      tr_summary = te_summary e, tr_delegated_at = te_ts e,
      tr_status = opt_or (map_of (te_meta e) ''delegated_status'') (JStr (te_status e)), tr_updated = te_updated_at e\<rparr>"

definition track_wanted :: "string \<Rightarrow> track_entry \<Rightarrow> bool" where
  "track_wanted status_filter t =
     (let terminal = tr_status t \<in> {JStr ''done'', JStr ''cancelled''}
      in \<not> (status_filter = ''active'' \<and> terminal) \<and> \<not> (status_filter = ''completed'' \<and> \<not> terminal))"

definition task_tracker :: "string \<Rightarrow> string \<Rightarrow> queue_sys \<Rightarrow> track_entry list" where
  "task_tracker me status_filter q =
     filter (track_wanted status_filter)
       (map track_of (filter (\<lambda>e. dict_truthy (te_meta e) ''delegated_to'') (map snd (load_all me True q))))"

section \<open>Publication\<close>

lemma validated_description:
  assumes "validate_payload me rw (JObj d) = Inr d'" "\<not> resume_true d" "k \<notin> {''workspace'', ''working_directory'', ''task_type''}"
  shows "map_of d' k = map_of d k"
  using assms
  by (auto simp: validate_payload_def Let_def map_of_setdefault place_task_other split: option.splits if_splits json.splits sum.splits)

lemma store_alias_new:
  assumes "store_alias v al a t db = Inr db'" "row_find alias_key (v, al) (db_aliases db) = None"
  shows "db_tasks db' = db_tasks db"
    "row_find alias_key (v, al) (db_aliases db') = Some \<lparr>al_viewer = v, al_alias = al, al_anima = a, al_task_id = t\<rparr>"
    "k \<noteq> (v, al) \<Longrightarrow> row_find alias_key k (db_aliases db') = row_find alias_key k (db_aliases db)"
  using assms by (auto simp: store_alias_def Let_def row_find_insert_ignore alias_key_def)

lemma get_row_tasks: "db_tasks db' = db_tasks db \<Longrightarrow> get_row db' a t = get_row db a t"
  by (simp add: get_row_def)

text \<open>A delegation that fails leaves both databases as they were.\<close>

lemma publish_delegation_failed:
  assumes "publish_delegation me rw ident now later uid h fault hf send a p del tr s r = (Inl e, s1, r1)" "\<not> qs_open s" "qs_after s = []"
  shows "s1 = s"
  using assms queue_submit_board
  by (auto simp: publish_delegation_def local_or_host_def queue_transaction_def Let_def queue_submit_def
      split: sum.splits prod.splits if_splits option.splits)

lemma publish_delegation_done:
  assumes run: "publish_delegation me rw None now later uid h None hf send a p del tr s r = (Inr b, s1, r1)"
    and closed: "\<not> qs_open s" and inv: "ledger_inv (qs_db s)" and plain: "\<not> resume_true p"
    and new: "get_row (qs_db s) a (payload_id p) = None" and noalias: "row_find alias_key (del, tr) (db_aliases (qs_db s)) = None"
  shows "\<not> b" "ledger_inv (qs_db s1)" "qs_board s1 = qs_board s" "\<not> qs_open s1"
    "\<exists>x d. get_row (qs_db s1) a (payload_id p) = Some x \<and> row_input x = Some d \<and> map_of d ''description'' = map_of p ''description'' \<and>
       row_ready x \<and> row_status x = ''pending'' \<and> row_attempt x = None \<and> \<not> row_archived x"
    "row_find alias_key (del, tr) (db_aliases (qs_db s1)) = Some \<lparr>al_viewer = del, al_alias = tr, al_anima = a, al_task_id = payload_id p\<rparr>"
    "(a', t') \<noteq> (a, payload_id p) \<Longrightarrow> get_row (qs_db s1) a' t' = get_row (qs_db s) a' t'"
    "k \<noteq> (del, tr) \<Longrightarrow> row_find alias_key k (db_aliases (qs_db s1)) = row_find alias_key k (db_aliases (qs_db s))"
proof -
  let ?s = "s\<lparr>qs_open := True, qs_after := []\<rparr>"
  obtain d where v: "validate_payload me rw (JObj p) = Inr d" and vs: "validate_task_payloads me rw [] True [JObj p] = Inr [d]"
    using run by (auto simp: publish_delegation_def split: sum.splits elim!: validated_single)
  let ?d = "dict_setdefault ''relay_chain'' (JArr [JStr del]) d"
  let ?m = "[(''model'', opt_or (map_of p ''model'') (JStr []))]"
  have id: "payload_id ?d = payload_id p" "payload_id p \<noteq> []"
    using validated_payload(1,3) [OF v] by (auto simp: payload_id_def map_of_setdefault valid_task_id_def)
  have desc: "map_of ?d ''description'' = map_of p ''description''"
    using validated_description [OF v plain, of "''description''"] by (simp add: map_of_setdefault)
  obtain y s2 db where q: "queue_submit None now uid a ?d ''anima'' ?m False ?s = (Inr y, s2)"
    and al: "store_alias del tr a (payload_id p) (qs_db s2) = Inr db"
    and out: "\<not> b" "qs_db s1 = db" "qs_board s1 = foldl (\<lambda>b c. run_sync later c b) (qs_board s2) (qs_after s2)" "\<not> qs_open s1"
    using run closed
    by (auto simp: publish_delegation_def vs Let_def local_or_host_def queue_transaction_def
        split: sum.splits prod.splits if_splits option.splits)
  have pid: "payload_id ?d \<noteq> []" using id by simp
  obtain e c where e: "te_task_id e = payload_id p" "store_submit None now now a e ?d False (qs_db s) = Inr (c, qs_db s2)"
      "s2 = ?s\<lparr>qs_db := qs_db s2\<rparr>"
    by (rule queue_submit_first [OF q pid]) (simp add: id)
  note rows = submit_rows [OF e(2)]
  have na: "row_find alias_key (del, tr) (db_aliases (qs_db s2)) = None" using noalias rows(1) by simp
  note al' = store_alias_new [OF al na]
  note gr = get_row_tasks [OF al'(1)]
  show "\<not> b" "\<not> qs_open s1" using out by simp_all
  show "ledger_inv (qs_db s1)"
    using out(2) ledger.inv_step [OF step_alias [OF al] ledger.inv_step [OF step_submit [OF e(2)] inv]] by simp
  show "qs_board s1 = qs_board s"
    using out(3) arg_cong [OF e(3), of qs_board] arg_cong [OF e(3), of qs_after] by simp
  show "\<exists>x d. get_row (qs_db s1) a (payload_id p) = Some x \<and> row_input x = Some d \<and> map_of d ''description'' = map_of p ''description'' \<and>
       row_ready x \<and> row_status x = ''pending'' \<and> row_attempt x = None \<and> \<not> row_archived x"
    using queue_submit_new [OF q pid] new desc by (auto simp: gr out(2) id(1))
  show "row_find alias_key (del, tr) (db_aliases (qs_db s1)) = Some \<lparr>al_viewer = del, al_alias = tr, al_anima = a, al_task_id = payload_id p\<rparr>"
    using al'(2) out(2) by simp
  show "get_row (qs_db s1) a' t' = get_row (qs_db s) a' t'" if "(a', t') \<noteq> (a, payload_id p)"
    using rows(2) that e(1) by (simp add: gr out(2))
  show "row_find alias_key k (db_aliases (qs_db s1)) = row_find alias_key k (db_aliases (qs_db s))" if "k \<noteq> (del, tr)"
    using al'(3) [OF that] rows(1) out(2) by simp
qed

section \<open>Names\<close>

lemma str_lower_space: "is_space (if 65 \<le> (of_char c :: nat) \<and> of_char c \<le> (90 :: nat) then char_of (of_char c + 32 :: nat) else c) = is_space c"
proof (cases "65 \<le> (of_char c :: nat) \<and> of_char c \<le> (90 :: nat)")
  case True
  then have "of_char (char_of (of_char c + 32 :: nat) :: char) = (of_char c + 32 :: nat)"
    by (simp add: of_char_of)
  with True show ?thesis
    by (simp add: is_space_def del: of_char_of)
qed auto

lemma strip_lower: "py_strip (str_lower s) = str_lower (py_strip s)"
  unfolding py_strip_def str_lower_def rev_map dropWhile_map comp_def str_lower_space
  by (simp add: rev_map dropWhile_map comp_def str_lower_space)

lemma lower_idem: "str_lower (str_lower s) = str_lower s"
  by (simp add: str_lower_def)

lemma strip_idem: "py_strip (py_strip s) = py_strip s"
proof -
  let ?t = "dropWhile is_space s"
  let ?u = "dropWhile is_space (rev ?t)"
  have "suffix ?u (rev ?t)"
    by (simp add: suffix_dropWhile)
  then obtain w where "rev ?t = w @ ?u"
    by (auto simp: suffix_def)
  then have "?t = rev ?u @ rev w"
    by (metis rev_append rev_rev_ident)
  then have "rev ?u = [] \<or> hd (rev ?u) = hd ?t \<and> ?t \<noteq> []"
    by (cases "rev ?u") auto
  then have "dropWhile is_space (rev ?u) = rev ?u"
    unfolding dropWhile_eq_self_iff by (metis hd_dropWhile)
  moreover have "dropWhile is_space ?u = ?u"
    unfolding dropWhile_eq_self_iff by (metis hd_dropWhile)
  ultimately show ?thesis
    by (simp add: py_strip_def)
qed

definition canonical_names :: "anima_table \<Rightarrow> bool" where
  "canonical_names animas = (distinct (map fst animas) \<and> (\<forall>n \<in> set (map fst animas). str_lower (py_strip n) = n))"

lemma resolve_known:
  assumes "canonical_names animas" "n \<in> fst ` set animas"
  shows "resolve_anima_name (Inr animas) n = n"
proof -
  have "str_lower (py_strip n) = n"
    using assms by (auto simp: canonical_names_def)
  moreover have "map_of animas n \<noteq> None"
    using assms(2) by (simp add: map_of_eq_None_iff)
  ultimately show ?thesis
    by (simp add: resolve_anima_name_def Let_def)
qed

lemma resolve_idem:
  assumes "canonical_names animas"
  shows "resolve_anima_name (Inr animas) (resolve_anima_name (Inr animas) n) = resolve_anima_name (Inr animas) n"
proof (cases "resolve_anima_name (Inr animas) n \<in> fst ` set animas")
  case True
  then show ?thesis by (rule resolve_known [OF assms])
next
  case False
  let ?l = "str_lower (py_strip n)"
  have none: "find (\<lambda>(_, c). alias_matches (py_strip n) c) animas = None"
  proof (rule ccontr)
    assume "find (\<lambda>(_, c). alias_matches (py_strip n) c) animas \<noteq> None"
    then obtain k c where f: "find (\<lambda>(_, c). alias_matches (py_strip n) c) animas = Some (k, c)"
      by auto
    then have "(k, c) \<in> set animas"
      by (auto dest: find_Some_member)
    with f False show False
      by (auto simp: resolve_anima_name_def Let_def image_iff map_of_eq_None_iff split: if_splits)
  qed
  then have l: "resolve_anima_name (Inr animas) n = ?l"
    by (simp add: resolve_anima_name_def Let_def)
  have fix_l: "py_strip ?l = ?l" "str_lower ?l = ?l"
    by (simp_all add: strip_lower strip_idem lower_idem)
  have "\<not> alias_matches ?l c" if "(k, c) \<in> set animas" for k c
  proof -
    have "\<forall>a \<in> set (ac_aliases c). str_lower (py_strip a) \<noteq> ?l"
      using none that unfolding find_None_iff alias_matches_def list_ex_iff by auto
    then show ?thesis
      unfolding alias_matches_def list_ex_iff fix_l by (metis fix_l(2))
  qed
  then have "find (\<lambda>(_, c). alias_matches ?l c) animas = None"
    by (auto simp: find_None_iff)
  with l show ?thesis
    by (simp add: resolve_anima_name_def Let_def fix_l)
qed

section \<open>What a delegation does\<close>

lemma delegation_payload_simps:
  "payload_id (delegation_payload me at' t sm cr ins wd md) = t" "\<not> resume_true (delegation_payload me at' t sm cr ins wd md)"
  "map_of (delegation_payload me at' t sm cr ins wd md) ''description'' = Some (JStr ins)"
  by (simp_all add: payload_id_def resume_true_def delegation_payload_def)

text \<open>The steps before the publication, inverted.\<close>

lemma delegate_task_cases:
  assumes "delegate_task env ident now later uid h fault send me args s r = (res, s', r')"
  obtains (stopped) "s' = s" "r' = r" "\<And>t u dm w. res \<noteq> Inr (Delegated t u dm w)"
  | (published) target sm wd model reply where
      "target = resolve_anima_name (de_config env) (da_name args)" "target \<noteq> []" "da_instruction args \<noteq> []"
      "check_subordinate (de_config env) me target = None"
      "\<not> bc_cross (check_company_boundary (de_fs env) (de_display env) (de_answer env) (de_animas_dir env) me target)"
      "delegate_publish env ident now later uid h fault send me target
         (delegation_payload me now uid sm (criteria_strings (da_criteria args)) (da_instruction args) wd model) s r = (reply, s', r')"
      "res = Inr reply"
  using assms unfolding delegate_task_def Let_def
  by (force split: sum.splits py_error.splits if_splits option.splits prod.splits)

text \<open>A call of \<^verbatim>\<open>delegate_task\<close> that does not report success has changed nothing: no task, card, message or log entry.\<close>

theorem refused_delegation_unchanged:
  assumes "delegate_task env ident now later uid h fault send me args s r = (res, s', r')"
    and "\<not> qs_open (dg_queue s)" "qs_after (dg_queue s) = []"
    and "\<And>t u dm w. res \<noteq> Inr (Delegated t u dm w)"
  shows "s' = s"
  using assms(1)
proof (cases rule: delegate_task_cases)
  case (published target sm wd model reply)
  let ?p = "delegation_payload me now uid sm (criteria_strings (da_criteria args)) (da_instruction args) wd model"
  obtain out q r1 where pub: "publish_delegation (de_model_error env target) (de_workspace env) ident now later uid h fault True send target
      ?p me uid (dg_queue s) r = (out, q, r1)"
    by (metis prod_cases3)
  show ?thesis
  proof (cases out)
    case (Inl e)
    have "q = dg_queue s"
      using publish_delegation_failed [OF pub [unfolded Inl] assms(2,3)] .
    with published(6) show ?thesis
      by (auto simp: delegate_publish_def pub Inl split: py_error.splits)
  next
    case (Inr b)
    with published(6,7) assms(4) show ?thesis
      by (auto simp: delegate_publish_def pub Let_def)
  qed
qed

lemma track_of_id [simp]: "tr_task_id (track_of e) = te_task_id e"
  by (simp add: track_of_def)

text \<open>The tracker shows a task under its alias exactly once, with the status that its owner gave it.\<close>

lemma tracked_alias:
  assumes inv: "ledger_inv (qs_db q)"
    and al: "row_find alias_key (me, t) (db_aliases (qs_db q)) = Some al" and row: "get_row (qs_db q) (al_anima al) (al_task_id al) = Some x"
    and owner: "al_anima al \<noteq> []"
  shows "e \<in> set (task_tracker me f q) \<and> tr_task_id e = t \<longleftrightarrow>
           e = track_of (delegated_view t (al_anima al) (al_task_id al) (row_entry x)) \<and> track_wanted f e"
proof -
  let ?v = "delegated_view t (al_anima al) (al_task_id al) (row_entry x)"
  have look: "map_of (load_all me True q) t = Some ?v"
    unfolding load_all_def store_read_lookup [OF inv] read_view_def by (simp add: al row)
  have id: "te_task_id ?v = t"
    by (simp add: delegated_view_def)
  have there: "?v \<in> set (map snd (load_all me True q))"
    using map_of_SomeD [OF look] by force
  have only: "v = ?v" if "v \<in> set (map snd (load_all me True q))" "te_task_id v = t" for v
    using load_all_entry [OF inv that(1)] look that(2) by simp
  have to: "dict_truthy (te_meta ?v) ''delegated_to''"
    using owner by (simp add: dict_truthy_def delegated_view_def update_conv')
  show ?thesis
  proof
    assume "e \<in> set (task_tracker me f q) \<and> tr_task_id e = t"
    then have e: "e \<in> track_of ` set (map snd (load_all me True q))" "track_wanted f e" "tr_task_id e = t"
      by (simp_all add: task_tracker_def image_iff) metis
    then obtain v where v: "v \<in> set (map snd (load_all me True q))" "e = track_of v" "te_task_id v = t" "track_wanted f e"
      by (metis image_iff track_of_id)
    with only [OF v(1,3)] show "e = track_of ?v \<and> track_wanted f e"
      by simp
  next
    assume "e = track_of ?v \<and> track_wanted f e"
    with there to id show "e \<in> set (task_tracker me f q) \<and> tr_task_id e = t"
      by (auto simp: task_tracker_def)
  qed
qed

lemma track_of_view: "tr_status (track_of (delegated_view t a u e)) = JStr (te_status e)"
    "tr_delegated_to (track_of (delegated_view t a u e)) = JStr a"
  by (simp_all add: track_of_def delegated_view_def update_conv')

text \<open>
  The delegator sees what the owner does: a delegated task is among the active ones until its owner's status is
  \<^verbatim>\<open>done\<close> or \<^verbatim>\<open>cancelled\<close>, from then on among the completed ones, with that status.
\<close>

theorem tracker_follows_owner:
  assumes "rtranclp store_step empty_db (qs_db q)"
    and "row_find alias_key (me, t) (db_aliases (qs_db q)) = Some al" "get_row (qs_db q) (al_anima al) (al_task_id al) = Some x"
    and "al_anima al \<noteq> []"
  shows "((\<exists>e \<in> set (task_tracker me ''active'' q). tr_task_id e = t) \<longleftrightarrow> row_status x \<notin> {''done'', ''cancelled''}) \<and>
         ((\<exists>e \<in> set (task_tracker me ''completed'' q). tr_task_id e = t) \<longleftrightarrow> row_status x \<in> {''done'', ''cancelled''}) \<and>
         (\<forall>e \<in> set (task_tracker me f q). tr_task_id e = t \<longrightarrow> tr_status e = JStr (row_status x))"
proof -
  have inv: "ledger_inv (qs_db q)"
    by (rule ledger.inv_reachable [OF refl assms(1)])
  note shown = tracked_alias [OF inv assms(2-4)]
  let ?e = "track_of (delegated_view t (al_anima al) (al_task_id al) (row_entry x))"
  have st: "tr_status ?e = JStr (row_status x)"
    by (simp add: track_of_view row_status_def)
  have "track_wanted ''active'' ?e \<longleftrightarrow> row_status x \<notin> {''done'', ''cancelled''}"
      "track_wanted ''completed'' ?e \<longleftrightarrow> row_status x \<in> {''done'', ''cancelled''}"
    by (auto simp: track_wanted_def st)
  with shown st show ?thesis
    by metis
qed

text \<open>
  C8. A successful \<^verbatim>\<open>delegate_task\<close>: the receiver is another anima, directly supervised by the caller and not across the company
  boundary; it has the task, ready to be claimed, with the instruction; the caller tracks it; no other task has changed.
\<close>

theorem delegation_effect:
  assumes run: "delegate_task env None now later uid h None send me args s r = (Inr (Delegated target t dm w), s', r')"
    and cfg: "de_config env = Inr animas" "canonical_names animas"
    and reach: "rtranclp store_step empty_db (qs_db (dg_queue s))" and closed: "\<not> qs_open (dg_queue s)"
    and fresh: "get_row (qs_db (dg_queue s)) target uid = None" "row_find alias_key (me, uid) (db_aliases (qs_db (dg_queue s))) = None"
  shows "target \<noteq> me \<and> (me, target) \<in> supervises animas \<and>
     \<not> bc_cross (check_company_boundary (de_fs env) (de_display env) (de_answer env) (de_animas_dir env) me target) \<and>
     (\<exists>x d. get_row (qs_db (dg_queue s')) target uid = Some x \<and> row_input x = Some d \<and>
            map_of d ''description'' = Some (JStr (da_instruction args)) \<and> row_ready x \<and> row_status x = ''pending'') \<and>
     (\<exists>e \<in> set (task_tracker me ''active'' (dg_queue s')). tr_task_id e = uid \<and> tr_delegated_to e = JStr target) \<and>
     (\<forall>a' t'. (a', t') \<noteq> (target, uid) \<longrightarrow> get_row (qs_db (dg_queue s')) a' t' = get_row (qs_db (dg_queue s)) a' t')"
  using run
proof (cases rule: delegate_task_cases)
  case (published a sm wd model reply)
  let ?p = "delegation_payload me now uid sm (criteria_strings (da_criteria args)) (da_instruction args) wd model"
  have inv: "ledger_inv (qs_db (dg_queue s))"
    by (rule ledger.inv_reachable [OF refl reach])
  have idem: "resolve_anima_name (Inr animas) a = a"
    using published(1) resolve_idem [OF cfg(2)] cfg(1) by simp
  have sup: "a \<noteq> me" "(me, a) \<in> supervises animas"
    using published(4) check_subordinate_iff [of animas me a] cfg idem by (auto simp: canonical_names_def)
  obtain out q r1 where pub: "publish_delegation (de_model_error env a) (de_workspace env) None now later uid h None True send a
      ?p me uid (dg_queue s) r = (out, q, r1)"
    by (metis prod_cases3)
  obtain b where out: "out = Inr b" and a: "a = target" and q: "qs_db (dg_queue s') = qs_db q"
    using published(6,7) pub by (auto simp: delegate_publish_def Let_def split: sum.splits py_error.splits)
  have new: "get_row (qs_db (dg_queue s)) a (payload_id ?p) = None"
    using fresh(1) a by (simp add: delegation_payload_simps)
  note pubd = publish_delegation_done [OF pub [unfolded out] closed inv delegation_payload_simps(2) new fresh(2), unfolded delegation_payload_simps]
  obtain x d where x: "get_row (qs_db q) a uid = Some x" "row_input x = Some d" "map_of d ''description'' = Some (JStr (da_instruction args))"
      "row_ready x" "row_status x = ''pending''"
    using pubd(5) by blast
  let ?e = "track_of (delegated_view uid a uid (row_entry x))"
  have wanted: "track_wanted ''active'' ?e"
    using x(5) by (simp add: track_wanted_def track_of_view row_status_def)
  have inv': "ledger_inv (qs_db (dg_queue s'))" "row_find alias_key (me, uid) (db_aliases (qs_db (dg_queue s'))) =
      Some \<lparr>al_viewer = me, al_alias = uid, al_anima = a, al_task_id = uid\<rparr>"
    using pubd(2,6) q by simp_all
  have "?e \<in> set (task_tracker me ''active'' (dg_queue s')) \<and> tr_task_id ?e = uid"
    using tracked_alias [OF inv', of x ?e "''active''"] x(1) q wanted published(2) by simp
  then have "\<exists>e \<in> set (task_tracker me ''active'' (dg_queue s')). tr_task_id e = uid \<and> tr_delegated_to e = JStr a"
    by (meson track_of_view(2))
  then show ?thesis
    using sup published(5) x pubd(7) unfolding q a by blast
next
  case stopped
  then show ?thesis by blast
qed

section \<open>Witnesses\<close>

text \<open>bob delegates to cid, the board and the task store being those of the other witnesses.\<close>

definition demo_delegate_env :: delegate_env where
  "demo_delegate_env =
     \<lparr>de_config = Inr demo_animas, de_fs = plain_fs, de_animas_dir = [''data'', ''animas''], de_display = id, de_answer = None,
      de_model_error = (\<lambda>_. open_models), de_workspace = any_path, de_dm_enabled = True, de_messenger = Some True,
      de_socket = (\<lambda>_. True), de_status = (\<lambda>_. StMissing)\<rparr>"

definition demo_args :: "string \<Rightarrow> delegate_args" where
  "demo_args name = \<lparr>da_name = name, da_instruction = ''do it'', da_summary = [], da_criteria = None, da_workspace = [], da_model = None\<rparr>"

definition demo_dsys :: delegation_sys where
  "demo_dsys = \<lparr>dg_queue = demo_queue, dg_dms = [], dg_log = []\<rparr>"

definition no_host :: "dict \<Rightarrow> unit \<Rightarrow> http_outcome \<times> unit" where
  "no_host = (\<lambda>_ r. (TransportFailed, r))"

lemma demo_dsys_closed: "\<not> qs_open (dg_queue demo_dsys)" "qs_after (dg_queue demo_dsys) = []"
  by (simp_all add: demo_dsys_def demo_queue_def)

theorem delegation_effect_witness:
  "\<exists>s' r'. delegate_task demo_delegate_env None ''n'' ''l'' ''x1'' [] None no_host ''bob'' (demo_args ''cid'') demo_dsys () =
       (Inr (Delegated ''cid'' ''x1'' DmSent False), s', r') \<and>
     (''bob'', ''cid'') \<in> supervises demo_animas \<and>
     (\<exists>e \<in> set (task_tracker ''bob'' ''active'' (dg_queue s')). tr_task_id e = ''x1'' \<and> tr_delegated_to e = JStr ''cid'')"
proof -
  let ?run = "delegate_task demo_delegate_env None ''n'' ''l'' ''x1'' [] None no_host ''bob'' (demo_args ''cid'') demo_dsys ()"
  have "fst ?run = Inr (Delegated ''cid'' ''x1'' DmSent False)"
    by code_simp
  then obtain s' r' where run: "?run = (Inr (Delegated ''cid'' ''x1'' DmSent False), s', r')"
    by (cases ?run) simp
  have cfg: "de_config demo_delegate_env = Inr demo_animas" "canonical_names demo_animas"
    by (simp add: demo_delegate_env_def) code_simp
  have reach: "rtranclp store_step empty_db (qs_db (dg_queue demo_dsys))"
    using demo_queue_reachable by (simp add: demo_dsys_def)
  have fresh: "get_row (qs_db (dg_queue demo_dsys)) ''cid'' ''x1'' = None"
      "row_find alias_key (''bob'', ''x1'') (db_aliases (qs_db (dg_queue demo_dsys))) = None"
    by code_simp+
  from delegation_effect [OF run cfg reach demo_dsys_closed(1) fresh] run show ?thesis
    by (elim conjE, intro exI conjI)
qed

theorem refused_delegation_unchanged_witness:
  "delegate_task demo_delegate_env None ''n'' ''l'' ''x1'' [] None no_host ''cid'' (demo_args ''bob'') demo_dsys () =
     (Inr (DRefused (NotDirectSubordinate ''bob'' (Some ''ann''))), demo_dsys, ())"
proof -
  let ?run = "delegate_task demo_delegate_env None ''n'' ''l'' ''x1'' [] None no_host ''cid'' (demo_args ''bob'') demo_dsys ()"
  have "fst ?run = Inr (DRefused (NotDirectSubordinate ''bob'' (Some ''ann'')))"
    by code_simp
  then obtain s' where run: "?run = (Inr (DRefused (NotDirectSubordinate ''bob'' (Some ''ann''))), s', ())"
    by (cases ?run) simp
  have "s' = demo_dsys"
    by (rule refused_delegation_unchanged [OF run demo_dsys_closed]) simp
  with run show ?thesis by simp
qed

text \<open>A task that rin runs, delegated by bob.\<close>

definition demo_shared :: queue_sys where
  "demo_shared = demo_queue\<lparr>qs_db := demo_published\<lparr>db_aliases := [\<lparr>al_viewer = ''bob'', al_alias = ''b1'', al_anima = ''rin'', al_task_id = ''t1''\<rparr>]\<rparr>\<rparr>"

theorem tracker_follows_owner_witness:
  "\<exists>e \<in> set (task_tracker ''bob'' ''active'' demo_shared). tr_task_id e = ''b1''"
proof -
  have "store_alias ''bob'' ''b1'' ''rin'' ''t1'' demo_published = Inr (qs_db demo_shared)"
    by code_simp
  then have reach: "rtranclp store_step empty_db (qs_db demo_shared)"
    using demo_published_reachable step_alias by (blast intro: rtranclp.rtrancl_into_rtrancl)
  let ?al = "\<lparr>al_viewer = ''bob'', al_alias = ''b1'', al_anima = ''rin'', al_task_id = ''t1''\<rparr>"
  have al: "row_find alias_key (''bob'', ''b1'') (db_aliases (qs_db demo_shared)) = Some ?al"
    by code_simp
  have "map_option row_status (get_row (qs_db demo_shared) (al_anima ?al) (al_task_id ?al)) = Some ''pending''"
    by code_simp
  then obtain x where x: "get_row (qs_db demo_shared) (al_anima ?al) (al_task_id ?al) = Some x" "row_status x = ''pending''"
    by auto
  have "al_anima ?al \<noteq> []"
    by simp
  from tracker_follows_owner [OF reach al x(1) this, of "''active''"] x(2) show ?thesis
    by simp
qed

end
