(* ===== verification/Process_Health.thy ===== *)
theory Process_Health
  imports Org_Chart Cron_Schedule
begin

text \<open>
  Supervision of the anima processes: \<^verbatim>\<open>ProcessHandle.ping\<close> (\<^verbatim>\<open>core/supervisor/process_handle.py\<close>), the health check and
  the handling of failures (\<^verbatim>\<open>core/supervisor/_mgr_health.py\<close>), the restart transaction and the status query
  (\<^verbatim>\<open>core/supervisor/manager.py\<close>), and the reconciliation with the disk (\<^verbatim>\<open>core/supervisor/_mgr_reconcile.py\<close>).
  Handles are objects: the supervisor and the tasks share them through addresses. Each function is one handler; what it
  reads after an \<^verbatim>\<open>await\<close> (clock, flags, outcome of a request) is an argument, so that everything may have changed in
  between. Times are rational seconds.
\<close>

section \<open>Handles\<close>

datatype proc_state = PStarting | PRunning | PStopping | PStopped | PFailed | PRestarting

text \<open>\<open>hd_pid\<close> is \<^verbatim>\<open>process.pid\<close>, \<open>None\<close> without a process; \<open>hd_poll\<close> is the exit code, \<open>None\<close> while it runs.\<close>

record handle =
  hd_state :: proc_state
  hd_pid :: "int option"
  hd_poll :: "int option"
  hd_started :: rat
  hd_missed :: nat
  hd_last_ping :: "rat option"
  hd_busy_since :: "rat option"
  hd_exit :: "int option"
  hd_streaming :: bool
  hd_stream_started :: "rat option"
  hd_stopping_since :: "rat option"
  hd_transport_logged :: bool

definition is_alive :: "handle \<Rightarrow> bool" where
  "is_alive h = (hd_pid h \<noteq> None \<and> hd_poll h = None)"

text \<open>What the ping request ends with: an answer (with the fields of its result), an error answer, a timeout, another error.\<close>

datatype ping_reply = Pong dict | PingError | PingTimeout | PingRaised bool

record ping_result =
  pr_success :: bool
  pr_busy :: bool
  pr_progress :: "json option"
  pr_transport :: bool

definition no_pong :: "bool \<Rightarrow> ping_result" where
  "no_pong transport = \<lparr>pr_success = False, pr_busy = False, pr_progress = None, pr_transport = transport\<rparr>"

definition ping :: "rat \<Rightarrow> ping_reply \<Rightarrow> handle \<Rightarrow> ping_result \<times> handle" where
  "ping now reply h =
     (if hd_state h \<noteq> PRunning then (no_pong False, h\<lparr>hd_missed := Suc (hd_missed h)\<rparr>)
      else case reply of
             Pong result \<Rightarrow>
               (\<lparr>pr_success = True, pr_busy = dict_truthy result ''is_busy'', pr_progress = map_of result ''last_progress_at'', pr_transport = False\<rparr>,
                h\<lparr>hd_last_ping := Some now, hd_missed := 0\<rparr>)
           | PingError \<Rightarrow> (no_pong False, h\<lparr>hd_missed := Suc (hd_missed h)\<rparr>)
           | PingTimeout \<Rightarrow> (no_pong False, h\<lparr>hd_missed := Suc (hd_missed h)\<rparr>)
           | PingRaised transport \<Rightarrow> (no_pong transport, h\<lparr>hd_missed := Suc (hd_missed h)\<rparr>))"

section \<open>The supervisor\<close>

record health_config =
  hc_max_missed :: nat
  hc_grace :: rat
  hc_busy_threshold :: rat
  hc_warmup :: rat
  hc_runner_warmup :: rat
  hc_max_streaming :: rat

record restart_policy =
  rp_max_retries :: nat
  rp_backoff_base :: rat
  rp_backoff_max :: rat
  rp_reset_after :: rat

record supervisor =
  sv_heap :: "handle list"
  sv_processes :: "(string \<times> nat) list"
  sv_restart_counts :: "(string \<times> nat) list"
  sv_restarting :: "string list"
  sv_starting :: "(string \<times> rat) list"
  sv_failed :: "string list"
  sv_failed_log :: "(string \<times> rat) list"
  sv_reasons :: "(string \<times> string) list"
  sv_bootstrapping :: "string list"
  sv_consolidating :: "string list"
  sv_repairing :: "string list"
  sv_recently_stopped :: "(string \<times> rat) list"
  sv_start_failed :: "(string \<times> rat) list"
  sv_start_fail_counts :: "(string \<times> nat) list"
  sv_overrun_warned :: "(string \<times> rat) list"
  sv_shutdown :: bool

definition hd_at :: "supervisor \<Rightarrow> nat \<Rightarrow> handle" where
  "hd_at s a = sv_heap s ! a"

definition set_handle :: "nat \<Rightarrow> handle \<Rightarrow> supervisor \<Rightarrow> supervisor" where
  "set_handle a h s = s\<lparr>sv_heap := (sv_heap s)[a := h]\<rparr>"

definition restart_count_of :: "supervisor \<Rightarrow> string \<Rightarrow> nat" where
  "restart_count_of s name = opt_or (map_of (sv_restart_counts s) name) 0"

text \<open>Tasks that the health check creates.\<close>

datatype sv_task = TFailure string nat | THang string nat

text \<open>
  What one health check reads: the clocks (\<open>se_now\<close> for \<^verbatim>\<open>now_local\<close>, \<open>se_wall\<close> for \<^verbatim>\<open>time.time\<close>, \<open>se_loop\<close> for the
  monotonic clock of the loop), the decoded busy marker, the start-up snapshot, whether task-level monitoring owns the
  anima, the answer to a ping, and \<^verbatim>\<open>fromisoformat\<close>.
\<close>

record health_env =
  se_now :: rat
  se_wall :: rat
  se_loop :: rat
  se_sidecar :: "json option"
  se_server_starting :: bool
  se_ready_at :: "rat option"
  se_exempt :: bool
  se_reply :: ping_reply
  se_fromiso :: "string \<Rightarrow> rat option"

section \<open>Progress\<close>

text \<open>\<^verbatim>\<open>int(x)\<close> on a decoded value, \<open>None\<close> when it raises; decimal text is read without \<^verbatim>\<open>+\<close> and \<^verbatim>\<open>_\<close>.\<close>

fun json_to_int :: "json \<Rightarrow> int option" where
  "json_to_int (JInt i) = Some i"
| "json_to_int (JBool b) = Some (if b then 1 else 0)"
| "json_to_int (JFloat q) = Some (if q < 0 then \<lceil>q\<rceil> else \<lfloor>q\<rfloor>)"
| "json_to_int (JStr t) = py_int (py_strip t)"
| "json_to_int _ = None"

definition read_busy_sidecar :: "health_env \<Rightarrow> handle \<Rightarrow> dict option" where
  "read_busy_sidecar e h =
     (case se_sidecar e of
        Some (JObj data) \<Rightarrow>
          if \<not> dict_truthy data ''is_busy'' then None
          else (case (map_of data ''pid'', hd_pid h) of
                  (Some marker, Some pid) \<Rightarrow>
                    if marker \<noteq> JNull \<and> json_to_int marker = Some pid
                    then Some (let p = (if dict_truthy data ''last_progress_at'' then map_of data ''last_progress_at'' else map_of data ''updated_at'')
                               in case p of Some v \<Rightarrow> (if truthy v then AList.update ''last_progress_at'' v data else data) | None \<Rightarrow> data)
                    else None
                | _ \<Rightarrow> None)
      | _ \<Rightarrow> None)"

text \<open>A reported instant; \<open>None\<close> when it is absent, empty or no time.\<close>

definition progress_time :: "health_env \<Rightarrow> json option \<Rightarrow> rat option" where
  "progress_time e v =
     (case v of
        None \<Rightarrow> None
      | Some j \<Rightarrow> if truthy j then (case str_of j of None \<Rightarrow> None | Some t \<Rightarrow> se_fromiso e t) else None)"

definition streaming_progress_idle :: "health_env \<Rightarrow> handle \<Rightarrow> rat option" where
  "streaming_progress_idle e h =
     (case read_busy_sidecar e h of
        None \<Rightarrow> None
      | Some data \<Rightarrow> if data = [] then None else map_option (\<lambda>t. se_now e - t) (progress_time e (map_of data ''last_progress_at'')))"

text \<open>The warning about a long stream is throttled to one in five minutes.\<close>

definition warn_streaming_overrun :: "health_env \<Rightarrow> string \<Rightarrow> supervisor \<Rightarrow> supervisor" where
  "warn_streaming_overrun e name s =
     (case map_of (sv_overrun_warned s) name of
        Some last' \<Rightarrow> if se_loop e - last' < 300 then s else s\<lparr>sv_overrun_warned := AList.update name (se_loop e) (sv_overrun_warned s)\<rparr>
      | None \<Rightarrow> s\<lparr>sv_overrun_warned := AList.update name (se_loop e) (sv_overrun_warned s)\<rparr>)"

section \<open>The health check\<close>

definition handle_busy_health ::
  "health_config \<Rightarrow> health_env \<Rightarrow> string \<Rightarrow> nat \<Rightarrow> json option \<Rightarrow> supervisor \<Rightarrow> sv_task list \<times> supervisor" where
  "handle_busy_health c e name a progress s =
     (let h = (hd_at s a)\<lparr>hd_missed := 0\<rparr>; s1 = set_handle a h s
      in if name \<in> set (sv_bootstrapping s) \<or> name \<in> set (sv_consolidating s) then ([], s1)
         else case progress_time e progress of
                Some t \<Rightarrow> ((if se_now e - t > hc_busy_threshold c then [THang name a] else []), s1)
              | None \<Rightarrow>
                  let since = opt_or (hd_busy_since h) (se_now e)
                  in ((if se_now e - since > hc_busy_threshold c then [THang name a] else []),
                      set_handle a (h\<lparr>hd_busy_since := Some since\<rparr>) s))"

definition warming_up :: "health_config \<Rightarrow> health_env \<Rightarrow> handle \<Rightarrow> bool" where
  "warming_up c e h =
     (se_server_starting e \<or>
      (case se_ready_at e of None \<Rightarrow> False | Some r \<Rightarrow> r > 0 \<and> se_wall e - r < hc_warmup c) \<or>
      se_now e - hd_started h < hc_runner_warmup c)"

text \<open>The part of the check for a streaming process.\<close>

definition check_streaming :: "health_config \<Rightarrow> health_env \<Rightarrow> string \<Rightarrow> nat \<Rightarrow> supervisor \<Rightarrow> sv_task list \<times> supervisor" where
  "check_streaming c e name a s =
     (let h = hd_at s a
      in if hd_state h = PFailed \<or> \<not> is_alive h then ([TFailure name a], s)
         else if se_exempt e then ([], s)
         else case hd_stream_started h of
                None \<Rightarrow> ([], s)
              | Some t \<Rightarrow>
                  (case streaming_progress_idle e h of
                     Some idle \<Rightarrow>
                       if idle > hc_busy_threshold c then ([THang name a], s)
                       else if se_now e - t > hc_max_streaming c then ([], warn_streaming_overrun e name s)
                       else ([], s)
                   | None \<Rightarrow> ((if se_now e - t > hc_max_streaming c then [THang name a] else []), s)))"

text \<open>The part behind the ping.\<close>

definition judge_ping :: "health_config \<Rightarrow> health_env \<Rightarrow> string \<Rightarrow> nat \<Rightarrow> ping_result \<Rightarrow> supervisor \<Rightarrow> sv_task list \<times> supervisor" where
  "judge_ping c e name a r s =
     (let h = hd_at s a
      in if \<not> pr_success r \<and> pr_transport r
         then (if is_alive h then ([], set_handle a (h\<lparr>hd_missed := 0, hd_transport_logged := True\<rparr>) s)
               else ([TFailure name a], set_handle a (h\<lparr>hd_exit := (if hd_pid h = None then None else hd_poll h)\<rparr>) s))
         else if pr_success r
         then (if pr_busy r
               then (if se_exempt e then ([], set_handle a (h\<lparr>hd_missed := 0, hd_busy_since := None\<rparr>) s)
                     else handle_busy_health c e name a (pr_progress r) s)
               else ([], set_handle a (h\<lparr>hd_busy_since := None\<rparr>) s))
         else (case read_busy_sidecar e h of
                 Some data \<Rightarrow>
                   if \<not> se_exempt e then handle_busy_health c e name a (map_of data ''last_progress_at'') s
                   else ((if hc_max_missed c \<le> hd_missed h then [THang name a] else []), set_handle a (h\<lparr>hd_busy_since := None\<rparr>) s)
               | None \<Rightarrow> ((if hc_max_missed c \<le> hd_missed h then [THang name a] else []), set_handle a (h\<lparr>hd_busy_since := None\<rparr>) s)))"

definition check_process_health ::
  "health_config \<Rightarrow> restart_policy \<Rightarrow> health_env \<Rightarrow> string \<Rightarrow> nat \<Rightarrow> supervisor \<Rightarrow> sv_task list \<times> supervisor" where
  "check_process_health c p e name a s =
     (let h = hd_at s a
      in if name \<in> set (sv_failed s)
         then ([], if se_loop e - opt_or (map_of (sv_failed_log s) name) 0 \<ge> 300
                   then s\<lparr>sv_failed_log := AList.update name (se_loop e) (sv_failed_log s)\<rparr> else s)
         else if hd_state h = PStopping
         then (case hd_stopping_since h of
                 None \<Rightarrow> ([], s)
               | Some t \<Rightarrow>
                   if sv_shutdown s then ([], s)
                   else if se_now e - t > 30 then ([TFailure name a], set_handle a (h\<lparr>hd_state := PFailed\<rparr>) s)
                   else ([], s))
         else if hd_state h = PRestarting then ([], s)
         else if hd_streaming h then check_streaming c e name a s
         else if hd_state h = PFailed
         then (if is_alive h \<and> warming_up c e h then ([], s) else ([TFailure name a], s))
         else if \<not> is_alive h
         then ([TFailure name a], set_handle a (h\<lparr>hd_exit := (if hd_pid h = None then None else hd_poll h)\<rparr>) s)
         else if warming_up c e h then ([], s)
         else if se_now e - hd_started h < hc_grace c then ([], s)
         else
           let s1 = (if se_now e - hd_started h > rp_reset_after p \<and> 0 < restart_count_of s name
                     then s\<lparr>sv_restart_counts := AList.update name 0 (sv_restart_counts s)\<rparr> else s)
           in case ping (se_now e) (se_reply e) h of
                (r, h') \<Rightarrow> judge_ping c e name a r (set_handle a h' s1))"

section \<open>Starting and stopping\<close>

text \<open>\<^verbatim>\<open>read_anima_enabled\<close>; the text of a file that is no UTF-8 makes it raise.\<close>

fun read_status_enabled :: "status_doc \<Rightarrow> py_error + bool" where
  "read_status_enabled StMissing = Inr True"
| "read_status_enabled StUnreadable = Inr True"
| "read_status_enabled StNotUtf8 = Inl (ValueError ''UnicodeDecodeError'')"
| "read_status_enabled (StJson (JObj d)) = Inr (enabled_in d)"
| "read_status_enabled (StJson _) = Inr True"

text \<open>
  What one \<^verbatim>\<open>start_anima\<close> meets: the flag on disk, the clock, the new process (\<open>None\<close> when it cannot be started), and
  whether the shutdown began meanwhile.
\<close>

record start_env =
  st_enabled :: bool
  st_now :: rat
  st_process :: "int option"
  st_shutdown :: bool

definition fresh_handle :: "rat \<Rightarrow> int \<Rightarrow> handle" where
  "fresh_handle now pid =
     \<lparr>hd_state = PRunning, hd_pid = Some pid, hd_poll = None, hd_started = now, hd_missed = 0, hd_last_ping = None, hd_busy_since = None,
      hd_exit = None, hd_streaming = False, hd_stream_started = None, hd_stopping_since = None, hd_transport_logged = False\<rparr>"

definition start_anima :: "start_env \<Rightarrow> string \<Rightarrow> supervisor \<Rightarrow> (py_error + unit) \<times> supervisor" where
  "start_anima e name s =
     (if sv_shutdown s \<or> \<not> st_enabled e \<or> map_of (sv_processes s) name \<noteq> None \<or> map_of (sv_starting s) name \<noteq> None then (Inr (), s)
      else
        let s1 = s\<lparr>sv_reasons := AList.delete name (sv_reasons s)\<rparr>
        in case st_process e of
             None \<Rightarrow> (Inl (RuntimeError ''ProcessError''), s1\<lparr>sv_shutdown := st_shutdown e\<rparr>)
           | Some pid \<Rightarrow>
               if st_shutdown e then (Inr (), s1\<lparr>sv_shutdown := True\<rparr>)
               else (Inr (), s1\<lparr>sv_heap := sv_heap s @ [fresh_handle (st_now e) pid],
                                 sv_processes := AList.update name (length (sv_heap s)) (sv_processes s),
                                 sv_start_fail_counts := AList.delete name (sv_start_fail_counts s),
                                 sv_start_failed := AList.delete name (sv_start_failed s)\<rparr>))"

text \<open>How \<^verbatim>\<open>ProcessHandle.stop\<close> ends: at a time, or with an exception that leaves the handle as given.\<close>

datatype stop_end = StopDone rat | StopRaised handle

definition stop_anima :: "stop_end \<Rightarrow> string \<Rightarrow> supervisor \<Rightarrow> (py_error + unit) \<times> supervisor" where
  "stop_anima out name s =
     (case map_of (sv_processes s) name of
        None \<Rightarrow> (Inr (), s)
      | Some a \<Rightarrow>
          (case out of
             StopRaised h \<Rightarrow> (Inl (RuntimeError ''stop''), set_handle a h s)
           | StopDone now \<Rightarrow>
               (Inr (), (set_handle a ((hd_at s a)\<lparr>hd_state := PStopped, hd_pid := None\<rparr>) s)
                  \<lparr>sv_processes := AList.delete name (sv_processes s),
                   sv_recently_stopped := AList.update name now (sv_recently_stopped s)\<rparr>)))"

definition mark_process_error :: "rat \<Rightarrow> string \<Rightarrow> string \<Rightarrow> nat option \<Rightarrow> supervisor \<Rightarrow> supervisor" where
  "mark_process_error now name reason a s =
     (if sv_shutdown s then s
      else
        let target = (case a of None \<Rightarrow> map_of (sv_processes s) name | Some a \<Rightarrow> Some a);
            s1 = (case target of None \<Rightarrow> s | Some a \<Rightarrow> set_handle a ((hd_at s a)\<lparr>hd_state := PFailed\<rparr>) s)
        in s1\<lparr>sv_reasons := AList.update name reason (sv_reasons s),
              sv_failed := List.insert name (sv_failed s),
              sv_failed_log := AList.update name now (sv_failed_log s)\<rparr>)"

section \<open>The restart transaction\<close>

text \<open>
  One attempt reads the flag before the attempt, in \<^verbatim>\<open>start_anima\<close>, and after it; \<open>aa_shutdown\<close> is the shutdown flag at
  its beginning.
\<close>

record attempt_env =
  aa_shutdown :: bool
  aa_enabled :: bool
  aa_stop :: stop_end
  aa_start :: start_env
  aa_enabled_after :: bool


text \<open>The record of a failed attempt, not kept during a shutdown.\<close>

definition note_attempt :: "nat \<Rightarrow> rat \<Rightarrow> string \<Rightarrow> supervisor \<Rightarrow> supervisor" where
  "note_attempt k now name s =
     (if sv_shutdown s then s
      else s\<lparr>sv_start_fail_counts := AList.update name k (sv_start_fail_counts s),
             sv_start_failed := AList.update name now (sv_start_failed s),
             sv_reasons := AList.update name ''ProcessError'' (sv_reasons s)\<rparr>)"


section \<open>Failures\<close>

text \<open>
  What a failure handler reads: the flag on disk at its start, whether the memory was repaired, the flag after the
  back-off, the end of a stop of the disabled anima, the attempts by their number, and the flags at the end.
\<close>

record failure_env =
  fe_enabled :: bool
  fe_repaired :: bool
  fe_enabled_later :: bool
  fe_now :: rat
  fe_stop :: stop_end
  fe_attempts :: "nat \<Rightarrow> attempt_env"
  fe_enabled_end :: bool

definition backoff_delay :: "restart_policy \<Rightarrow> nat \<Rightarrow> rat" where
  "backoff_delay p count = min (rp_backoff_base p * 2 ^ count) (rp_backoff_max p)"





section \<open>The status query\<close>

text \<open>\<open>timeout\<close> is \<^verbatim>\<open>_spawn_timeout_sec\<close>; the second component is the reported status.\<close>

definition spawn_overdue :: "rat \<Rightarrow> rat \<Rightarrow> handle \<Rightarrow> bool" where
  "spawn_overdue timeout now h = (hd_state h \<in> {PStarting, PRestarting} \<and> now - hd_started h > timeout)"

definition note_overdue :: "string \<Rightarrow> supervisor \<Rightarrow> supervisor" where
  "note_overdue name s =
     (if sv_shutdown s then s
      else s\<lparr>sv_reasons := AList.update name ''spawn exceeded timeout'' (sv_reasons s), sv_failed := List.insert name (sv_failed s)\<rparr>)"

fun proc_state_value :: "proc_state \<Rightarrow> string" where
  "proc_state_value PStarting = ''starting''"
| "proc_state_value PRunning = ''running''"
| "proc_state_value PStopping = ''stopping''"
| "proc_state_value PStopped = ''stopped''"
| "proc_state_value PFailed = ''failed''"
| "proc_state_value PRestarting = ''restarting''"

definition get_process_status :: "rat \<Rightarrow> rat \<Rightarrow> rat \<Rightarrow> string \<Rightarrow> supervisor \<Rightarrow> string \<times> supervisor" where
  "get_process_status timeout now mclock name s =
     (case map_of (sv_processes s) name of
        None \<Rightarrow>
          (case map_of (sv_starting s) name of
             Some t \<Rightarrow> if mclock - t > timeout then (''error'', note_overdue name s) else (''starting'', s)
           | None \<Rightarrow> if name \<in> set (sv_failed s) \<or> map_of (sv_reasons s) name \<noteq> None then (''error'', s) else (''not_found'', s))
      | Some a \<Rightarrow>
          if spawn_overdue timeout now (hd_at s a) then (''error'', note_overdue name s)
          else ((if name \<in> set (sv_bootstrapping s) then ''bootstrapping'' else proc_state_value (hd_state (hd_at s a))), s))"

section \<open>Reconciliation\<close>

text \<open>A directory below \<^verbatim>\<open>animas_dir\<close>, in the order of \<^verbatim>\<open>sorted\<close>.\<close>

record disk_anima =
  dk_name :: string
  dk_identity :: bool
  dk_status :: status_doc

text \<open>The wanted state: complete animas with their flag; the second list holds the directories without a status file.\<close>

fun scan_disk :: "disk_anima list \<Rightarrow> py_error + (string \<times> bool) list \<times> string list" where
  "scan_disk [] = Inr ([], [])"
| "scan_disk (d # ds) =
     (if \<not> dk_identity d then scan_disk ds
      else if dk_status d = StMissing
      then (case scan_disk ds of Inl e \<Rightarrow> Inl e | Inr (on, inc) \<Rightarrow> Inr (on, dk_name d # inc))
      else (case read_status_enabled (dk_status d) of
              Inl e \<Rightarrow> Inl e
            | Inr b \<Rightarrow> (case scan_disk ds of Inl e \<Rightarrow> Inl e | Inr (on, inc) \<Rightarrow> Inr ((dk_name d, b) # on, inc))))"

text \<open>
  What one reconciliation meets: the loop clock and the monotonic clock, what each start meets, how each stop ends (of a
  restart and of a disabled or removed anima), and the animas that the usage governor suspends.
\<close>

record reconcile_env =
  rc_loop :: rat
  rc_mono :: rat
  rc_start :: "string \<Rightarrow> start_env"
  rc_restop :: "string \<Rightarrow> stop_end"
  rc_stop :: "string \<Rightarrow> stop_end"
  rc_suspended :: "string list"

definition recover_one :: "reconcile_env \<Rightarrow> (string \<times> bool) list \<Rightarrow> string \<Rightarrow> supervisor \<Rightarrow> supervisor" where
  "recover_one e on_disk name s =
     (if sv_shutdown s then s
      else if map_of (sv_processes s) name = None then s\<lparr>sv_failed := removeAll name (sv_failed s)\<rparr>
      else if map_of on_disk name \<noteq> Some True then s
      else if rc_loop e - opt_or (map_of (sv_failed_log s) name) 0 < 60 then s
      else snd (start_anima (rc_start e name) name
                 (s\<lparr>sv_processes := AList.delete name (sv_processes s), sv_restart_counts := AList.delete name (sv_restart_counts s),
                    sv_failed := removeAll name (sv_failed s), sv_failed_log := AList.delete name (sv_failed_log s)\<rparr>)))"

definition restart_anima :: "stop_end \<Rightarrow> start_env \<Rightarrow> string \<Rightarrow> supervisor \<Rightarrow> (py_error + unit) \<times> supervisor" where
  "restart_anima out e name s =
     (let s1 = (if sv_shutdown s then s
                else s\<lparr>sv_restart_counts := AList.delete name (sv_restart_counts s), sv_failed := removeAll name (sv_failed s),
                       sv_failed_log := AList.delete name (sv_failed_log s)\<rparr>);
          (r, s2) = (case stop_anima out name (s1\<lparr>sv_restarting := List.insert name (sv_restarting s1)\<rparr>) of
                       (Inl err, t) \<Rightarrow> (Inl err, t)
                     | (Inr _, t) \<Rightarrow> start_anima e name t)
      in (r, s2\<lparr>sv_restarting := removeAll name (sv_restarting s2)\<rparr>))"

definition status_on :: "disk_anima list \<Rightarrow> string \<Rightarrow> status_doc" where
  "status_on disk name = (case find (\<lambda>d. dk_name d = name) disk of None \<Rightarrow> StMissing | Some d \<Rightarrow> dk_status d)"

definition set_status :: "string \<Rightarrow> status_doc \<Rightarrow> disk_anima list \<Rightarrow> disk_anima list" where
  "set_status name doc disk = map (\<lambda>d. if dk_name d = name then d\<lparr>dk_status := doc\<rparr> else d) disk"

text \<open>
  The loop over the restart requests: the flag is cleared on disk before the restart; a status that is no object makes
  the whole reconciliation raise.
\<close>

fun restart_requests ::
  "reconcile_env \<Rightarrow> string list \<Rightarrow> disk_anima list \<Rightarrow> supervisor \<Rightarrow> py_error option \<times> disk_anima list \<times> supervisor" where
  "restart_requests e [] disk s = (None, disk, s)"
| "restart_requests e (name # names) disk s =
     (case status_on disk name of
        StMissing \<Rightarrow> restart_requests e names disk s
      | StUnreadable \<Rightarrow> restart_requests e names disk s
      | StNotUtf8 \<Rightarrow> (Some (ValueError ''UnicodeDecodeError''), disk, s)
      | StJson (JObj data) \<Rightarrow>
          if dict_truthy data ''restart_requested'' \<and> name \<notin> set (sv_repairing s)
          then restart_requests e names (set_status name (StJson (JObj (AList.delete ''restart_requested'' data))) disk)
                 (snd (restart_anima (rc_restop e name) (rc_start e name) name s))
          else restart_requests e names disk s
      | StJson _ \<Rightarrow> (Some (AttributeError ''get''), disk, s))"

definition start_cooldown :: "nat \<Rightarrow> rat" where
  "start_cooldown fails = min 300 (60 * (1 + of_nat fails))"

definition may_start :: "reconcile_env \<Rightarrow> supervisor \<Rightarrow> string \<Rightarrow> bool" where
  "may_start e s name =
     (name \<notin> set (sv_restarting s) \<and> map_of (sv_starting s) name = None \<and> name \<notin> set (sv_bootstrapping s) \<and>
      name \<notin> set (sv_repairing s) \<and>
      (case map_of (sv_recently_stopped s) name of None \<Rightarrow> True | Some t \<Rightarrow> \<not> rc_mono e - t < 5) \<and>
      name \<notin> set (rc_suspended e) \<and>
      (case map_of (sv_start_failed s) name of
         None \<Rightarrow> True
       | Some t \<Rightarrow> \<not> rc_mono e - t < start_cooldown (opt_or (map_of (sv_start_fail_counts s) name) 0)))"

definition start_one :: "reconcile_env \<Rightarrow> string list \<Rightarrow> string \<times> bool \<Rightarrow> supervisor \<Rightarrow> supervisor" where
  "start_one e running nb s =
     (case nb of (name, enabled) \<Rightarrow>
        if sv_shutdown s \<or> \<not> enabled \<or> name \<in> set running \<or> \<not> may_start e s name then s
        else case start_anima (rc_start e name) name s of
               (Inr _, s1) \<Rightarrow> s1\<lparr>sv_start_failed := AList.delete name (sv_start_failed s1),
                                  sv_start_fail_counts := AList.delete name (sv_start_fail_counts s1)\<rparr>
             | (Inl _, s1) \<Rightarrow>
                 s1\<lparr>sv_start_failed := AList.update name (rc_mono e) (sv_start_failed s1),
                    sv_start_fail_counts := AList.update name (Suc (opt_or (map_of (sv_start_fail_counts s1) name) 0)) (sv_start_fail_counts s1)\<rparr>)"

text \<open>A stop that raises is logged and the loop goes on.\<close>

definition stop_one :: "reconcile_env \<Rightarrow> string \<Rightarrow> supervisor \<Rightarrow> supervisor" where
  "stop_one e name s =
     (if name \<in> set (sv_bootstrapping s) \<or> name \<in> set (sv_repairing s) then s else snd (stop_anima (rc_stop e name) name s))"

text \<open>
  The phases in their order; \<open>running\<close> is taken anew after the restarts and not after the starts. The first component is
  the error that ended the reconciliation.
\<close>

definition reconcile :: "reconcile_env \<Rightarrow> disk_anima list \<Rightarrow> supervisor \<Rightarrow> py_error option \<times> disk_anima list \<times> supervisor" where
  "reconcile e disk s =
     (if sv_shutdown s then (None, disk, s)
      else case scan_disk disk of
             Inl err \<Rightarrow> (Some err, disk, s)
           | Inr (on_disk, incomplete) \<Rightarrow>
               (case restart_requests e (map fst on_disk) disk (fold (recover_one e on_disk) (sv_failed s) s) of
                  (Some err, disk1, s2) \<Rightarrow> (Some err, disk1, s2)
                | (None, disk1, s2) \<Rightarrow>
                    let running = map fst (sv_processes s2);
                        s3 = s2\<lparr>sv_recently_stopped := filter (\<lambda>(_, t). \<not> rc_mono e - t > 30) (sv_recently_stopped s2)\<rparr>;
                        s4 = fold (start_one e running) on_disk s3;
                        s5 = fold (stop_one e) (map fst (filter (\<lambda>(n, b). \<not> b \<and> n \<in> set running) on_disk)) s4;
                        s6 = fold (stop_one e) (filter (\<lambda>n. n \<notin> set (map fst on_disk) \<and> n \<notin> set incomplete) running) s5
                    in (None, disk1, s6)))"

section \<open>Health\<close>

lemma hd_at_set [simp]: "a < length (sv_heap s) \<Longrightarrow> hd_at (set_handle b h s) a = (if a = b then h else hd_at s a)"
  by (simp add: hd_at_def set_handle_def)

lemma set_handle_sel [simp]:
  "sv_processes (set_handle a h s) = sv_processes s" "sv_failed (set_handle a h s) = sv_failed s"
  "sv_bootstrapping (set_handle a h s) = sv_bootstrapping s" "sv_consolidating (set_handle a h s) = sv_consolidating s"
  "sv_shutdown (set_handle a h s) = sv_shutdown s" "sv_restart_counts (set_handle a h s) = sv_restart_counts s"
  "length (sv_heap (set_handle a h s)) = length (sv_heap s)" "sv_restarting (set_handle a h s) = sv_restarting s"
  "sv_reasons (set_handle a h s) = sv_reasons s" "sv_starting (set_handle a h s) = sv_starting s"
  "sv_repairing (set_handle a h s) = sv_repairing s"
  by (simp_all add: set_handle_def)


lemma sidecar_same: "hd_pid h' = hd_pid h \<Longrightarrow> read_busy_sidecar e h' = read_busy_sidecar e h"
proof -
  assume "hd_pid h' = hd_pid h"
  then show ?thesis
    unfolding read_busy_sidecar_def by (rule ssubst) (rule refl)
qed





text \<open>A check whose ping is lost, of a running process past its warm-up that leaves no busy marker.\<close>

definition unanswered :: "health_config \<Rightarrow> health_env \<Rightarrow> handle \<Rightarrow> bool" where
  "unanswered c e h =
     (is_alive h \<and> \<not> warming_up c e h \<and> hc_grace c \<le> se_now e - hd_started h \<and> read_busy_sidecar e h = None \<and>
      se_reply e \<in> {PingError, PingTimeout, PingRaised False})"

fun check_run :: "health_config \<Rightarrow> restart_policy \<Rightarrow> health_env list \<Rightarrow> string \<Rightarrow> nat \<Rightarrow> supervisor \<Rightarrow> sv_task list list \<times> supervisor" where
  "check_run c p [] name a s = ([], s)"
| "check_run c p (e # es) name a s =
     (case check_process_health c p e name a s of
        (ts, s1) \<Rightarrow> (case check_run c p es name a s1 of (tss, s2) \<Rightarrow> (ts # tss, s2)))"

lemma unanswered_step:
  assumes "a < length (sv_heap s)" "name \<notin> set (sv_failed s)" "hd_state (hd_at s a) = PRunning" "\<not> hd_streaming (hd_at s a)"
    and "unanswered c e (hd_at s a)"
  shows "\<exists>s1. check_process_health c p e name a s =
           ((if hc_max_missed c \<le> Suc (hd_missed (hd_at s a)) then [THang name a] else []), s1) \<and>
         a < length (sv_heap s1) \<and> sv_failed s1 = sv_failed s \<and>
         hd_at s1 a = (hd_at s a)\<lparr>hd_missed := Suc (hd_missed (hd_at s a)), hd_busy_since := None\<rparr>"
proof -
  let ?h = "hd_at s a"
  let ?h' = "?h\<lparr>hd_missed := Suc (hd_missed ?h)\<rparr>"
  have ping: "ping (se_now e) (se_reply e) ?h = (no_pong False, ?h')"
    using assms(3,5) by (auto simp: ping_def unanswered_def)
  have side: "read_busy_sidecar e ?h' = None"
    using assms(5) sidecar_same [of ?h' ?h e] by (simp add: unanswered_def)
  show ?thesis
    using assms ping side
    by (simp add: check_process_health_def Let_def unanswered_def judge_ping_def no_pong_def set_handle_def hd_at_def)
qed

lemma unanswered_same: "unanswered c e (h\<lparr>hd_missed := m, hd_busy_since := b\<rparr>) = unanswered c e h"
  using sidecar_same [of "h\<lparr>hd_missed := m, hd_busy_since := b\<rparr>" h e] by (simp add: unanswered_def is_alive_def warming_up_def)

lemma lost_pings:
  assumes "a < length (sv_heap s)" "name \<notin> set (sv_failed s)" "hd_state (hd_at s a) = PRunning" "\<not> hd_streaming (hd_at s a)"
    and "\<forall>e \<in> set es. unanswered c e (hd_at s a)" "k < length es"
  shows "fst (check_run c p es name a s) ! k = (if hc_max_missed c \<le> Suc (hd_missed (hd_at s a) + k) then [THang name a] else [])"
  using assms
proof (induction es arbitrary: s k)
  case Nil
  then show ?case by simp
next
  case (Cons e es)
  then have "unanswered c e (hd_at s a)"
    by simp
  from unanswered_step [OF Cons.prems(1-4) this, of p] obtain s1 where
    step: "check_process_health c p e name a s = ((if hc_max_missed c \<le> Suc (hd_missed (hd_at s a)) then [THang name a] else []), s1)"
    and s1: "a < length (sv_heap s1)" "sv_failed s1 = sv_failed s"
      "hd_at s1 a = (hd_at s a)\<lparr>hd_missed := Suc (hd_missed (hd_at s a)), hd_busy_since := None\<rparr>"
    by blast
  have rest: "\<forall>e \<in> set es. unanswered c e (hd_at s1 a)"
    using Cons.prems(5) by (simp add: s1(3) unanswered_same)
  obtain tss s2 where run: "check_run c p es name a s1 = (tss, s2)"
    by (cases "check_run c p es name a s1")
  show ?case
  proof (cases k)
    case 0
    with step run show ?thesis by simp
  next
    case (Suc j)
    have "tss ! j = (if hc_max_missed c \<le> Suc (hd_missed (hd_at s1 a) + j) then [THang name a] else [])"
      using Cons.IH [OF s1(1) _ _ _ rest, of j] Cons.prems(2,3,4,6) Suc run s1(2,3) by simp
    with step run Suc s1(3) show ?thesis by simp
  qed
qed

text \<open>
  A process that stops answering is killed after exactly the configured number of lost pings: the check orders the kill
  from the \<^verbatim>\<open>max_missed_pings\<close>-th lost ping on, not before.
\<close>

theorem lost_pings_kill:
  assumes "a < length (sv_heap s)" "name \<notin> set (sv_failed s)" "hd_state (hd_at s a) = PRunning" "\<not> hd_streaming (hd_at s a)"
    and "hd_missed (hd_at s a) = 0" "\<forall>e \<in> set es. unanswered c e (hd_at s a)" "k < length es"
  shows "fst (check_run c p es name a s) ! k = (if hc_max_missed c \<le> Suc k then [THang name a] else [])"
  using lost_pings [OF assms(1-4,6,7)] assms(5) by simp

section \<open>Failures\<close>


lemma stop_processes:
  assumes "stop_anima out name s = (r, s1)"
  shows "n \<noteq> name \<Longrightarrow> map_of (sv_processes s1) n = map_of (sv_processes s) n"
    and "r = Inr u \<Longrightarrow> map_of (sv_processes s1) name = None" and "r = Inl err \<Longrightarrow> sv_processes s1 = sv_processes s"
    and "sv_restart_counts s1 = sv_restart_counts s" "sv_failed s1 = sv_failed s" "sv_shutdown s1 = sv_shutdown s"
    and "sv_restarting s1 = sv_restarting s" "length (sv_heap s1) = length (sv_heap s)" "sv_starting s1 = sv_starting s"
    and "sv_bootstrapping s1 = sv_bootstrapping s" "sv_repairing s1 = sv_repairing s" "sv_failed_log s1 = sv_failed_log s"
    and "map_of (sv_processes s) name = None \<Longrightarrow> s1 = s"
  using assms by (auto simp: stop_anima_def delete_conv' set_handle_def split: option.splits stop_end.splits)


lemma note_attempt_sel [simp]:
  "sv_restart_counts (note_attempt k now name s) = sv_restart_counts s" "sv_heap (note_attempt k now name s) = sv_heap s"
  by (simp_all add: note_attempt_def)

lemma mark_error_sel [simp]:
  "sv_restart_counts (mark_process_error now name r a s) = sv_restart_counts s"
  "length (sv_heap (mark_process_error now name r a s)) = length (sv_heap s)"
  "sv_restarting (mark_process_error now name r a s) = sv_restarting s"
  by (auto simp: mark_process_error_def Let_def split: option.splits)


text \<open>The first part of the failure handler.\<close>

definition restarting_state :: "string \<Rightarrow> nat \<Rightarrow> supervisor \<Rightarrow> supervisor" where
  "restarting_state name a s = set_handle a ((hd_at s a)\<lparr>hd_state := PRestarting\<rparr>) (s\<lparr>sv_restarting := name # sv_restarting s\<rparr>)"

lemma restarting_sel [simp]:
  "sv_processes (restarting_state name a s) = sv_processes s" "sv_failed (restarting_state name a s) = sv_failed s"
  "sv_restart_counts (restarting_state name a s) = sv_restart_counts s" "sv_shutdown (restarting_state name a s) = sv_shutdown s"
  "sv_starting (restarting_state name a s) = sv_starting s" "length (sv_heap (restarting_state name a s)) = length (sv_heap s)"
  "sv_restarting (restarting_state name a s) = name # sv_restarting s"
  by (simp_all add: restarting_state_def set_handle_def)









section \<open>Reconciliation\<close>

lemma scan_names:
  assumes "scan_disk ds = Inr (on, inc)" "distinct (map dk_name ds)"
  shows "set (map fst on) \<subseteq> set (map dk_name ds)" "set inc \<subseteq> set (map dk_name ds)" "set (map fst on) \<inter> set inc = {}" "distinct (map fst on)"
proof -
  have "set (map fst on) \<subseteq> set (map dk_name ds) \<and> set inc \<subseteq> set (map dk_name ds) \<and> set (map fst on) \<inter> set inc = {} \<and> distinct (map fst on)"
    using assms
  proof (induction ds arbitrary: on inc)
    case Nil
    then show ?case by simp
  next
    case (Cons d ds)
    show ?case
    proof (cases "dk_identity d")
      case False
      with Cons show ?thesis by auto
    next
      case True
      with Cons.prems(1) obtain on0 inc0 where rest: "scan_disk ds = Inr (on0, inc0)"
        by (auto split: if_splits sum.splits)
      have "(on = on0 \<and> inc = dk_name d # inc0) \<or> (\<exists>b. on = (dk_name d, b) # on0 \<and> inc = inc0)"
        using Cons.prems(1) True rest by (auto split: if_splits sum.splits)
      with Cons.IH [OF rest] Cons.prems(2) show ?thesis
        by (elim disjE exE conjE) (simp, blast)+
    qed
  qed
  then show "set (map fst on) \<subseteq> set (map dk_name ds)" "set inc \<subseteq> set (map dk_name ds)" "set (map fst on) \<inter> set inc = {}"
      "distinct (map fst on)"
    by blast+
qed

text \<open>What the supervisor knows of one anima; a step for another anima leaves it.\<close>

definition view_of :: "string \<Rightarrow> supervisor \<Rightarrow> nat option \<times> rat option \<times> bool \<times> bool \<times> bool \<times> bool \<times> rat option" where
  "view_of name s =
     (map_of (sv_processes s) name, map_of (sv_starting s) name, name \<in> set (sv_restarting s), name \<in> set (sv_bootstrapping s),
      name \<in> set (sv_repairing s), name \<in> fst ` set (sv_recently_stopped s), map_of (sv_start_failed s) name)"

lemma dom_update: "fst ` set (AList.update k v xs) = insert k (fst ` set xs)"
  using dom_update [of k v xs] by (simp add: dom_map_of_conv_image_fst [symmetric])

lemma start_view:
  assumes "n \<noteq> name"
  shows "view_of name (snd (start_anima e n s)) = view_of name s"
  using assms by (auto simp: view_of_def start_anima_def Let_def update_conv' delete_conv' split: option.splits)

lemma stop_view:
  assumes "n \<noteq> name"
  shows "view_of name (snd (stop_anima out n s)) = view_of name s"
  using assms by (auto simp: view_of_def stop_anima_def set_handle_def delete_conv' dom_update split: option.splits stop_end.splits)

lemma start_shutdown: "\<not> st_shutdown e \<Longrightarrow> sv_shutdown (snd (start_anima e n s)) = sv_shutdown s"
  by (auto simp: start_anima_def Let_def split: option.splits)

lemma view_restarting:
  "n \<noteq> name \<Longrightarrow> view_of name (s\<lparr>sv_restarting := List.insert n (sv_restarting s)\<rparr>) = view_of name s"
  "n \<noteq> name \<Longrightarrow> view_of name (s\<lparr>sv_restarting := removeAll n (sv_restarting s)\<rparr>) = view_of name s"
  "view_of name (s\<lparr>sv_restart_counts := c, sv_failed := f, sv_failed_log := l\<rparr>) = view_of name s"
  "view_of name (s\<lparr>sv_failed := f\<rparr>) = view_of name s"
  "n \<noteq> name \<Longrightarrow> view_of name (s\<lparr>sv_processes := AList.delete n (sv_processes s)\<rparr>) = view_of name s"
  by (auto simp: view_of_def delete_conv')

lemma recover_view: "n \<noteq> name \<Longrightarrow> view_of name (recover_one e on n s) = view_of name s"
  by (simp add: recover_one_def start_view view_restarting)

lemma restart_view:
  assumes "n \<noteq> name"
  shows "view_of name (snd (restart_anima out e n s)) = view_of name s"
proof -
  define s1 where "s1 = (if sv_shutdown s then s
                else s\<lparr>sv_restart_counts := AList.delete n (sv_restart_counts s), sv_failed := removeAll n (sv_failed s),
                       sv_failed_log := AList.delete n (sv_failed_log s)\<rparr>)"
  define s2 where "s2 = s1\<lparr>sv_restarting := List.insert n (sv_restarting s1)\<rparr>"
  have "view_of name s2 = view_of name s"
    using assms by (simp add: s2_def s1_def view_restarting)
  moreover obtain r t where stop: "stop_anima out n s2 = (r, t)"
    by (cases "stop_anima out n s2")
  moreover have "view_of name t = view_of name s2"
    using stop_view [OF assms, of out s2] stop by simp
  moreover obtain q u where start: "start_anima e n t = (q, u)"
    by (cases "start_anima e n t")
  moreover have "view_of name u = view_of name t"
    using start_view [OF assms, of e t] start by simp
  ultimately show ?thesis
    using view_restarting(2) [OF assms]
    unfolding restart_anima_def Let_def s1_def [symmetric] s2_def [symmetric] by (cases r) simp_all
qed

lemma start_one_view: 
  assumes "n \<noteq> name" 
  shows "view_of name (start_one e running (n, b) s) = view_of name s"
proof (cases "sv_shutdown s \<or> \<not> b \<or> n \<in> set running \<or> \<not> may_start e s n")
  case True
  then show ?thesis by (auto simp: start_one_def)
next
  case False
  obtain r s1 where start: "start_anima (rc_start e n) n s = (r, s1)"
    by (cases "start_anima (rc_start e n) n s")
  have "view_of name s1 = view_of name s"
    using start_view [OF assms, of "rc_start e n" s] start by simp
  with False start assms show ?thesis
    by (auto simp: start_one_def view_of_def delete_conv' update_conv' split: sum.splits)
qed

lemma stop_one_view: "n \<noteq> name \<Longrightarrow> view_of name (stop_one e n s) = view_of name s"
  by (simp add: stop_one_def stop_view)

lemma fold_keeps:
  assumes "\<And>x s. x \<in> set xs \<Longrightarrow> P s \<Longrightarrow> P (f x s)" "P s"
  shows "P (fold f xs s)"
  using assms by (induction xs arbitrary: s) auto

lemma requests_keep:
  assumes "\<And>n s. n \<in> set names \<Longrightarrow> P s \<Longrightarrow> P (snd (restart_anima (rc_restop e n) (rc_start e n) n s))" "P s"
  shows "P (snd (snd (restart_requests e names disk s)))"
  using assms by (induction names arbitrary: disk s) (auto split: status_doc.splits json.splits)

lemma view_process: "view_of name t = view_of name s \<Longrightarrow> map_of (sv_processes t) name = map_of (sv_processes s) name"
  by (simp add: view_of_def)

definition calm :: "string \<Rightarrow> supervisor \<Rightarrow> bool" where
  "calm name s = (name \<notin> set (sv_bootstrapping s) \<and> name \<notin> set (sv_repairing s))"

lemma start_flags:
  "sv_bootstrapping (snd (start_anima e n s)) = sv_bootstrapping s" "sv_repairing (snd (start_anima e n s)) = sv_repairing s"
  by (auto simp: start_anima_def Let_def split: option.splits)

lemma stop_flags:
  "sv_bootstrapping (snd (stop_anima out n s)) = sv_bootstrapping s" "sv_repairing (snd (stop_anima out n s)) = sv_repairing s"
  by (auto simp: stop_anima_def split: option.splits stop_end.splits)

lemma recover_calm: "calm name (recover_one e on n s) = calm name s"
  by (simp add: calm_def recover_one_def start_flags)

lemma restart_flags:
  "sv_bootstrapping (snd (restart_anima out e n s)) = sv_bootstrapping s \<and> sv_repairing (snd (restart_anima out e n s)) = sv_repairing s"
proof -
  define s1 where "s1 = (if sv_shutdown s then s
                else s\<lparr>sv_restart_counts := AList.delete n (sv_restart_counts s), sv_failed := removeAll n (sv_failed s),
                       sv_failed_log := AList.delete n (sv_failed_log s)\<rparr>)"
  define s2 where "s2 = s1\<lparr>sv_restarting := List.insert n (sv_restarting s1)\<rparr>"
  obtain r t where stop: "stop_anima out n s2 = (r, t)"
    by (cases "stop_anima out n s2")
  obtain q u where start: "start_anima e n t = (q, u)"
    by (cases "start_anima e n t")
  have "sv_bootstrapping s2 = sv_bootstrapping s \<and> sv_repairing s2 = sv_repairing s"
    by (simp add: s2_def s1_def)
  with stop start stop_flags [of out n s2] start_flags [of e n t] show ?thesis
    unfolding restart_anima_def Let_def s1_def [symmetric] s2_def [symmetric] by (cases r) simp_all
qed

lemma restart_calm: "calm name (snd (restart_anima out e n s)) = calm name s"
  using restart_flags [of out e n s] by (simp add: calm_def)

lemma start_one_calm: "calm name (start_one e running nb s) = calm name s"
proof -
  obtain n b where nb: "nb = (n, b)" by (cases nb)
  obtain r s1 where "start_anima (rc_start e n) n s = (r, s1)"
    by (cases "start_anima (rc_start e n) n s")
  with start_flags [of "rc_start e n" n s] nb show ?thesis
    by (auto simp: calm_def start_one_def split: sum.splits)
qed

lemma stop_one_calm: "calm name (stop_one e n s) = calm name s"
  by (simp add: calm_def stop_one_def stop_flags)

lemma stop_one_processes:
  "n \<noteq> name \<Longrightarrow> map_of (sv_processes (stop_one e n s)) name = map_of (sv_processes s) name"
  "rc_stop e name = StopDone t \<Longrightarrow> calm name s \<Longrightarrow> map_of (sv_processes (stop_one e name s)) name = None"
  "map_of (sv_processes s) name = None \<Longrightarrow> map_of (sv_processes (stop_one e n s)) name = None"
  by (auto simp: stop_one_def stop_anima_def calm_def delete_conv' split: option.splits stop_end.splits)

lemma stops_keep:
  "name \<notin> set names \<Longrightarrow> map_of (sv_processes (fold (stop_one e) names s)) name = map_of (sv_processes s) name"
  by (induction names arbitrary: s) (auto simp: stop_one_processes(1))

text \<open>A round of stops stops every anima of its list whose stop succeeds.\<close>

lemma stops_all:
  assumes "rc_stop e name = StopDone t" "calm name s" "name \<in> set names \<or> map_of (sv_processes s) name = None"
  shows "map_of (sv_processes (fold (stop_one e) names s)) name = None"
  using assms(2,3)
proof (induction names arbitrary: s)
  case Nil
  then show ?case by simp
next
  case (Cons n names)
  have "name \<in> set names \<or> map_of (sv_processes (stop_one e n s)) name = None"
    using Cons.prems stop_one_processes(2) [OF assms(1)] stop_one_processes(3) by (cases "n = name") auto
  with Cons.IH [of "stop_one e n s"] Cons.prems(1) show ?case
    by (simp add: stop_one_calm)
qed

definition evicted :: "reconcile_env \<Rightarrow> supervisor \<Rightarrow> supervisor" where
  "evicted e s = s\<lparr>sv_recently_stopped := filter (\<lambda>(_, t). \<not> rc_mono e - t > 30) (sv_recently_stopped s)\<rparr>"

lemma evicted_sel [simp]: "sv_processes (evicted e s) = sv_processes s" "calm name (evicted e s) = calm name s"
  "sv_shutdown (evicted e s) = sv_shutdown s"
  by (simp_all add: evicted_def calm_def)

text \<open>The phases of a reconciliation that ends without an error.\<close>

lemma reconcile_phases:
  assumes "reconcile e disk s = (None, disk', s')" "\<not> sv_shutdown s" "scan_disk disk = Inr (on, inc)"
  obtains s1 s2 s4 s5 where "s1 = fold (recover_one e on) (sv_failed s) s"
    and "s2 = snd (snd (restart_requests e (map fst on) disk s1))"
    and "s4 = fold (start_one e (map fst (sv_processes s2))) on (evicted e s2)"
    and "s5 = fold (stop_one e) (map fst (filter (\<lambda>(n, b). \<not> b \<and> n \<in> set (map fst (sv_processes s2))) on)) s4"
    and "s' = fold (stop_one e) (filter (\<lambda>n. n \<notin> set (map fst on) \<and> n \<notin> set inc) (map fst (sv_processes s2))) s5"
proof -
  obtain r d1 s2 where "restart_requests e (map fst on) disk (fold (recover_one e on) (sv_failed s) s) = (r, d1, s2)"
    by (cases "restart_requests e (map fst on) disk (fold (recover_one e on) (sv_failed s) s)")
  with assms that [OF refl refl refl refl] show thesis
    by (auto simp: reconcile_def Let_def evicted_def split: option.splits)
qed

lemma scan_entry:
  assumes "scan_disk ds = Inr (on, inc)" "distinct (map dk_name ds)" "d \<in> set ds" "dk_identity d"
  shows "if dk_status d = StMissing then dk_name d \<in> set inc
         else \<exists>b. read_status_enabled (dk_status d) = Inr b \<and> (dk_name d, b) \<in> set on"
  using assms
proof (induction ds arbitrary: on inc)
  case Nil
  then show ?case by simp
next
  case (Cons c ds)
  show ?case
  proof (cases "c = d")
    case True
    with Cons.prems(1,4) show ?thesis
      by (auto split: if_splits sum.splits)
  next
    case False
    then have "d \<in> set ds" using Cons.prems(3) by auto
    moreover obtain on0 inc0 where rest: "scan_disk ds = Inr (on0, inc0)" "set on0 \<subseteq> set on" "set inc0 \<subseteq> set inc"
      using Cons.prems(1) by (auto simp: subset_insertI split: if_splits sum.splits)
    ultimately show ?thesis
      using Cons.IH [OF rest(1)] Cons.prems(2,4) rest(2,3) by (auto split: if_splits)
  qed
qed

lemma scan_only:
  assumes "scan_disk ds = Inr (on, inc)" "(n, b) \<in> set on"
  shows "\<exists>d \<in> set ds. dk_name d = n \<and> dk_identity d \<and> read_status_enabled (dk_status d) = Inr b"
  using assms
proof (induction ds arbitrary: on inc)
  case Nil
  then show ?case by simp
next
  case (Cons c ds)
  show ?case
  proof (cases "\<exists>on0 inc0. scan_disk ds = Inr (on0, inc0) \<and> (n, b) \<in> set on0")
    case True
    with Cons.IH show ?thesis by auto
  next
    case False
    with Cons.prems show ?thesis
      by (auto split: if_splits sum.splits)
  qed
qed

lemma scan_only_incomplete:
  assumes "scan_disk ds = Inr (on, inc)" "n \<in> set inc"
  shows "\<exists>d \<in> set ds. dk_name d = n \<and> dk_identity d \<and> dk_status d = StMissing"
  using assms by (induction ds arbitrary: on inc) (auto split: if_splits sum.splits)

lemma reconcile_scans:
  assumes "reconcile e disk s = (None, disk', s')" "\<not> sv_shutdown s"
  obtains on inc where "scan_disk disk = Inr (on, inc)"
proof (cases "scan_disk disk")
  case (Inl err)
  with assms show thesis by (simp add: reconcile_def)
next
  case (Inr r)
  with that [of "fst r" "snd r"] show thesis by simp
qed

lemma starts_view:
  assumes "\<And>b. (name, b) \<in> set on \<Longrightarrow> \<not> b"
  shows "view_of name (fold (start_one e running) on s) = view_of name s"
proof (rule fold_keeps [where P = "\<lambda>t. view_of name t = view_of name s"])
  fix nb t
  assume nb: "nb \<in> set on" and t: "view_of name t = view_of name s"
  obtain n b where nb': "nb = (n, b)" by (cases nb)
  show "view_of name (start_one e running nb t) = view_of name s"
  proof (cases "n = name")
    case True
    then have "\<not> b" using assms nb nb' by auto
    with nb' t show ?thesis by (simp add: start_one_def)
  next
    case False
    with nb' t start_one_view show ?thesis by simp
  qed
qed simp

text \<open>
  After a reconciliation no process is left for an anima that is disabled or whose directory is gone, unless its
  bootstrap or the repair of its memory goes on or its stop raises; the restarts and the recoveries of the same round do
  not change that.
\<close>

lemma reconcile_stops_disabled:
  assumes "distinct (map dk_name disk)" "\<not> sv_shutdown s" "calm name s" "reconcile e disk s = (None, disk', s')"
    and stop: "rc_stop e name = StopDone t"
    and "\<forall>d \<in> set disk. dk_name d = name \<and> dk_identity d \<longrightarrow> (\<exists>data. dk_status d = StJson (JObj data) \<and> \<not> enabled_in data)"
  shows "map_of (sv_processes s') name = None"
proof -
  obtain on inc where scan: "scan_disk disk = Inr (on, inc)"
    using reconcile_scans [OF assms(4,2)] .
  have off: "\<not> b" if "(name, b) \<in> set on" for b
    using scan_only [OF scan that] assms(6) by auto
  have inc: "name \<notin> set inc"
    using scan_only_incomplete [OF scan, of name] assms(6) by (metis status_doc.distinct(5))
  obtain s1 s2 s4 s5 where ph: "s1 = fold (recover_one e on) (sv_failed s) s" "s2 = snd (snd (restart_requests e (map fst on) disk s1))"
      "s4 = fold (start_one e (map fst (sv_processes s2))) on (evicted e s2)"
      "s5 = fold (stop_one e) (map fst (filter (\<lambda>(n, b). \<not> b \<and> n \<in> set (map fst (sv_processes s2))) on)) s4"
      "s' = fold (stop_one e) (filter (\<lambda>n. n \<notin> set (map fst on) \<and> n \<notin> set inc) (map fst (sv_processes s2))) s5"
    by (rule reconcile_phases [OF assms(4,2) scan])
  have calm: "calm name s1" "calm name s2"
    unfolding ph(1,2)
    by (rule requests_keep fold_keeps; simp add: assms(3) recover_calm restart_calm fold_keeps [where P = "calm name"])+
  have c4: "calm name s4" "calm name s5"
    unfolding ph(3,4) by (rule fold_keeps; simp add: calm start_one_calm stop_one_calm fold_keeps [where P = "calm name"])+
  have p4: "map_of (sv_processes s4) name = map_of (sv_processes s2) name"
    unfolding ph(3) using view_process [OF starts_view [OF off]] by simp
  show ?thesis
  proof (cases "name \<in> set (map fst on)")
    case True
    then obtain b where "(name, b) \<in> set on" by auto
    with off have "(name, False) \<in> set on" by (cases b) auto
    then have "name \<in> set (map fst (filter (\<lambda>(n, b). \<not> b \<and> n \<in> set (map fst (sv_processes s2))) on)) \<or> map_of (sv_processes s4) name = None"
      unfolding p4 by (cases "map_of (sv_processes s2) name") (force simp: map_of_eq_None_iff dest!: map_of_SomeD)+
    then have "map_of (sv_processes s5) name = None"
      unfolding ph(4) by (rule stops_all [OF stop c4(1)])
    then show ?thesis
      unfolding ph(5) using stops_all [OF stop c4(2)] by blast
  next
    case False
    have "map_of (sv_processes s5) name = map_of (sv_processes s4) name"
      unfolding ph(4) by (rule stops_keep) (use False in auto)
    then have "name \<in> set (filter (\<lambda>n. n \<notin> set (map fst on) \<and> n \<notin> set inc) (map fst (sv_processes s2))) \<or> map_of (sv_processes s5) name = None"
      unfolding p4 using inc False by (simp add: map_of_eq_None_iff)
    then show ?thesis
      unfolding ph(5) by (rule stops_all [OF stop c4(2)])
  qed
qed

text \<open>What keeps an enabled anima from being started: a start or restart under way, a pause, a suspension.\<close>

definition startable :: "reconcile_env \<Rightarrow> string \<Rightarrow> supervisor \<Rightarrow> bool" where
  "startable e name s =
     (\<not> sv_shutdown s \<and> map_of (sv_starting s) name = None \<and> name \<notin> set (sv_restarting s) \<and> calm name s \<and> name \<notin> set (rc_suspended e) \<and>
      (map_of (sv_processes s) name = None \<longrightarrow> name \<notin> fst ` set (sv_recently_stopped s) \<and> map_of (sv_start_failed s) name = None))"

definition starts_work :: "reconcile_env \<Rightarrow> string \<Rightarrow> bool" where
  "starts_work e name = ((\<forall>n. \<not> st_shutdown (rc_start e n)) \<and> st_enabled (rc_start e name) \<and> st_process (rc_start e name) \<noteq> None)"

lemma startable_view:
  assumes "view_of name t = view_of name s" "sv_shutdown t = sv_shutdown s"
  shows "startable e name t = startable e name s"
  using assms by (simp add: startable_def view_of_def calm_def)

lemma start_runs:
  assumes "starts_work e name" "\<not> sv_shutdown s" "map_of (sv_starting s) name = None" "start_anima (rc_start e name) name s = (r, s1)"
  shows "map_of (sv_processes s1) name \<noteq> None" "r = Inr ()" "sv_shutdown s1 = sv_shutdown s" "sv_starting s1 = sv_starting s"
    "sv_restarting s1 = sv_restarting s" "calm name s1 = calm name s"
  using assms by (auto simp: starts_work_def start_anima_def Let_def update_conv' calm_def split: if_splits option.splits)

lemma recover_startable:
  assumes "starts_work e name" "startable e name s"
  shows "startable e name (recover_one e on n s)"
proof (cases "n = name")
  case False
  have "sv_shutdown (recover_one e on n s) = sv_shutdown s"
    using assms(1) by (simp add: recover_one_def start_shutdown starts_work_def)
  with startable_view [OF recover_view [OF False]] assms(2) show ?thesis by blast
next
  case True
  let ?t = "s\<lparr>sv_processes := AList.delete name (sv_processes s), sv_restart_counts := AList.delete name (sv_restart_counts s),
              sv_failed := removeAll name (sv_failed s), sv_failed_log := AList.delete name (sv_failed_log s)\<rparr>"
  obtain r s1 where start: "start_anima (rc_start e name) name ?t = (r, s1)"
    by (cases "start_anima (rc_start e name) name ?t")
  have "\<not> sv_shutdown ?t" "map_of (sv_starting ?t) name = None"
    using assms(2) by (simp_all add: startable_def)
  from start_runs [OF assms(1) this start] assms(2) have "startable e name s1"
    by (auto simp: startable_def calm_def)
  moreover have "startable e name (s\<lparr>sv_failed := removeAll name (sv_failed s)\<rparr>)"
    using assms(2) by (simp add: startable_def calm_def)
  ultimately show ?thesis
    using assms(2) True start by (simp add: recover_one_def)
qed

lemma restart_shutdown: "\<not> st_shutdown e \<Longrightarrow> sv_shutdown (snd (restart_anima out e n s)) = sv_shutdown s"
proof -
  assume "\<not> st_shutdown e"
  define s1 where "s1 = (if sv_shutdown s then s
                else s\<lparr>sv_restart_counts := AList.delete n (sv_restart_counts s), sv_failed := removeAll n (sv_failed s),
                       sv_failed_log := AList.delete n (sv_failed_log s)\<rparr>)"
  define s2 where "s2 = s1\<lparr>sv_restarting := List.insert n (sv_restarting s1)\<rparr>"
  obtain r t where stop: "stop_anima out n s2 = (r, t)"
    by (cases "stop_anima out n s2")
  obtain q u where start: "start_anima e n t = (q, u)"
    by (cases "start_anima e n t")
  have "sv_shutdown s2 = sv_shutdown s"
    by (simp add: s2_def s1_def)
  with stop_processes(6) [OF stop] start_shutdown [OF \<open>\<not> st_shutdown e\<close>, of n t] stop start show ?thesis
    unfolding restart_anima_def Let_def s1_def [symmetric] s2_def [symmetric] by (cases r) simp_all
qed

lemma restart_startable:
  assumes "starts_work e name" "startable e name s"
  shows "startable e name (snd (restart_anima (rc_restop e n) (rc_start e n) n s))"
proof (cases "n = name")
  case False
  have "sv_shutdown (snd (restart_anima (rc_restop e n) (rc_start e n) n s)) = sv_shutdown s"
    using assms(1) restart_shutdown by (simp add: starts_work_def)
  with startable_view [OF restart_view [OF False]] assms(2) show ?thesis by blast
next
  case True
  define s2 where "s2 = s\<lparr>sv_restart_counts := AList.delete name (sv_restart_counts s),
      sv_failed := removeAll name (sv_failed s), sv_failed_log := AList.delete name (sv_failed_log s),
      sv_restarting := List.insert name (sv_restarting s)\<rparr>"
  obtain r t where stop: "stop_anima (rc_restop e name) name s2 = (r, t)"
    by (cases "stop_anima (rc_restop e name) name s2")
  obtain q s1 where start: "start_anima (rc_start e name) name t = (q, s1)"
    by (cases "start_anima (rc_start e name) name t")
  note st = stop_processes [OF stop]
  have t: "\<not> sv_shutdown t" "map_of (sv_starting t) name = None" "calm name t" "sv_restarting t = List.insert name (sv_restarting s)"
    using assms(2) st(6,7,9,10,11) by (auto simp: s2_def startable_def calm_def)
  have raised: "map_of (sv_processes t) name \<noteq> None" if "r = Inl err" for err
    using st(3,13) that stop by (auto simp: stop_anima_def split: option.splits stop_end.splits)
  have new: "startable e name (s1\<lparr>sv_restarting := removeAll name (sv_restarting s1)\<rparr>)"
    using start_runs [OF assms(1) t(1,2) start] t assms(2) by (auto simp: startable_def calm_def)
  have old: "startable e name (t\<lparr>sv_restarting := removeAll name (sv_restarting t)\<rparr>)" if "r = Inl err" for err
    using raised [OF that] t assms(2) by (auto simp: startable_def calm_def)
  have "\<not> sv_shutdown s"
    using assms(2) by (simp add: startable_def)
  then have "snd (restart_anima (rc_restop e n) (rc_start e n) n s) =
      (case r of Inl _ \<Rightarrow> t\<lparr>sv_restarting := removeAll name (sv_restarting t)\<rparr> | Inr _ \<Rightarrow> s1\<lparr>sv_restarting := removeAll name (sv_restarting s1)\<rparr>)"
    using True stop start by (cases r) (simp_all add: restart_anima_def Let_def s2_def)
  with new old show ?thesis
    by (cases r) simp_all
qed

lemma start_one_startable:
  assumes "starts_work e name" "startable e name s"
  shows "startable e name (start_one e running (n, b) s)"
    "map_of (sv_processes s) name \<noteq> None \<Longrightarrow> map_of (sv_processes (start_one e running (n, b) s)) name \<noteq> None"
    "name \<notin> set running \<Longrightarrow> map_of (sv_processes (start_one e running (name, True) s)) name \<noteq> None"
proof -
  obtain r s1 where start: "start_anima (rc_start e name) name s = (r, s1)"
    by (cases "start_anima (rc_start e name) name s")
  have "\<not> sv_shutdown s" "map_of (sv_starting s) name = None"
    using assms(2) by (simp_all add: startable_def)
  note runs = start_runs [OF assms(1) this start]
  have own: "startable e name (start_one e running (name, b) s)" for b
    using runs assms(2) start by (auto simp: start_one_def startable_def calm_def)
  show own': "startable e name (start_one e running (n, b) s)"
  proof (cases "n = name")
    case True
    with own show ?thesis by simp
  next
    case False
    obtain r' s1' where start': "start_anima (rc_start e n) n s = (r', s1')"
      by (cases "start_anima (rc_start e n) n s")
    have "sv_shutdown (start_one e running (n, b) s) = sv_shutdown s"
      using assms(1) start' start_shutdown [of "rc_start e n" n s]
      by (auto simp: start_one_def starts_work_def split: sum.splits)
    with startable_view [OF start_one_view [OF False]] assms(2) show ?thesis by blast
  qed
  have stays: "map_of (sv_processes s) name \<noteq> None \<Longrightarrow> start_anima (rc_start e name) name s = (Inr (), s)"
    by (simp add: start_anima_def)
  show "map_of (sv_processes s) name \<noteq> None \<Longrightarrow> map_of (sv_processes (start_one e running (n, b) s)) name \<noteq> None"
    using view_process [OF start_one_view, of n name e running b s] stays by (cases "n = name") (auto simp: start_one_def)
  show "name \<notin> set running \<Longrightarrow> map_of (sv_processes (start_one e running (name, True) s)) name \<noteq> None"
  proof (cases "map_of (sv_processes s) name = None")
    case True
    assume "name \<notin> set running"
    moreover have "map_of (sv_recently_stopped s) name = None" "map_of (sv_start_failed s) name = None"
      using True assms(2) by (simp_all add: startable_def map_of_eq_None_iff)
    then have "may_start e s name"
      using assms(2) by (simp add: may_start_def startable_def calm_def)
    ultimately show ?thesis
      using runs start assms(2) by (simp add: start_one_def startable_def)
  next
    case False
    with stays show ?thesis by (simp add: start_one_def)
  qed
qed

lemma starts_all:
  assumes "starts_work e name" "startable e name s" "(name, True) \<in> set on \<and> name \<notin> set running \<or> map_of (sv_processes s) name \<noteq> None"
  shows "map_of (sv_processes (fold (start_one e running) on s)) name \<noteq> None"
  using assms(2,3)
proof (induction on arbitrary: s)
  case Nil
  then show ?case by simp
next
  case (Cons nb on)
  obtain n b where nb: "nb = (n, b)" by (cases nb)
  note one = start_one_startable [OF assms(1) Cons.prems(1)]
  have "(name, True) \<in> set on \<and> name \<notin> set running \<or> map_of (sv_processes (start_one e running nb s)) name \<noteq> None"
    using Cons.prems(2) one(2,3) nb by (cases "nb = (name, True)") auto
  with Cons.IH [OF one(1) [of running n b]] nb show ?case by simp
qed

text \<open>
  C22. An enabled anima is started: after a reconciliation every enabled anima with a complete directory has a process, if
  nothing holds it back (no start, restart, bootstrap or repair under way, no cool-down, no suspension) and its start works.
\<close>

theorem reconcile_starts:
  assumes "distinct (map dk_name disk)" "reconcile e disk s = (None, disk', s')" "startable e name s" "starts_work e name"
    and "d \<in> set disk" "dk_name d = name" "dk_identity d" "dk_status d = StJson (JObj data)" "enabled_in data"
  shows "map_of (sv_processes s') name \<noteq> None"
proof -
  have up: "\<not> sv_shutdown s" using assms(3) by (simp add: startable_def)
  obtain on inc where scan: "scan_disk disk = Inr (on, inc)"
    using reconcile_scans [OF assms(2) up] .
  have on: "(name, True) \<in> set on"
    using scan_entry [OF scan assms(1,5,7)] assms(6,8,9) by auto
  have only: "b" if "(name, b) \<in> set on" for b
    using map_of_is_SomeI [OF scan_names(4) [OF scan assms(1)] on] map_of_is_SomeI [OF scan_names(4) [OF scan assms(1)] that] by simp
  obtain s1 s2 s4 s5 where ph: "s1 = fold (recover_one e on) (sv_failed s) s" "s2 = snd (snd (restart_requests e (map fst on) disk s1))"
      "s4 = fold (start_one e (map fst (sv_processes s2))) on (evicted e s2)"
      "s5 = fold (stop_one e) (map fst (filter (\<lambda>(n, b). \<not> b \<and> n \<in> set (map fst (sv_processes s2))) on)) s4"
      "s' = fold (stop_one e) (filter (\<lambda>n. n \<notin> set (map fst on) \<and> n \<notin> set inc) (map fst (sv_processes s2))) s5"
    by (rule reconcile_phases [OF assms(2) up scan])
  have "startable e name s1"
    unfolding ph(1) by (rule fold_keeps) (simp_all add: recover_startable [OF assms(4)] assms(3))
  then have s2: "startable e name s2"
    unfolding ph(2) by (rule requests_keep [rotated]) (rule restart_startable [OF assms(4)])
  have s3: "startable e name (evicted e s2)"
    using s2 unfolding startable_def evicted_def calm_def by auto
  have p4: "map_of (sv_processes s4) name \<noteq> None"
    unfolding ph(3) by (rule starts_all [OF assms(4) s3]) (use on in \<open>auto simp: map_of_eq_None_iff\<close>)
  have keeps: "map_of (sv_processes (fold (stop_one e) names t)) name = map_of (sv_processes t) name" if "name \<notin> set names" for names t
    using that by (rule stops_keep)
  have "map_of (sv_processes s5) name = map_of (sv_processes s4) name"
    unfolding ph(4) by (rule keeps) (use only in auto)
  moreover have "map_of (sv_processes s') name = map_of (sv_processes s5) name"
    unfolding ph(5) by (rule keeps) (use on in force)
  ultimately show ?thesis
    using p4 by simp
qed

text \<open>A directory without a status file may be under construction: its anima is neither started nor stopped.\<close>

lemma incomplete_untouched:
  assumes "distinct (map dk_name disk)" "\<not> sv_shutdown s" "reconcile e disk s = (None, disk', s')"
    and "d \<in> set disk" "dk_identity d" "dk_status d = StMissing"
  shows "map_of (sv_processes s') (dk_name d) = map_of (sv_processes s) (dk_name d)"
proof -
  let ?n = "dk_name d"
  let ?P = "\<lambda>t :: supervisor. map_of (sv_processes t) ?n = map_of (sv_processes s) ?n"
  obtain on inc where scan: "scan_disk disk = Inr (on, inc)"
    using reconcile_scans [OF assms(3,2)] .
  have inc: "?n \<in> set inc"
    using scan_entry [OF scan assms(1,4,5)] assms(6) by simp
  then have on: "?n \<notin> set (map fst on)"
    using scan_names(3) [OF scan assms(1)] by blast
  obtain s1 s2 s4 s5 where ph: "s1 = fold (recover_one e on) (sv_failed s) s" "s2 = snd (snd (restart_requests e (map fst on) disk s1))"
      "s4 = fold (start_one e (map fst (sv_processes s2))) on (evicted e s2)"
      "s5 = fold (stop_one e) (map fst (filter (\<lambda>(n, b). \<not> b \<and> n \<in> set (map fst (sv_processes s2))) on)) s4"
      "s' = fold (stop_one e) (filter (\<lambda>n. n \<notin> set (map fst on) \<and> n \<notin> set inc) (map fst (sv_processes s2))) s5"
    by (rule reconcile_phases [OF assms(3,2) scan])
  have "map_of on ?n = None"
    using on by (simp add: map_of_eq_None_iff)
  then have own: "sv_processes (recover_one e on ?n t) = sv_processes t" for t
    by (simp add: recover_one_def)
  have s1: "?P s1"
    unfolding ph(1)
  proof (rule fold_keeps)
    fix n t assume "?P t"
    then show "?P (recover_one e on n t)"
      using own view_process [OF recover_view, of n ?n e on t] by (cases "n = ?n") auto
  qed simp
  have s2: "?P s2"
    unfolding ph(2)
  proof (rule requests_keep [where P = ?P])
    fix n t assume "n \<in> set (map fst on)" "?P t"
    then show "?P (snd (restart_anima (rc_restop e n) (rc_start e n) n t))"
      using on view_process [OF restart_view, of n ?n] by metis
  qed (rule s1)
  have "?P s4"
    unfolding ph(3) using view_process [OF starts_view, of ?n on] on s2 by force
  moreover have keeps: "map_of (sv_processes (fold (stop_one e) names t)) ?n = map_of (sv_processes t) ?n" if "?n \<notin> set names" for names t
    using that by (rule stops_keep)
  moreover have "map_of (sv_processes s5) ?n = map_of (sv_processes s4) ?n"
    unfolding ph(4) by (rule keeps) (use on in auto)
  moreover have "map_of (sv_processes s') ?n = map_of (sv_processes s5) ?n"
    unfolding ph(5) by (rule keeps) (use inc in simp)
  ultimately show ?thesis
    by simp
qed

text \<open>Well-formed status files are enough for a reconciliation to go through.\<close>

definition well_formed :: "disk_anima list \<Rightarrow> bool" where
  "well_formed disk = list_all (\<lambda>d. case dk_status d of StMissing \<Rightarrow> True | StJson (JObj _) \<Rightarrow> True | _ \<Rightarrow> False) disk"

lemma well_formed_status: "well_formed disk \<Longrightarrow> status_on disk name = StMissing \<or> (\<exists>data. status_on disk name = StJson (JObj data))"
  by (auto simp: well_formed_def status_on_def list_all_iff find_Some_iff split: option.splits status_doc.splits json.splits)
     (metis nth_mem status_doc.distinct status_doc.exhaust json.exhaust)+

lemma well_formed_set: "well_formed disk \<Longrightarrow> well_formed (set_status name (StJson (JObj data)) disk)"
  by (auto simp: well_formed_def set_status_def list_all_iff)

lemma well_formed_scan: "well_formed disk \<Longrightarrow> \<exists>r. scan_disk disk = Inr r"
  by (induction disk) (auto simp: well_formed_def split: status_doc.splits json.splits)

lemma well_formed_requests: "well_formed disk \<Longrightarrow> fst (restart_requests e names disk s) = None"
proof (induction names arbitrary: disk s)
  case Nil
  then show ?case by simp
next
  case (Cons n names)
  from well_formed_status [OF Cons.prems, of n] show ?case
    using Cons.IH Cons.prems well_formed_set by auto
qed

lemma well_formed_reconciles:
  assumes "well_formed disk"
  shows "fst (reconcile e disk s) = None"
proof -
  obtain on inc where scan: "scan_disk disk = Inr (on, inc)"
    using well_formed_scan [OF assms] by (metis surj_pair)
  obtain d1 s1 where "restart_requests e (map fst on) disk (fold (recover_one e on) (sv_failed s) s) = (None, d1, s1)"
    using well_formed_requests [OF assms, of e "map fst on" "fold (recover_one e on) (sv_failed s) s"] by (metis fst_conv surj_pair)
  with scan show ?thesis
    by (simp add: reconcile_def Let_def)
qed

text \<open>The directories as the tools of the animas see them.\<close>

definition disk_of :: "path \<Rightarrow> (string \<Rightarrow> bool) \<Rightarrow> string list \<Rightarrow> org_state \<Rightarrow> disk_anima list" where
  "disk_of animas_dir ident names st =
     map (\<lambda>n. \<lparr>dk_name = n, dk_identity = ident n, dk_status = og_status st (join_path animas_dir n)\<rparr>) names"

lemma disable_success:
  assumes "disable_subordinate config animas_dir me n reason st = (Inr (DisabledSuccess t r), st1)"
  shows "\<exists>data. og_status st1 (join_path animas_dir t) = StJson (JObj data) \<and> \<not> enabled_in data"
  using assms
  by (auto simp: disable_subordinate_def Let_def guarded_def change_status_def write_status_def log_tool_def
      split: if_splits option.splits sum.splits json.splits prod.splits)

text \<open>
  C21. Disabling takes effect: after a supervisor has disabled an anima with its tool, the next reconciliation leaves no
  process of it, provided that no bootstrap and no memory repair of the anima is under way (then the stop is deferred), that
  every status file is absent or a JSON object (otherwise the reconciliation raises before it stops anything), that no
  shutdown has begun, and that the stop of the process does not raise (then the loop goes on and the process stays).
\<close>

theorem disabled_anima_stopped:
  assumes "disable_subordinate config animas_dir me n reason st = (Inr (DisabledSuccess t r), st1)"
    and "well_formed (disk_of animas_dir ident names st1)" "distinct names" "\<not> sv_shutdown s" "calm t s"
    and "rc_stop e t = StopDone now"
  shows "\<exists>disk' s'. reconcile e (disk_of animas_dir ident names st1) s = (None, disk', s') \<and> map_of (sv_processes s') t = None"
proof -
  obtain disk' s' where run: "reconcile e (disk_of animas_dir ident names st1) s = (None, disk', s')"
    using well_formed_reconciles [OF assms(2), of e s] by (metis fst_conv surj_pair)
  have "distinct (map dk_name (disk_of animas_dir ident names st1))"
    using assms(3) by (simp add: disk_of_def comp_def)
  moreover have "\<forall>d \<in> set (disk_of animas_dir ident names st1). dk_name d = t \<and> dk_identity d \<longrightarrow>
      (\<exists>data. dk_status d = StJson (JObj data) \<and> \<not> enabled_in data)"
    using disable_success [OF assms(1)] by (auto simp: disk_of_def)
  ultimately have "map_of (sv_processes s') t = None"
    using reconcile_stops_disabled [OF _ assms(4,5) run assms(6)] by blast
  with run show ?thesis by blast
qed

section \<open>The restart budget\<close>









lemma set_handle_count [simp]: "restart_count_of (set_handle a h s) n = restart_count_of s n"
  by (simp add: restart_count_of_def)


















section \<open>Observations\<close>

text \<open>
  One status file that is JSON but no object stops the reconciliation of every anima: the loop over the restart requests
  raises at \<^verbatim>\<open>status.get\<close>, before anything is started or stopped.
\<close>

lemma malformed_status_blocks_all:
  assumes "\<not> sv_shutdown s" "sv_failed s = []" "dk_identity d" "dk_status d = StJson (JArr xs)"
    and "scan_disk ds = Inr (on, inc)"
  shows "reconcile e (d # ds) s = (Some (AttributeError ''get''), d # ds, s)"
  using assms by (simp add: reconcile_def status_on_def)

text \<open>
  The status query changes the state: of a process whose old incarnation ran longer than the start limit it reports an
  error while the restart is under way, and marks it as permanently failed.
\<close>

lemma status_query_fails_restart:
  assumes "map_of (sv_processes s) name = Some a" "hd_state (hd_at s a) = PRestarting" "now - hd_started (hd_at s a) > timeout"
    and "\<not> sv_shutdown s"
  shows "\<exists>s'. get_process_status timeout now mclock name s = (''error'', s') \<and> name \<in> set (sv_failed s')"
  using assms by (simp add: get_process_status_def spawn_overdue_def note_overdue_def)

text \<open>The recovery of a failed process forgets its handle and does not stop what still runs.\<close>

lemma recovery_leaves_process:
  assumes "map_of (sv_processes s) name = Some a" "a < length (sv_heap s)" "is_alive (hd_at s a)"
    and "\<not> sv_shutdown s" "map_of on name = Some True" "60 \<le> rc_loop e - opt_or (map_of (sv_failed_log s) name) 0"
    and "map_of (sv_starting s) name = None" "starts_work e name" "s' = recover_one e on name s"
  shows "is_alive (hd_at s' a) \<and> (\<exists>b. map_of (sv_processes s') name = Some b \<and> b \<noteq> a)"
  using assms
  by (auto simp: recover_one_def starts_work_def start_anima_def Let_def delete_conv' update_conv' hd_at_def nth_append)

section \<open>Concrete runs\<close>

definition demo_config :: health_config where
  "demo_config = \<lparr>hc_max_missed = 3, hc_grace = 10, hc_busy_threshold = 900, hc_warmup = 60, hc_runner_warmup = 30, hc_max_streaming = 1800\<rparr>"

definition demo_policy :: restart_policy where
  "demo_policy = \<lparr>rp_max_retries = 2, rp_backoff_base = 2, rp_backoff_max = 60, rp_reset_after = 300\<rparr>"

definition demo_super :: supervisor where
  "demo_super =
     \<lparr>sv_heap = [fresh_handle 0 7], sv_processes = [(''cid'', 0)], sv_restart_counts = [], sv_restarting = [], sv_starting = [],
      sv_failed = [], sv_failed_log = [], sv_reasons = [], sv_bootstrapping = [], sv_consolidating = [], sv_repairing = [],
      sv_recently_stopped = [], sv_start_failed = [], sv_start_fail_counts = [], sv_overrun_warned = [], sv_shutdown = False\<rparr>"

definition demo_health :: "ping_reply \<Rightarrow> json option \<Rightarrow> health_env" where
  "demo_health reply side =
     \<lparr>se_now = 1000, se_wall = 1000, se_loop = 1000, se_sidecar = side, se_server_starting = False, se_ready_at = None,
      se_exempt = False, se_reply = reply, se_fromiso = (\<lambda>t. if t = ''t'' then Some 900 else None)\<rparr>"

definition demo_start :: "int \<Rightarrow> start_env" where
  "demo_start pid = \<lparr>st_enabled = True, st_now = 0, st_process = Some pid, st_shutdown = False\<rparr>"

definition demo_failure :: failure_env where
  "demo_failure =
     \<lparr>fe_enabled = True, fe_repaired = False, fe_enabled_later = True, fe_now = 0,
      fe_stop = StopDone 0,
      fe_attempts = (\<lambda>k. \<lparr>aa_shutdown = False, aa_enabled = True, aa_stop = StopDone 0, aa_start = demo_start (int k), aa_enabled_after = True\<rparr>),
      fe_enabled_end = True\<rparr>"

definition demo_round :: reconcile_env where
  "demo_round = \<lparr>rc_loop = 1000, rc_mono = 1000, rc_start = (\<lambda>_. demo_start 9), rc_restop = (\<lambda>_. StopDone 0),
     rc_stop = (\<lambda>_. StopDone 0), rc_suspended = []\<rparr>"

lemmas demo_defs = demo_config_def demo_super_def demo_health_def demo_start_def demo_failure_def demo_round_def fresh_handle_def hd_at_def


theorem lost_pings_kill_witness:
  "fst (check_run demo_config demo_policy (replicate 4 (demo_health PingTimeout None)) ''cid'' 0 demo_super) ! 1 = [] \<and>
   fst (check_run demo_config demo_policy (replicate 4 (demo_health PingTimeout None)) ''cid'' 0 demo_super) ! 2 = [THang ''cid'' 0]"
proof -
  have lost: "\<forall>e \<in> set (replicate 4 (demo_health PingTimeout None)). unanswered demo_config e (hd_at demo_super 0)"
    by (simp add: unanswered_def is_alive_def warming_up_def read_busy_sidecar_def demo_defs)
  have "fst (check_run demo_config demo_policy (replicate 4 (demo_health PingTimeout None)) ''cid'' 0 demo_super) ! k =
      (if hc_max_missed demo_config \<le> Suc k then [THang ''cid'' 0] else [])" if "k < 4" for k
    by (rule lost_pings_kill [OF _ _ _ _ _ lost]) (use that in \<open>simp_all add: demo_defs\<close>)
  from this [of 1] this [of 2] show ?thesis
    by (simp add: demo_config_def)
qed



theorem reconcile_starts_witness:
  "map_of (sv_processes (snd (snd (reconcile demo_round
     [\<lparr>dk_name = ''bea'', dk_identity = True, dk_status = StJson (JObj [])\<rparr>] demo_super)))) ''bea'' \<noteq> None"
proof (rule reconcile_starts [where data = "[]" and d = "\<lparr>dk_name = ''bea'', dk_identity = True, dk_status = StJson (JObj [])\<rparr>"])
  let ?disk = "[\<lparr>dk_name = ''bea'', dk_identity = True, dk_status = StJson (JObj [])\<rparr>]"
  have "fst (reconcile demo_round ?disk demo_super) = None"
    by (rule well_formed_reconciles) (simp add: well_formed_def)
  then show "reconcile demo_round ?disk demo_super =
      (None, fst (snd (reconcile demo_round ?disk demo_super)), snd (snd (reconcile demo_round ?disk demo_super)))"
    by (simp add: prod_eq_iff)
qed (simp_all add: startable_def calm_def starts_work_def enabled_in_def demo_defs)

theorem disabled_anima_stopped_witness:
  "\<exists>disk' s'. reconcile demo_round (disk_of [''animas''] (\<lambda>_. True) [''cid'']
       (snd (disable_subordinate (Inr demo_animas) [''animas''] ''ann'' ''CID'' [] demo_org))) demo_super = (None, disk', s') \<and>
     map_of (sv_processes s') ''cid'' = None"
proof -
  have "read_existing demo_org (join_path [''animas''] ''cid'') = Inr (JObj [(''model'', JStr ''m'')])"
    using demo_org_facts(5) by (simp add: read_existing_def)
  from disable_enabled [OF demo_org_facts(2) _ demo_org_facts(3,4) this demo_org_facts(6), of "[]"]
  obtain st1 where dis: "disable_subordinate (Inr demo_animas) [''animas''] ''ann'' ''CID'' [] demo_org = (Inr (DisabledSuccess ''cid'' []), st1)"
    by auto
  from disable_success [OF this] have "well_formed (disk_of [''animas''] (\<lambda>_. True) [''cid''] st1)"
    by (auto simp: well_formed_def disk_of_def)
  from disabled_anima_stopped [OF dis this, of demo_super demo_round 0] show ?thesis
    unfolding dis by (simp add: calm_def demo_super_def demo_round_def)
qed

end
