(* ===== verification/Json_Dump.thy ===== *)
theory Json_Dump
  imports Json_Text
begin

text \<open>
  \<^verbatim>\<open>json.dumps(value, ensure_ascii=False, separators=(",", ":"))\<close> on any decoded value, and that \<^verbatim>\<open>json.loads\<close> reads it
  back. How Python writes a float is the argument \<open>fl\<close>; \<open>good_float\<close> says of one number that its text is a number and
  reads back as the same one.
\<close>

section \<open>Writing values\<close>

fun join_commas :: "string list \<Rightarrow> string" where
  "join_commas [] = []"
| "join_commas [x] = x"
| "join_commas (x # y # ys) = x @ CHR '','' # join_commas (y # ys)"

fun dump_json :: "(rat \<Rightarrow> string) \<Rightarrow> json \<Rightarrow> string" where
  "dump_json fl JNull = ''null''"
| "dump_json fl (JBool b) = (if b then ''true'' else ''false'')"
| "dump_json fl (JInt i) = int_str i"
| "dump_json fl (JFloat q) = fl q"
| "dump_json fl JNonFinite = ''NaN''"
| "dump_json fl (JStr s) = dump_str s"
| "dump_json fl (JArr xs) = CHR ''['' # join_commas (map (dump_json fl) xs) @ '']''"
| "dump_json fl (JObj d) = CHR ''{'' # join_commas (map (\<lambda>(k, v). dump_str k @ CHR '':'' # dump_json fl v) d) @ ''}''"

definition good_float :: "(rat \<Rightarrow> string) \<Rightarrow> rat \<Rightarrow> bool" where
  "good_float fl q =
     (list_all number_char (fl q) \<and> list_all (\<lambda>c. scan_number (fl q @ [c]) = Some (JFloat q, [c])) [CHR '','', CHR ''}'', CHR '']''])"

text \<open>Values as a Python dict can hold them: the keys of every object differ, the strings have a UTF-8 encoding.\<close>

fun json_ok :: "(rat \<Rightarrow> string) \<Rightarrow> json \<Rightarrow> bool" where
  "json_ok fl (JFloat q) = good_float fl q"
| "json_ok fl (JStr s) = utf8 s"
| "json_ok fl (JArr xs) = list_all (json_ok fl) xs"
| "json_ok fl (JObj d) = (distinct (map fst d) \<and> list_all (\<lambda>(k, v). utf8 k \<and> json_ok fl v) d)"
| "json_ok fl _ = True"

section \<open>Numbers\<close>

lemma json_digit_char: "(n :: nat) < 10 \<Longrightarrow> json_digit (char_of (48 + n))"
  by (simp add: json_digit_def)

lemma nat_str_digits: "list_all json_digit (nat_str n) \<and> nat_str n \<noteq> []"
proof (induction n rule: nat_str.induct)
  case (1 n)
  then show ?case
    by (subst (1 2) nat_str.simps) (simp add: json_digit_char)
qed

lemma nat_str_hd: "0 < n \<Longrightarrow> hd (nat_str n) \<noteq> CHR ''0''"
proof (induction n rule: nat_str.induct)
  case (1 n)
  show ?case
  proof (cases "n < 10")
    case True
    then have "of_char (char_of (48 + n) :: char) \<noteq> (of_char (CHR ''0'') :: nat)"
      using 1(2) by simp
    then show ?thesis
      using True by (subst nat_str.simps) (auto simp del: of_char_of)
  next
    case False
    with 1 nat_str_digits [of "n div 10"] show ?thesis
      by (subst nat_str.simps) simp
  qed
qed

lemma digits_value_nat_str: "json_digits_value (nat_str n) = int n"
proof (induction n rule: nat_str.induct)
  case (1 n)
  show ?case
  proof (cases "n < 10")
    case True
    then show ?thesis
      by (subst nat_str.simps) (simp add: json_digits_value_def)
  next
    case False
    with 1 have "foldl (\<lambda>n d. n * 10 + (int (of_char d) - 48)) 0 (nat_str (n div 10)) = int (n div 10)"
      by (simp add: json_digits_value_def)
    moreover have "int (n div 10) * 10 + int (n mod 10) = int n"
      by (simp add: of_nat_mod of_nat_div)
    ultimately show ?thesis
      using False by (subst nat_str.simps) (simp add: json_digits_value_def)
  qed
qed

text \<open>What may follow a value inside a compact text.\<close>

definition closing :: "string \<Rightarrow> bool" where
  "closing r = (\<exists>c r'. r = c # r' \<and> c \<in> {CHR '','', CHR ''}'', CHR '']''})"

lemma closing_simps [simp]: "closing (CHR '','' # r)" "closing (CHR ''}'' # r)" "closing (CHR '']'' # r)"
  by (auto simp: closing_def)

lemma not_number_chars:
  "\<not> json_digit (CHR '','')" "\<not> json_digit (CHR ''}'')" "\<not> json_digit (CHR '']'')"
  "\<not> json_space (CHR '','')" "\<not> json_space (CHR ''}'')" "\<not> json_space (CHR '']'')"
  "\<not> number_char (CHR '','')" "\<not> number_char (CHR ''}'')" "\<not> number_char (CHR '']'')"
  by (simp_all add: json_digit_def json_space_def number_char_def)

lemma closing_not_digit:
  assumes "closing r"
  obtains c r' where "r = c # r'" "\<not> json_digit c" "\<not> json_space c" "\<not> number_char c"
  using assms not_number_chars unfolding closing_def by blast

lemma takeWhile_digits:
  assumes "list_all json_digit ds" "closing r"
  shows "takeWhile json_digit (ds @ r) = ds" "dropWhile json_digit (ds @ r) = r"
proof -
  obtain c r' where r: "r = c # r'" "\<not> json_digit c"
    by (rule closing_not_digit [OF assms(2)])
  have "takeWhile json_digit (ds @ r) = ds \<and> dropWhile json_digit (ds @ r) = r"
    using assms(1) r by (induction ds) auto
  then show "takeWhile json_digit (ds @ r) = ds" "dropWhile json_digit (ds @ r) = r"
    by blast+
qed

lemma scan_int_nat_str:
  assumes "closing r"
  shows "scan_int (nat_str n @ r) = Some (nat_str n, r)"
proof (cases "n = 0")
  case True
  have "nat_str 0 = ''0''"
    by code_simp
  with True show ?thesis
    by (simp add: scan_int_def)
next
  case False
  obtain c ds where ds: "nat_str n = c # ds"
    using nat_str_digits [of n] by (cases "nat_str n") auto
  have "c \<noteq> CHR ''0''" "json_digit c" "list_all json_digit (c # ds)"
    using nat_str_hd [of n] nat_str_digits [of n] False ds by auto
  then show ?thesis
    using takeWhile_digits [of "c # ds" r] assms unfolding ds by (simp add: scan_int_def)
qed

lemma scan_tail:
  assumes "closing r"
  shows "scan_frac r = ([], r)" "scan_exp r = (None, r)"
  using assms by (auto simp: closing_def scan_frac_def scan_exp_def Let_def)

lemma scan_int_str:
  assumes "closing r"
  shows "scan_number (int_str i @ r) = Some (JInt i, r)"
proof -
  have "\<not> starts_with (nat_str n @ r) ''-''" for n
    using nat_str_digits [of n] by (cases "nat_str n") (auto simp: starts_with_simps json_digit_def)
  then show ?thesis
    using scan_int_nat_str [OF assms] scan_tail [OF assms]
    by (auto simp: scan_number_def int_str_def Let_def starts_with_simps make_number_def digits_value_nat_str)
qed

lemma scan_good_float:
  assumes "good_float fl q" "closing r"
  shows "scan_number (fl q @ r) = Some (JFloat q, r)"
proof -
  obtain c r' where r: "r = c # r'" "c \<in> {CHR '','', CHR ''}'', CHR '']''}"
    using assms(2) by (auto simp: closing_def)
  have "scan_number (fl q @ [c]) = Some (JFloat q, [c])"
    using assms(1) r(2) by (auto simp: good_float_def)
  moreover have "delimited [c]"
    using r(2) by (auto simp: delimited_def number_char_def json_digit_def)
  ultimately show ?thesis
    using scan_number_append [of "fl q @ [c]" "JFloat q" "[c]" r'] r(1) by simp
qed

lemma scan_value_number:
  assumes "scan_number s = Some (v, r)"
  shows "scan_value (Suc n) s = Some (v, r)"
proof -
  obtain c cs where s: "s = c # cs" and c: "json_digit c \<or> c = CHR ''-''"
    using assms by (auto simp: scan_number_def scan_int_def json_digit_def Let_def starts_with_Cons split: option.splits list.splits if_splits)
  have "find (\<lambda>(w, v). starts_with s w) literals = None"
    using scan_number_no_literal [OF assms, of "[]"] by simp
  then show ?thesis
    using assms s c by (auto simp: scan_value.simps json_digit_def)
qed

section \<open>Round trip\<close>

lemma skip_closing: "closing r \<Longrightarrow> skip_ws r = r"
  by (erule closing_not_digit) (simp add: skip_ws_Cons)

lemma skip_str: "skip_ws (dump_str s @ r) = dump_str s @ r"
  by (simp add: dump_str_def skip_ws_Cons json_space_def)

text \<open>A value never begins with white space or with the bracket that would close an empty container.\<close>

definition starts_value :: "string \<Rightarrow> bool" where
  "starts_value t = (\<exists>c t'. t = c # t' \<and> \<not> json_space c \<and> c \<noteq> CHR ''}'' \<and> c \<noteq> CHR '']'')"

lemma starts_value_skip: "starts_value t \<Longrightarrow> skip_ws (t @ r) = t @ r"
  by (auto simp: starts_value_def skip_ws_Cons)

lemma starts_value_not: "starts_value t \<Longrightarrow> \<not> starts_with (t @ r) ''}'' \<and> \<not> starts_with (t @ r) '']''"
  by (auto simp: starts_value_def starts_with_simps)

lemma starts_value_number:
  assumes "list_all number_char t" "t \<noteq> []"
  shows "starts_value t"
proof -
  obtain c t' where t: "t = c # t'" "number_char c"
    using assms by (cases t) auto
  then have "\<not> json_space c" "c \<noteq> CHR ''}''" "c \<noteq> CHR '']''"
    using not_number_chars by (auto simp: json_space_def number_char_def json_digit_def)
  with t(1) show ?thesis
    by (auto simp: starts_value_def)
qed

lemma starts_value_int: "starts_value (int_str i)"
proof (rule starts_value_number)
  show "list_all number_char (int_str i)" "int_str i \<noteq> []"
    using nat_str_digits by (auto simp: int_str_def number_char_def list_all_iff)
qed

lemma starts_value_dump:
  assumes "json_ok fl j"
  shows "starts_value (dump_json fl j)"
proof (cases j)
  case (JFloat q)
  then have f: "good_float fl q"
    using assms by simp
  then have "fl q \<noteq> []"
    using not_number_chars by (auto simp: good_float_def scan_number_def scan_int_def Let_def starts_with_simps split: option.splits if_splits)
  with f JFloat show ?thesis
    by (simp add: starts_value_number good_float_def)
next
  case (JInt i)
  then show ?thesis
    by (simp add: starts_value_int)
qed (auto simp: starts_value_def dump_str_def json_space_def)

definition scalar_number :: "json \<Rightarrow> bool" where
  "scalar_number j = (case j of JInt _ \<Rightarrow> True | JFloat _ \<Rightarrow> True | _ \<Rightarrow> False)"

lemma scan_elems_join:
  assumes IH: "\<And>x n r. x \<in> set xs \<Longrightarrow> json_ok fl x \<Longrightarrow> length (dump_json fl x) \<le> n \<Longrightarrow> closing r \<Longrightarrow>
      scan_value n (dump_json fl x @ r) = Some (x, r)"
    and "xs \<noteq> []" "list_all (json_ok fl) xs" "length (join_commas (map (dump_json fl) xs)) < n"
  shows "scan_elems n acc (join_commas (map (dump_json fl) xs) @ CHR '']'' # r) = Some (JArr (rev acc @ xs), r)"
  using assms
proof (induction xs arbitrary: n acc)
  case Nil
  then show ?case by simp
next
  case (Cons x xs)
  obtain m where n: "n = Suc m"
    using Cons.prems(4) by (cases n) auto
  show ?case
  proof (cases xs)
    case Nil
    have "scan_value m (dump_json fl x @ CHR '']'' # r) = Some (x, CHR '']'' # r)"
      using Cons.prems n Nil by simp
    with n Nil show ?thesis
      by (simp add: scan_elems.simps skip_closing starts_with_simps)
  next
    case (Cons y ys)
    let ?t = "join_commas (map (dump_json fl) xs) @ CHR '']'' # r"
    have "scan_value m (dump_json fl x @ CHR '','' # ?t) = Some (x, CHR '','' # ?t)"
      using Cons.prems n Cons by simp
    moreover have "scan_elems m (x # acc) ?t = Some (JArr (rev (x # acc) @ xs), r)"
      using Cons.prems n Cons by (intro Cons.IH) auto
    moreover have "skip_ws ?t = ?t"
      using starts_value_dump [of fl y] Cons.prems(3) Cons by (cases ys) (simp_all add: starts_value_skip)
    ultimately show ?thesis
      using n Cons by (simp add: scan_elems.simps skip_closing starts_with_simps)
  qed
qed

abbreviation dump_member :: "(rat \<Rightarrow> string) \<Rightarrow> string \<times> json \<Rightarrow> string" where
  "dump_member fl \<equiv> \<lambda>(k, v). dump_str k @ CHR '':'' # dump_json fl v"

lemma starts_member: "\<exists>t. join_commas (map (dump_member fl) (m # ms)) = CHR 0x22 # t"
  by (cases m; cases ms) (auto simp: dump_str_def)

lemma scan_members_join:
  assumes IH: "\<And>k x n r. (k, x) \<in> set d \<Longrightarrow> json_ok fl x \<Longrightarrow> length (dump_json fl x) \<le> n \<Longrightarrow> closing r \<Longrightarrow>
      scan_value n (dump_json fl x @ r) = Some (x, r)"
    and "d \<noteq> []" "list_all (\<lambda>(k, v). utf8 k \<and> json_ok fl v) d" "length (join_commas (map (dump_member fl) d)) < n"
  shows "scan_members n acc (join_commas (map (dump_member fl) d) @ CHR ''}'' # r) = Some (JObj (dict_merge [] (rev acc @ d)), r)"
  using assms
proof (induction d arbitrary: n acc)
  case Nil
  then show ?case by simp
next
  case (Cons kx d)
  obtain k x where kx: "kx = (k, x)" by (cases kx)
  obtain m where n: "n = Suc m"
    using Cons.prems(4) by (cases n) auto
  have colon: "skip_ws (dump_json fl x @ t) = dump_json fl x @ t" for t
    using starts_value_dump [of fl x] Cons.prems(3) kx by (simp add: starts_value_skip)
  show ?case
  proof (cases d)
    case Nil
    have "scan_value m (dump_json fl x @ CHR ''}'' # r) = Some (x, CHR ''}'' # r)"
      using Cons.prems n Nil kx by simp
    with n Nil kx colon show ?thesis
      by (simp add: scan_members.simps skip_closing starts_with_simps dump_str_def scan_escape skip_ws_Cons json_space_def)
  next
    case d: (Cons y ys)
    let ?t = "join_commas (map (dump_member fl) d) @ CHR ''}'' # r"
    have "scan_value m (dump_json fl x @ CHR '','' # ?t) = Some (x, CHR '','' # ?t)"
      by (rule Cons.prems(1) [of k]) (use Cons.prems(3,4) n d kx in auto)
    moreover have "scan_members m ((k, x) # acc) ?t = Some (JObj (dict_merge [] (rev ((k, x) # acc) @ d)), r)"
      using Cons.prems n d kx by (intro Cons.IH) auto
    moreover have "skip_ws ?t = ?t"
      using starts_member [of fl y ys] d by (auto simp: skip_ws_Cons json_space_def)
    ultimately show ?thesis
      using n d kx colon
      by (simp add: scan_members.simps skip_closing starts_with_simps dump_str_def scan_escape skip_ws_Cons json_space_def)
  qed
qed

lemma scan_dump_json:
  "json_ok fl j \<Longrightarrow> length (dump_json fl j) \<le> n \<Longrightarrow> (scalar_number j \<Longrightarrow> closing r) \<Longrightarrow> scan_value n (dump_json fl j @ r) = Some (j, r)"
proof (induction j arbitrary: n r)
  case (JInt i)
  have "int_str i \<noteq> []"
    using nat_str_digits by (auto simp: int_str_def)
  with JInt.prems obtain m where "n = Suc m"
    by (cases n) auto
  with JInt.prems show ?case
    by (simp add: scan_value_number scan_int_str scalar_number_def)
next
  case (JFloat q)
  have "fl q \<noteq> []"
    using starts_value_dump [OF JFloat.prems(1)] by (auto simp: starts_value_def)
  with JFloat.prems obtain m where "n = Suc m"
    by (cases n) auto
  with JFloat.prems show ?case
    by (simp add: scan_value_number scan_good_float scalar_number_def)
next
  case (JArr xs)
  then obtain m where n: "n = Suc m"
    by (cases n) auto
  show ?case
  proof (cases xs)
    case Nil
    with n show ?thesis
      by (simp add: scan_value.simps skip_ws_Cons json_space_def starts_with_simps)
  next
    case (Cons x ys)
    let ?t = "join_commas (map (dump_json fl) xs)"
    have "starts_value (dump_json fl x)"
      using JArr.prems(1) Cons by (intro starts_value_dump) simp
    then have "skip_ws (?t @ CHR '']'' # r) = ?t @ CHR '']'' # r" "\<not> starts_with (?t @ CHR '']'' # r) '']''"
      using Cons by (cases ys; auto simp: starts_value_def skip_ws_Cons starts_with_simps)+
    moreover have "scan_elems m [] (?t @ CHR '']'' # r) = Some (JArr (rev [] @ xs), r)"
      using JArr n Cons by (intro scan_elems_join) auto
    ultimately show ?thesis
      using n by (simp add: scan_value.simps)
  qed
next
  case (JObj d)
  then obtain m where n: "n = Suc m"
    by (cases n) auto
  show ?case
  proof (cases d)
    case Nil
    with n show ?thesis
      by (simp add: scan_value.simps skip_ws_Cons json_space_def starts_with_simps)
  next
    case (Cons x ys)
    let ?t = "join_commas (map (dump_member fl) d)"
    obtain t where "?t = CHR 0x22 # t"
      using starts_member [of fl x ys] Cons by auto
    then have "skip_ws (?t @ CHR ''}'' # r) = ?t @ CHR ''}'' # r" "\<not> starts_with (?t @ CHR ''}'' # r) ''}''"
      by (auto simp: skip_ws_Cons json_space_def starts_with_simps)
    moreover have "scan_members m [] (?t @ CHR ''}'' # r) = Some (JObj (dict_merge [] (rev [] @ d)), r)"
    proof (rule scan_members_join)
      fix k v i t
      assume "(k, v) \<in> set d" "json_ok fl v" "length (dump_json fl v) \<le> i" "closing t"
      then show "scan_value i (dump_json fl v @ t) = Some (v, t)"
        by (intro JObj.IH [of "(k, v)" v]) auto
    qed (use JObj.prems n Cons in auto)
    ultimately show ?thesis
      using n JObj.prems(1) dict_merge_new [of "[]" d] by (simp add: scan_value.simps)
  qed
next
  case JNull
  then obtain m where "n = Suc m" by (cases n) auto
  then show ?case by (simp add: scan_value.simps literals_def starts_with_simps)
next
  case (JBool b)
  then obtain m where "n = Suc m" by (cases n) (auto split: if_splits)
  then show ?case by (cases b) (simp_all add: scan_value.simps literals_def starts_with_simps)
next
  case JNonFinite
  then obtain m where "n = Suc m" by (cases n) auto
  then show ?case by (simp add: scan_value.simps literals_def starts_with_simps)
next
  case (JStr s)
  then obtain m where "n = Suc m" by (cases n) (auto simp: dump_str_def)
  then show ?case by (simp add: scan_dump_str)
qed

text \<open>\<^verbatim>\<open>json.loads\<close> reads back what \<^verbatim>\<open>json.dumps\<close> wrote.\<close>

lemma loads_dump_json:
  assumes "json_ok fl (JObj d)"
  shows "loads (dump_json fl (JObj d)) = Some (JObj d)"
  using scan_dump_json [OF assms, of "Suc (length (dump_json fl (JObj d)))" "[]"]
  by (simp add: loads_def scalar_number_def skip_ws_Cons json_space_def) (simp add: skip_ws_def)

section \<open>Bytes\<close>

lemma utf8_number: "list_all number_char t \<Longrightarrow> utf8 t"
  by (rule utf8_ascii) (auto simp: ascii_def list_all_iff number_char_def json_digit_def)

lemma int_str_number: "list_all number_char (int_str i)"
  using nat_str_digits by (auto simp: int_str_def number_char_def list_all_iff)

lemma utf8_join: "list_all utf8 ts \<Longrightarrow> utf8 (join_commas ts)"
  by (induction ts rule: join_commas.induct) (auto simp: utf8_append utf8_ascii_Cons simp del: utf8.simps(2))

lemma utf8_dump_str: "utf8 s \<Longrightarrow> utf8 (dump_str s)"
  by (simp add: dump_str_def utf8_append utf8_escape utf8_ascii_Cons del: utf8.simps(2))

lemma utf8_dump_json: "json_ok fl j \<Longrightarrow> utf8 (dump_json fl j)"
proof (induction j)
  case (JObj d)
  have "utf8 (dump_member fl m)" if "m \<in> set d" for m
    using JObj that by (cases m) (auto simp: list_all_iff utf8_append utf8_dump_str utf8_ascii_Cons simp del: utf8.simps(2))
  then show ?case
    using utf8_join [of "map (dump_member fl) d"] by (simp add: list_all_iff utf8_append utf8_ascii_Cons del: utf8.simps(2))
next
  case (JArr xs)
  then show ?case
    using utf8_join [of "map (dump_json fl) xs"] by (simp add: list_all_iff utf8_append utf8_ascii_Cons del: utf8.simps(2))
qed (auto simp: utf8_ascii utf8_number int_str_number good_float_def utf8_dump_str ascii_def simp del: utf8.simps(2))

text \<open>A written text holds no control characters: it is one line.\<close>

definition printable :: "string \<Rightarrow> bool" where
  "printable t = (\<forall>c \<in> set t. 32 \<le> (of_char c :: nat))"

lemma printable_simps [simp]: "printable []" "printable (c # t) \<longleftrightarrow> 32 \<le> (of_char c :: nat) \<and> printable t"
  "printable (s @ t) \<longleftrightarrow> printable s \<and> printable t"
  by (auto simp: printable_def)

lemma printable_hex: "n < 16 \<Longrightarrow> 32 \<le> (of_char (hex_digit n) :: nat)"
  by (simp add: hex_digit_def)

lemma printable_escape: "printable (escape s)"
proof (induction s)
  case (Cons c s)
  have "(of_char c :: nat) < 32 \<Longrightarrow> (of_char c :: nat) div 16 < 16" "(of_char c :: nat) mod 16 < 16"
    by simp_all
  then have "printable (escape_char c)"
    by (auto simp: escape_char_def intro: printable_hex)
  with Cons show ?case by (simp add: escape_simps)
qed (simp add: escape_simps)

lemma printable_join: "list_all printable ts \<Longrightarrow> printable (join_commas ts)"
  by (induction ts rule: join_commas.induct) auto

lemma printable_number: "list_all number_char t \<Longrightarrow> printable t"
  by (auto simp: printable_def list_all_iff number_char_def json_digit_def)

lemma printable_dump: "json_ok fl j \<Longrightarrow> printable (dump_json fl j)"
proof (induction j)
  case (JObj d)
  have "printable (dump_member fl m)" if "m \<in> set d" for m
    using JObj that by (cases m) (auto simp: list_all_iff dump_str_def printable_escape)
  then show ?case
    using printable_join [of "map (dump_member fl) d"] by (simp add: list_all_iff)
next
  case (JArr xs)
  then show ?case
    using printable_join [of "map (dump_json fl) xs"] by (simp add: list_all_iff)
qed (auto simp: printable_number int_str_number good_float_def dump_str_def printable_escape)

end
