(* ===== verification/Ipc_Duplex.thy ===== *)
theory Ipc_Duplex
  imports Json_Dump
begin

text \<open>
  The duplex protocol between the process of an anima (the root) and its task runners, \<^verbatim>\<open>core/supervisor/ipc_v2.py\<close>: JSON
  lines with a sequence number, cumulative acknowledgements, a send window and a replay buffer that outlives the
  connection; and the handshake of a reconnecting runner (\<^verbatim>\<open>_connect\<close> of \<^verbatim>\<open>task_runner.py\<close>, \<^verbatim>\<open>_handle_connection\<close> of
  \<^verbatim>\<open>task_runner_supervisor.py\<close>). Bytes are characters. Each operation is one run between two awaits of the peer: the
  outcome of \<^verbatim>\<open>writer.drain()\<close> and the clock are arguments, the bytes given to the transport are a result. A send is one
  step: that a peer's acknowledgement is handled while \<^verbatim>\<open>drain()\<close> waits, before \<^verbatim>\<open>send_seq\<close> has advanced, is outside the
  model. Bodies are JSON values; \<^verbatim>\<open>json.dumps(default=str)\<close> never has to convert one. The text of a
  float is the argument \<open>fl\<close>, as in \<open>Json_Dump\<close>.
\<close>

section \<open>Envelopes\<close>

datatype ipc_error = IProtocol string | ITooLarge | IClosed | IBackpressure | ITypeError | IKeyError | IUnicode

definition max_frame_bytes :: nat where
  "max_frame_bytes = 4 * 1024 * 1024"

definition window_max_frames :: nat where
  "window_max_frames = 64"

definition window_max_bytes :: nat where
  "window_max_bytes = 4 * 1024 * 1024"

datatype ipc_kind = KRequest | KResponse | KEvent

fun kind_str :: "ipc_kind \<Rightarrow> string" where
  "kind_str KRequest = ''request''"
| "kind_str KResponse = ''response''"
| "kind_str KEvent = ''event''"

definition ipc_lanes :: "string list" where
  "ipc_lanes = [''chat'', ''heartbeat'', ''cron'', ''task'', ''background'']"

definition base_fields :: "string list" where
  "base_fields = [''v'', ''kind'', ''job_id'', ''seq'', ''root_epoch'', ''attempt'', ''lane'', ''display_lane'']"

fun kind_fields :: "ipc_kind \<Rightarrow> string list" where
  "kind_fields KRequest = [''request_id'', ''method'', ''params'']"
| "kind_fields KResponse = [''request_id'', ''result'', ''error'']"
| "kind_fields KEvent = [''event'', ''data'']"

text \<open>The fields hold what was decoded; \<open>validate_identity\<close> checks their types.\<close>

record ipc_identity =
  ii_job :: json
  ii_epoch :: json
  ii_attempt :: json
  ii_lane :: json
  ii_display :: json

text \<open>
  \<^verbatim>\<open>uuid.UUID(s)\<close>: prefixes and hyphens are dropped, 32 characters remain, and \<^verbatim>\<open>int(.., 16)\<close> reads them (with its sign,
  prefix and single underscores; digits outside ASCII, which it also knows, are refused here).
\<close>

function remove_sub :: "string \<Rightarrow> string \<Rightarrow> string" where
  "remove_sub w [] = []"
| "remove_sub w (c # cs) =
     (if w \<noteq> [] \<and> starts_with (c # cs) w then remove_sub w (drop (length w) (c # cs)) else c # remove_sub w cs)"
  by pat_completeness auto

termination
  by (relation "measure (\<lambda>(w, s). length s)") auto

fun hex_groups :: "bool \<Rightarrow> string \<Rightarrow> bool" where
  "hex_groups after [] = after"
| "hex_groups after (c # cs) =
     (if hex_value c \<noteq> None then hex_groups True cs else if c = CHR ''_'' \<and> after then hex_groups False cs else False)"

definition int16_ok :: "string \<Rightarrow> bool" where
  "int16_ok t =
     (let u = py_strip t; neg = starts_with u ''-'';
          v = (if neg \<or> starts_with u ''+'' then drop 1 u else u);
          w = (if starts_with v ''0x'' \<or> starts_with v ''0X''
               then (let x = drop 2 v in if starts_with x ''_'' then drop 1 x else x) else v)
      in hex_groups False w \<and> (neg \<longrightarrow> list_all (\<lambda>c. c \<in> {CHR ''0'', CHR ''_''}) w))"

definition strip_braces :: "string \<Rightarrow> string" where
  "strip_braces s =
     (let brace = (\<lambda>c. c \<in> {CHR ''{'', CHR ''}''}) in rev (dropWhile brace (rev (dropWhile brace s))))"

definition uuid_ok :: "string \<Rightarrow> bool" where
  "uuid_ok s =
     (let t = remove_sub ''-'' (strip_braces (remove_sub ''uuid:'' (remove_sub ''urn:'' s)))
      in u_length t = 32 \<and> int16_ok t)"

fun json_nonempty :: "json \<Rightarrow> bool" where
  "json_nonempty (JStr s) = (s \<noteq> [])"
| "json_nonempty _ = False"

fun json_is_str :: "json \<Rightarrow> bool" where
  "json_is_str (JStr _) = True"
| "json_is_str _ = False"

fun is_dict :: "json \<Rightarrow> bool" where
  "is_dict (JObj _) = True"
| "is_dict _ = False"

fun unhashable :: "json \<Rightarrow> bool" where
  "unhashable (JArr _) = True"
| "unhashable (JObj _) = True"
| "unhashable _ = False"

fun int_at_least :: "int \<Rightarrow> json \<Rightarrow> bool" where
  "int_at_least n (JInt i) = (n \<le> i)"
| "int_at_least n _ = False"

text \<open>A lane that is a list or an object cannot be looked up in a frozenset.\<close>

definition validate_identity :: "ipc_identity \<Rightarrow> ipc_error option" where
  "validate_identity i =
     (if \<not> json_nonempty (ii_job i) then Some (IProtocol ''job_id'')
      else if \<not> (case ii_epoch i of JStr s \<Rightarrow> uuid_ok s | _ \<Rightarrow> False) then Some (IProtocol ''root_epoch'')
      else if \<not> int_at_least 1 (ii_attempt i) then Some (IProtocol ''attempt'')
      else if unhashable (ii_lane i) then Some ITypeError
      else if ii_lane i \<notin> set (map JStr ipc_lanes) then Some (IProtocol ''lane'')
      else if \<not> json_nonempty (ii_display i) then Some (IProtocol ''display_lane'')
      else None)"

record envelope =
  ev_kind :: ipc_kind
  ev_identity :: ipc_identity
  ev_seq :: nat
  ev_body :: dict

definition envelope_dict :: "envelope \<Rightarrow> dict" where
  "envelope_dict env =
     dict_merge
       [(''v'', JInt 2), (''kind'', JStr (kind_str (ev_kind env))), (''job_id'', ii_job (ev_identity env)), (''seq'', JInt (int (ev_seq env))),
        (''root_epoch'', ii_epoch (ev_identity env)), (''attempt'', ii_attempt (ev_identity env)), (''lane'', ii_lane (ev_identity env)),
        (''display_lane'', ii_display (ev_identity env))]
       (ev_body env)"

definition to_bytes :: "(rat \<Rightarrow> string) \<Rightarrow> envelope \<Rightarrow> ipc_error + string" where
  "to_bytes fl env =
     (let payload = dump_json fl (JObj (envelope_dict env))
      in if \<not> utf8 payload then Inl IUnicode
         else if max_frame_bytes < length payload then Inl ITooLarge
         else Inr (payload @ [CHR 0x0A]))"

text \<open>\<^verbatim>\<open>_validate_body\<close>; a missing key and \<^verbatim>\<open>None\<close> count alike for \<^verbatim>\<open>result\<close> and \<^verbatim>\<open>error\<close>.\<close>

definition field_ok :: "(json \<Rightarrow> bool) \<Rightarrow> dict \<Rightarrow> string \<Rightarrow> bool" where
  "field_ok p body k = (case map_of body k of None \<Rightarrow> False | Some v \<Rightarrow> p v)"

definition not_none :: "dict \<Rightarrow> string \<Rightarrow> bool" where
  "not_none body k = field_ok (\<lambda>v. v \<noteq> JNull) body k"

definition dict_or_missing :: "dict \<Rightarrow> string \<Rightarrow> bool" where
  "dict_or_missing body k = (case map_of body k of None \<Rightarrow> True | Some v \<Rightarrow> is_dict v)"

fun error_shape :: "json \<Rightarrow> bool" where
  "error_shape (JObj e) =
     (field_ok json_is_str e ''code'' \<and> field_ok json_is_str e ''message'' \<and> field_ok (\<lambda>v. case v of JBool _ \<Rightarrow> True | _ \<Rightarrow> False) e ''retryable'')"
| "error_shape _ = False"

fun validate_body :: "ipc_kind \<Rightarrow> dict \<Rightarrow> ipc_error option" where
  "validate_body KRequest body =
     (if \<not> field_ok json_nonempty body ''request_id'' then Some (IProtocol ''request_id'')
      else if \<not> field_ok json_nonempty body ''method'' then Some (IProtocol ''method'')
      else if \<not> dict_or_missing body ''params'' then Some (IProtocol ''params'') else None)"
| "validate_body KResponse body =
     (if \<not> field_ok json_nonempty body ''request_id'' then Some (IProtocol ''request_id'')
      else if not_none body ''result'' = not_none body ''error'' then Some (IProtocol ''result or error'')
      else if not_none body ''error'' \<and> \<not> field_ok error_shape body ''error'' then Some (IProtocol ''error'') else None)"
| "validate_body KEvent body =
     (if \<not> field_ok json_nonempty body ''event'' then Some (IProtocol ''event'')
      else if \<not> dict_or_missing body ''data'' then Some (IProtocol ''data'') else None)"

definition rstrip_newlines :: "string \<Rightarrow> string" where
  "rstrip_newlines p = rev (dropWhile (\<lambda>c. c \<in> {CHR 0x0A, CHR 0x0D}) (rev p))"

text \<open>\<^verbatim>\<open>data.get("v") != 2\<close>: 2.0 equals 2.\<close>

definition version_ok :: "json option \<Rightarrow> bool" where
  "version_ok v = (v = Some (JInt 2) \<or> v = Some (JFloat 2))"

definition kind_of :: "json option \<Rightarrow> ipc_error + ipc_kind" where
  "kind_of v =
     (case v of
        Some (JStr s) \<Rightarrow>
          if s = ''request'' then Inr KRequest else if s = ''response'' then Inr KResponse
          else if s = ''event'' then Inr KEvent else Inl (IProtocol ''kind'')
      | Some j \<Rightarrow> if unhashable j then Inl ITypeError else Inl (IProtocol ''kind'')
      | None \<Rightarrow> Inl (IProtocol ''kind''))"

definition read_fields :: "ipc_kind \<Rightarrow> dict \<Rightarrow> ipc_error + envelope" where
  "read_fields kind data =
     (if \<not> set (map fst data) \<subseteq> set base_fields \<union> set (kind_fields kind) then Inl (IProtocol ''unknown field'')
      else if \<not> set base_fields \<subseteq> set (map fst data) then Inl (IProtocol ''missing field'')
      else
        let get = (\<lambda>k. opt_or (map_of data k) JNull);
            i = \<lparr>ii_job = get ''job_id'', ii_epoch = get ''root_epoch'', ii_attempt = get ''attempt'', ii_lane = get ''lane'',
                 ii_display = get ''display_lane''\<rparr>;
            body = filter (\<lambda>(k, _). k \<notin> set base_fields) data
        in case validate_identity i of
             Some e \<Rightarrow> Inl e
           | None \<Rightarrow>
               (case get ''seq'' of
                  JInt n \<Rightarrow>
                    if n < 1 then Inl (IProtocol ''seq'')
                    else (case validate_body kind body of
                            Some e \<Rightarrow> Inl e
                          | None \<Rightarrow> Inr \<lparr>ev_kind = kind, ev_identity = i, ev_seq = nat n, ev_body = body\<rparr>)
                | _ \<Rightarrow> Inl (IProtocol ''seq'')))"

definition from_bytes :: "string \<Rightarrow> ipc_error + envelope" where
  "from_bytes payload =
     (let raw = rstrip_newlines payload
      in if max_frame_bytes < length raw then Inl ITooLarge
         else if \<not> utf8 raw then Inl (IProtocol ''invalid JSON'')
         else (case loads raw of
                 None \<Rightarrow> Inl (IProtocol ''invalid JSON'')
               | Some (JObj data) \<Rightarrow>
                   if \<not> version_ok (map_of data ''v'') then Inl (IProtocol ''v'')
                   else (case kind_of (map_of data ''kind'') of Inl e \<Rightarrow> Inl e | Inr kind \<Rightarrow> read_fields kind data)
               | Some _ \<Rightarrow> Inl (IProtocol ''not an object'')))"

section \<open>Connections\<close>

record conn_state =
  cs_identity :: ipc_identity
  cs_send :: nat
  cs_received :: nat
  cs_acked :: nat
  cs_unacked :: "(nat \<times> string) list"
  cs_bytes :: int

definition fresh_conn_state :: "ipc_identity \<Rightarrow> conn_state" where
  "fresh_conn_state i = \<lparr>cs_identity = i, cs_send = 0, cs_received = 0, cs_acked = 0, cs_unacked = [], cs_bytes = 0\<rparr>"

record connection =
  cn_state :: conn_state
  cn_closed :: bool
  cn_traffic :: rat

definition open_connection :: "rat \<Rightarrow> conn_state \<Rightarrow> ipc_error + connection" where
  "open_connection now st =
     (case validate_identity (cs_identity st) of
        Some e \<Rightarrow> Inl e
      | None \<Rightarrow> Inr \<lparr>cn_state = st, cn_closed = False, cn_traffic = now\<rparr>)"

definition request_body :: "string \<Rightarrow> string \<Rightarrow> dict \<Rightarrow> dict" where
  "request_body rid meth params = [(''request_id'', JStr rid), (''method'', JStr meth), (''params'', JObj params)]"

definition response_body :: "string \<Rightarrow> dict option \<Rightarrow> dict option \<Rightarrow> dict" where
  "response_body rid result err =
     [(''request_id'', JStr rid),
      (case err of
         Some e \<Rightarrow> (''error'', JObj e)
       | None \<Rightarrow> (''result'', case result of None \<Rightarrow> JNull | Some r \<Rightarrow> JObj r))]"

definition event_body :: "string \<Rightarrow> dict \<Rightarrow> dict" where
  "event_body name data = [(''event'', JStr name), (''data'', JObj data)]"

definition ack_body :: "nat \<Rightarrow> dict" where
  "ack_body seq = event_body ''ack'' [(''ack_seq'', JInt (int seq))]"

definition is_ack :: "ipc_kind \<Rightarrow> dict \<Rightarrow> bool" where
  "is_ack kind body = (kind = KEvent \<and> map_of body ''event'' = Some (JStr ''ack''))"

definition window_available :: "conn_state \<Rightarrow> nat \<Rightarrow> bool" where
  "window_available st n = (length (cs_unacked st) < window_max_frames \<and> cs_bytes st + int n \<le> int window_max_bytes)"

datatype drain = DrainOk | DrainTimeout | DrainBroken

datatype send_result = Sent nat | Blocked nat | Failed ipc_error

text \<open>
  One pass through the loop of \<^verbatim>\<open>_send\<close>: \<open>Blocked\<close> waits for the window, then tries again or ends with
  \<^verbatim>\<open>IPCV2BackpressureTimeout\<close>. The bytes were given to the transport also when the drain fails.
\<close>

definition send_frame ::
  "(rat \<Rightarrow> string) \<Rightarrow> rat \<Rightarrow> drain \<Rightarrow> ipc_kind \<Rightarrow> dict \<Rightarrow> connection \<Rightarrow> send_result \<times> string option \<times> connection" where
  "send_frame fl now dr kind body cn =
     (if cn_closed cn then (Failed IClosed, None, cn)
      else
        let st = cn_state cn; seq = Suc (cs_send st)
        in case to_bytes fl \<lparr>ev_kind = kind, ev_identity = cs_identity st, ev_seq = seq, ev_body = body\<rparr> of
             Inl e \<Rightarrow> (Failed e, None, cn)
           | Inr wire \<Rightarrow>
               let n = length wire - 1
               in if is_ack kind body \<or> window_available st n
                  then (case dr of
                          DrainTimeout \<Rightarrow> (Failed IBackpressure, Some wire, cn\<lparr>cn_closed := True\<rparr>)
                        | DrainBroken \<Rightarrow> (Failed IClosed, Some wire, cn\<lparr>cn_closed := True\<rparr>)
                        | DrainOk \<Rightarrow>
                            (Sent seq, Some wire,
                             cn\<lparr>cn_traffic := now,
                                cn_state := (if is_ack kind body then st\<lparr>cs_send := seq\<rparr>
                                             else st\<lparr>cs_send := seq, cs_unacked := cs_unacked st @ [(seq, wire)], cs_bytes := cs_bytes st + int n\<rparr>)\<rparr>))
                  else (Blocked n, None, cn))"

definition wire_bytes :: "(nat \<times> string) list \<Rightarrow> int" where
  "wire_bytes frames = sum_list (map (\<lambda>(_, wire). int (length wire - 1)) frames)"

definition apply_ack :: "json option \<Rightarrow> conn_state \<Rightarrow> ipc_error + conn_state" where
  "apply_ack v st =
     (case v of
        Some (JInt ack) \<Rightarrow>
          if ack < 0 then Inl (IProtocol ''ack_seq'')
          else if int (cs_send st) < ack then Inl (IProtocol ''ack_seq exceeds'')
          else
            let old = (\<lambda>(s, _). int s \<le> ack)
            in Inr (st\<lparr>cs_unacked := dropWhile old (cs_unacked st), cs_bytes := cs_bytes st - wire_bytes (takeWhile old (cs_unacked st)),
                       cs_acked := max (cs_acked st) (nat ack)\<rparr>)
      | _ \<Rightarrow> Inl (IProtocol ''ack_seq''))"

text \<open>
  \<^verbatim>\<open>receive\<close> behind the read: \<open>Inr None\<close> stays in its loop (an acknowledgement or a duplicate). An error of the
  acknowledgement's own send ends it after the sequence number was recorded.
\<close>

definition take_envelope ::
  "(rat \<Rightarrow> string) \<Rightarrow> rat \<Rightarrow> drain \<Rightarrow> envelope \<Rightarrow> connection \<Rightarrow> (ipc_error + envelope option) \<times> string option \<times> connection" where
  "take_envelope fl now dr env cn =
     (let st = cn_state cn
      in if ev_identity env \<noteq> cs_identity st then (Inl (IProtocol ''job identity''), None, cn)
         else
           let duplicate = (ev_seq env \<le> cs_received st);
               st1 = st\<lparr>cs_received := max (cs_received st) (ev_seq env)\<rparr>;
               cn1 = cn\<lparr>cn_traffic := now, cn_state := st1\<rparr>
           in if is_ack (ev_kind env) (ev_body env)
              then (case map_of (ev_body env) ''data'' of
                      Some (JObj d) \<Rightarrow>
                        (case apply_ack (map_of d ''ack_seq'') st1 of
                           Inl e \<Rightarrow> (Inl e, None, cn1)
                         | Inr st2 \<Rightarrow> (Inr None, None, cn1\<lparr>cn_state := st2\<rparr>))
                    | _ \<Rightarrow> (Inl IKeyError, None, cn1))
              else (case send_frame fl now dr KEvent (ack_body (ev_seq env)) cn1 of
                      (Failed e, w, cn2) \<Rightarrow> (Inl e, w, cn2)
                    | (_, w, cn2) \<Rightarrow> (Inr (if duplicate then None else Some env), w, cn2)))"

datatype line_read = ReadLine string | ReadBroken | ReadOverrun

definition read_envelope :: "line_read \<Rightarrow> ipc_error + envelope" where
  "read_envelope r =
     (case r of
        ReadBroken \<Rightarrow> Inl IClosed
      | ReadOverrun \<Rightarrow> Inl ITooLarge
      | ReadLine payload \<Rightarrow>
          if payload = [] then Inl IClosed
          else if max_frame_bytes < length (rstrip_newlines payload) then Inl ITooLarge
          else from_bytes payload)"

definition receive ::
  "(rat \<Rightarrow> string) \<Rightarrow> rat \<Rightarrow> drain \<Rightarrow> line_read \<Rightarrow> connection \<Rightarrow> (ipc_error + envelope option) \<times> string option \<times> connection" where
  "receive fl now dr r cn =
     (case read_envelope r of Inl e \<Rightarrow> (Inl e, None, cn) | Inr env \<Rightarrow> take_envelope fl now dr env cn)"

text \<open>\<^verbatim>\<open>accept_first\<close> repeats the body of \<^verbatim>\<open>receive\<close> for a frame that was read before.\<close>

definition accept_first ::
  "(rat \<Rightarrow> string) \<Rightarrow> rat \<Rightarrow> drain \<Rightarrow> envelope \<Rightarrow> connection \<Rightarrow> (ipc_error + envelope option) \<times> string option \<times> connection" where
  "accept_first fl now dr env cn = take_envelope fl now dr env cn"

text \<open>The frames that \<^verbatim>\<open>replay_after\<close> writes.\<close>

definition replay_after :: "nat \<Rightarrow> nat option \<Rightarrow> conn_state \<Rightarrow> string list" where
  "replay_after received through st =
     map snd (filter (\<lambda>(s, _). received < s \<and> (case through of None \<Rightarrow> True | Some t \<Rightarrow> s \<le> t)) (cs_unacked st))"

definition acknowledged :: "nat \<Rightarrow> conn_state \<Rightarrow> bool" where
  "acknowledged seq st = (seq \<le> cs_acked st)"

definition is_half_open :: "rat \<Rightarrow> connection \<Rightarrow> bool" where
  "is_half_open now cn = (15 \<le> now - cn_traffic cn)"

definition close_connection :: "connection \<Rightarrow> connection" where
  "close_connection cn = cn\<lparr>cn_closed := True\<rparr>"

section \<open>The handshake\<close>

text \<open>The first frame of a runner, also after it lost its connection.\<close>

definition hello_data :: "conn_state \<Rightarrow> dict" where
  "hello_data st =
     [(''capabilities'', JObj [(''reconnect'', JBool True), (''steer'', JBool False)]),
      (''last_received_seq'', JInt (int (cs_received st))), (''last_acked_seq'', JInt (int (cs_acked st)))]"

definition hello_ack_data :: "conn_state \<Rightarrow> dict" where
  "hello_ack_data st =
     [(''capabilities'', JObj [(''reconnect'', JBool True), (''steer'', JBool True)]),
      (''last_received_seq'', JInt (int (cs_received st))), (''last_acked_seq'', JInt (int (cs_acked st)))]"

text \<open>
  What the root does with a new connection of a registered job, up to the loop: the hello is accepted, answered, the
  unacknowledged frames are replayed and the run request is sent again (an interrupt that waits would follow). The first component is the written frames.
\<close>

definition last_received_of :: "dict \<Rightarrow> nat option" where
  "last_received_of data =
     (case map_of data ''last_received_seq'' of
        None \<Rightarrow> Some 0
      | Some (JInt i) \<Rightarrow> if i < 0 then None else Some (nat i)
      | Some _ \<Rightarrow> None)"

definition root_handshake ::
  "(rat \<Rightarrow> string) \<Rightarrow> rat \<Rightarrow> string \<Rightarrow> dict \<Rightarrow> envelope \<Rightarrow> connection \<Rightarrow> (ipc_error + string list) \<times> connection" where
  "root_handshake fl now rid params first cn =
     (case accept_first fl now DrainOk first cn of
        (Inr (Some env), w, cn1) \<Rightarrow>
          if ev_kind env \<noteq> KEvent \<or> map_of (ev_body env) ''event'' \<noteq> Some (JStr ''hello'') then (Inl (IProtocol ''first frame''), cn1)
          else
            (case map_of (ev_body env) ''data'' of
               Some (JObj data) \<Rightarrow>
                 let caps = (case map_of data ''capabilities'' of None \<Rightarrow> JNull | Some c \<Rightarrow> c)
                 in if truthy caps \<and> \<not> is_dict caps then (Inl (IProtocol ''capabilities''), cn1)
                    else case last_received_of data of
                      None \<Rightarrow> (Inl (IProtocol ''last_received_seq''), cn1)
                    | Some received \<Rightarrow>
                        let through = cs_send (cn_state cn1)
                        in case send_frame fl now DrainOk KEvent (event_body ''hello_ack'' (hello_ack_data (cn_state cn1))) cn1 of
                             (Sent _, Some h, cn2) \<Rightarrow>
                               let again = replay_after received (Some through) (cn_state cn2)
                               in (case send_frame fl now DrainOk KRequest (request_body rid ''run'' params) cn2 of
                                     (Sent _, Some r, cn3) \<Rightarrow> (Inr ((case w of None \<Rightarrow> [] | Some a \<Rightarrow> [a]) @ h # again @ [r]), cn3)
                                   | (Failed e, _, cn3) \<Rightarrow> (Inl e, cn3)
                                   | (_, _, cn3) \<Rightarrow> (Inl IBackpressure, cn3))
                           | (Failed e, _, cn2) \<Rightarrow> (Inl e, cn2)
                           | (_, _, cn2) \<Rightarrow> (Inl IBackpressure, cn2)
             | _ \<Rightarrow> (Inl IKeyError, cn1))
      | (Inr None, _, cn1) \<Rightarrow> (Inl (IProtocol ''first frame''), cn1)
      | (Inl e, _, cn1) \<Rightarrow> (Inl e, cn1))"

section \<open>What is decoded is well typed\<close>

text \<open>
  What a well-typed frame is, independent of the validators: names are non-empty texts, the epoch is a UUID, the attempt is
  at least 1, the lane is one of five; a request names its method, a response carries a result or an error but not both, an
  error has a code, a message and a flag, an event has a name, and parameters and data are objects where they are present.
\<close>

definition nonempty_text :: "json option \<Rightarrow> bool" where
  "nonempty_text v = (case v of Some (JStr s) \<Rightarrow> s \<noteq> [] | _ \<Rightarrow> False)"

definition object_if_present :: "json option \<Rightarrow> bool" where
  "object_if_present v = (case v of None \<Rightarrow> True | Some (JObj _) \<Rightarrow> True | _ \<Rightarrow> False)"

definition well_typed_error :: "json \<Rightarrow> bool" where
  "well_typed_error v =
     (case v of
        JObj e \<Rightarrow>
          (case map_of e ''code'' of Some (JStr _) \<Rightarrow> True | _ \<Rightarrow> False) \<and>
          (case map_of e ''message'' of Some (JStr _) \<Rightarrow> True | _ \<Rightarrow> False) \<and>
          (case map_of e ''retryable'' of Some (JBool _) \<Rightarrow> True | _ \<Rightarrow> False)
      | _ \<Rightarrow> False)"

definition well_typed_identity :: "ipc_identity \<Rightarrow> bool" where
  "well_typed_identity i =
     (nonempty_text (Some (ii_job i)) \<and>
      (case ii_epoch i of JStr s \<Rightarrow> uuid_ok s | _ \<Rightarrow> False) \<and>
      (case ii_attempt i of JInt n \<Rightarrow> 1 \<le> n | _ \<Rightarrow> False) \<and>
      (case ii_lane i of JStr l \<Rightarrow> l \<in> {''chat'', ''heartbeat'', ''cron'', ''task'', ''background''} | _ \<Rightarrow> False) \<and>
      nonempty_text (Some (ii_display i)))"

fun well_typed_body :: "ipc_kind \<Rightarrow> dict \<Rightarrow> bool" where
  "well_typed_body KRequest body =
     (nonempty_text (map_of body ''request_id'') \<and> nonempty_text (map_of body ''method'') \<and>
      object_if_present (map_of body ''params'') \<and> fst ` set body \<subseteq> {''request_id'', ''method'', ''params''})"
| "well_typed_body KResponse body =
     (nonempty_text (map_of body ''request_id'') \<and>
      (case (opt_or (map_of body ''result'') JNull, opt_or (map_of body ''error'') JNull) of
         (JNull, JNull) \<Rightarrow> False
       | (JNull, e) \<Rightarrow> well_typed_error e
       | (_, JNull) \<Rightarrow> True
       | _ \<Rightarrow> False) \<and>
      fst ` set body \<subseteq> {''request_id'', ''result'', ''error''})"
| "well_typed_body KEvent body =
     (nonempty_text (map_of body ''event'') \<and> object_if_present (map_of body ''data'') \<and>
      fst ` set body \<subseteq> {''event'', ''data''})"

definition envelope_ok :: "envelope \<Rightarrow> bool" where
  "envelope_ok env =
     (well_typed_identity (ev_identity env) \<and> 1 \<le> ev_seq env \<and> well_typed_body (ev_kind env) (ev_body env))"

lemma validate_identity_iff: "validate_identity i = None \<longleftrightarrow> well_typed_identity i"
  by (auto simp: validate_identity_def well_typed_identity_def nonempty_text_def ipc_lanes_def split: json.splits
      elim!: json_nonempty.elims int_at_least.elims unhashable.elims)

lemma error_shape_iff: "error_shape v \<longleftrightarrow> well_typed_error v"
  by (cases v) (auto simp: well_typed_error_def field_ok_def split: option.splits json.splits elim!: json_is_str.elims)

lemma validate_body_iff:
  "validate_body k body = None \<and> set (map fst body) \<subseteq> set (kind_fields k) \<longleftrightarrow> well_typed_body k body"
proof (cases k)
  case KResponse
  then show ?thesis
    by (auto simp: field_ok_def not_none_def nonempty_text_def error_shape_iff opt_or_def
        split: option.splits json.splits elim!: json_nonempty.elims)
qed (auto simp: field_ok_def nonempty_text_def dict_or_missing_def object_if_present_def
      split: option.splits json.splits elim!: json_nonempty.elims is_dict.elims)

lemma envelope_ok_iff:
  "envelope_ok env \<longleftrightarrow>
     validate_identity (ev_identity env) = None \<and> 1 \<le> ev_seq env \<and> validate_body (ev_kind env) (ev_body env) = None \<and>
     set (map fst (ev_body env)) \<subseteq> set (kind_fields (ev_kind env))"
  using validate_body_iff [of "ev_kind env" "ev_body env"] by (auto simp: envelope_ok_def validate_identity_iff)

lemma read_fields_ok:
  assumes "read_fields kind data = Inr env"
  shows "envelope_ok env \<and> ev_kind env = kind"
proof -
  define body where "body = filter (\<lambda>(k, _). k \<notin> set base_fields) data"
  have "set (map fst body) \<subseteq> set (map fst data) - set base_fields"
    by (auto simp: body_def)
  moreover have "set (map fst data) \<subseteq> set base_fields \<union> set (kind_fields kind)"
    using assms by (auto simp: read_fields_def split: if_splits)
  ultimately have keys: "set (map fst body) \<subseteq> set (kind_fields kind)"
    by blast
  have "ev_body env = body \<and> ev_kind env = kind \<and> validate_identity (ev_identity env) = None \<and> 1 \<le> ev_seq env \<and> validate_body kind body = None"
    using assms by (auto simp: read_fields_def Let_def body_def [symmetric] split: if_splits option.splits json.splits)
  with keys show ?thesis
    by (simp add: envelope_ok_iff)
qed

text \<open>
  C18. Whatever bytes arrive, a decoded frame is well typed: the job and the display lane are non-empty texts, the epoch is a
  UUID, the attempt and the sequence number are at least 1, the lane is one of the five, the body has the shape of its kind
  (a response has either a result or an error object with code, message and flag) and no field that the kind does not know,
  and the frame was at most 4 MiB long. Parameters and data may be missing: nothing is promised about their presence.
\<close>

theorem decoded_envelope_typed:
  assumes "from_bytes payload = Inr env"
  shows "envelope_ok env \<and> length (rstrip_newlines payload) \<le> max_frame_bytes"
proof -
  obtain kind data where "read_fields kind data = Inr env"
    using assms by (auto simp: from_bytes_def Let_def split: if_splits option.splits json.splits sum.splits)
  moreover have "length (rstrip_newlines payload) \<le> max_frame_bytes"
    using assms by (auto simp: from_bytes_def Let_def split: if_splits)
  ultimately show ?thesis
    using read_fields_ok by blast
qed

section \<open>Round trip\<close>

definition identity_ok :: "ipc_identity \<Rightarrow> bool" where
  "identity_ok i = (validate_identity i = None \<and> list_all (\<lambda>v. case v of JStr s \<Rightarrow> utf8 s | _ \<Rightarrow> True) [ii_job i, ii_epoch i, ii_display i])"

lemma identity_json:
  assumes "identity_ok i"
  shows "json_ok fl (ii_job i)" "json_ok fl (ii_epoch i)" "json_ok fl (ii_attempt i)" "json_ok fl (ii_lane i)" "json_ok fl (ii_display i)"
proof -
  have lanes: "\<forall>l \<in> set ipc_lanes. utf8 l"
    by code_simp
  have v: "json_nonempty (ii_job i)" "json_is_str (ii_epoch i)" "int_at_least 1 (ii_attempt i)" "ii_lane i \<in> set (map JStr ipc_lanes)"
      "json_nonempty (ii_display i)"
    using assms by (auto simp: identity_ok_def validate_identity_def split: if_splits json.splits)
  show "json_ok fl (ii_job i)" "json_ok fl (ii_epoch i)" "json_ok fl (ii_display i)"
    using v assms by (auto simp: identity_ok_def split: json.splits elim!: json_nonempty.elims json_is_str.elims)
  show "json_ok fl (ii_attempt i)"
    using v(3) by (cases "ii_attempt i") auto
  show "json_ok fl (ii_lane i)"
    using v(4) lanes by auto
qed

definition base_dict :: "envelope \<Rightarrow> dict" where
  "base_dict env =
     [(''v'', JInt 2), (''kind'', JStr (kind_str (ev_kind env))), (''job_id'', ii_job (ev_identity env)), (''seq'', JInt (int (ev_seq env))),
      (''root_epoch'', ii_epoch (ev_identity env)), (''attempt'', ii_attempt (ev_identity env)), (''lane'', ii_lane (ev_identity env)),
      (''display_lane'', ii_display (ev_identity env))]"

lemma base_keys: "map fst (base_dict env) = base_fields" "distinct base_fields" "set base_fields \<inter> set (kind_fields kind) = {}"
  by (simp_all add: base_dict_def base_fields_def) (cases kind; simp)

lemma envelope_dict_append:
  assumes "envelope_ok env" "distinct (map fst (ev_body env))"
  shows "envelope_dict env = base_dict env @ ev_body env" "distinct (map fst (base_dict env @ ev_body env))"
proof -
  show d: "distinct (map fst (base_dict env @ ev_body env))"
    using assms base_keys(1) [of env] base_keys(2) base_keys(3) [of "ev_kind env"] by (auto simp: envelope_ok_iff)
  show "envelope_dict env = base_dict env @ ev_body env"
    using dict_merge_new [OF d] by (simp add: envelope_dict_def base_dict_def)
qed

lemma utf8_kind: "utf8 (kind_str k)"
proof -
  have "list_all (\<lambda>k. utf8 (kind_str k)) [KRequest, KResponse, KEvent]"
    by code_simp
  then show ?thesis
    by (cases k) simp_all
qed

lemma base_json:
  assumes "identity_ok (ev_identity env)"
  shows "list_all (\<lambda>(k, v). utf8 k \<and> json_ok fl v) (base_dict env)"
proof -
  have "\<forall>k \<in> set base_fields. utf8 k"
    by code_simp
  then have keys: "\<forall>k \<in> set (map fst (base_dict env)). utf8 k"
    by (simp only: base_keys(1))
  have "\<forall>(k, v) \<in> set (base_dict env). json_ok fl v"
    using identity_json [OF assms, of fl] utf8_kind by (simp add: base_dict_def)
  with keys show ?thesis
    by (fastforce simp: list_all_iff)
qed

text \<open>An envelope that can be sent: well typed, with a body that JSON can hold.\<close>

definition sendable :: "(rat \<Rightarrow> string) \<Rightarrow> envelope \<Rightarrow> bool" where
  "sendable fl env = (envelope_ok env \<and> identity_ok (ev_identity env) \<and> json_ok fl (JObj (ev_body env)))"

lemma sendable_dict:
  assumes "sendable fl env"
  shows "envelope_dict env = base_dict env @ ev_body env" "json_ok fl (JObj (envelope_dict env))"
proof -
  have d: "distinct (map fst (ev_body env))"
    using assms by (simp add: sendable_def)
  show e: "envelope_dict env = base_dict env @ ev_body env"
    using assms d envelope_dict_append(1) by (simp add: sendable_def)
  show "json_ok fl (JObj (envelope_dict env))"
    using assms d envelope_dict_append(2) [of env] base_json [of env fl] unfolding e by (simp add: sendable_def)
qed

lemma sendable_text:
  assumes "sendable fl env"
  shows "utf8 (dump_json fl (JObj (envelope_dict env)))" "printable (dump_json fl (JObj (envelope_dict env)))"
    "loads (dump_json fl (JObj (envelope_dict env))) = Some (JObj (base_dict env @ ev_body env))"
  using utf8_dump_json printable_dump loads_dump_json sendable_dict [OF assms] by metis+

lemma rstrip_line: "printable t \<Longrightarrow> rstrip_newlines (t @ [CHR 0x0A]) = t"
proof (cases t rule: rev_cases)
  case (snoc u c)
  assume "printable t"
  then have "c \<noteq> CHR 0x0A" "c \<noteq> CHR 0x0D"
    using snoc by auto
  with snoc show ?thesis
    by (simp add: rstrip_newlines_def)
qed (simp add: rstrip_newlines_def)

lemma kind_of_str: "kind_of (Some (JStr (kind_str k))) = Inr k"
  by (cases k) (simp_all add: kind_of_def)

lemma base_get:
  "map_of (base_dict env @ b) ''job_id'' = Some (ii_job (ev_identity env))" "map_of (base_dict env @ b) ''root_epoch'' = Some (ii_epoch (ev_identity env))"
  "map_of (base_dict env @ b) ''attempt'' = Some (ii_attempt (ev_identity env))" "map_of (base_dict env @ b) ''lane'' = Some (ii_lane (ev_identity env))"
  "map_of (base_dict env @ b) ''display_lane'' = Some (ii_display (ev_identity env))" "map_of (base_dict env @ b) ''seq'' = Some (JInt (int (ev_seq env)))"
  "map_of (base_dict env @ b) ''v'' = Some (JInt 2)" "map_of (base_dict env @ b) ''kind'' = Some (JStr (kind_str (ev_kind env)))"
  by (simp_all add: base_dict_def)

lemma read_fields_base:
  assumes "sendable fl env"
  shows "read_fields (ev_kind env) (base_dict env @ ev_body env) = Inr env"
proof -
  have ok: "envelope_ok env"
    using assms by (simp add: sendable_def)
  then have keys: "set (map fst (ev_body env)) \<subseteq> set (kind_fields (ev_kind env))"
    by (simp add: envelope_ok_iff)
  have all: "set (map fst (base_dict env @ ev_body env)) = set base_fields \<union> set (map fst (ev_body env))"
    by (simp only: map_append set_append base_keys(1))
  have "filter (\<lambda>(k, _). k \<notin> set base_fields) (base_dict env) = []"
    by (simp add: base_dict_def base_fields_def)
  moreover have "filter (\<lambda>(k, _). k \<notin> set base_fields) (ev_body env) = ev_body env"
    using keys base_keys(3) [of "ev_kind env"] by (fastforce simp: filter_id_conv)
  ultimately have body: "filter (\<lambda>(k, _). k \<notin> set base_fields) (base_dict env @ ev_body env) = ev_body env"
    by simp
  have i: "\<lparr>ii_job = ii_job (ev_identity env), ii_epoch = ii_epoch (ev_identity env), ii_attempt = ii_attempt (ev_identity env),
      ii_lane = ii_lane (ev_identity env), ii_display = ii_display (ev_identity env)\<rparr> = ev_identity env"
    by simp
  show ?thesis
    unfolding read_fields_def all body Let_def base_get opt_or_simps i
    using keys ok by (auto simp: envelope_ok_iff)
qed

lemma envelope_decodes:
  assumes "sendable fl env" "to_bytes fl env = Inr wire"
  shows "read_envelope (ReadLine wire) = Inr env \<and> (\<exists>t. wire = t @ [CHR 0x0A] \<and> CHR 0x0A \<notin> set t)"
proof -
  define t where "t = dump_json fl (JObj (envelope_dict env))"
  have t: "utf8 t" "printable t" "loads t = Some (JObj (base_dict env @ ev_body env))"
    unfolding t_def by (rule sendable_text [OF assms(1)])+
  have wire: "wire = t @ [CHR 0x0A]" "length t \<le> max_frame_bytes"
    using assms(2) unfolding to_bytes_def t_def [symmetric] by (auto simp: Let_def split: if_splits)
  have "from_bytes wire = Inr env"
    unfolding from_bytes_def Let_def wire(1) rstrip_line [OF t(2)]
    using wire(2) t(1,3) read_fields_base [OF assms(1)] by (simp add: base_get version_ok_def kind_of_str del: map_of_append utf8.simps)
  moreover have "CHR 0x0A \<notin> set t"
    using t(2) by (auto simp: printable_def)
  ultimately show ?thesis
    using wire rstrip_line [OF t(2)] by (simp add: read_envelope_def)
qed

text \<open>The lines that successive \<^verbatim>\<open>readline\<close> calls give, each with its line feed.\<close>

function stream_lines :: "string \<Rightarrow> string list" where
  "stream_lines [] = []"
| "stream_lines (c # cs) =
     (case dropWhile (\<lambda>x. x \<noteq> CHR 0x0A) (c # cs) of
        [] \<Rightarrow> [c # cs]
      | nl # rest \<Rightarrow> (takeWhile (\<lambda>x. x \<noteq> CHR 0x0A) (c # cs) @ [nl]) # stream_lines rest)"
  by pat_completeness auto

termination
proof (relation "measure length")
  fix c cs nl and rest :: string
  assume "dropWhile (\<lambda>x. x \<noteq> CHR 0x0A) (c # cs) = nl # rest"
  then have "length (nl # rest) \<le> length (c # cs)"
    by (metis length_dropWhile_le)
  then show "(rest, c # cs) \<in> measure length"
    by simp
qed simp

lemma stream_lines_line:
  assumes "CHR 0x0A \<notin> set t"
  shows "stream_lines (t @ CHR 0x0A # r) = (t @ [CHR 0x0A]) # stream_lines r"
proof -
  have ne: "\<forall>x \<in> set t. x \<noteq> CHR 0x0A"
    using assms by auto
  obtain c cs where "t @ CHR 0x0A # r = c # cs"
    by (cases "t @ CHR 0x0A # r") auto
  moreover have "dropWhile (\<lambda>x. x \<noteq> CHR 0x0A) (t @ CHR 0x0A # r) = CHR 0x0A # r"
      "takeWhile (\<lambda>x. x \<noteq> CHR 0x0A) (t @ CHR 0x0A # r) = t"
    using ne by (simp_all add: dropWhile_append3 takeWhile_append2 dropWhile_append2)
  ultimately show ?thesis
    by simp
qed

text \<open>
  C15. Every envelope that can be sent reads back as itself, through UTF-8, JSON and the checks: the byte stream of any
  sequence of sent envelopes, read line by line, gives exactly that sequence.
\<close>

theorem stream_roundtrip:
  assumes "list_all2 (\<lambda>env wire. sendable fl env \<and> to_bytes fl env = Inr wire) envs wires"
  shows "map (\<lambda>line. read_envelope (ReadLine line)) (stream_lines (concat wires)) = map Inr envs"
  using assms
proof (induction rule: list_all2_induct)
  case (Cons env envs wire wires)
  with envelope_decodes [of fl env wire] obtain t where
    t: "wire = t @ [CHR 0x0A]" "CHR 0x0A \<notin> set t" "read_envelope (ReadLine wire) = Inr env"
    by blast
  with stream_lines_line [OF t(2), of "concat wires"] Cons.IH show ?case
    by simp
qed simp

section \<open>One endpoint against any peer\<close>

text \<open>
  An endpoint with what it delivered: it sends, receives arbitrary lines, closes, and reconnects with its retained
  state, in any order and with any outcome of the transport.
\<close>

record endpoint =
  ep_conn :: connection
  ep_got :: "envelope list"

definition delivered :: "ipc_error + envelope option \<Rightarrow> envelope list" where
  "delivered r = (case r of Inr (Some env) \<Rightarrow> [env] | _ \<Rightarrow> [])"

inductive endpoint_step :: "(rat \<Rightarrow> string) \<Rightarrow> endpoint \<Rightarrow> endpoint \<Rightarrow> bool" for fl where
  ep_send: "send_frame fl now dr kind body (ep_conn e) = (r, w, c) \<Longrightarrow> endpoint_step fl e (e\<lparr>ep_conn := c\<rparr>)"
| ep_receive: "receive fl now dr line (ep_conn e) = (r, w, c) \<Longrightarrow>
     endpoint_step fl e (e\<lparr>ep_conn := c, ep_got := ep_got e @ delivered r\<rparr>)"
| ep_close: "endpoint_step fl e (e\<lparr>ep_conn := close_connection (ep_conn e)\<rparr>)"
| ep_reopen: "open_connection now (cn_state (ep_conn e)) = Inr c \<Longrightarrow> endpoint_step fl e (e\<lparr>ep_conn := c\<rparr>)"

definition conn_inv :: "conn_state \<Rightarrow> bool" where
  "conn_inv st =
     (sorted_wrt (<) (map fst (cs_unacked st)) \<and> (\<forall>(s, w) \<in> set (cs_unacked st). cs_acked st < s \<and> s \<le> cs_send st) \<and>
      cs_acked st \<le> cs_send st \<and> cs_bytes st = wire_bytes (cs_unacked st) \<and> length (cs_unacked st) \<le> window_max_frames \<and>
      cs_bytes st \<le> int window_max_bytes)"

definition endpoint_inv :: "endpoint \<Rightarrow> bool" where
  "endpoint_inv e =
     (conn_inv (cn_state (ep_conn e)) \<and> sorted_wrt (<) (map ev_seq (ep_got e)) \<and>
      (\<forall>env \<in> set (ep_got e). ev_seq env \<le> cs_received (cn_state (ep_conn e))))"

lemma wire_bytes_append: "wire_bytes (xs @ ys) = wire_bytes xs + wire_bytes ys"
  by (simp add: wire_bytes_def)

lemma wire_bytes_nonneg: "0 \<le> wire_bytes xs"
  by (induction xs) (auto simp: wire_bytes_def)

lemma send_frame_cases:
  assumes "send_frame fl now dr kind body cn = (r, w, cn')"
  shows "cs_received (cn_state cn') = cs_received (cn_state cn)"
    "(\<forall>n. r \<noteq> Sent n) \<Longrightarrow> cn_state cn' = cn_state cn"
    "r = Sent n \<Longrightarrow> \<exists>wire. w = Some wire \<and> n = Suc (cs_send (cn_state cn)) \<and> \<not> cn_closed cn \<and> \<not> cn_closed cn' \<and>
       to_bytes fl \<lparr>ev_kind = kind, ev_identity = cs_identity (cn_state cn), ev_seq = n, ev_body = body\<rparr> = Inr wire \<and>
       (is_ack kind body \<or> window_available (cn_state cn) (length wire - 1)) \<and>
       cn_state cn' = (if is_ack kind body then (cn_state cn)\<lparr>cs_send := n\<rparr>
         else (cn_state cn)\<lparr>cs_send := n, cs_unacked := cs_unacked (cn_state cn) @ [(n, wire)],
                            cs_bytes := cs_bytes (cn_state cn) + int (length wire - 1)\<rparr>)"
  using assms by (auto simp: send_frame_def Let_def split: if_splits sum.splits drain.splits)

lemma send_frame_inv:
  assumes "conn_inv (cn_state cn)" "send_frame fl now dr kind body cn = (r, w, cn')"
  shows "conn_inv (cn_state cn')"
proof (cases "\<exists>n. r = Sent n")
  case False
  with send_frame_cases(2) [OF assms(2)] assms(1) show ?thesis by simp
next
  case True
  then obtain n where "r = Sent n" ..
  from send_frame_cases(3) [OF assms(2) this] obtain wire where
    n: "n = Suc (cs_send (cn_state cn))" and win: "is_ack kind body \<or> window_available (cn_state cn) (length wire - 1)" and
    st: "cn_state cn' = (if is_ack kind body then (cn_state cn)\<lparr>cs_send := n\<rparr>
         else (cn_state cn)\<lparr>cs_send := n, cs_unacked := cs_unacked (cn_state cn) @ [(n, wire)],
                            cs_bytes := cs_bytes (cn_state cn) + int (length wire - 1)\<rparr>)"
    by blast
  show ?thesis
  proof (cases "is_ack kind body")
    case True
    with assms(1) st n show ?thesis
      by (fastforce simp: conn_inv_def)
  next
    case False
    have "\<forall>s \<in> fst ` set (cs_unacked (cn_state cn)). s < n"
      using assms(1) n by (fastforce simp: conn_inv_def)
    with False assms(1) st n win show ?thesis
      by (fastforce simp: conn_inv_def window_available_def sorted_wrt_append wire_bytes_append wire_bytes_def)
  qed
qed

lemma sorted_dropWhile_gt:
  assumes "sorted_wrt (<) (map fst (xs :: (nat \<times> string) list))" "(s, w) \<in> set (dropWhile (\<lambda>(s, _). int s \<le> a) xs)"
  shows "a < int s"
  using assms
proof (induction xs)
  case Nil
  then show ?case by simp
next
  case (Cons x xs)
  show ?case
  proof (cases "int (fst x) \<le> a")
    case True
    with Cons show ?thesis by (cases x) auto
  next
    case False
    with Cons.prems(2) have "(s, w) = x \<or> (s, w) \<in> set xs"
      by (cases x) auto
    with Cons.prems(1) False show ?thesis
      by fastforce
  qed
qed

lemma apply_ack_inv:
  assumes "conn_inv st" "apply_ack v st = Inr st'"
  shows "conn_inv st' \<and> cs_received st' = cs_received st \<and> cs_send st' = cs_send st \<and> cs_identity st' = cs_identity st"
proof -
  obtain ack where ack: "v = Some (JInt ack)" "0 \<le> ack" "ack \<le> int (cs_send st)"
    using assms(2) by (auto simp: apply_ack_def Let_def split: option.splits json.splits if_splits)
  let ?old = "\<lambda>(s, _ :: string). int s \<le> ack"
  have st': "st' = st\<lparr>cs_unacked := dropWhile ?old (cs_unacked st), cs_bytes := cs_bytes st - wire_bytes (takeWhile ?old (cs_unacked st)),
      cs_acked := max (cs_acked st) (nat ack)\<rparr>"
    using assms(2) ack by (simp add: apply_ack_def Let_def)
  define un where "un = dropWhile ?old (cs_unacked st)"
  have split: "cs_unacked st = takeWhile ?old (cs_unacked st) @ un"
    by (simp add: un_def)
  have sorted: "sorted_wrt (<) (map fst (cs_unacked st))"
    using assms(1) by (simp add: conn_inv_def)
  then have "sorted_wrt (<) (map fst un)"
    by (subst (asm) split) (simp add: sorted_wrt_append)
  moreover have "\<forall>(s, w) \<in> set un. max (cs_acked st) (nat ack) < s \<and> s \<le> cs_send st"
  proof (intro ballI, clarify)
    fix s w assume m: "(s, w) \<in> set un"
    have "ack < int s"
      using sorted_dropWhile_gt [OF sorted] m by (simp add: un_def)
    moreover have "(s, w) \<in> set (cs_unacked st)"
      using m by (auto simp: un_def dest: set_dropWhileD)
    ultimately show "max (cs_acked st) (nat ack) < s \<and> s \<le> cs_send st"
      using assms(1) ack(2) by (auto simp: conn_inv_def)
  qed
  moreover have "cs_bytes st - wire_bytes (takeWhile ?old (cs_unacked st)) = wire_bytes un"
    using assms(1) arg_cong [OF split, of wire_bytes] by (simp add: conn_inv_def wire_bytes_append)
  moreover have "length un \<le> length (cs_unacked st)"
    by (simp add: un_def length_dropWhile_le)
  ultimately show ?thesis
    using assms(1) ack wire_bytes_nonneg [of "takeWhile ?old (cs_unacked st)"]
    unfolding st' un_def [symmetric] by (auto simp: conn_inv_def)
qed

lemma conn_inv_received [simp]: "conn_inv (st\<lparr>cs_received := n\<rparr>) = conn_inv st"
  by (simp add: conn_inv_def)

text \<open>What taking a frame can lead to.\<close>

lemma take_envelope_cases:
  assumes "take_envelope fl now dr env cn = (r, w, cn')"
    and st1: "st1 = (cn_state cn)\<lparr>cs_received := max (cs_received (cn_state cn)) (ev_seq env)\<rparr>"
    and cn1: "cn1 = cn\<lparr>cn_traffic := now, cn_state := st1\<rparr>"
  obtains (refused) "ev_identity env \<noteq> cs_identity (cn_state cn)" "cn' = cn" "delivered r = []" "\<exists>e. r = Inl e"
  | (ack) v st2 where "is_ack (ev_kind env) (ev_body env)" "w = None" "r = Inr None" "apply_ack v st1 = Inr st2" "cn' = cn1\<lparr>cn_state := st2\<rparr>"
      "\<exists>d. map_of (ev_body env) ''data'' = Some (JObj d) \<and> v = map_of d ''ack_seq''"
  | (bad_ack) "is_ack (ev_kind env) (ev_body env)" "cn' = cn1" "\<exists>e. r = Inl e" "w = None"
      "\<forall>d. map_of (ev_body env) ''data'' = Some (JObj d) \<longrightarrow> (\<exists>e. apply_ack (map_of d ''ack_seq'') st1 = Inl e)"
  | (frame) sr where "\<not> is_ack (ev_kind env) (ev_body env)" "send_frame fl now dr KEvent (ack_body (ev_seq env)) cn1 = (sr, w, cn')"
      "r = (case sr of Failed e \<Rightarrow> Inl e | _ \<Rightarrow> Inr (if ev_seq env \<le> cs_received (cn_state cn) then None else Some env))"
proof (cases "ev_identity env \<noteq> cs_identity (cn_state cn)")
  case True
  then show thesis
    using assms(1) by (intro refused) (auto simp: take_envelope_def delivered_def)
next
  case same: False
  show thesis
  proof (cases "is_ack (ev_kind env) (ev_body env)")
    case True
    have eq: "take_envelope fl now dr env cn =
        (case map_of (ev_body env) ''data'' of
           Some (JObj d) \<Rightarrow> (case apply_ack (map_of d ''ack_seq'') st1 of Inl e \<Rightarrow> (Inl e, None, cn1) | Inr st2 \<Rightarrow> (Inr None, None, cn1\<lparr>cn_state := st2\<rparr>))
         | _ \<Rightarrow> (Inl IKeyError, None, cn1))"
      unfolding take_envelope_def Let_def st1 [symmetric] cn1 [symmetric] using same True by simp
    show thesis
    proof (cases "\<exists>d st2. map_of (ev_body env) ''data'' = Some (JObj d) \<and> apply_ack (map_of d ''ack_seq'') st1 = Inr st2")
      case a: True
      then obtain d st2 where "map_of (ev_body env) ''data'' = Some (JObj d)" "apply_ack (map_of d ''ack_seq'') st1 = Inr st2"
        by blast
      with eq assms(1) True show thesis
        by (intro ack [of "map_of d ''ack_seq''" st2]) auto
    next
      case False
      have "(\<exists>e. r = Inl e) \<and> w = None \<and> cn' = cn1"
        using eq assms(1) False by (auto split: option.splits json.splits sum.splits)
      moreover have "\<exists>e. apply_ack (map_of d ''ack_seq'') st1 = Inl e" if "map_of (ev_body env) ''data'' = Some (JObj d)" for d
        using False that by (cases "apply_ack (map_of d ''ack_seq'') st1") auto
      ultimately show thesis
        using bad_ack True by blast
    qed
  next
    case False
    obtain sr sw cn2 where send: "send_frame fl now dr KEvent (ack_body (ev_seq env)) cn1 = (sr, sw, cn2)"
      by (metis prod_cases3)
    have "take_envelope fl now dr env cn =
        (case sr of Failed e \<Rightarrow> (Inl e, sw, cn2) | _ \<Rightarrow> (Inr (if ev_seq env \<le> cs_received (cn_state cn) then None else Some env), sw, cn2))"
      unfolding take_envelope_def Let_def st1 [symmetric] cn1 [symmetric] send using same False by (simp split: send_result.splits)
    with assms(1) send False show thesis
      by (intro frame [of sr]) (auto split: send_result.splits)
  qed
qed

lemma take_envelope_inv:
  assumes "conn_inv (cn_state cn)" "take_envelope fl now dr env cn = (r, w, cn')"
  shows "conn_inv (cn_state cn') \<and> cs_received (cn_state cn) \<le> cs_received (cn_state cn') \<and>
    (delivered r = [] \<or> delivered r = [env] \<and> cs_received (cn_state cn) < ev_seq env \<and> ev_seq env = cs_received (cn_state cn'))"
proof -
  define st1 where "st1 = (cn_state cn)\<lparr>cs_received := max (cs_received (cn_state cn)) (ev_seq env)\<rparr>"
  define cn1 where "cn1 = cn\<lparr>cn_traffic := now, cn_state := st1\<rparr>"
  have st1: "conn_inv st1" "cs_received st1 = max (cs_received (cn_state cn)) (ev_seq env)" "cn_state cn1 = st1"
    using assms(1) by (simp_all add: st1_def cn1_def)
  show ?thesis
  proof (rule take_envelope_cases [OF assms(2) st1_def cn1_def])
    fix v st2
    assume "apply_ack v st1 = Inr st2" "cn' = cn1\<lparr>cn_state := st2\<rparr>" "r = Inr None"
    with apply_ack_inv [OF st1(1)] st1(2) show ?thesis
      by (simp add: delivered_def)
  next
    fix sr
    assume send: "send_frame fl now dr KEvent (ack_body (ev_seq env)) cn1 = (sr, w, cn')"
      and r: "r = (case sr of Failed e \<Rightarrow> Inl e | _ \<Rightarrow> Inr (if ev_seq env \<le> cs_received (cn_state cn) then None else Some env))"
    have "conn_inv (cn_state cn')"
      using send_frame_inv [OF _ send] st1 by simp
    with send_frame_cases(1) [OF send] st1 r show ?thesis
      by (auto simp: delivered_def split: send_result.splits if_splits)
  qed (use assms(1) st1 in \<open>auto simp: delivered_def\<close>)
qed

lemma receive_inv:
  assumes "conn_inv (cn_state cn)" "receive fl now dr line cn = (r, w, cn')"
  shows "conn_inv (cn_state cn') \<and> cs_received (cn_state cn) \<le> cs_received (cn_state cn') \<and>
    (delivered r = [] \<or> (\<exists>env. delivered r = [env] \<and> cs_received (cn_state cn) < ev_seq env \<and> ev_seq env = cs_received (cn_state cn')))"
proof (cases "read_envelope line")
  case (Inl e)
  with assms show ?thesis by (auto simp: receive_def delivered_def)
next
  case (Inr env)
  with assms(2) have "take_envelope fl now dr env cn = (r, w, cn')" by (simp add: receive_def)
  from take_envelope_inv [OF assms(1) this] show ?thesis by blast
qed

lemma endpoint_step_inv:
  assumes "endpoint_step fl e e'" "endpoint_inv e"
  shows "endpoint_inv e'"
  using assms
proof (cases rule: endpoint_step.cases)
  case (ep_send now dr kind body r w c)
  with assms(2) send_frame_inv [OF _ ep_send(2)] send_frame_cases(1) [OF ep_send(2)] show ?thesis
    by (simp add: endpoint_inv_def)
next
  case (ep_receive now dr line r w c)
  have inv: "conn_inv (cn_state (ep_conn e))"
    using assms(2) by (simp add: endpoint_inv_def)
  from receive_inv [OF inv ep_receive(2)] assms(2) ep_receive(1) show ?thesis
    by (fastforce simp: endpoint_inv_def sorted_wrt_append)
next
  case ep_close
  with assms(2) show ?thesis by (simp add: endpoint_inv_def close_connection_def)
next
  case (ep_reopen now c)
  then have "cn_state c = cn_state (ep_conn e)"
    by (auto simp: open_connection_def split: option.splits)
  with assms(2) ep_reopen(1) show ?thesis by (simp add: endpoint_inv_def)
qed

definition new_endpoint :: "endpoint \<Rightarrow> bool" where
  "new_endpoint e = (ep_got e = [] \<and> (\<exists>i. cn_state (ep_conn e) = fresh_conn_state i))"

lemma endpoint_inv_new: "new_endpoint e \<Longrightarrow> endpoint_inv e"
  by (auto simp: new_endpoint_def endpoint_inv_def fresh_conn_state_def conn_inv_def wire_bytes_def)

interpretation ep: step_invariant new_endpoint "endpoint_step fl" endpoint_inv for fl
  by unfold_locales (auto intro: endpoint_inv_new endpoint_step_inv)

text \<open>
  C17. No frame is delivered twice, whatever the peer and the transport do and however often the connection is renewed: the
  sequence numbers of the delivered frames increase strictly.
\<close>

theorem delivered_at_most_once:
  assumes "new_endpoint e" "(endpoint_step fl)\<^sup>*\<^sup>* e e'"
  shows "sorted_wrt (<) (map ev_seq (ep_got e'))"
  using ep.inv_reachable [OF assms] by (simp add: endpoint_inv_def)

text \<open>
  C16. The send window holds in every run: at most 64 frames and 4 MiB are unacknowledged, the byte count is exact, and what
  is acknowledged is no longer kept. The window cannot wedge: once everything is acknowledged, every frame that can be
  encoded may be sent.
\<close>

theorem window_respected:
  assumes "new_endpoint e" "(endpoint_step fl)\<^sup>*\<^sup>* e e'" "st = cn_state (ep_conn e')"
  shows "length (cs_unacked st) \<le> 64 \<and> cs_bytes st = wire_bytes (cs_unacked st) \<and> cs_bytes st \<le> 4194304 \<and>
    (\<forall>(s, w) \<in> set (cs_unacked st). cs_acked st < s \<and> s \<le> cs_send st) \<and>
    (cs_unacked st = [] \<longrightarrow> (\<forall>env wire. to_bytes fl env = Inr wire \<longrightarrow> window_available st (length wire - 1)))"
proof -
  have inv: "conn_inv st"
    using ep.inv_reachable [OF assms(1,2)] by (simp add: endpoint_inv_def assms(3))
  have "window_available st (length wire - 1)" if "cs_unacked st = []" "to_bytes fl env = Inr wire" for env wire
  proof -
    have "length wire - 1 \<le> max_frame_bytes"
      using that(2) by (auto simp: to_bytes_def Let_def split: if_splits)
    moreover have "cs_bytes st = 0"
      using inv that(1) by (simp add: conn_inv_def wire_bytes_def)
    ultimately show ?thesis
      using that(1) by (simp add: window_available_def window_max_frames_def window_max_bytes_def max_frame_bytes_def)
  qed
  with inv show ?thesis
    by (simp add: conn_inv_def window_max_frames_def window_max_bytes_def)
qed

section \<open>Two endpoints on one connection\<close>

text \<open>
  Both directions are queues of lines; the lists record what each side sent (without acknowledgements) and what the other
  delivered. A step is a send or a receive of one side; \<open>flip\<close> exchanges the sides.
\<close>

record duplex =
  dx_left :: connection
  dx_right :: connection
  dx_lr :: "string list"
  dx_rl :: "string list"
  dx_sent_l :: "envelope list"
  dx_sent_r :: "envelope list"
  dx_got_l :: "envelope list"
  dx_got_r :: "envelope list"

definition flip :: "duplex \<Rightarrow> duplex" where
  "flip s =
     \<lparr>dx_left = dx_right s, dx_right = dx_left s, dx_lr = dx_rl s, dx_rl = dx_lr s, dx_sent_l = dx_sent_r s, dx_sent_r = dx_sent_l s,
      dx_got_l = dx_got_r s, dx_got_r = dx_got_l s\<rparr>"

definition optional :: "'a option \<Rightarrow> 'a list" where
  "optional x = (case x of None \<Rightarrow> [] | Some a \<Rightarrow> [a])"

inductive side_step :: "(rat \<Rightarrow> string) \<Rightarrow> duplex \<Rightarrow> duplex \<Rightarrow> bool" for fl where
  side_send: "\<lbrakk>send_frame fl now DrainOk kind body (dx_left s) = (Sent n, Some w, c); \<not> is_ack kind body;
     env = \<lparr>ev_kind = kind, ev_identity = cs_identity (cn_state (dx_left s)), ev_seq = n, ev_body = body\<rparr>; sendable fl env\<rbrakk> \<Longrightarrow>
     side_step fl s (s\<lparr>dx_left := c, dx_lr := dx_lr s @ [w], dx_sent_l := dx_sent_l s @ [env]\<rparr>)"
| side_receive: "\<lbrakk>dx_rl s = w # ws; receive fl now DrainOk (ReadLine w) (dx_left s) = (Inr r, out, c)\<rbrakk> \<Longrightarrow>
     side_step fl s (s\<lparr>dx_left := c, dx_rl := ws, dx_lr := dx_lr s @ optional out, dx_got_l := dx_got_l s @ optional r\<rparr>)"

definition duplex_step :: "(rat \<Rightarrow> string) \<Rightarrow> duplex \<Rightarrow> duplex \<Rightarrow> bool" where
  "duplex_step fl s t = (side_step fl s t \<or> side_step fl (flip s) (flip t))"

definition nonacks :: "envelope list \<Rightarrow> envelope list" where
  "nonacks envs = filter (\<lambda>e. \<not> is_ack (ev_kind e) (ev_body e)) envs"

text \<open>One direction: the frames under way are numbered from the next expected number to the last sent one.\<close>

definition carries :: "(rat \<Rightarrow> string) \<Rightarrow> conn_state \<Rightarrow> string list \<Rightarrow> conn_state \<Rightarrow> envelope list \<Rightarrow> bool" where
  "carries fl sender ch receiver envs =
     (list_all2 (\<lambda>w e. to_bytes fl e = Inr w \<and> sendable fl e \<and> ev_identity e = cs_identity receiver \<and>
                      (is_ack (ev_kind e) (ev_body e) \<longrightarrow> (\<exists>n. ev_body e = ack_body n \<and> n \<le> cs_received sender))) ch envs \<and>
      map ev_seq envs = [Suc (cs_received receiver) ..< Suc (cs_send sender)] \<and> cs_received receiver \<le> cs_send sender)"

definition lane_inv :: "(rat \<Rightarrow> string) \<Rightarrow> conn_state \<Rightarrow> string list \<Rightarrow> conn_state \<Rightarrow> envelope list \<Rightarrow> envelope list \<Rightarrow> bool" where
  "lane_inv fl sender ch receiver sent got = (\<exists>envs. carries fl sender ch receiver envs \<and> sent = got @ nonacks envs)"

definition duplex_inv :: "(rat \<Rightarrow> string) \<Rightarrow> duplex \<Rightarrow> bool" where
  "duplex_inv fl s =
     (let l = cn_state (dx_left s); r = cn_state (dx_right s)
      in cs_identity l = cs_identity r \<and> identity_ok (cs_identity l) \<and> \<not> cn_closed (dx_left s) \<and> \<not> cn_closed (dx_right s) \<and>
         lane_inv fl l (dx_lr s) r (dx_sent_l s) (dx_got_r s) \<and> lane_inv fl r (dx_rl s) l (dx_sent_r s) (dx_got_l s))"

lemma duplex_inv_flip: "duplex_inv fl (flip s) = duplex_inv fl s"
  by (auto simp: duplex_inv_def flip_def Let_def)

lemma ack_sendable:
  assumes "identity_ok i" "1 \<le> m"
  shows "sendable fl \<lparr>ev_kind = KEvent, ev_identity = i, ev_seq = m, ev_body = ack_body n\<rparr>"
proof -
  have "utf8 ''ack''" "utf8 ''event''" "utf8 ''data''" "utf8 ''ack_seq''"
    by code_simp+
  then show ?thesis
    using assms by (simp add: sendable_def envelope_ok_iff ack_body_def event_body_def field_ok_def dict_or_missing_def identity_ok_def)
qed

lemma is_ack_body: "is_ack KEvent (ack_body n)"
  by (simp add: is_ack_def ack_body_def event_body_def)

lemma carries_snoc:
  assumes "carries fl sender ch receiver envs" "to_bytes fl e = Inr w" "sendable fl e" "ev_identity e = cs_identity receiver"
    and "ev_seq e = Suc (cs_send sender)" "cs_send sender' = Suc (cs_send sender)" "cs_received sender \<le> cs_received sender'"
    and "is_ack (ev_kind e) (ev_body e) \<Longrightarrow> \<exists>n. ev_body e = ack_body n \<and> n \<le> cs_received sender'"
  shows "carries fl sender' (ch @ [w]) receiver (envs @ [e])"
proof -
  have "list_all2 (\<lambda>w e. to_bytes fl e = Inr w \<and> sendable fl e \<and> ev_identity e = cs_identity receiver \<and>
          (is_ack (ev_kind e) (ev_body e) \<longrightarrow> (\<exists>n. ev_body e = ack_body n \<and> n \<le> cs_received sender'))) ch envs"
    using assms(1,7) unfolding carries_def by (auto elim!: list_all2_mono intro: order_trans)
  then have "list_all2 (\<lambda>w e. to_bytes fl e = Inr w \<and> sendable fl e \<and> ev_identity e = cs_identity receiver \<and>
          (is_ack (ev_kind e) (ev_body e) \<longrightarrow> (\<exists>n. ev_body e = ack_body n \<and> n \<le> cs_received sender'))) (ch @ [w]) (envs @ [e])"
    using assms(2-4,8) by (intro list_all2_appendI) auto
  moreover have "cs_received receiver \<le> cs_send sender" "map ev_seq envs = [Suc (cs_received receiver) ..< Suc (cs_send sender)]"
    using assms(1) by (simp_all add: carries_def)
  ultimately show ?thesis
    using assms(5,6) by (simp add: carries_def)
qed

lemma carries_mono:
  assumes "carries fl sender ch receiver envs" "cs_send sender' = cs_send sender" "cs_received sender \<le> cs_received sender'"
    and "cs_identity receiver' = cs_identity receiver" "cs_received receiver' = cs_received receiver"
  shows "carries fl sender' ch receiver' envs"
  using assms unfolding carries_def by (auto elim!: list_all2_mono intro: order_trans)

lemma carries_head:
  assumes "carries fl sender (w # ws) receiver envs"
  obtains e es where "envs = e # es" "to_bytes fl e = Inr w" "sendable fl e" "ev_identity e = cs_identity receiver"
    "is_ack (ev_kind e) (ev_body e) \<Longrightarrow> \<exists>n. ev_body e = ack_body n \<and> n \<le> cs_received sender"
    "ev_seq e = Suc (cs_received receiver)"
    "\<And>receiver'. cs_identity receiver' = cs_identity receiver \<Longrightarrow> cs_received receiver' = ev_seq e \<Longrightarrow> carries fl sender ws receiver' es"
proof -
  obtain e es where e: "envs = e # es"
    using assms by (auto simp: carries_def list_all2_Cons1)
  have nums: "map ev_seq (e # es) = [Suc (cs_received receiver) ..< Suc (cs_send sender)]"
    using assms e by (simp add: carries_def)
  then have lt: "cs_received receiver < cs_send sender"
    by (cases "cs_received receiver < cs_send sender") auto
  then have "map ev_seq (e # es) = Suc (cs_received receiver) # [Suc (Suc (cs_received receiver)) ..< Suc (cs_send sender)]"
    using nums by (metis Suc_less_eq upt_conv_Cons)
  then have seq: "ev_seq e = Suc (cs_received receiver)" "map ev_seq es = [Suc (Suc (cs_received receiver)) ..< Suc (cs_send sender)]"
    by simp_all
  show thesis
    by (rule that [OF e]) (use assms e seq lt in \<open>auto simp: carries_def\<close>)
qed

lemma side_send_inv:
  assumes "duplex_inv fl s" "send_frame fl now DrainOk kind body (dx_left s) = (Sent n, Some w, c)" "\<not> is_ack kind body"
    and env: "env = \<lparr>ev_kind = kind, ev_identity = cs_identity (cn_state (dx_left s)), ev_seq = n, ev_body = body\<rparr>" and "sendable fl env"
  shows "duplex_inv fl (s\<lparr>dx_left := c, dx_lr := dx_lr s @ [w], dx_sent_l := dx_sent_l s @ [env]\<rparr>)"
proof -
  let ?l = "cn_state (dx_left s)" and ?r = "cn_state (dx_right s)"
  have base: "cs_identity ?l = cs_identity ?r" "identity_ok (cs_identity ?l)" "\<not> cn_closed (dx_right s)"
    using assms(1) by (auto simp: duplex_inv_def Let_def)
  have c: "to_bytes fl env = Inr w" "n = Suc (cs_send ?l)" "\<not> cn_closed c" "cs_send (cn_state c) = n" "cs_received (cn_state c) = cs_received ?l"
      "cs_identity (cn_state c) = cs_identity ?l"
    using send_frame_cases(3) [OF assms(2) refl] assms(3) by (auto simp: env)
  obtain envs where lr: "carries fl ?l (dx_lr s) ?r envs" "dx_sent_l s = dx_got_r s @ nonacks envs"
    using assms(1) by (auto simp: duplex_inv_def lane_inv_def Let_def)
  have "carries fl (cn_state c) (dx_lr s @ [w]) ?r (envs @ [env])"
    by (rule carries_snoc [OF lr(1) c(1) assms(5)]) (use c base assms(3) in \<open>auto simp: env\<close>)
  moreover have "nonacks (envs @ [env]) = nonacks envs @ [env]"
    using assms(3) by (simp add: nonacks_def env)
  ultimately have "lane_inv fl (cn_state c) (dx_lr s @ [w]) ?r (dx_sent_l s @ [env]) (dx_got_r s)"
    unfolding lane_inv_def using lr(2) by (intro exI [of _ "envs @ [env]"]) simp
  moreover have "lane_inv fl ?r (dx_rl s) (cn_state c) (dx_sent_r s) (dx_got_l s)"
    using assms(1) c carries_mono [of fl ?r "dx_rl s" ?l _ ?r "cn_state c"] by (auto simp: duplex_inv_def lane_inv_def Let_def)
  ultimately show ?thesis
    using base c by (simp add: duplex_inv_def Let_def)
qed

text \<open>Receiving the next frame of a queue: an acknowledgement is applied, any other frame is delivered and acknowledged.\<close>

lemma receive_next:
  assumes "carries fl sender (w # ws) (cn_state cn) envs" "cs_received sender \<le> cs_send (cn_state cn)" "identity_ok (cs_identity (cn_state cn))"
    and "\<not> cn_closed cn" "receive fl now DrainOk (ReadLine w) cn = (r, out, cn')"
  obtains (acked) e es where "envs = e # es" "is_ack (ev_kind e) (ev_body e)" "r = Inr None" "out = None" "\<not> cn_closed cn'"
      "cs_send (cn_state cn') = cs_send (cn_state cn)" "cs_identity (cn_state cn') = cs_identity (cn_state cn)"
      "cs_received (cn_state cn') = ev_seq e" "carries fl sender ws (cn_state cn') es" "cs_received (cn_state cn) \<le> ev_seq e"
  | (taken) e es v where "envs = e # es" "\<not> is_ack (ev_kind e) (ev_body e)" "r = Inr (Some e)" "out = Some v" "\<not> cn_closed cn'"
      "to_bytes fl \<lparr>ev_kind = KEvent, ev_identity = cs_identity (cn_state cn), ev_seq = Suc (cs_send (cn_state cn)), ev_body = ack_body (ev_seq e)\<rparr> = Inr v"
      "cs_send (cn_state cn') = Suc (cs_send (cn_state cn))" "cs_identity (cn_state cn') = cs_identity (cn_state cn)"
      "cs_received (cn_state cn') = ev_seq e" "carries fl sender ws (cn_state cn') es" "cs_received (cn_state cn) \<le> ev_seq e"
  | (too_large) "r = Inl ITooLarge"
proof -
  obtain e es where e: "envs = e # es" "to_bytes fl e = Inr w" "sendable fl e" "ev_identity e = cs_identity (cn_state cn)"
      and ack_e: "is_ack (ev_kind e) (ev_body e) \<Longrightarrow> \<exists>n. ev_body e = ack_body n \<and> n \<le> cs_received sender"
      and seq: "ev_seq e = Suc (cs_received (cn_state cn))"
      and rest: "\<And>receiver'. cs_identity receiver' = cs_identity (cn_state cn) \<Longrightarrow> cs_received receiver' = ev_seq e \<Longrightarrow> carries fl sender ws receiver' es"
    using carries_head [OF assms(1)] by metis
  have take: "take_envelope fl now DrainOk e cn = (r, out, cn')"
    using assms(5) envelope_decodes [OF e(3,2)] by (simp add: receive_def)
  define st1 where "st1 = (cn_state cn)\<lparr>cs_received := max (cs_received (cn_state cn)) (ev_seq e)\<rparr>"
  define cn1 where "cn1 = cn\<lparr>cn_traffic := now, cn_state := st1\<rparr>"
  have st1: "cs_received st1 = ev_seq e" "cs_send st1 = cs_send (cn_state cn)" "cs_identity st1 = cs_identity (cn_state cn)"
      "cn_state cn1 = st1" "\<not> cn_closed cn1"
    using seq assms(4) by (simp_all add: st1_def cn1_def)
  show thesis
  proof (rule take_envelope_cases [OF take st1_def cn1_def])
    assume "ev_identity e \<noteq> cs_identity (cn_state cn)"
    with e(4) show thesis by simp
  next
    fix v st2
    assume a: "is_ack (ev_kind e) (ev_body e)" "out = None" "r = Inr None" "apply_ack v st1 = Inr st2" "cn' = cn1\<lparr>cn_state := st2\<rparr>"
    have "cs_received st2 = cs_received st1 \<and> cs_send st2 = cs_send st1 \<and> cs_identity st2 = cs_identity st1"
      using a(4) by (auto simp: apply_ack_def Let_def split: option.splits json.splits if_splits)
    with a e st1 seq rest show thesis
      by (intro acked [OF e(1)]) auto
  next
    assume bad: "is_ack (ev_kind e) (ev_body e)" "\<forall>d. map_of (ev_body e) ''data'' = Some (JObj d) \<longrightarrow> (\<exists>x. apply_ack (map_of d ''ack_seq'') st1 = Inl x)"
    from ack_e [OF bad(1)] obtain n where n: "ev_body e = ack_body n" "n \<le> cs_received sender"
      by blast
    then have "apply_ack (Some (JInt (int n))) st1 \<noteq> Inl x" for x
      using assms(2) st1(2) by (simp add: apply_ack_def Let_def)
    with bad(2) n(1) show thesis
      by (simp add: ack_body_def event_body_def)
  next
    fix sr
    assume a: "\<not> is_ack (ev_kind e) (ev_body e)" "send_frame fl now DrainOk KEvent (ack_body (ev_seq e)) cn1 = (sr, out, cn')"
      "r = (case sr of Failed x \<Rightarrow> Inl x | _ \<Rightarrow> Inr (if ev_seq e \<le> cs_received (cn_state cn) then None else Some e))"
    have ok: "sendable fl \<lparr>ev_kind = KEvent, ev_identity = cs_identity st1, ev_seq = Suc (cs_send st1), ev_body = ack_body (ev_seq e)\<rparr>"
      using ack_sendable assms(3) st1(3) by simp
    show thesis
    proof (cases sr)
      case (Sent n)
      from send_frame_cases(3) [OF a(2) Sent] send_frame_cases(1) [OF a(2)] is_ack_body [of "ev_seq e"]
      obtain v where v: "out = Some v" "n = Suc (cs_send st1)" "\<not> cn_closed cn'"
          "to_bytes fl \<lparr>ev_kind = KEvent, ev_identity = cs_identity st1, ev_seq = n, ev_body = ack_body (ev_seq e)\<rparr> = Inr v"
          "cn_state cn' = st1\<lparr>cs_send := n\<rparr>"
        by (auto simp: st1(4))
      show thesis
        by (rule taken [OF e(1) a(1) _ v(1,3)]) (use a(3) Sent seq v st1 rest in \<open>auto\<close>)
    next
      case (Blocked n)
      then show thesis
        using a(2) is_ack_body [of "ev_seq e"] by (auto simp: send_frame_def Let_def split: if_splits sum.splits)
    next
      case (Failed x)
      have "to_bytes fl \<lparr>ev_kind = KEvent, ev_identity = cs_identity st1, ev_seq = Suc (cs_send st1), ev_body = ack_body (ev_seq e)\<rparr> = Inl x"
        using a(2) Failed st1(5) is_ack_body [of "ev_seq e"] by (auto simp: send_frame_def Let_def st1(4) split: if_splits sum.splits)
      with sendable_text(1) [OF ok] have "x = ITooLarge"
        unfolding to_bytes_def Let_def by (metis (no_types, lifting) sum.inject(1) sum.distinct(1))
      with a(3) Failed show thesis
        by (intro too_large) simp
    qed
  qed
qed

lemma side_receive_inv:
  assumes "duplex_inv fl s" "dx_rl s = w # ws" "receive fl now DrainOk (ReadLine w) (dx_left s) = (Inr r, out, c)"
  shows "duplex_inv fl (s\<lparr>dx_left := c, dx_rl := ws, dx_lr := dx_lr s @ optional out, dx_got_l := dx_got_l s @ optional r\<rparr>)"
proof -
  let ?l = "cn_state (dx_left s)" and ?r = "cn_state (dx_right s)"
  have base: "cs_identity ?l = cs_identity ?r" "identity_ok (cs_identity ?l)" "\<not> cn_closed (dx_left s)" "\<not> cn_closed (dx_right s)"
    using assms(1) by (auto simp: duplex_inv_def Let_def)
  obtain lrs where lr: "carries fl ?l (dx_lr s) ?r lrs" "dx_sent_l s = dx_got_r s @ nonacks lrs"
    using assms(1) by (auto simp: duplex_inv_def lane_inv_def Let_def)
  obtain rls where rl: "carries fl ?r (w # ws) ?l rls" "dx_sent_r s = dx_got_l s @ nonacks rls"
    using assms(1,2) by (auto simp: duplex_inv_def lane_inv_def Let_def)
  have le: "cs_received ?r \<le> cs_send ?l"
    using lr(1) by (simp add: carries_def)
  show ?thesis
  proof (rule receive_next [OF rl(1) le base(2,3) assms(3)])
    fix e es
    assume a: "rls = e # es" "is_ack (ev_kind e) (ev_body e)" "Inr r = Inr None" "out = None" "\<not> cn_closed c"
      "cs_send (cn_state c) = cs_send ?l" "cs_identity (cn_state c) = cs_identity ?l" "cs_received (cn_state c) = ev_seq e"
      "carries fl ?r ws (cn_state c) es" "cs_received ?l \<le> ev_seq e"
    have "carries fl (cn_state c) (dx_lr s) ?r lrs"
      using carries_mono [OF lr(1)] a by simp
    moreover have "nonacks rls = nonacks es"
      using a(1,2) by (simp add: nonacks_def)
    ultimately show ?thesis
      using a base lr(2) rl(2) by (auto simp: duplex_inv_def lane_inv_def Let_def optional_def)
  next
    fix e :: envelope and es v
    let ?ack = "\<lparr>ev_kind = KEvent, ev_identity = cs_identity ?l, ev_seq = Suc (cs_send ?l), ev_body = ack_body (ev_seq e)\<rparr>"
    assume a: "rls = e # es" "\<not> is_ack (ev_kind e) (ev_body e)" "Inr r = Inr (Some e)" "out = Some v" "\<not> cn_closed c"
      "to_bytes fl ?ack = Inr v" "cs_send (cn_state c) = Suc (cs_send ?l)" "cs_identity (cn_state c) = cs_identity ?l"
      "cs_received (cn_state c) = ev_seq e" "carries fl ?r ws (cn_state c) es" "cs_received ?l \<le> ev_seq e"
    have "carries fl (cn_state c) (dx_lr s @ [v]) ?r (lrs @ [?ack])"
      by (rule carries_snoc [OF lr(1) a(6)]) (use a base ack_sendable in auto)
    moreover have "nonacks (lrs @ [?ack]) = nonacks lrs" "nonacks rls = e # nonacks es"
      using a(1,2) is_ack_body by (simp_all add: nonacks_def)
    ultimately show ?thesis
      using a base lr(2) rl(2) by (fastforce simp: duplex_inv_def lane_inv_def Let_def optional_def)
  qed simp
qed

lemma side_step_inv:
  assumes "side_step fl s t" "duplex_inv fl s"
  shows "duplex_inv fl t"
  using assms by (cases rule: side_step.cases) (auto intro: side_send_inv side_receive_inv)

definition connected :: "duplex \<Rightarrow> bool" where
  "connected s =
     (\<exists>i now now'. identity_ok i \<and>
        s = \<lparr>dx_left = \<lparr>cn_state = fresh_conn_state i, cn_closed = False, cn_traffic = now\<rparr>,
              dx_right = \<lparr>cn_state = fresh_conn_state i, cn_closed = False, cn_traffic = now'\<rparr>,
              dx_lr = [], dx_rl = [], dx_sent_l = [], dx_sent_r = [], dx_got_l = [], dx_got_r = []\<rparr>)"

lemma connected_inv: "connected s \<Longrightarrow> duplex_inv fl s"
  by (auto simp: connected_def duplex_inv_def lane_inv_def carries_def fresh_conn_state_def nonacks_def)

lemma duplex_step_inv: "duplex_step fl s t \<Longrightarrow> duplex_inv fl s \<Longrightarrow> duplex_inv fl t"
  unfolding duplex_step_def using side_step_inv duplex_inv_flip by blast

interpretation dx: step_invariant connected "duplex_step fl" "duplex_inv fl" for fl
  by unfold_locales (auto intro: connected_inv duplex_step_inv)

text \<open>
  C14. On one connection every frame is delivered once and in order, in both directions and under any interleaving: what one
  side delivered is a prefix of what the other sent, and all of it once the queue is empty.
\<close>

theorem delivered_in_order:
  assumes "connected s" "(duplex_step fl)\<^sup>*\<^sup>* s t"
  shows "(\<exists>rest. dx_sent_l t = dx_got_r t @ rest \<and> (dx_lr t = [] \<longrightarrow> rest = [])) \<and>
         (\<exists>rest. dx_sent_r t = dx_got_l t @ rest \<and> (dx_rl t = [] \<longrightarrow> rest = []))"
proof -
  have one: "\<exists>rest. sent = got @ rest \<and> (ch = [] \<longrightarrow> rest = [])" if "lane_inv fl a ch b sent got" for a ch b sent got
    using that by (auto simp: lane_inv_def carries_def nonacks_def)
  have "duplex_inv fl t"
    using dx.inv_reachable [OF assms] .
  then have "lane_inv fl (cn_state (dx_left t)) (dx_lr t) (cn_state (dx_right t)) (dx_sent_l t) (dx_got_r t)"
      "lane_inv fl (cn_state (dx_right t)) (dx_rl t) (cn_state (dx_left t)) (dx_sent_r t) (dx_got_l t)"
    by (simp_all add: duplex_inv_def Let_def)
  then show ?thesis
    by (intro conjI one)
qed

text \<open>
  Two correct endpoints never see a protocol error: in every reachable state the next line is accepted, except when the
  acknowledgement itself exceeds the frame limit (which takes an identity of that size).
\<close>

theorem next_line_accepted:
  assumes "connected s" "(duplex_step fl)\<^sup>*\<^sup>* s t" "dx_rl t = w # ws"
  shows "(\<exists>r. fst (receive fl now DrainOk (ReadLine w) (dx_left t)) = Inr r) \<or>
         fst (receive fl now DrainOk (ReadLine w) (dx_left t)) = Inl ITooLarge"
proof -
  let ?l = "cn_state (dx_left t)" and ?r = "cn_state (dx_right t)"
  have inv: "duplex_inv fl t"
    using dx.inv_reachable [OF assms(1,2)] .
  then obtain rls where rl: "carries fl ?r (w # ws) ?l rls"
    using assms(3) by (auto simp: duplex_inv_def lane_inv_def Let_def)
  have ok: "cs_received ?r \<le> cs_send ?l" "identity_ok (cs_identity ?l)" "\<not> cn_closed (dx_left t)"
    using inv by (auto simp: duplex_inv_def lane_inv_def carries_def Let_def)
  obtain r out c where recv: "receive fl now DrainOk (ReadLine w) (dx_left t) = (r, out, c)"
    by (metis prod_cases3)
  from receive_next [OF rl ok recv] recv show ?thesis
    by auto
qed

section \<open>Observations\<close>

text \<open>
  The replay of a reconnect is lost. The root answers a hello with a new frame before it replays the older ones; the
  runner, having taken the answer, drops every older frame as a duplicate, and its acknowledgement of the answer removes
  them from the root's buffer. The hello of the runner does the same to the runner's own unacknowledged frames.
\<close>

lemma replay_is_dropped:
  assumes "take_envelope fl now dr newer cn = (Inr r, w, cn1)" "ev_seq older \<le> ev_seq newer" "conn_inv (cn_state cn)"
    and "take_envelope fl now' dr' older cn1 = (r', w', cn2)"
  shows "delivered r' = []"
proof -
  define st1 where "st1 = (cn_state cn)\<lparr>cs_received := max (cs_received (cn_state cn)) (ev_seq newer)\<rparr>"
  define cn0 where "cn0 = cn\<lparr>cn_traffic := now, cn_state := st1\<rparr>"
  have inv0: "conn_inv st1" "cs_received st1 = max (cs_received (cn_state cn)) (ev_seq newer)" "cn_state cn0 = st1"
    using assms(3) by (simp_all add: st1_def cn0_def)
  have "ev_seq newer \<le> cs_received (cn_state cn1)"
  proof (rule take_envelope_cases [OF assms(1) st1_def cn0_def])
    fix v st2
    assume "apply_ack v st1 = Inr st2" "cn1 = cn0\<lparr>cn_state := st2\<rparr>"
    with apply_ack_inv [OF inv0(1)] inv0(2) show ?thesis by simp
  next
    fix sr
    assume "send_frame fl now dr KEvent (ack_body (ev_seq newer)) cn0 = (sr, w, cn1)"
    with send_frame_cases(1) [OF this] inv0 show ?thesis by simp
  qed (auto simp: delivered_def)
  moreover have "conn_inv (cn_state cn1)"
    using take_envelope_inv [OF assms(3,1)] by blast
  ultimately show ?thesis
    using take_envelope_inv [OF _ assms(4)] assms(2) by fastforce
qed

lemma answer_confirms_all:
  assumes "conn_inv st" "n = cs_send st"
  shows "\<exists>st'. apply_ack (Some (JInt (int n))) st = Inr st' \<and> cs_unacked st' = []"
proof -
  have "\<forall>x \<in> set (cs_unacked st). (\<lambda>(s, _). int s \<le> int n) x"
    using assms by (fastforce simp: conn_inv_def)
  then show ?thesis
    using assms(2) by (simp add: apply_ack_def Let_def)
qed

text \<open>
  A failed drain gives the bytes to the transport but keeps the sequence number: when they arrive after all, the next
  frame of the runner, the hello of its reconnect, has the number of a frame the root has seen, and the root refuses it.
\<close>

lemma failed_drain_reuses_number:
  assumes "send_frame fl now DrainTimeout kind body cn = (r, Some w, cn')"
  shows "cs_send (cn_state cn') = cs_send (cn_state cn) \<and>
         (\<exists>env. ev_seq env = Suc (cs_send (cn_state cn')) \<and> to_bytes fl env = Inr w)"
proof -
  let ?env = "\<lparr>ev_kind = kind, ev_identity = cs_identity (cn_state cn), ev_seq = Suc (cs_send (cn_state cn)), ev_body = body\<rparr>"
  have "cn_state cn' = cn_state cn" "to_bytes fl ?env = Inr w"
    using assms by (auto simp: send_frame_def Let_def split: if_splits sum.splits)
  then show ?thesis
    by (intro conjI exI [of _ ?env]) simp_all
qed

lemma repeated_hello_refused:
  assumes "ev_seq first \<le> cs_received (cn_state cn)" "conn_inv (cn_state cn)"
  shows "\<exists>e cn'. root_handshake fl now rid params first cn = (Inl e, cn')"
proof -
  obtain r w cn1 where take: "accept_first fl now DrainOk first cn = (r, w, cn1)"
    by (metis prod_cases3)
  then have "delivered r = []"
    using take_envelope_inv [OF assms(2)] assms(1) unfolding accept_first_def by fastforce
  with take show ?thesis
    by (cases r) (auto simp: root_handshake_def delivered_def split: option.splits)
qed

section \<open>Concrete runs\<close>

definition demo_fl :: "rat \<Rightarrow> string" where
  "demo_fl q = []"

definition demo_identity :: ipc_identity where
  "demo_identity =
     \<lparr>ii_job = JStr ''j'', ii_epoch = JStr ''{12345678-1234-5678-1234-567812345678}'', ii_attempt = JInt 1, ii_lane = JStr ''task'',
      ii_display = JStr ''d''\<rparr>"

definition demo_event :: envelope where
  "demo_event = \<lparr>ev_kind = KEvent, ev_identity = demo_identity, ev_seq = 1, ev_body = event_body ''progress'' [(''n'', JInt (- 12))]\<rparr>"

definition demo_wire :: string where
  "demo_wire = (case to_bytes demo_fl demo_event of Inr w \<Rightarrow> w | Inl _ \<Rightarrow> [])"

definition demo_conn :: connection where
  "demo_conn = \<lparr>cn_state = fresh_conn_state demo_identity, cn_closed = False, cn_traffic = 0\<rparr>"

lemma demo_identity_ok: "identity_ok demo_identity"
  by code_simp

lemma demo_event_sendable: "sendable demo_fl demo_event"
  by code_simp

lemma sendable_encodes:
  assumes "sendable fl env" "length (dump_json fl (JObj (envelope_dict env))) \<le> 400"
  shows "\<exists>wire. to_bytes fl env = Inr wire \<and> length wire - 1 \<le> 400"
  using sendable_text(1) [OF assms(1)] assms(2) unfolding to_bytes_def Let_def by (auto simp: max_frame_bytes_def simp del: dump_json.simps utf8.simps)

lemma demo_to_bytes: "to_bytes demo_fl demo_event = Inr demo_wire" "length demo_wire - 1 \<le> 400"
proof -
  have "length (dump_json demo_fl (JObj (envelope_dict demo_event))) \<le> 400"
    by code_simp
  from sendable_encodes [OF demo_event_sendable this]
  show "to_bytes demo_fl demo_event = Inr demo_wire" "length demo_wire - 1 \<le> 400"
    by (auto simp: demo_wire_def)
qed

lemma demo_read: "read_envelope (ReadLine demo_wire) = Inr demo_event"
  using envelope_decodes [OF demo_event_sendable demo_to_bytes(1)] by blast

lemma demo_receive: "\<exists>w c. receive demo_fl 1 DrainOk (ReadLine demo_wire) demo_conn = (Inr (Some demo_event), w, c)"
proof -
  let ?st = "(cn_state demo_conn)\<lparr>cs_received := 1\<rparr>"
  let ?ack = "\<lparr>ev_kind = KEvent, ev_identity = demo_identity, ev_seq = 1, ev_body = ack_body 1\<rparr>"
  have "sendable demo_fl ?ack" "length (dump_json demo_fl (JObj (envelope_dict ?ack))) \<le> 400"
    by code_simp+
  then obtain a where a: "to_bytes demo_fl ?ack = Inr a"
    using sendable_encodes by blast
  have facts: "ev_identity demo_event = demo_identity" "ev_seq demo_event = 1" "\<not> is_ack (ev_kind demo_event) (ev_body demo_event)"
      "cn_state demo_conn = fresh_conn_state demo_identity" "\<not> cn_closed demo_conn"
    by (simp_all add: demo_event_def demo_conn_def is_ack_def event_body_def)
  show ?thesis
    using a facts is_ack_body [of 1] demo_read
    by (simp add: receive_def take_envelope_def Let_def send_frame_def fresh_conn_state_def)
qed

theorem decoded_envelope_typed_witness:
  "envelope_ok demo_event \<and> length (rstrip_newlines demo_wire) \<le> max_frame_bytes"
proof (rule decoded_envelope_typed)
  show "from_bytes demo_wire = Inr demo_event"
    using demo_read by (auto simp: read_envelope_def split: if_splits)
qed

theorem stream_roundtrip_witness:
  "map (\<lambda>line. read_envelope (ReadLine line)) (stream_lines (concat [demo_wire, demo_wire])) = map Inr [demo_event, demo_event]"
  by (rule stream_roundtrip [of demo_fl]) (simp add: demo_event_sendable demo_to_bytes)

definition demo_endpoint :: endpoint where
  "demo_endpoint = \<lparr>ep_conn = demo_conn, ep_got = []\<rparr>"

lemma demo_endpoint_run:
  "\<exists>c. (endpoint_step demo_fl)\<^sup>*\<^sup>* demo_endpoint (demo_endpoint\<lparr>ep_conn := c, ep_got := [demo_event]\<rparr>)" "new_endpoint demo_endpoint"
proof -
  obtain w c where r: "receive demo_fl 1 DrainOk (ReadLine demo_wire) demo_conn = (Inr (Some demo_event), w, c)"
    using demo_receive by blast
  have "endpoint_step demo_fl demo_endpoint (demo_endpoint\<lparr>ep_conn := c, ep_got := ep_got demo_endpoint @ delivered (Inr (Some demo_event))\<rparr>)"
    by (rule ep_receive) (use r in \<open>simp add: demo_endpoint_def\<close>)
  then show "\<exists>c. (endpoint_step demo_fl)\<^sup>*\<^sup>* demo_endpoint (demo_endpoint\<lparr>ep_conn := c, ep_got := [demo_event]\<rparr>)"
    by (auto simp: delivered_def demo_endpoint_def)
  show "new_endpoint demo_endpoint"
    by (auto simp: new_endpoint_def demo_endpoint_def demo_conn_def)
qed

theorem delivered_at_most_once_witness:
  "\<exists>e'. (endpoint_step demo_fl)\<^sup>*\<^sup>* demo_endpoint e' \<and> ep_got e' = [demo_event] \<and> sorted_wrt (<) (map ev_seq (ep_got e'))"
proof -
  obtain c where run: "(endpoint_step demo_fl)\<^sup>*\<^sup>* demo_endpoint (demo_endpoint\<lparr>ep_conn := c, ep_got := [demo_event]\<rparr>)"
    using demo_endpoint_run(1) by blast
  have "ep_got (demo_endpoint\<lparr>ep_conn := c, ep_got := [demo_event]\<rparr>) = [demo_event]"
    by simp
  with delivered_at_most_once [OF demo_endpoint_run(2) run] run show ?thesis
    by blast
qed

theorem window_respected_witness:
  "\<exists>e' st. (endpoint_step demo_fl)\<^sup>*\<^sup>* demo_endpoint e' \<and> st = cn_state (ep_conn e') \<and> length (cs_unacked st) \<le> 64"
proof -
  obtain c where run: "(endpoint_step demo_fl)\<^sup>*\<^sup>* demo_endpoint (demo_endpoint\<lparr>ep_conn := c, ep_got := [demo_event]\<rparr>)"
    using demo_endpoint_run(1) by blast
  from window_respected [OF demo_endpoint_run(2) run refl] run show ?thesis
    by blast
qed

definition demo_duplex :: duplex where
  "demo_duplex =
     \<lparr>dx_left = demo_conn, dx_right = demo_conn, dx_lr = [], dx_rl = [], dx_sent_l = [], dx_sent_r = [], dx_got_l = [], dx_got_r = []\<rparr>"

lemma demo_connected: "connected demo_duplex"
  using demo_identity_ok by (auto simp: connected_def demo_duplex_def demo_conn_def)

text \<open>The right side sends, so that the left side has a line to read.\<close>

lemma demo_duplex_run:
  "\<exists>t. (duplex_step demo_fl)\<^sup>*\<^sup>* demo_duplex t \<and> dx_rl t = [demo_wire] \<and> dx_left t = demo_conn \<and> dx_sent_r t = [demo_event]"
proof -
  have "window_available (fresh_conn_state demo_identity) (length demo_wire - 1)"
    using demo_to_bytes(2) by (simp add: window_available_def fresh_conn_state_def window_max_frames_def window_max_bytes_def)
  then have "\<exists>c. send_frame demo_fl 1 DrainOk KEvent (ev_body demo_event) demo_conn = (Sent 1, Some demo_wire, c)"
    using demo_to_bytes(1) by (simp add: send_frame_def Let_def demo_conn_def demo_event_def fresh_conn_state_def)
  then obtain c where send: "send_frame demo_fl 1 DrainOk KEvent (ev_body demo_event) (dx_left demo_duplex) = (Sent 1, Some demo_wire, c)"
    by (auto simp: demo_duplex_def)
  let ?t = "demo_duplex\<lparr>dx_left := c, dx_lr := dx_lr demo_duplex @ [demo_wire], dx_sent_l := dx_sent_l demo_duplex @ [demo_event]\<rparr>"
  have "side_step demo_fl demo_duplex ?t"
    by (rule side_send [OF send]) (simp_all add: demo_event_sendable, simp_all add: demo_event_def is_ack_def event_body_def demo_duplex_def demo_conn_def fresh_conn_state_def)
  moreover have "flip demo_duplex = demo_duplex"
    by (simp add: flip_def demo_duplex_def)
  moreover have "flip (flip s) = s" for s
    by (simp add: flip_def)
  ultimately have "duplex_step demo_fl demo_duplex (flip ?t)"
    by (simp add: duplex_step_def)
  then show ?thesis
    by (intro exI [of _ "flip ?t"]) (auto simp: flip_def demo_duplex_def)
qed

theorem delivered_in_order_witness:
  "\<exists>t. (duplex_step demo_fl)\<^sup>*\<^sup>* demo_duplex t \<and> dx_sent_r t = [demo_event] \<and> (\<exists>rest. dx_sent_r t = dx_got_l t @ rest)"
proof -
  obtain t where t: "(duplex_step demo_fl)\<^sup>*\<^sup>* demo_duplex t" "dx_sent_r t = [demo_event]"
    using demo_duplex_run by blast
  from delivered_in_order [OF demo_connected t(1)] t show ?thesis
    by blast
qed

theorem next_line_accepted_witness:
  "\<exists>t. (duplex_step demo_fl)\<^sup>*\<^sup>* demo_duplex t \<and> dx_rl t = [demo_wire] \<and>
     ((\<exists>r. fst (receive demo_fl 1 DrainOk (ReadLine demo_wire) (dx_left t)) = Inr r) \<or>
      fst (receive demo_fl 1 DrainOk (ReadLine demo_wire) (dx_left t)) = Inl ITooLarge)"
proof -
  obtain t where t: "(duplex_step demo_fl)\<^sup>*\<^sup>* demo_duplex t" "dx_rl t = [demo_wire]"
    using demo_duplex_run by blast
  from next_line_accepted [OF demo_connected t] t show ?thesis
    by blast
qed

end
