(* ===== verification/Chat_Stream.thy ===== *)
theory Chat_Stream
  imports Json_Dump Streaming_Journal
begin

text \<open>
  The chat streams of the server: \<^verbatim>\<open>server/stream_registry.py\<close> (the event buffer of a response and the registry of
  the running responses), the SSE reader of a chat request (\<^verbatim>\<open>_sse_tail\<close> of \<^verbatim>\<open>server/routes/chat_producer.py\<close>) and
  the reader of a client that reconnects (\<^verbatim>\<open>server/routes/chat_resume.py\<close>).

  A producer appends events to the buffer while readers send them. Control moves between the tasks only at an
  \<^verbatim>\<open>await\<close> or a \<^verbatim>\<open>yield\<close>: what the code does between two of them is one step below, and the steps of the producer, of
  the reader and of the client interleave freely. Clock readings, tokens and the state of a task are arguments.
\<close>

section \<open>Values\<close>

text \<open>\<^verbatim>\<open>a == b\<close> on decoded values (\<^verbatim>\<open>True == 1 == 1.0\<close>; NaN differs from itself).\<close>

fun py_eq :: "json \<Rightarrow> json \<Rightarrow> bool" where
  "py_eq JNull b = (b = JNull)"
| "py_eq (JStr s) b = (b = JStr s)"
| "py_eq JNonFinite b = False"
| "py_eq (JArr xs) b = (case b of JArr ys \<Rightarrow> list_all2 py_eq xs ys | _ \<Rightarrow> False)"
| "py_eq (JObj d) b =
     (case b of
        JObj e \<Rightarrow> length d = length e \<and>
          list_all (\<lambda>(k, v). case map_of e k of None \<Rightarrow> False | Some w \<Rightarrow> py_eq v w) d
      | _ \<Rightarrow> False)"
| "py_eq a b = (json_num a = json_num b)"

text \<open>\<^verbatim>\<open>a += b\<close> and whether \<^verbatim>\<open>len(a)\<close> is defined; \<^verbatim>\<open>None\<close> stands for the \<^verbatim>\<open>TypeError\<close>.\<close>

function u_chars :: "string \<Rightarrow> string list" where
  "u_chars [] = []"
| "u_chars (c # cs) = (c # takeWhile cont_byte cs) # u_chars (dropWhile cont_byte cs)"
  by pat_completeness auto

termination u_chars
  by (relation "measure length") (auto intro: le_imp_less_Suc length_dropWhile_le)

fun py_iadd :: "json \<Rightarrow> json \<Rightarrow> json option" where
  "py_iadd (JStr s) (JStr t) = Some (JStr (s @ t))"
| "py_iadd (JArr xs) (JArr ys) = Some (JArr (xs @ ys))"
| "py_iadd (JArr xs) (JStr t) = Some (JArr (xs @ map JStr (u_chars t)))"
| "py_iadd (JArr xs) (JObj d) = Some (JArr (xs @ map (JStr \<circ> fst) d))"
| "py_iadd a b =
     (case (json_int a, json_int b) of
        (Some i, Some j) \<Rightarrow> Some (JInt (i + j))
      | _ \<Rightarrow> (case (json_num a, json_num b) of
                (Some x, Some y) \<Rightarrow> Some (JFloat (x + y))
              | (Some x, None) \<Rightarrow> if b = JNonFinite then Some JNonFinite else None
              | (None, Some y) \<Rightarrow> if a = JNonFinite then Some JNonFinite else None
              | (None, None) \<Rightarrow> if a = JNonFinite \<and> b = JNonFinite then Some JNonFinite else None))"

fun has_len :: "json \<Rightarrow> bool" where
  "has_len (JStr s) = True"
| "has_len (JArr xs) = True"
| "has_len (JObj d) = True"
| "has_len _ = False"

definition get_or_none :: "dict \<Rightarrow> string \<Rightarrow> json" where
  "get_or_none d k = opt_or (map_of d k) JNull"

section \<open>The event buffer of a response\<close>

record sse_event =
  se_seq :: nat
  se_event :: string
  se_payload :: dict
  se_id :: string

definition max_events :: nat where
  "max_events = 2000"

text \<open>An entry of \<^verbatim>\<open>tool_history\<close>: a dict with these keys, the optional ones \<open>None\<close> while they are missing.\<close>

record tool_entry =
  te_tool_name :: json
  te_tool_id :: json
  te_started_at :: int
  te_input_summary :: "json option"
  te_detail :: "json option"
  te_completed :: bool
  te_duration_ms :: "int option"
  te_result_summary :: "json option"
  te_is_error :: bool

datatype producer_task = TaskRunning | TaskCancelling | TaskDone

record response_stream =
  rs_id :: string
  rs_anima :: string
  rs_from :: string
  rs_thread :: string
  rs_created :: rat
  rs_events :: "sse_event list"
  rs_complete :: bool
  rs_full_text :: json
  rs_active_tool :: json
  rs_tools :: "tool_entry list"
  rs_emotion :: json
  rs_done :: bool
  rs_producer :: "producer_task option"
  rs_seq :: nat
  rs_notify :: nat

definition new_stream :: "string \<Rightarrow> string \<Rightarrow> string \<Rightarrow> string \<Rightarrow> rat \<Rightarrow> response_stream" where
  "new_stream rid anima person thread now =
     \<lparr>rs_id = rid, rs_anima = anima, rs_from = person, rs_thread = thread, rs_created = now, rs_events = [],
      rs_complete = False, rs_full_text = JStr [], rs_active_tool = JNull, rs_tools = [], rs_emotion = JNull,
      rs_done = False, rs_producer = None, rs_seq = 0, rs_notify = 0\<rparr>"

definition make_event :: "string \<Rightarrow> dict \<Rightarrow> response_stream \<Rightarrow> sse_event" where
  "make_event name payload s =
     \<lparr>se_seq = rs_seq s, se_event = name, se_payload = payload, se_id = rs_id s @ '':'' @ nat_str (rs_seq s)\<rparr>"

text \<open>The first half of \<^verbatim>\<open>add_event\<close>: the new event is numbered and appended, the oldest ones are dropped.\<close>

definition push_event :: "string \<Rightarrow> dict \<Rightarrow> response_stream \<Rightarrow> response_stream" where
  "push_event name payload s =
     (let evs = rs_events s @ [make_event name payload s]
      in s\<lparr>rs_seq := rs_seq s + 1,
           rs_events := (if length evs > max_events then last_n max_events evs else evs)\<rparr>)"

definition open_entry :: "json \<Rightarrow> tool_entry \<Rightarrow> bool" where
  "open_entry tid e = (py_eq (te_tool_id e) tid \<and> \<not> te_completed e)"

definition started_entry :: "int \<Rightarrow> dict \<Rightarrow> tool_entry" where
  "started_entry ms payload =
     \<lparr>te_tool_name = get_or_empty payload ''tool_name'', te_tool_id = get_or_empty payload ''tool_id'',
      te_started_at = ms,
      te_input_summary = (if dict_truthy payload ''input_summary'' then map_of payload ''input_summary'' else None),
      te_detail = None, te_completed = False, te_duration_ms = None, te_result_summary = None, te_is_error = False\<rparr>"

definition ended_entry :: "int \<Rightarrow> dict \<Rightarrow> tool_entry \<Rightarrow> tool_entry" where
  "ended_entry ms payload e =
     e\<lparr>te_completed := True, te_duration_ms := Some (ms - te_started_at e),
       te_result_summary := (if dict_truthy payload ''result_summary'' then map_of payload ''result_summary''
                             else te_result_summary e),
       te_input_summary := (if dict_truthy payload ''input_summary'' then map_of payload ''input_summary''
                            else te_input_summary e),
       te_is_error := (dict_truthy payload ''is_error'' \<or> te_is_error e)\<rparr>"

text \<open>
  The accumulated state; \<open>ms\<close> is \<^verbatim>\<open>int(time.time() * 1000)\<close>. A list that became the text by a \<open>done\<close> event is a
  copy here, not the object in the payload of that event.
\<close>

definition track_event :: "int \<Rightarrow> string \<Rightarrow> dict \<Rightarrow> response_stream \<Rightarrow> py_error + response_stream" where
  "track_event ms name payload s =
     (if name = ''text_delta'' then
        (case py_iadd (rs_full_text s) (get_or_empty payload ''text'') of
           None \<Rightarrow> Inl (TypeError ''+='')
         | Some t \<Rightarrow> Inr (s\<lparr>rs_full_text := t\<rparr>))
      else if name = ''tool_start'' then
        Inr (s\<lparr>rs_active_tool := get_or_none payload ''tool_name'', rs_tools := rs_tools s @ [started_entry ms payload]\<rparr>)
      else if name = ''tool_detail'' then
        Inr (s\<lparr>rs_tools :=
               opt_or (update_last (open_entry (get_or_empty payload ''tool_id''))
                         (\<lambda>e. e\<lparr>te_detail := Some (get_or_empty payload ''detail'')\<rparr>) (rs_tools s)) (rs_tools s)\<rparr>)
      else if name = ''tool_end'' then
        Inr (s\<lparr>rs_active_tool := JNull,
               rs_tools := opt_or (update_last (open_entry (get_or_empty payload ''tool_id''))
                                     (ended_entry ms payload) (rs_tools s)) (rs_tools s)\<rparr>)
      else if name = ''done'' then
        Inr (s\<lparr>rs_complete := True, rs_emotion := get_or_none payload ''emotion'',
               rs_full_text := (if dict_truthy payload ''summary'' then get_or_none payload ''summary'' else rs_full_text s)\<rparr>)
      else Inr s)"

text \<open>
  The log line of a delta takes \<^verbatim>\<open>len\<close> of its text and of the accumulated text, which raises where they have none. The
  waiting readers are notified last, so an event that raises stays in the buffer and notifies nobody.
\<close>

definition delta_names :: "string list" where
  "delta_names = [''text_delta'', ''thinking_delta'', ''tool_detail'']"

definition delta_loggable :: "dict \<Rightarrow> response_stream \<Rightarrow> bool" where
  "delta_loggable payload s =
     (has_len (opt_or (map_of payload ''text'') (get_or_empty payload ''detail'')) \<and> has_len (rs_full_text s))"

definition add_event :: "int \<Rightarrow> string \<Rightarrow> dict \<Rightarrow> response_stream \<Rightarrow> py_error option \<times> response_stream" where
  "add_event ms name payload s =
     (let s1 = push_event name payload s
      in case track_event ms name payload s1 of
           Inl e \<Rightarrow> (Some e, s1)
         | Inr s2 \<Rightarrow>
             if name \<in> set delta_names \<and> \<not> delta_loggable payload s2 then (Some (TypeError ''len''), s2)
             else (None, s2\<lparr>rs_notify := rs_notify s2 + 1\<rparr>))"

definition events_after :: "int \<Rightarrow> response_stream \<Rightarrow> sse_event list" where
  "events_after k s = filter (\<lambda>e. k < int (se_seq e)) (rs_events s)"

definition current_seq :: "response_stream \<Rightarrow> int" where
  "current_seq s = (if rs_events s \<noteq> [] then int (rs_seq s) - 1 else -1)"

definition last_event_id :: "response_stream \<Rightarrow> string option" where
  "last_event_id s = (if rs_events s = [] then None else Some (se_id (last (rs_events s))))"

definition stream_status :: "response_stream \<Rightarrow> string" where
  "stream_status s = (if rs_complete s then ''complete'' else ''streaming'')"

text \<open>
  Entering \<^verbatim>\<open>wait_new_event\<close>: it returns at once on its fast path, otherwise the reader sleeps and remembers the
  notification count it saw.
\<close>

datatype wait_entry = ReturnsAtOnce | SleepsAt nat

definition wait_new_event :: "int \<Rightarrow> response_stream \<Rightarrow> wait_entry" where
  "wait_new_event after s =
     (if 0 \<le> after \<and> after < int (rs_seq s) - 1 then ReturnsAtOnce else SleepsAt (rs_notify s))"

section \<open>Frames\<close>

text \<open>\<^verbatim>\<open>json.dumps(payload, ensure_ascii=False)\<close> with the default separators; \<open>fl\<close> is how Python writes a float.\<close>

fun join_sep :: "string \<Rightarrow> string list \<Rightarrow> string" where
  "join_sep sep [] = []"
| "join_sep sep [x] = x"
| "join_sep sep (x # y # ys) = x @ sep @ join_sep sep (y # ys)"

fun dump_spaced :: "(rat \<Rightarrow> string) \<Rightarrow> json \<Rightarrow> string" where
  "dump_spaced fl JNull = ''null''"
| "dump_spaced fl (JBool b) = (if b then ''true'' else ''false'')"
| "dump_spaced fl (JInt i) = int_str i"
| "dump_spaced fl (JFloat q) = fl q"
| "dump_spaced fl JNonFinite = ''NaN''"
| "dump_spaced fl (JStr s) = dump_str s"
| "dump_spaced fl (JArr xs) = ''['' @ join_sep '', '' (map (dump_spaced fl) xs) @ '']''"
| "dump_spaced fl (JObj d) =
     ''{'' @ join_sep '', '' (map (\<lambda>(k, v). dump_str k @ '': '' @ dump_spaced fl v) d) @ ''}''"

definition format_sse_with_id :: "(rat \<Rightarrow> string) \<Rightarrow> string \<Rightarrow> dict \<Rightarrow> string \<Rightarrow> string" where
  "format_sse_with_id fl event payload event_id =
     ''id: '' @ event_id @ [CHR 0x0A] @ ''event: '' @ event @ [CHR 0x0A] @
     ''data: '' @ dump_spaced fl (JObj payload) @ [CHR 0x0A, CHR 0x0A]"

definition format_sse :: "(rat \<Rightarrow> string) \<Rightarrow> string \<Rightarrow> dict \<Rightarrow> string" where
  "format_sse fl event payload =
     ''event: '' @ event @ [CHR 0x0A] @ ''data: '' @ dump_spaced fl (JObj payload) @ [CHR 0x0A, CHR 0x0A]"

datatype sse_frame = EventFrame sse_event | KeepaliveFrame

fun frame_text :: "(rat \<Rightarrow> string) \<Rightarrow> sse_frame \<Rightarrow> string" where
  "frame_text fl (EventFrame e) = format_sse_with_id fl (se_event e) (se_payload e) (se_id e)"
| "frame_text fl KeepaliveFrame = '': keepalive'' @ [CHR 0x0A, CHR 0x0A]"

definition frame_events :: "sse_frame list \<Rightarrow> sse_event list" where
  "frame_events fs = concat (map (\<lambda>f. case f of EventFrame e \<Rightarrow> [e] | KeepaliveFrame \<Rightarrow> []) fs)"

section \<open>The registry\<close>

record stream_registry =
  sr_streams :: "(string \<times> response_stream) list"
  sr_active :: "(string \<times> (string \<times> string) list) list"

definition empty_registry :: stream_registry where
  "empty_registry = \<lparr>sr_streams = [], sr_active = []\<rparr>"

definition stream_ttl :: rat where
  "stream_ttl = 3600"

text \<open>\<^verbatim>\<open>register\<close>; \<open>rid\<close> is the token of \<^verbatim>\<open>secrets.token_urlsafe(24)\<close>.\<close>

definition register :: "string \<Rightarrow> rat \<Rightarrow> string \<Rightarrow> string \<Rightarrow> string \<Rightarrow> stream_registry \<Rightarrow> stream_registry" where
  "register rid now anima person thread r =
     r\<lparr>sr_streams := AList.update rid (new_stream rid anima person thread now) (sr_streams r),
       sr_active := AList.update anima (AList.update thread rid (opt_or (map_of (sr_active r) anima) [])) (sr_active r)\<rparr>"

definition get_stream :: "string \<Rightarrow> stream_registry \<Rightarrow> response_stream option" where
  "get_stream rid r = map_of (sr_streams r) rid"

definition get_active :: "string \<Rightarrow> string option \<Rightarrow> stream_registry \<Rightarrow> response_stream option" where
  "get_active anima thread r =
     (case map_of (sr_active r) anima of
        None \<Rightarrow> None
      | Some threads \<Rightarrow>
          if threads = [] then None
          else Option.bind
            (case thread of
               Some t \<Rightarrow> map_of threads t
             | None \<Rightarrow>
                 (case map_of threads ''default'' of
                    Some rid \<Rightarrow> if rid \<noteq> [] then Some rid else Some (snd (hd threads))
                  | None \<Rightarrow> Some (snd (hd threads))))
            (map_of (sr_streams r)))"

definition count_active :: "string \<Rightarrow> stream_registry \<Rightarrow> nat" where
  "count_active anima r =
     length (filter (\<lambda>(t, rid). case map_of (sr_streams r) rid of None \<Rightarrow> False | Some s \<Rightarrow> \<not> rs_complete s)
       (opt_or (map_of (sr_active r) anima) []))"

text \<open>
  The end of \<^verbatim>\<open>mark_complete\<close> and of \<^verbatim>\<open>cleanup\<close>: the first thread whose active stream is \<open>rid\<close> is deleted, and the anima
  when no thread is left.
\<close>

fun delete_value :: "'v \<Rightarrow> ('k \<times> 'v) list \<Rightarrow> ('k \<times> 'v) list" where
  "delete_value v [] = []"
| "delete_value v ((k, w) # d) = (if w = v then d else (k, w) # delete_value v d)"

definition drop_active ::
  "string \<Rightarrow> string \<Rightarrow> (string \<times> (string \<times> string) list) list \<Rightarrow> (string \<times> (string \<times> string) list) list" where
  "drop_active anima rid active =
     (let threads = delete_value rid (opt_or (map_of active anima) [])
      in if threads = [] then AList.delete anima active else AList.update anima threads active)"

definition finish_stream :: "bool \<Rightarrow> response_stream \<Rightarrow> response_stream" where
  "finish_stream d s = s\<lparr>rs_complete := True, rs_done := d\<rparr>"

definition mark_complete :: "string \<Rightarrow> bool \<Rightarrow> stream_registry \<Rightarrow> stream_registry" where
  "mark_complete rid d r =
     (case map_of (sr_streams r) rid of
        None \<Rightarrow> r
      | Some s \<Rightarrow> r\<lparr>sr_streams := AList.update rid (finish_stream d s) (sr_streams r),
                    sr_active := drop_active (rs_anima s) rid (sr_active r)\<rparr>)"

text \<open>The registry holds references: what a task does to its stream shows in the registry as long as it is there.\<close>

definition on_stream :: "string \<Rightarrow> (response_stream \<Rightarrow> response_stream) \<Rightarrow> stream_registry \<Rightarrow> stream_registry" where
  "on_stream rid f r =
     (case map_of (sr_streams r) rid of
        None \<Rightarrow> r
      | Some s \<Rightarrow> r\<lparr>sr_streams := AList.update rid (f s) (sr_streams r)\<rparr>)"

definition set_producer_task :: "string \<Rightarrow> producer_task \<Rightarrow> stream_registry \<Rightarrow> stream_registry" where
  "set_producer_task rid task = on_stream rid (\<lambda>s. s\<lparr>rs_producer := Some task\<rparr>)"

definition cancel_task :: "response_stream \<Rightarrow> response_stream" where
  "cancel_task s =
     (if rs_producer s \<noteq> None \<and> rs_producer s \<noteq> Some TaskDone then s\<lparr>rs_producer := Some TaskCancelling\<rparr> else s)"

definition cancel_producer :: "string \<Rightarrow> stream_registry \<Rightarrow> stream_registry" where
  "cancel_producer rid = on_stream rid cancel_task"

definition cancel_all_producers :: "stream_registry \<Rightarrow> stream_registry" where
  "cancel_all_producers r = r\<lparr>sr_streams := map (\<lambda>(rid, s). (rid, cancel_task s)) (sr_streams r)\<rparr>"

text \<open>\<^verbatim>\<open>cleanup\<close> with the streams whose producer it cancels; those are no longer in the registry.\<close>

definition expired_streams :: "rat \<Rightarrow> stream_registry \<Rightarrow> string list" where
  "expired_streams now r = map fst (filter (\<lambda>(rid, s). stream_ttl < now - rs_created s) (sr_streams r))"

definition expire_stream :: "string \<Rightarrow> string list \<times> stream_registry \<Rightarrow> string list \<times> stream_registry" where
  "expire_stream rid = (\<lambda>(cancelled, r).
     case map_of (sr_streams r) rid of
       None \<Rightarrow> (cancelled, r)
     | Some s \<Rightarrow>
         (if rs_producer s \<noteq> None \<and> rs_producer s \<noteq> Some TaskDone then cancelled @ [rid] else cancelled,
          r\<lparr>sr_streams := AList.delete rid (sr_streams r), sr_active := drop_active (rs_anima s) rid (sr_active r)\<rparr>))"

definition cleanup :: "rat \<Rightarrow> stream_registry \<Rightarrow> nat \<times> string list \<times> stream_registry" where
  "cleanup now r = (let expired = expired_streams now r in (length expired, fold expire_stream expired ([], r)))"

section \<open>The producer's side of a stream\<close>

text \<open>
  The producer adds an event; when that raises, its last handler adds an \<open>error\<close> event and completes the stream before
  any other task runs, if the stream is still registered (\<open>reg\<close>). \<open>produced\<close> are the events that this appends.
\<close>

definition stream_error :: dict where
  "stream_error = [(''code'', JStr ''STREAM_ERROR''), (''message'', JStr ''Internal server error'')]"

definition produce :: "bool \<Rightarrow> int \<Rightarrow> string \<Rightarrow> dict \<Rightarrow> response_stream \<Rightarrow> response_stream" where
  "produce reg ms name payload s =
     (case add_event ms name payload s of
        (None, s1) \<Rightarrow> s1
      | (Some e, s1) \<Rightarrow>
          (if reg then finish_stream False else id) (snd (add_event ms ''error'' stream_error s1)))"

definition produced :: "int \<Rightarrow> string \<Rightarrow> dict \<Rightarrow> response_stream \<Rightarrow> sse_event list" where
  "produced ms name payload s =
     make_event name payload s #
       (case add_event ms name payload s of (None, s1) \<Rightarrow> [] | (Some e, s1) \<Rightarrow> [make_event ''error'' stream_error s1])"

section \<open>The readers\<close>

text \<open>
  Where a reader is suspended: at its start (for the tail: at the head of its loop, in \<^verbatim>\<open>is_disconnected\<close>), before it
  sends the rest of a fetched list (the empty list: at the \<^verbatim>\<open>yield\<close> of its last event), in \<^verbatim>\<open>sleep(0)\<close>, in the wait
  with the count it saw, at the \<^verbatim>\<open>yield\<close> of a keepalive; or it has ended, \<open>True\<close> when the client left.
\<close>

datatype reader_pc = AtStart | Sending "sse_event list" | Flushing | Waiting nat | Resting | Ended bool

datatype wake = Proceeds | TimesOut | ClientGone

record reader =
  rd_seq :: int
  rd_out :: "sse_frame list"
  rd_pc :: reader_pc

definition start_reader :: "int \<Rightarrow> reader" where
  "start_reader after = \<lparr>rd_seq = after, rd_out = [], rd_pc = AtStart\<rparr>"

definition send_event :: "sse_event \<Rightarrow> sse_event list \<Rightarrow> reader \<Rightarrow> reader" where
  "send_event e es r = r\<lparr>rd_out := rd_out r @ [EventFrame e], rd_seq := int (se_seq e), rd_pc := Sending es\<rparr>"

definition send_keepalive :: "reader \<Rightarrow> reader" where
  "send_keepalive r = r\<lparr>rd_out := rd_out r @ [KeepaliveFrame], rd_pc := Resting\<rparr>"

definition enter_wait :: "int \<Rightarrow> response_stream \<Rightarrow> reader_pc" where
  "enter_wait after s = (case wait_new_event after s of ReturnsAtOnce \<Rightarrow> AtStart | SleepsAt n \<Rightarrow> Waiting n)"

text \<open>One pass through the loop of \<^verbatim>\<open>_sse_tail\<close>.\<close>

definition tail_poll :: "response_stream \<Rightarrow> reader \<Rightarrow> reader" where
  "tail_poll s r =
     (let evs = events_after (rd_seq r) s
      in if evs \<noteq> [] then r\<lparr>rd_pc := Sending evs\<rparr>
         else if rs_complete s
         then r\<lparr>rd_out := rd_out r @ map EventFrame (events_after (rd_seq r) s), rd_pc := Ended False\<rparr>
         else r\<lparr>rd_pc := enter_wait (rd_seq r) s\<rparr>)"

fun tail_moves :: "reader_pc \<Rightarrow> wake \<Rightarrow> response_stream \<Rightarrow> reader \<Rightarrow> reader" where
  "tail_moves (Ended b) w s r = r"
| "tail_moves pc ClientGone s r = r\<lparr>rd_pc := Ended True\<rparr>"
| "tail_moves AtStart w s r = tail_poll s r"
| "tail_moves (Sending (e # es)) w s r = send_event e es r"
| "tail_moves (Sending []) w s r = r\<lparr>rd_pc := Flushing\<rparr>"
| "tail_moves Flushing w s r = r\<lparr>rd_pc := AtStart\<rparr>"
| "tail_moves (Waiting seen) TimesOut s r = (if rs_complete s then r\<lparr>rd_pc := AtStart\<rparr> else send_keepalive r)"
| "tail_moves (Waiting seen) Proceeds s r = (if rs_notify s \<noteq> seen then r\<lparr>rd_pc := AtStart\<rparr> else r)"
| "tail_moves Resting w s r = r\<lparr>rd_pc := AtStart\<rparr>"

definition tail_step :: "wake \<Rightarrow> response_stream \<Rightarrow> reader \<Rightarrow> reader" where
  "tail_step w s r = tail_moves (rd_pc r) w s r"

text \<open>\<^verbatim>\<open>_replay_events\<close> of a resumed stream: the head of its loop tests for completion before it waits.\<close>

definition resume_test :: "response_stream \<Rightarrow> reader \<Rightarrow> reader" where
  "resume_test s r = r\<lparr>rd_pc := (if rs_complete s then Ended False else enter_wait (-1) s)\<rparr>"

definition resume_fetch :: "response_stream \<Rightarrow> reader \<Rightarrow> reader" where
  "resume_fetch s r =
     (let evs = events_after (rd_seq r) s in if evs \<noteq> [] then r\<lparr>rd_pc := Sending evs\<rparr> else resume_test s r)"

fun resume_moves :: "reader_pc \<Rightarrow> wake \<Rightarrow> response_stream \<Rightarrow> reader \<Rightarrow> reader" where
  "resume_moves (Ended b) w s r = r"
| "resume_moves pc ClientGone s r = r\<lparr>rd_pc := Ended True\<rparr>"
| "resume_moves AtStart w s r = resume_fetch s r"
| "resume_moves (Sending (e # es)) w s r = send_event e es r"
| "resume_moves (Sending []) w s r = resume_test s r"
| "resume_moves (Waiting seen) TimesOut s r = send_keepalive r"
| "resume_moves (Waiting seen) Proceeds s r = (if rs_notify s \<noteq> seen then resume_fetch s r else r)"
| "resume_moves Resting w s r = resume_test s r"
| "resume_moves Flushing w s r = r"

definition resume_step :: "wake \<Rightarrow> response_stream \<Rightarrow> reader \<Rightarrow> reader" where
  "resume_step w s r = resume_moves (rd_pc r) w s r"

section \<open>Resuming\<close>

text \<open>\<^verbatim>\<open>int(text)\<close> on ASCII, \<open>None\<close> where it raises.\<close>

definition plain_digits :: "string \<Rightarrow> int option" where
  "plain_digits t =
     (if t \<noteq> [] \<and> list_all (\<lambda>c. json_digit c \<or> c = CHR ''_'') t \<and> hd t \<noteq> CHR ''_'' \<and> last t \<noteq> CHR ''_''
         \<and> \<not> occurs_in ''__'' t
      then Some (json_digits_value (filter json_digit t)) else None)"

definition int_of_text :: "string \<Rightarrow> int option" where
  "int_of_text text =
     (case py_strip text of
        [] \<Rightarrow> None
      | c # cs \<Rightarrow> if c = CHR ''-'' then map_option uminus (plain_digits cs)
                  else if c = CHR ''+'' then plain_digits cs else plain_digits (c # cs))"

text \<open>\<^verbatim>\<open>last_event_id.rsplit(":", 1)[1]\<close> of a text that has a colon.\<close>

definition after_last_colon :: "string \<Rightarrow> string" where
  "after_last_colon t = rev (takeWhile (\<lambda>c. c \<noteq> CHR '':'') (rev t))"

definition parse_after_seq :: "string \<Rightarrow> int" where
  "parse_after_seq last_id =
     (if CHR '':'' \<in> set last_id then opt_or (int_of_text (after_last_colon last_id)) (-1) else -1)"

text \<open>
  \<^verbatim>\<open>_handle_resume\<close>: one error frame (\<open>msg\<close> is its translated text), or a reader of the stream and its first state.
\<close>

datatype resume_answer = ResumeNotFound string | ResumeReader response_stream reader

definition handle_resume ::
  "(rat \<Rightarrow> string) \<Rightarrow> string \<Rightarrow> stream_registry \<Rightarrow> string \<Rightarrow> string \<Rightarrow> string \<Rightarrow> string \<Rightarrow> resume_answer" where
  "handle_resume fl msg r resume_id last_id anima person =
     (case get_stream resume_id r of
        Some s \<Rightarrow>
          if rs_anima s \<noteq> anima \<or> rs_from s \<noteq> person
          then ResumeNotFound (format_sse fl ''error'' [(''code'', JStr ''STREAM_NOT_FOUND''), (''message'', JStr msg)])
          else ResumeReader s (start_reader (parse_after_seq last_id))
      | None \<Rightarrow> ResumeNotFound (format_sse fl ''error'' [(''code'', JStr ''STREAM_NOT_FOUND''), (''message'', JStr msg)]))"

section \<open>A stream with a reader\<close>

text \<open>
  \<open>ch_log\<close> is every event that was ever added; it is no state of the program. The reader is given by its step function.
\<close>

record chat =
  ch_stream :: response_stream
  ch_log :: "sse_event list"
  ch_reader :: reader

inductive chat_step :: "(wake \<Rightarrow> response_stream \<Rightarrow> reader \<Rightarrow> reader) \<Rightarrow> chat \<Rightarrow> chat \<Rightarrow> bool" for rstep where
  adds: "chat_step rstep c (c\<lparr>ch_stream := produce reg ms name payload (ch_stream c),
                              ch_log := ch_log c @ produced ms name payload (ch_stream c)\<rparr>)"
| finishes: "chat_step rstep c (c\<lparr>ch_stream := finish_stream d (ch_stream c)\<rparr>)"
| reads: "chat_step rstep c (c\<lparr>ch_reader := rstep w (ch_stream c) (ch_reader c)\<rparr>)"

inductive_cases chat_stepE: "chat_step rstep c c'"

section \<open>The buffer holds the latest events\<close>

text \<open>
  The number of an event is its position in the log, and the buffer is the end of the log.
\<close>

definition buffer_ok :: "sse_event list \<Rightarrow> response_stream \<Rightarrow> bool" where
  "buffer_ok hist s =
     (rs_seq s = length hist \<and> map se_seq hist = [0 ..< length hist] \<and> rs_events s = last_n max_events hist \<and>
      (\<forall>e \<in> set hist. se_id e = rs_id s @ '':'' @ nat_str (se_seq e)))"

lemma buffer_ok_new [simp]: "buffer_ok [] (new_stream rid anima person thread now)"
  by (simp add: buffer_ok_def new_stream_def last_n_def)

lemma se_seq_make [simp]: "se_seq (make_event name payload s) = rs_seq s"
  by (simp add: make_event_def)

lemma buffer_snoc: "0 < n \<Longrightarrow> last_n n (last_n n xs @ [x]) = last_n n (xs @ [x])"
  by (cases "length xs < n") (auto simp: last_n_def Suc_diff_le)

lemma last_n_all: "length xs \<le> n \<Longrightarrow> last_n n xs = xs"
  by (simp add: last_n_def)

lemma append_event_fields [simp]:
  "rs_seq (push_event name payload s) = rs_seq s + 1"
  "rs_events (push_event name payload s) = last_n max_events (rs_events s @ [make_event name payload s])"
  "rs_notify (push_event name payload s) = rs_notify s"
  "rs_complete (push_event name payload s) = rs_complete s"
  "rs_id (push_event name payload s) = rs_id s"
  "rs_full_text (push_event name payload s) = rs_full_text s"
  by (simp_all add: push_event_def Let_def last_n_all del: length_append)

lemma buffer_ok_append:
  "buffer_ok hist s \<Longrightarrow> buffer_ok (hist @ [make_event name payload s]) (push_event name payload s)"
  by (auto simp: buffer_ok_def buffer_snoc max_events_def make_event_def)

lemma track_event_keeps:
  assumes "track_event ms name payload s = Inr s'"
  shows "rs_seq s' = rs_seq s" "rs_events s' = rs_events s" "rs_notify s' = rs_notify s" "rs_id s' = rs_id s"
  using assms by (auto simp: track_event_def split: if_splits option.splits)

lemma add_event_keeps:
  "rs_seq (snd (add_event ms name payload s)) = rs_seq s + 1"
  "rs_events (snd (add_event ms name payload s)) = rs_events (push_event name payload s)"
  "rs_id (snd (add_event ms name payload s)) = rs_id s"
  by (auto simp: add_event_def Let_def dest: track_event_keeps split: sum.split)

lemma add_event_notify:
  "rs_notify (snd (add_event ms name payload s)) = (if fst (add_event ms name payload s) = None then rs_notify s + 1 else rs_notify s)"
  by (auto simp: add_event_def Let_def dest: track_event_keeps split: sum.split)

lemma buffer_ok_cong:
  "rs_seq s' = rs_seq s \<Longrightarrow> rs_events s' = rs_events s \<Longrightarrow> rs_id s' = rs_id s \<Longrightarrow> buffer_ok hist s' = buffer_ok hist s"
  by (simp add: buffer_ok_def)

lemma buffer_ok_finish [simp]: "buffer_ok hist (finish_stream d s) = buffer_ok hist s"
  by (rule buffer_ok_cong) (simp_all add: finish_stream_def)

lemma buffer_ok_add:
  assumes "buffer_ok hist s"
  shows "buffer_ok (hist @ [make_event name payload s]) (snd (add_event ms name payload s))"
  using buffer_ok_append [OF assms, of name payload] by (simp add: buffer_ok_def add_event_keeps)

text \<open>The error event that ends a failed stream never fails itself.\<close>

lemma error_event_ok: "fst (add_event ms ''error'' payload s) = None"
  by (simp add: add_event_def Let_def track_event_def delta_names_def)

lemma buffer_ok_produce: "buffer_ok hist s \<Longrightarrow> buffer_ok (hist @ produced ms name payload s) (produce reg ms name payload s)"
  using buffer_ok_add [of hist s name payload ms]
    buffer_ok_add [of "hist @ [make_event name payload s]" "snd (add_event ms name payload s)" "''error''" stream_error ms]
  by (auto simp: produced_def produce_def split: prod.split option.split)

lemma produce_notifies: "rs_notify s < rs_notify (produce reg ms name payload s)"
proof (cases "add_event ms name payload s")
  case (Pair err s1)
  show ?thesis
  proof (cases err)
    case None
    then show ?thesis using Pair add_event_notify [of ms name payload s] by (simp add: produce_def)
  next
    case (Some e)
    then show ?thesis
      using Pair add_event_notify [of ms name payload s] add_event_notify [of ms "''error''" stream_error s1]
      by (simp add: produce_def finish_stream_def error_event_ok)
  qed
qed

lemma filter_seq_drop:
  "map se_seq xs = [m ..< m + length xs] \<Longrightarrow> filter (\<lambda>e. k < int (se_seq e)) xs = drop (nat (k + 1) - m) xs"
proof (induction xs arbitrary: m)
  case (Cons x xs)
  have h: "se_seq x = m" and t: "map se_seq xs = [Suc m ..< Suc m + length xs]"
    using Cons.prems by (simp_all add: upt_conv_Cons del: upt_Suc)
  show ?case
  proof (cases "k < int m")
    case True
    then have z: "nat (k + 1) - m = 0" "nat (k + 1) - Suc m = 0" by linarith+
    show ?thesis using Cons.IH [OF t] h True by (simp add: z)
  next
    case False
    then have z: "nat (k + 1) - m = Suc (nat (k + 1) - Suc m)" by linarith
    show ?thesis using Cons.IH [OF t] h False by (simp add: z)
  qed
qed simp

lemma events_after_eq:
  assumes "buffer_ok hist s"
  shows "events_after k s = drop (max (nat (k + 1)) (length hist - max_events)) hist"
proof -
  let ?m = "length hist - max_events"
  have "map se_seq (drop ?m hist) = [?m ..< ?m + length (drop ?m hist)]"
    using assms by (simp add: buffer_ok_def drop_upt flip: drop_map)
  from filter_seq_drop [OF this, of k] show ?thesis
    using assms by (simp add: events_after_def buffer_ok_def last_n_def max_def)
qed

lemma log_nth_seq: "buffer_ok hist s \<Longrightarrow> i < length hist \<Longrightarrow> se_seq (hist ! i) = i"
  by (simp add: buffer_ok_def flip: nth_map)

lemma in_set_drop_iff: "e \<in> set (drop m xs) \<longleftrightarrow> (\<exists>i < length xs. m \<le> i \<and> xs ! i = e)"
proof
  assume "e \<in> set (drop m xs)"
  then obtain i where "i < length xs - m" "xs ! (m + i) = e" by (auto simp: in_set_conv_nth)
  then show "\<exists>i < length xs. m \<le> i \<and> xs ! i = e" by (intro exI [of _ "m + i"]) simp
next
  assume "\<exists>i < length xs. m \<le> i \<and> xs ! i = e"
  then obtain i where "i < length xs" "m \<le> i" "xs ! i = e" by blast
  then show "e \<in> set (drop m xs)" by (auto simp: in_set_conv_nth intro: exI [of _ "i - m"])
qed

lemma set_events_after:
  assumes "buffer_ok hist s"
  shows "e \<in> set (events_after k s) \<longleftrightarrow> e \<in> set hist \<and> k < int (se_seq e) \<and> length hist \<le> se_seq e + max_events"
proof -
  let ?m = "max (nat (k + 1)) (length hist - max_events)"
  have "e \<in> set (drop ?m hist) \<longleftrightarrow> (\<exists>i < length hist. ?m \<le> i \<and> hist ! i = e)"
    by (rule in_set_drop_iff)
  also have "\<dots> \<longleftrightarrow> (\<exists>i < length hist. hist ! i = e \<and> k < int (se_seq e) \<and> length hist \<le> se_seq e + max_events)"
    using log_nth_seq [OF assms] by (intro ex_cong1) auto
  finally show ?thesis by (auto simp: events_after_eq [OF assms] in_set_conv_nth)
qed

lemma sorted_events_after:
  assumes "buffer_ok hist s"
  shows "sorted_wrt (<) (map se_seq (events_after k s))"
  using assms by (simp add: events_after_eq [OF assms] buffer_ok_def flip: drop_map)

section \<open>What every reader keeps\<close>

definition sent_events :: "reader \<Rightarrow> sse_event list" where
  "sent_events r = frame_events (rd_out r)"

fun pending :: "reader_pc \<Rightarrow> sse_event list" where
  "pending (Sending es) = es"
| "pending _ = []"

definition fell_out :: "sse_event list \<Rightarrow> sse_event \<Rightarrow> bool" where
  "fell_out hist e = (se_seq e + max_events < length hist)"

text \<open>The number up to which a reader has dealt with the log, and the promise about that part.\<close>

definition reached :: "int \<Rightarrow> sse_event list \<Rightarrow> int" where
  "reached k out = (if out = [] then k else int (se_seq (last out)))"

definition sends_in_order :: "int \<Rightarrow> sse_event list \<Rightarrow> sse_event list \<Rightarrow> bool" where
  "sends_in_order k hist out =
     (sorted_wrt (<) (map se_seq out) \<and> set out \<subseteq> set hist \<and> (\<forall>e \<in> set out. k < int (se_seq e)) \<and>
      (\<forall>e \<in> set hist. k < int (se_seq e) \<and> int (se_seq e) \<le> reached k out \<longrightarrow> e \<in> set out \<or> fell_out hist e))"

definition reader_ok :: "int \<Rightarrow> sse_event list \<Rightarrow> reader \<Rightarrow> bool" where
  "reader_ok k hist r =
     (sends_in_order k hist (sent_events r @ pending (rd_pc r)) \<and> rd_seq r = reached k (sent_events r))"

lemma frame_events_simps [simp]:
  "frame_events [] = []"
  "frame_events (fs @ gs) = frame_events fs @ frame_events gs"
  "frame_events [EventFrame e] = [e]"
  "frame_events [KeepaliveFrame] = []"
  "frame_events (map EventFrame es) = es"
  by (simp_all add: frame_events_def) (induction es; simp)

lemma delivered_simps [simp]:
  "sent_events (r\<lparr>rd_pc := pc\<rparr>) = sent_events r"
  "sent_events (send_event e es r) = sent_events r @ [e]"
  "sent_events (send_keepalive r) = sent_events r"
  "sent_events (start_reader k) = []"
  by (simp_all add: sent_events_def send_event_def send_keepalive_def start_reader_def)

lemma reached_simps [simp]: "reached k [] = k" "reached k (out @ [e]) = int (se_seq e)"
  by (simp_all add: reached_def)

lemma sends_in_order_Nil [simp]: "sends_in_order k hist []"
  by (auto simp: sends_in_order_def)

lemma reached_append: "es \<noteq> [] \<Longrightarrow> reached k (out @ es) = int (se_seq (last es))"
  by (simp add: reached_def)

lemma reached_ge:
  assumes "sorted_wrt (<) (map se_seq out)" "e \<in> set out"
  shows "int (se_seq e) \<le> reached k out"
proof -
  obtain xs y where out: "out = xs @ [y]" using assms(2) by (cases out rule: rev_cases) auto
  then show ?thesis using assms by (auto simp: sorted_wrt_append)
qed

lemma sends_in_order_prefix:
  assumes "sends_in_order k hist (out @ es)"
  shows "sends_in_order k hist out"
proof (cases "out = []")
  case False
  then obtain xs y where out: "out = xs @ [y]" by (cases out rule: rev_cases) auto
  have "e \<in> set out \<or> fell_out hist e"
    if e: "e \<in> set hist" "k < int (se_seq e)" "int (se_seq e) \<le> reached k out" for e
  proof -
    have "reached k out \<le> reached k (out @ es)"
      using assms reached_ge [of "out @ es" y k] by (simp add: sends_in_order_def out)
    then have "e \<in> set (out @ es) \<or> fell_out hist e"
      using assms e by (auto simp: sends_in_order_def)
    moreover have "e \<notin> set es"
      using assms e(3) by (auto simp: sends_in_order_def out sorted_wrt_append)
    ultimately show ?thesis by auto
  qed
  then show ?thesis using assms by (auto simp: sends_in_order_def sorted_wrt_append)
qed simp

lemma new_seq_ge:
  assumes "buffer_ok (hist @ new) s" "e \<in> set new"
  shows "length hist \<le> se_seq e"
proof -
  obtain i where "i < length new" "e = new ! i" using assms(2) by (auto simp: in_set_conv_nth)
  then show ?thesis
    using log_nth_seq [OF assms(1), of "length hist + i"] by (simp add: nth_append)
qed

lemma old_seq_less: "buffer_ok hist s \<Longrightarrow> e \<in> set hist \<Longrightarrow> se_seq e < length hist"
  by (metis in_set_conv_nth log_nth_seq)

lemma sends_in_order_more:
  assumes "sends_in_order k hist out" "buffer_ok hist s" "buffer_ok (hist @ new) s'"
  shows "sends_in_order k (hist @ new) out"
proof (cases "out = []")
  case False
  then have "last out \<in> set hist"
    using assms(1) last_in_set by (auto simp: sends_in_order_def)
  then have "reached k out < int (length hist)"
    using False old_seq_less [OF assms(2)] by (simp add: reached_def)
  then have "e \<in> set hist" if "e \<in> set (hist @ new)" "int (se_seq e) \<le> reached k out" for e
    using that new_seq_ge [OF assms(3), of e] by auto
  then show ?thesis using assms(1) by (fastforce simp: sends_in_order_def fell_out_def)
qed simp

lemma sends_in_order_fetch:
  assumes "sends_in_order k hist out" "buffer_ok hist s"
  shows "sends_in_order k hist (out @ events_after (reached k out) s)"
proof -
  let ?evs = "events_after (reached k out) s"
  have k: "k \<le> reached k out"
    using assms(1) by (auto simp: reached_def sends_in_order_def less_imp_le)
  have later: "reached k out < int (se_seq e)" if "e \<in> set ?evs" for e
    using that set_events_after [OF assms(2)] by blast
  have "sorted_wrt (<) (map se_seq (out @ ?evs))"
    using assms(1) sorted_events_after [OF assms(2)] later reached_ge
    by (fastforce simp: sends_in_order_def sorted_wrt_append)
  moreover have "e \<in> set (out @ ?evs) \<or> fell_out hist e"
    if "e \<in> set hist" "k < int (se_seq e)" for e
    using that assms(1) set_events_after [OF assms(2), of e "reached k out"]
    by (cases "int (se_seq e) \<le> reached k out") (auto simp: sends_in_order_def fell_out_def)
  ultimately show ?thesis
    using assms(1) k later set_events_after [OF assms(2)] by (force simp: sends_in_order_def)
qed

text \<open>
  All that a reader may do in a step: fetch what is behind its position, send the next event it has, move on with
  nothing in hand, send a keepalive, or be left by its client.
\<close>

inductive reader_move :: "response_stream \<Rightarrow> reader \<Rightarrow> reader \<Rightarrow> bool" for s r where
  fetches: "pending (rd_pc r) = [] \<Longrightarrow> reader_move s r (r\<lparr>rd_pc := Sending (events_after (rd_seq r) s)\<rparr>)"
| sends: "rd_pc r = Sending (e # es) \<Longrightarrow> reader_move s r (send_event e es r)"
| idles: "pending (rd_pc r) = [] \<Longrightarrow> pending pc = [] \<Longrightarrow> reader_move s r (r\<lparr>rd_pc := pc\<rparr>)"
| keeps_alive: "pending (rd_pc r) = [] \<Longrightarrow> reader_move s r (send_keepalive r)"
| leaves: "reader_move s r (r\<lparr>rd_pc := Ended True\<rparr>)"
| rests: "reader_move s r r"

lemma reader_move_ok:
  assumes "reader_move s r r'" "reader_ok k hist r" "buffer_ok hist s"
  shows "reader_ok k hist r'"
  using assms
proof cases
  case fetches
  then show ?thesis
    using assms sends_in_order_fetch [of k hist "sent_events r" s] by (simp add: reader_ok_def)
next
  case (sends e es)
  then show ?thesis using assms by (simp add: reader_ok_def) (simp add: send_event_def)
next
  case keeps_alive
  then show ?thesis using assms by (simp add: reader_ok_def) (simp add: send_keepalive_def)
next
  case leaves
  then show ?thesis
    using assms by (auto simp: reader_ok_def intro: sends_in_order_prefix)
qed (simp_all add: reader_ok_def)

definition chat_init :: "int \<Rightarrow> chat \<Rightarrow> bool" where
  "chat_init k c = (buffer_ok (ch_log c) (ch_stream c) \<and> ch_reader c = start_reader k)"

definition chat_ok :: "int \<Rightarrow> chat \<Rightarrow> bool" where
  "chat_ok k c = (buffer_ok (ch_log c) (ch_stream c) \<and> reader_ok k (ch_log c) (ch_reader c))"

locale stream_reader =
  fixes rstep :: "wake \<Rightarrow> response_stream \<Rightarrow> reader \<Rightarrow> reader"
  assumes moves: "reader_move s r (rstep w s r)"
begin

lemma chat_ok_init: "chat_init k c \<Longrightarrow> chat_ok k c"
  by (simp add: chat_init_def chat_ok_def reader_ok_def) (simp add: start_reader_def)

lemma chat_ok_step: "chat_step rstep c c' \<Longrightarrow> chat_ok k c \<Longrightarrow> chat_ok k c'"
proof (erule chat_stepE)
  fix w
  assume "c' = c\<lparr>ch_reader := rstep w (ch_stream c) (ch_reader c)\<rparr>" "chat_ok k c"
  then show "chat_ok k c'"
    using reader_move_ok [OF moves [of "ch_stream c" "ch_reader c" w]] by (simp add: chat_ok_def)
next
  fix reg ms name payload
  assume c': "c' = c\<lparr>ch_stream := produce reg ms name payload (ch_stream c),
                      ch_log := ch_log c @ produced ms name payload (ch_stream c)\<rparr>" and ok: "chat_ok k c"
  have "buffer_ok (ch_log c @ produced ms name payload (ch_stream c)) (produce reg ms name payload (ch_stream c))"
    using ok by (simp add: chat_ok_def buffer_ok_produce)
  with ok show "chat_ok k c'"
    by (auto simp: c' chat_ok_def reader_ok_def intro: sends_in_order_more)
qed (simp add: chat_ok_def)

end

sublocale stream_reader \<subseteq> chats: step_invariant "chat_init k" "chat_step rstep" "chat_ok k" for k
  by unfold_locales (auto intro: chat_ok_init chat_ok_step)

section \<open>The two readers\<close>

lemma reader_same [simp]: "(r :: reader)\<lparr>rd_out := rd_out r\<rparr> = r"
  by simp

lemma tail_poll_moves: "pending (rd_pc r) = [] \<Longrightarrow> reader_move s r (tail_poll s r)"
  by (auto simp: tail_poll_def Let_def enter_wait_def intro: fetches idles split: wait_entry.split)

lemma resume_test_moves: "pending (rd_pc r) = [] \<Longrightarrow> reader_move s r (resume_test s r)"
  by (auto simp: resume_test_def enter_wait_def intro: idles split: wait_entry.split)

lemma resume_fetch_moves: "pending (rd_pc r) = [] \<Longrightarrow> reader_move s r (resume_fetch s r)"
  by (auto simp: resume_fetch_def Let_def intro: fetches resume_test_moves)

interpretation tail: stream_reader tail_step
proof
  fix s r w
  show "reader_move s r (tail_step w s r)"
  proof (cases "rd_pc r")
    case (Sending es)
    then show ?thesis by (cases es; cases w) (auto simp: tail_step_def intro: sends idles leaves)
  next
    case (Waiting n)
    then show ?thesis by (cases w) (auto simp: tail_step_def intro: idles keeps_alive leaves rests)
  qed (cases w; auto simp: tail_step_def intro: tail_poll_moves idles leaves rests)+
qed

interpretation resume: stream_reader resume_step
proof
  fix s r w
  show "reader_move s r (resume_step w s r)"
  proof (cases "rd_pc r")
    case (Sending es)
    then show ?thesis by (cases es; cases w) (auto simp: resume_step_def intro: sends resume_test_moves leaves)
  next
    case (Waiting n)
    then show ?thesis by (cases w) (auto simp: resume_step_def intro: resume_fetch_moves keeps_alive leaves rests)
  qed (cases w; auto simp: resume_step_def intro: resume_fetch_moves resume_test_moves leaves rests)+
qed

text \<open>
  A tail that ends because the stream is complete has sent every event that is still in the buffer: between its last
  fetch and its test for completion no other task runs.
\<close>

lemma tail_ends_drained:
  assumes "rd_pc (tail_step w s r) = Ended False" "rd_pc r \<noteq> Ended False"
  shows "events_after (rd_seq r) s = []" "rd_out (tail_step w s r) = rd_out r" "rs_complete s" "pending (rd_pc r) = []"
proof -
  have "rd_pc r = AtStart \<and> w \<noteq> ClientGone"
  proof (cases "rd_pc r")
    case (Sending es)
    then show ?thesis using assms by (cases es; cases w) (simp_all add: tail_step_def send_event_def)
  next
    case (Waiting n)
    then show ?thesis using assms by (cases w) (simp_all add: tail_step_def send_keepalive_def split: if_splits)
  qed (use assms in \<open>cases w; simp add: tail_step_def\<close>)+
  moreover from this have "tail_step w s r = tail_poll s r"
    by (cases w) (simp_all add: tail_step_def)
  ultimately show "events_after (rd_seq r) s = []" "rd_out (tail_step w s r) = rd_out r" "rs_complete s" "pending (rd_pc r) = []"
    using assms by (auto simp: tail_poll_def Let_def enter_wait_def split: if_splits wait_entry.splits)
qed

lemma sorted_same_set:
  assumes "buffer_ok hist s" "sorted_wrt (<) (map se_seq out)" "set out = set hist"
  shows "out = hist"
proof -
  have "sorted_wrt (<) (map se_seq hist)" using assms(1) by (simp add: buffer_ok_def)
  moreover have "inj_on se_seq (set hist)"
    using assms(1) by (metis buffer_ok_def distinct_map distinct_upt)
  ultimately have "map se_seq out = map se_seq hist" "inj_on se_seq (set out \<union> set hist)"
    using assms by (auto simp: strict_sorted_iff intro: sorted_distinct_set_unique)
  then show ?thesis by (auto dest: map_inj_on)
qed

lemma tail_ends_complete:
  assumes ok: "chat_ok (-1) c"
    and e: "rd_pc (tail_step w (ch_stream c) (ch_reader c)) = Ended False" "rd_pc (ch_reader c) \<noteq> Ended False"
    and short: "length (ch_log c) \<le> max_events"
  shows "sent_events (tail_step w (ch_stream c) (ch_reader c)) = ch_log c"
proof (rule sorted_same_set)
  let ?out = "sent_events (ch_reader c)"
  note d = tail_ends_drained [OF e]
  have eq: "sent_events (tail_step w (ch_stream c) (ch_reader c)) = ?out" by (simp add: sent_events_def d(2))
  have b: "buffer_ok (ch_log c) (ch_stream c)" and o: "sends_in_order (-1) (ch_log c) ?out"
    and q: "rd_seq (ch_reader c) = reached (-1) ?out"
    using ok d(4) by (simp_all add: chat_ok_def reader_ok_def)
  show "buffer_ok (ch_log c) (ch_stream c)" by (fact b)
  show "sorted_wrt (<) (map se_seq (sent_events (tail_step w (ch_stream c) (ch_reader c))))"
    using o by (simp add: eq sends_in_order_def)
  have "x \<in> set ?out" if "x \<in> set (ch_log c)" for x
    using that o short d(1) [unfolded q] set_events_after [OF b, of x "reached (-1) ?out"]
    by (auto simp: sends_in_order_def fell_out_def)
  then show "set (sent_events (tail_step w (ch_stream c) (ch_reader c))) = set (ch_log c)"
    using o by (auto simp: eq sends_in_order_def)
qed

section \<open>Resuming behind the last received event\<close>

lemma nat_str_no_colon: "CHR '':'' \<notin> set (nat_str n)"
  using nat_str_digits [of n] by (auto simp: list_all_iff json_digit_def)

lemma after_last_colon_id: "after_last_colon (rid @ '':'' @ nat_str n) = nat_str n"
proof -
  have "takeWhile (\<lambda>c. c \<noteq> CHR '':'') (rev (nat_str n) @ CHR '':'' # rev rid) = rev (nat_str n)"
    using nat_str_no_colon [of n] by (subst takeWhile_append2) auto
  then show ?thesis by (simp add: after_last_colon_def)
qed

lemma digits_no_underscores:
  "list_all json_digit t \<Longrightarrow> CHR ''_'' \<notin> set t \<and> \<not> occurs_in ''__'' t"
proof (induction t)
  case (Cons c t)
  then have "c \<noteq> CHR ''_''" by (auto simp: json_digit_def)
  with Cons show ?case by (auto simp: starts_with_def)
qed simp

lemma plain_digits_nat_str: "plain_digits (nat_str n) = Some (int n)"
proof -
  have d: "list_all json_digit (nat_str n)" "nat_str n \<noteq> []" using nat_str_digits by auto
  moreover from d have "filter json_digit (nat_str n) = nat_str n" by (simp add: list_all_iff)
  moreover have "hd (nat_str n) \<noteq> CHR ''_''" "last (nat_str n) \<noteq> CHR ''_''"
    using d digits_no_underscores [of "nat_str n"] by (metis hd_in_set last_in_set)+
  ultimately show ?thesis
    using digits_no_underscores [of "nat_str n"] digits_value_nat_str [of n]
    by (auto simp: plain_digits_def list_all_iff)
qed

lemma strip_digits: "list_all json_digit t \<Longrightarrow> py_strip t = t"
proof -
  assume d: "list_all json_digit t"
  have "dropWhile is_space u = u" if "list_all json_digit u" for u
    using that by (cases u) (auto simp: json_digit_def is_space_def)
  then show ?thesis using d by (simp add: py_strip_def)
qed

lemma int_of_nat_str: "int_of_text (nat_str n) = Some (int n)"
proof -
  obtain c cs where t: "nat_str n = c # cs" using nat_str_digits [of n] by (cases "nat_str n") auto
  moreover from this have "json_digit c" using nat_str_digits [of n] by simp
  then have "c \<noteq> CHR ''-''" "c \<noteq> CHR ''+''" by (auto simp: json_digit_def)
  ultimately show ?thesis
    using nat_str_digits [of n] plain_digits_nat_str [of n] by (simp add: int_of_text_def strip_digits)
qed

lemma parse_event_id: "parse_after_seq (rid @ '':'' @ nat_str n) = int n"
  using after_last_colon_id [of rid n] by (simp add: parse_after_seq_def int_of_nat_str)

lemma resume_reader_start:
  assumes "handle_resume fl msg reg rid last_id anima person = ResumeReader s r"
  shows "get_stream rid reg = Some s" "rs_anima s = anima" "rs_from s = person" "r = start_reader (parse_after_seq last_id)"
  using assms by (auto simp: handle_resume_def split: option.splits if_splits)

lemma reached_again: "reached (reached k out) out' = reached k (out @ out')"
  by (simp add: reached_def)

lemma sends_in_order_append:
  assumes "sends_in_order k hist out" "sends_in_order (reached k out) hist out'"
  shows "sends_in_order k hist (out @ out')"
proof -
  have k: "k \<le> reached k out"
    using assms(1) by (auto simp: reached_def sends_in_order_def less_imp_le)
  have "sorted_wrt (<) (map se_seq (out @ out'))"
    using assms reached_ge [of out] by (fastforce simp: sends_in_order_def sorted_wrt_append)
  moreover have "e \<in> set (out @ out') \<or> fell_out hist e"
    if "e \<in> set hist" "k < int (se_seq e)" "int (se_seq e) \<le> reached k (out @ out')" for e
    using that assms by (cases "int (se_seq e) \<le> reached k out") (auto simp: sends_in_order_def reached_again)
  ultimately show ?thesis using assms k by (force simp: sends_in_order_def)
qed

lemma chat_log_grows: "rtranclp (chat_step rstep) c c' \<Longrightarrow> \<exists>new. ch_log c' = ch_log c @ new"
  by (induction rule: rtranclp_induct) (auto elim!: chat_stepE)

lemma chat_ok_delivered: "chat_ok k c \<Longrightarrow> sends_in_order k (ch_log c) (sent_events (ch_reader c))"
  by (auto simp: chat_ok_def reader_ok_def intro: sends_in_order_prefix)

definition new_chat :: "string \<Rightarrow> string \<Rightarrow> string \<Rightarrow> string \<Rightarrow> rat \<Rightarrow> chat" where
  "new_chat rid anima person thread now =
     \<lparr>ch_stream = new_stream rid anima person thread now, ch_log = [], ch_reader = start_reader (-1)\<rparr>"

lemma new_chat_init: "chat_init (-1) (new_chat rid anima person thread now)"
  by (simp add: chat_init_def new_chat_def)

section \<open>No wake-up is lost\<close>

definition wakeup_ok :: "chat \<Rightarrow> bool" where
  "wakeup_ok c =
     (case rd_pc (ch_reader c) of
        Waiting n \<Rightarrow> n \<le> rs_notify (ch_stream c) \<and>
          (n = rs_notify (ch_stream c) \<longrightarrow> events_after (rd_seq (ch_reader c)) (ch_stream c) = [])
      | _ \<Rightarrow> True)"

lemma wakeup_ok_tail:
  assumes "wakeup_ok c"
  shows "wakeup_ok (c\<lparr>ch_reader := tail_step w (ch_stream c) (ch_reader c)\<rparr>)"
proof (cases "rd_pc (ch_reader c)")
  case (Sending es)
  then show ?thesis by (cases es; cases w) (simp_all add: wakeup_ok_def tail_step_def send_event_def)
next
  case (Waiting n)
  then show ?thesis using assms by (cases w) (simp_all add: wakeup_ok_def tail_step_def send_keepalive_def)
next
  case AtStart
  then show ?thesis
    by (cases w) (auto simp: wakeup_ok_def tail_step_def tail_poll_def Let_def enter_wait_def wait_new_event_def)
qed (cases w; simp add: wakeup_ok_def tail_step_def)+

lemma wakeup_ok_step: "chat_step tail_step c c' \<Longrightarrow> wakeup_ok c \<Longrightarrow> wakeup_ok c'"
proof (erule chat_stepE)
  fix reg ms name payload
  assume "wakeup_ok c" "c' = c\<lparr>ch_stream := produce reg ms name payload (ch_stream c),
    ch_log := ch_log c @ produced ms name payload (ch_stream c)\<rparr>"
  then show "wakeup_ok c'"
    using produce_notifies [of "ch_stream c" reg ms name payload]
    by (auto simp: wakeup_ok_def split: reader_pc.splits)
next
  fix d
  assume "wakeup_ok c" "c' = c\<lparr>ch_stream := finish_stream d (ch_stream c)\<rparr>"
  then show "wakeup_ok c'"
    by (auto simp: wakeup_ok_def finish_stream_def events_after_def split: reader_pc.splits)
qed (simp add: wakeup_ok_tail)

lemma wakeup_ok_start: "rd_pc (ch_reader c) = AtStart \<Longrightarrow> wakeup_ok c"
  by (simp add: wakeup_ok_def)

interpretation woken: step_invariant "\<lambda>c. rd_pc (ch_reader c) = AtStart" "chat_step tail_step" wakeup_ok
  by unfold_locales (simp_all add: wakeup_ok_start wakeup_ok_step)

section \<open>The tail ends\<close>

text \<open>The tail of a stream on which nothing happens any more: a sleeping tail is woken by its timeout.\<close>

definition tail_alone :: "response_stream \<Rightarrow> reader \<Rightarrow> reader" where
  "tail_alone s r = tail_step (if rd_pc r = Waiting (rs_notify s) then TimesOut else Proceeds) s r"

lemma tail_alone_sending:
  "rd_pc r = Sending es \<Longrightarrow>
   (tail_alone s ^^ (length es + 2)) r =
     r\<lparr>rd_out := rd_out r @ map EventFrame es, rd_seq := reached (rd_seq r) es, rd_pc := AtStart\<rparr>"
proof (induction es arbitrary: r)
  case Nil
  then show ?case by (simp add: numeral_2_eq_2 tail_alone_def tail_step_def)
next
  case (Cons e es)
  have "tail_alone s r = send_event e es r" using Cons.prems by (simp add: tail_alone_def tail_step_def)
  moreover have "rd_pc (send_event e es r) = Sending es" by (simp add: send_event_def)
  ultimately show ?case
    using Cons.IH [of "send_event e es r"]
    by (simp add: funpow_swap1 send_event_def reached_def)
qed

lemma last_hist_reached:
  assumes "buffer_ok hist s" "events_after k s \<noteq> []"
  shows "events_after (int (se_seq (last (events_after k s)))) s = []"
proof -
  have ne: "hist \<noteq> []" and l: "last (events_after k s) = last hist"
    using assms(2) by (auto simp: events_after_eq [OF assms(1)] not_le)
  then have "se_seq (last hist) = length hist - 1"
    using log_nth_seq [OF assms(1), of "length hist - 1"] by (simp add: last_conv_nth)
  then show ?thesis unfolding l using ne by (simp add: events_after_eq [OF assms(1)])
qed

lemma tail_alone_start:
  assumes "rd_pc r = AtStart" "rs_complete s" "buffer_ok hist s"
  shows "\<exists>n \<le> length (rs_events s) + 4. rd_pc ((tail_alone s ^^ n) r) = Ended False \<and>
    sent_events ((tail_alone s ^^ n) r) = sent_events r @ events_after (rd_seq r) s"
proof (cases "events_after (rd_seq r) s = []")
  case True
  then show ?thesis
    using assms by (intro exI [of _ 1]) (simp add: tail_alone_def tail_step_def tail_poll_def sent_events_def)
next
  case False
  let ?evs = "events_after (rd_seq r) s" and ?r1 = "tail_alone s r"
  have r1: "?r1 = r\<lparr>rd_pc := Sending (events_after (rd_seq r) s)\<rparr>"
    using assms False by (simp add: tail_alone_def tail_step_def tail_poll_def Let_def)
  let ?r2 = "(tail_alone s ^^ (length ?evs + 2)) ?r1"
  have r2: "rd_pc ?r2 = AtStart" "sent_events ?r2 = sent_events r @ ?evs" "events_after (rd_seq ?r2) s = []"
    using tail_alone_sending [of ?r1 ?evs s] last_hist_reached [OF assms(3) False] False
    by (simp_all add: r1 sent_events_def reached_def)
  then have r3: "rd_pc (tail_alone s ?r2) = Ended False" "sent_events (tail_alone s ?r2) = sent_events r @ ?evs"
    using assms(2) by (simp_all add: tail_alone_def tail_step_def tail_poll_def sent_events_def)
  have eq: "(tail_alone s ^^ (length ?evs + 4)) r = tail_alone s ?r2"
    by (simp add: funpow_swap1 numeral_Bit0)
  have "length ?evs \<le> length (rs_events s)" by (simp add: events_after_def)
  then show ?thesis using r3 by (intro exI [of _ "length ?evs + 4"]) (simp only: eq, simp)
qed

lemma tail_alone_to_start:
  assumes "\<And>b. rd_pc r \<noteq> Ended b" "rs_complete s"
  shows "\<exists>n \<le> length (pending (rd_pc r)) + 2. rd_pc ((tail_alone s ^^ n) r) = AtStart \<and>
    sent_events ((tail_alone s ^^ n) r) = sent_events r @ pending (rd_pc r) \<and>
    rd_seq ((tail_alone s ^^ n) r) = reached (rd_seq r) (pending (rd_pc r))"
proof (cases "rd_pc r")
  case AtStart
  then show ?thesis by (intro exI [of _ 0]) simp
next
  case (Sending es)
  then show ?thesis
    using tail_alone_sending [OF Sending, of s]
    by (intro exI [of _ "length es + 2"]) (simp add: sent_events_def)
next
  case (Ended b)
  then show ?thesis using assms by simp
qed (use assms in \<open>intro exI [of _ 1]; simp add: tail_alone_def tail_step_def\<close>)+

lemma tail_alone_ends:
  assumes "\<And>b. rd_pc r \<noteq> Ended b" "rs_complete s" "buffer_ok hist s"
  shows "\<exists>n \<le> length (pending (rd_pc r)) + length (rs_events s) + 6.
    rd_pc ((tail_alone s ^^ n) r) = Ended False \<and>
    sent_events ((tail_alone s ^^ n) r) =
      sent_events r @ pending (rd_pc r) @ events_after (reached (rd_seq r) (pending (rd_pc r))) s"
proof -
  obtain n where n: "n \<le> length (pending (rd_pc r)) + 2" "rd_pc ((tail_alone s ^^ n) r) = AtStart"
    "sent_events ((tail_alone s ^^ n) r) = sent_events r @ pending (rd_pc r)"
    "rd_seq ((tail_alone s ^^ n) r) = reached (rd_seq r) (pending (rd_pc r))"
    using tail_alone_to_start [OF assms(1,2)] by blast
  from tail_alone_start [OF n(2) assms(2,3)] obtain m where
    "m \<le> length (rs_events s) + 4" "rd_pc ((tail_alone s ^^ m) ((tail_alone s ^^ n) r)) = Ended False"
    "sent_events ((tail_alone s ^^ m) ((tail_alone s ^^ n) r)) =
       sent_events r @ pending (rd_pc r) @ events_after (reached (rd_seq r) (pending (rd_pc r))) s"
    by (auto simp: n(3,4))
  with n(1) show ?thesis by (intro exI [of _ "m + n"]) (simp add: funpow_add)
qed

section \<open>The active stream of a thread\<close>

text \<open>
  The registry keeps, for each anima and thread, the stream registered last, until it is marked complete or expires. The
  specification is a finite map from anima and thread to the token and the creation time.
\<close>

type_synonym latest_map = "string \<times> string \<Rightarrow> (string \<times> rat) option"

datatype registry_op =
    Registers string rat string string string
  | Produces string int string dict
  | Completes string bool
  | SetsTask string producer_task
  | Cancels string
  | CancelsAll
  | CleansUp rat

fun registry_step :: "registry_op \<Rightarrow> stream_registry \<Rightarrow> stream_registry" where
  "registry_step (Registers rid now anima person thread) r = register rid now anima person thread r"
| "registry_step (Produces rid ms name payload) r = on_stream rid (\<lambda>s. snd (add_event ms name payload s)) r"
| "registry_step (Completes rid d) r = mark_complete rid d r"
| "registry_step (SetsTask rid task) r = set_producer_task rid task r"
| "registry_step (Cancels rid) r = cancel_producer rid r"
| "registry_step CancelsAll r = cancel_all_producers r"
| "registry_step (CleansUp now) r = snd (snd (cleanup now r))"

fun latest_step :: "registry_op \<Rightarrow> latest_map \<Rightarrow> latest_map" where
  "latest_step (Registers rid now anima person thread) l = l((anima, thread) \<mapsto> (rid, now))"
| "latest_step (Completes rid d) l = (\<lambda>k. case l k of Some (rid', t) \<Rightarrow> if rid' = rid then None else Some (rid', t) | None \<Rightarrow> None)"
| "latest_step (CleansUp now) l = (\<lambda>k. case l k of Some (rid, t) \<Rightarrow> if stream_ttl < now - t then None else Some (rid, t) | None \<Rightarrow> None)"
| "latest_step _ l = l"

text \<open>A token is not in use when it is given out.\<close>

fun fresh_token :: "registry_op \<Rightarrow> stream_registry \<Rightarrow> bool" where
  "fresh_token (Registers rid now anima person thread) r = (rid \<notin> fst ` set (sr_streams r))"
| "fresh_token _ r = True"

inductive tracked_step :: "stream_registry \<times> latest_map \<Rightarrow> stream_registry \<times> latest_map \<Rightarrow> bool" where
  "fresh_token op r \<Longrightarrow> tracked_step (r, l) (registry_step op r, latest_step op l)"

definition active_id :: "(string \<times> (string \<times> string) list) list \<Rightarrow> string \<Rightarrow> string \<Rightarrow> string option" where
  "active_id active anima thread = map_of (opt_or (map_of active anima) []) thread"

definition registry_ok :: "stream_registry \<Rightarrow> bool" where
  "registry_ok r =
     (distinct (map fst (sr_streams r)) \<and>
      (\<forall>anima threads. map_of (sr_active r) anima = Some threads \<longrightarrow> threads \<noteq> [] \<and> distinct (map fst threads)) \<and>
      (\<forall>anima thread rid. active_id (sr_active r) anima thread = Some rid \<longrightarrow>
         (\<exists>s. map_of (sr_streams r) rid = Some s \<and> rs_anima s = anima \<and> rs_thread s = thread \<and> rs_id s = rid)))"

definition tracks :: "stream_registry \<Rightarrow> latest_map \<Rightarrow> bool" where
  "tracks r l =
     (\<forall>anima thread. l (anima, thread) =
        Option.bind (active_id (sr_active r) anima thread)
          (\<lambda>rid. map_option (\<lambda>s. (rid, rs_created s)) (map_of (sr_streams r) rid)))"

lemma map_of_delete_value:
  assumes "distinct (map fst d)" "\<And>k'. map_of d k' = Some v \<Longrightarrow> k' = k0"
  shows "map_of (delete_value v d) k = (if map_of d k = Some v then None else map_of d k)"
  using assms
proof (induction d)
  case (Cons p d)
  obtain a w where p: "p = (a, w)" by (cases p)
  have *: "a \<notin> fst ` set d" "map_of d a = None" using Cons.prems(1) by (auto simp: p map_of_eq_None_iff)
  show ?case
  proof (cases "w = v")
    case True
    then have "a = k0" using Cons.prems(2) [of a] by (simp add: p)
    have "map_of (p # d) k = map_of d k" if "k \<noteq> a" using that by (simp add: p)
    then have "map_of d k \<noteq> Some v"
      using Cons.prems(2) [of k] *(2) \<open>a = k0\<close> by (metis option.distinct(1))
    then show ?thesis using True * by (auto simp: p)
  next
    case False
    have "k' = k0" if "map_of d k' = Some v" for k'
    proof (rule Cons.prems(2))
      show "map_of (p # d) k' = Some v" using that *(2) by (auto simp: p)
    qed
    then show ?thesis using Cons False by (auto simp: p)
  qed
qed simp

lemma set_delete_value: "set (delete_value v d) \<subseteq> set d"
  by (induction v d rule: delete_value.induct) auto

lemma distinct_delete_value: "distinct (map fst d) \<Longrightarrow> distinct (map fst (delete_value v d))"
  by (induction v d rule: delete_value.induct) (auto dest: subsetD [OF set_delete_value])

lemmas alist_simps = update_conv' AList.delete_conv' distinct_update distinct_delete

lemma active_id_register:
  "active_id (AList.update anima (AList.update thread rid (opt_or (map_of act anima) [])) act) a t =
     (if a = anima \<and> t = thread then Some rid else active_id act a t)"
  by (simp add: active_id_def alist_simps)

lemma registry_ok_active:
  "registry_ok r \<Longrightarrow> active_id (sr_active r) a t = Some rid \<Longrightarrow>
   \<exists>s. map_of (sr_streams r) rid = Some s \<and> rs_anima s = a \<and> rs_thread s = t \<and> rs_id s = rid"
  unfolding registry_ok_def by blast

lemma registry_ok_register:
  assumes "registry_ok r" "tracks r l" "rid \<notin> fst ` set (sr_streams r)"
  shows "registry_ok (register rid now anima person thread r)"
    "tracks (register rid now anima person thread r) (l((anima, thread) \<mapsto> (rid, now)))"
proof -
  have no: "active_id (sr_active r) a t \<noteq> Some rid" for a t
    using registry_ok_active [OF assms(1), of a t rid] assms(3)
    by (metis map_of_eq_None_iff option.distinct(1))
  have d: "distinct (map fst (opt_or (map_of (sr_active r) anima) []))"
    using assms(1) by (cases "map_of (sr_active r) anima") (auto simp: registry_ok_def)
  have ne: "AList.update thread rid th \<noteq> []" for th :: "(string \<times> string) list"
    by (cases th) auto
  show "registry_ok (register rid now anima person thread r)"
    using assms(1) d ne no
    by (auto simp: registry_ok_def register_def active_id_register alist_simps new_stream_def)
  show "tracks (register rid now anima person thread r) (l((anima, thread) \<mapsto> (rid, now)))"
    using assms(2) no by (auto simp: tracks_def register_def active_id_register alist_simps new_stream_def
        split: bind_split)
qed

lemma active_id_drop:
  assumes ok: "registry_ok r" and s: "map_of (sr_streams r) rid = Some s"
  shows "active_id (drop_active (rs_anima s) rid (sr_active r)) a t =
    (if active_id (sr_active r) a t = Some rid then None else active_id (sr_active r) a t)"
proof -
  let ?th = "opt_or (map_of (sr_active r) (rs_anima s)) []"
  have own: "rs_anima s = a' \<and> rs_thread s = t'" if "active_id (sr_active r) a' t' = Some rid" for a' t'
    using registry_ok_active [OF ok that] s by simp
  have d: "distinct (map fst ?th)"
    using ok by (cases "map_of (sr_active r) (rs_anima s)") (auto simp: registry_ok_def)
  have "map_of (delete_value rid ?th) t = (if map_of ?th t = Some rid then None else map_of ?th t)"
    by (rule map_of_delete_value [OF d, of rid "rs_thread s"]) (use own [of "rs_anima s"] in \<open>simp add: active_id_def\<close>)
  moreover have "active_id (drop_active (rs_anima s) rid (sr_active r)) a t =
    (if a = rs_anima s then map_of (delete_value rid ?th) t else active_id (sr_active r) a t)"
    by (simp add: drop_active_def active_id_def Let_def alist_simps)
  moreover have "active_id (sr_active r) a t = map_of ?th t" if "a = rs_anima s"
    using that by (simp add: active_id_def)
  moreover have "active_id (sr_active r) a t \<noteq> Some rid" if "a \<noteq> rs_anima s"
    using that own by blast
  ultimately show ?thesis by (cases "a = rs_anima s") simp_all
qed

lemma threads_ok_drop:
  assumes "registry_ok r" "map_of (drop_active anima rid (sr_active r)) a = Some threads"
  shows "threads \<noteq> [] \<and> distinct (map fst threads)"
  using assms
  by (cases "map_of (sr_active r) anima")
    (auto simp: drop_active_def Let_def alist_simps registry_ok_def distinct_delete_value split: if_splits)

lemma registry_ok_drop:
  assumes ok: "registry_ok r" "tracks r l" and s: "map_of (sr_streams r) rid = Some s"
    and r': "distinct (map fst (sr_streams r'))" "map_of (sr_streams r') = (map_of (sr_streams r))(rid := x)"
      "sr_active r' = drop_active (rs_anima s) rid (sr_active r)"
  shows "registry_ok r' \<and> tracks r' (latest_step (Completes rid d) l)"
proof
  note drop = active_id_drop [OF ok(1) s]
  show "registry_ok r'"
    using ok(1) r' threads_ok_drop [OF ok(1), of "rs_anima s" rid]
    by (auto simp: registry_ok_def drop split: if_splits)
  show "tracks r' (latest_step (Completes rid d) l)"
    using ok(2) r' by (auto simp: tracks_def drop split: bind_split option.split)
qed

lemma on_stream_keeps:
  assumes ok: "registry_ok r" "tracks r l"
    and f: "\<And>s. rs_anima (f s) = rs_anima s \<and> rs_thread (f s) = rs_thread s \<and> rs_created (f s) = rs_created s \<and> rs_id (f s) = rs_id s"
    and r': "distinct (map fst (sr_streams r'))" "sr_active r' = sr_active r"
      "\<And>rid. map_of (sr_streams r') rid = map_option (\<lambda>s. if P rid then f s else s) (map_of (sr_streams r) rid)"
  shows "registry_ok r' \<and> tracks r' l"
proof
  show "registry_ok r'"
    unfolding registry_ok_def
  proof (intro conjI allI impI)
    fix a t rid
    assume "active_id (sr_active r') a t = Some rid"
    then obtain s where "map_of (sr_streams r) rid = Some s" "rs_anima s = a" "rs_thread s = t" "rs_id s = rid"
      using registry_ok_active [OF ok(1)] r'(2) by metis
    then show "\<exists>s. map_of (sr_streams r') rid = Some s \<and> rs_anima s = a \<and> rs_thread s = t \<and> rs_id s = rid"
      by (simp add: r'(3) f)
  qed (use ok(1) r'(1,2) in \<open>auto simp: registry_ok_def\<close>)
  show "tracks r' l"
  proof -
    have "map_option (\<lambda>s. (rid, rs_created s)) (map_of (sr_streams r') rid) =
      map_option (\<lambda>s. (rid, rs_created s)) (map_of (sr_streams r) rid)" for rid
      by (cases "map_of (sr_streams r) rid") (simp_all add: r'(3) f)
    then show ?thesis using ok(2) by (simp add: tracks_def r'(2))
  qed
qed

lemma registry_ok_mark:
  assumes "registry_ok r" "tracks r l"
  shows "registry_ok (mark_complete rid d r) \<and> tracks (mark_complete rid d r) (latest_step (Completes rid d) l)"
proof (cases "map_of (sr_streams r) rid")
  case None
  have "latest_step (Completes rid d) l = l"
    using None assms(2) by (auto simp: tracks_def fun_eq_iff split: bind_splits option.split)
  then show ?thesis using assms None by (simp add: mark_complete_def)
next
  case (Some s)
  then show ?thesis
    using assms(1) by (intro registry_ok_drop [OF assms Some]) (auto simp: mark_complete_def alist_simps registry_ok_def)
qed

lemma registry_ok_expire:
  assumes "registry_ok r" "tracks r l"
  shows "registry_ok (snd (expire_stream rid (cs, r))) \<and>
    tracks (snd (expire_stream rid (cs, r))) (latest_step (Completes rid True) l)"
proof (cases "map_of (sr_streams r) rid")
  case None
  then show ?thesis using registry_ok_mark [OF assms, of rid True] by (simp add: expire_stream_def mark_complete_def)
next
  case (Some s)
  then show ?thesis
    using assms(1) by (intro registry_ok_drop [OF assms Some])
      (auto simp: expire_stream_def alist_simps registry_ok_def fun_eq_iff restrict_map_def)
qed

lemma expire_all:
  "registry_ok r \<Longrightarrow> tracks r l \<Longrightarrow>
   registry_ok (snd (fold expire_stream rids (cs, r))) \<and>
   tracks (snd (fold expire_stream rids (cs, r)))
     (\<lambda>k. case l k of Some (rid, t) \<Rightarrow> if rid \<in> set rids then None else Some (rid, t) | None \<Rightarrow> None)"
proof (induction rids arbitrary: cs r l)
  case Nil
  have "(\<lambda>k. case l k of Some (rid, t) \<Rightarrow> if rid \<in> set [] then None else Some (rid, t) | None \<Rightarrow> None) = l"
    by (auto simp: fun_eq_iff split: option.split)
  then show ?case using Nil by simp
next
  case (Cons rid rids)
  obtain cs1 r1 where e: "expire_stream rid (cs, r) = (cs1, r1)" by (cases "expire_stream rid (cs, r)")
  have 1: "registry_ok r1" "tracks r1 (latest_step (Completes rid True) l)"
    using registry_ok_expire [OF Cons.prems, of rid cs] by (simp_all add: e)
  have "(\<lambda>k. case latest_step (Completes rid True) l k of
      Some (rid', t) \<Rightarrow> if rid' \<in> set rids then None else Some (rid', t) | None \<Rightarrow> None) =
    (\<lambda>k. case l k of Some (rid', t) \<Rightarrow> if rid' \<in> set (rid # rids) then None else Some (rid', t) | None \<Rightarrow> None)"
    by (auto simp: fun_eq_iff split: option.split)
  then show ?case using Cons.IH [OF 1, of cs1] by (simp add: e)
qed

lemma tracks_SomeD: "tracks r l \<Longrightarrow> l k = Some (rid, t) \<Longrightarrow> \<exists>s. map_of (sr_streams r) rid = Some s \<and> rs_created s = t"
  by (cases k) (auto simp: tracks_def bind_eq_Some_conv)

lemma registry_ok_cleanup:
  assumes "registry_ok r" "tracks r l"
  shows "registry_ok (snd (snd (cleanup now r))) \<and> tracks (snd (snd (cleanup now r))) (latest_step (CleansUp now) l)"
proof -
  have "rid \<in> set (expired_streams now r) \<longleftrightarrow> stream_ttl < now - t" if k: "l k = Some (rid, t)" for k rid t
  proof -
    obtain s where s: "map_of (sr_streams r) rid = Some s" "rs_created s = t"
      using tracks_SomeD [OF assms(2) k] by blast
    have "s' = s" if "(rid, s') \<in> set (sr_streams r)" for s'
      using that s(1) assms(1) by (simp add: registry_ok_def)
    moreover have "rid \<in> set (expired_streams now r) \<longleftrightarrow> (\<exists>s'. (rid, s') \<in> set (sr_streams r) \<and> stream_ttl < now - rs_created s')"
      by (auto simp: expired_streams_def intro: rev_image_eqI)
    ultimately show ?thesis using s(2) map_of_SomeD [OF s(1)] by blast
  qed
  then have "(\<lambda>k. case l k of Some (rid, t) \<Rightarrow> if rid \<in> set (expired_streams now r) then None else Some (rid, t) | None \<Rightarrow> None) =
      latest_step (CleansUp now) l"
    by (auto simp: fun_eq_iff split: option.split)
  then show ?thesis using expire_all [OF assms, of "expired_streams now r" "[]"] by (simp add: cleanup_def Let_def)
qed

lemma track_event_owner:
  "track_event ms name payload s = Inr s' \<Longrightarrow>
   rs_anima s' = rs_anima s \<and> rs_thread s' = rs_thread s \<and> rs_created s' = rs_created s \<and> rs_id s' = rs_id s"
  by (auto simp: track_event_def split: if_splits option.splits)

lemma add_event_owner:
  "rs_anima (snd (add_event ms name payload s)) = rs_anima s \<and> rs_thread (snd (add_event ms name payload s)) = rs_thread s
   \<and> rs_created (snd (add_event ms name payload s)) = rs_created s \<and> rs_id (snd (add_event ms name payload s)) = rs_id s"
  by (auto simp: add_event_def Let_def push_event_def dest: track_event_owner split: sum.split)

lemma on_stream_ok:
  assumes "registry_ok r" "tracks r l"
    and "\<And>s. rs_anima (f s) = rs_anima s \<and> rs_thread (f s) = rs_thread s \<and> rs_created (f s) = rs_created s \<and> rs_id (f s) = rs_id s"
  shows "registry_ok (on_stream rid f r) \<and> tracks (on_stream rid f r) l"
proof (cases "map_of (sr_streams r) rid")
  case None
  then show ?thesis using assms by (simp add: on_stream_def)
next
  case (Some s)
  then show ?thesis
    using assms(1) by (intro on_stream_keeps [OF assms, where P = "\<lambda>r. r = rid"])
      (auto simp: on_stream_def alist_simps registry_ok_def option.map_ident)
qed

lemma cancel_task_owner:
  "rs_anima (cancel_task s) = rs_anima s \<and> rs_thread (cancel_task s) = rs_thread s \<and> rs_created (cancel_task s) = rs_created s
   \<and> rs_id (cancel_task s) = rs_id s"
  by (simp add: cancel_task_def)

lemma cancel_all_ok:
  assumes "registry_ok r" "tracks r l"
  shows "registry_ok (cancel_all_producers r) \<and> tracks (cancel_all_producers r) l"
  using assms(1)
  by (intro on_stream_keeps [OF assms cancel_task_owner, where P = "\<lambda>r. True"])
    (auto simp: cancel_all_producers_def registry_ok_def comp_def case_prod_beta map_of_map)

definition tracked :: "stream_registry \<times> latest_map \<Rightarrow> bool" where
  "tracked = (\<lambda>(r, l). registry_ok r \<and> tracks r l)"

lemma tracked_step_ok: "tracked_step p q \<Longrightarrow> tracked p \<Longrightarrow> tracked q"
proof (induction rule: tracked_step.induct)
  case (1 op r l)
  then have ok: "registry_ok r" "tracks r l" by (simp_all add: tracked_def)
  show ?case
  proof (cases op)
    case (Registers rid now anima person thread)
    then show ?thesis using registry_ok_register [OF ok] 1 by (simp add: tracked_def)
  next
    case (Completes rid d)
    then show ?thesis using registry_ok_mark [OF ok, of rid d] by (simp add: tracked_def)
  next
    case (CleansUp now)
    then show ?thesis using registry_ok_cleanup [OF ok, of now] by (simp add: tracked_def)
  qed (auto simp: tracked_def set_producer_task_def cancel_producer_def cancel_task_owner add_event_owner
      cancel_all_ok [OF ok] intro!: on_stream_ok [OF ok, THEN conjunct1] on_stream_ok [OF ok, THEN conjunct2])
qed

lemma tracked_empty: "tracked (empty_registry, \<lambda>k. None)"
  by (simp add: tracked_def empty_registry_def registry_ok_def tracks_def active_id_def)

interpretation registry: step_invariant "\<lambda>p. p = (empty_registry, \<lambda>k. None)" tracked_step tracked
  by unfold_locales (simp_all add: tracked_empty tracked_step_ok)

lemma get_active_thread:
  "get_active anima (Some thread) r = Option.bind (active_id (sr_active r) anima thread) (map_of (sr_streams r))"
  by (auto simp: get_active_def active_id_def split: option.split)

section \<open>Concrete runs\<close>

datatype chat_act = ActAdd int string dict | ActFinish bool | ActRead wake

fun chat_act_step :: "(wake \<Rightarrow> response_stream \<Rightarrow> reader \<Rightarrow> reader) \<Rightarrow> chat_act \<Rightarrow> chat \<Rightarrow> chat" where
  "chat_act_step rstep (ActAdd ms name payload) c =
     c\<lparr>ch_stream := produce True ms name payload (ch_stream c), ch_log := ch_log c @ produced ms name payload (ch_stream c)\<rparr>"
| "chat_act_step rstep (ActFinish d) c = c\<lparr>ch_stream := finish_stream d (ch_stream c)\<rparr>"
| "chat_act_step rstep (ActRead w) c = c\<lparr>ch_reader := rstep w (ch_stream c) (ch_reader c)\<rparr>"

lemma chat_run: "rtranclp (chat_step rstep) c (fold (chat_act_step rstep) acts c)"
proof (induction acts arbitrary: c)
  case (Cons act acts)
  have "chat_step rstep c (chat_act_step rstep act c)"
    by (cases act) (auto intro: chat_step.intros)
  then show ?case using Cons by (simp add: converse_rtranclp_into_rtranclp)
qed simp

definition demo_chat :: chat where
  "demo_chat = new_chat ''r'' ''alice'' ''human'' ''default'' 0"

definition demo_begin :: "chat_act list" where
  "demo_begin = [ActAdd 0 ''stream_start'' [], ActRead Proceeds, ActRead Proceeds, ActRead Proceeds]"

definition demo_end :: chat_act where
  "demo_end = ActAdd 5 ''done'' [(''summary'', JStr ''hi'')]"

definition demo_full :: chat where
  "demo_full = fold (chat_act_step tail_step) (demo_begin @ demo_end # replicate 5 (ActRead Proceeds)) demo_chat"

definition demo_sent :: chat where
  "demo_sent = fold (chat_act_step tail_step) demo_begin demo_chat"

lemma handle_resume_own:
  "rs_anima s = anima \<Longrightarrow> rs_from s = person \<Longrightarrow>
   handle_resume fl msg \<lparr>sr_streams = [(rid, s)], sr_active = []\<rparr> rid last_id anima person =
     ResumeReader s (start_reader (parse_after_seq last_id))"
  by (simp add: handle_resume_def get_stream_def)

text \<open>
  A resumed client can lose the end of the answer: the \<open>done\<close> event is added while the reader sends what it fetched
  before; back at the head of its loop it finds the stream complete and ends, without a last fetch (which the tail
  makes).
\<close>

lemma resume_loses_done:
  "\<exists>c. rtranclp (chat_step resume_step) (demo_chat\<lparr>ch_reader := start_reader (-1)\<rparr>) c \<and>
     rd_pc (ch_reader c) = Ended False \<and> map se_event (ch_log c) = [''stream_start'', ''done''] \<and>
     map se_event (sent_events (ch_reader c)) = [''stream_start'']"
  by (rule exI [of _ "fold (chat_act_step resume_step)
        [ActAdd 0 ''stream_start'' [], ActRead Proceeds, ActRead Proceeds, demo_end, ActRead Proceeds]
        (demo_chat\<lparr>ch_reader := start_reader (-1)\<rparr>)"], intro conjI, rule chat_run) code_simp+

section \<open>Properties\<close>

text \<open>
  C23. A chat client that stays connected gets everything: when the tail ends by itself, the frames it sent are exactly the
  events of the stream, each once and in order, however the producer, the waits and the timeouts interleaved (for
  streams of at most 2000 events; a longer one may overrun a slow client).
\<close>

theorem tail_sends_everything:
  assumes "rtranclp (chat_step tail_step) (new_chat rid anima person thread now) c"
    and "rd_pc (tail_step w (ch_stream c) (ch_reader c)) = Ended False" "rd_pc (ch_reader c) \<noteq> Ended False"
    and "length (ch_log c) \<le> max_events"
  shows "sent_events (tail_step w (ch_stream c) (ch_reader c)) = ch_log c \<and> rs_complete (ch_stream c)"
  using tail_ends_complete [OF tail.chats.inv_reachable [OF new_chat_init assms(1)] assms(2-4)]
    tail_ends_drained(3) [OF assms(2,3)] by simp

theorem tail_sends_everything_witness:
  "sent_events (tail_step Proceeds (ch_stream demo_full) (ch_reader demo_full)) = ch_log demo_full \<and>
   rs_complete (ch_stream demo_full) \<and> map se_event (ch_log demo_full) = [''stream_start'', ''done'']"
proof -
  have "rtranclp (chat_step tail_step) (new_chat ''r'' ''alice'' ''human'' ''default'' 0) demo_full"
    unfolding demo_full_def demo_chat_def by (rule chat_run)
  moreover have "rd_pc (tail_step Proceeds (ch_stream demo_full) (ch_reader demo_full)) = Ended False" by code_simp
  moreover have "rd_pc (ch_reader demo_full) \<noteq> Ended False" by code_simp
  moreover have "length (ch_log demo_full) \<le> max_events" by code_simp
  moreover have "map se_event (ch_log demo_full) = [''stream_start'', ''done'']" by code_simp
  ultimately show ?thesis using tail_sends_everything by blast
qed

text \<open>
  C25. A client that lost its connection and resumes with the id of the last event it got continues exactly there: over both
  sessions the numbers of the events strictly increase, nothing is sent twice, and an event is only skipped after it was
  evicted from the buffer.
\<close>

theorem resume_continues:
  assumes "rtranclp (chat_step tail_step) (new_chat rid anima person thread now) c"
    and "sent_events (ch_reader c) = ds @ [e]"
    and "handle_resume fl msg reg rid (se_id e) anima person = ResumeReader (ch_stream c) r"
    and "rtranclp (chat_step resume_step) (c\<lparr>ch_reader := r\<rparr>) c'"
  shows "sends_in_order (-1) (ch_log c') (sent_events (ch_reader c) @ sent_events (ch_reader c'))"
proof (rule sends_in_order_append)
  have ok: "chat_ok (-1) c" by (rule tail.chats.inv_reachable [OF new_chat_init assms(1)])
  then have b: "buffer_ok (ch_log c) (ch_stream c)" and o: "sends_in_order (-1) (ch_log c) (sent_events (ch_reader c))"
    by (simp_all add: chat_ok_def chat_ok_delivered)
  have "e \<in> set (ch_log c)" using o assms(2) by (auto simp: sends_in_order_def)
  then have "parse_after_seq (se_id e) = int (se_seq e)"
    using b parse_event_id [of "rs_id (ch_stream c)" "se_seq e"] by (simp add: buffer_ok_def)
  then have "r = start_reader (reached (-1) (sent_events (ch_reader c)))"
    using resume_reader_start(4) [OF assms(3)] assms(2) by simp
  then have "chat_init (reached (-1) (sent_events (ch_reader c))) (c\<lparr>ch_reader := r\<rparr>)"
    using b by (simp add: chat_init_def)
  from resume.chats.inv_reachable [OF this assms(4)] have
    ok': "chat_ok (reached (-1) (sent_events (ch_reader c))) c'" .
  then show "sends_in_order (reached (-1) (sent_events (ch_reader c))) (ch_log c') (sent_events (ch_reader c'))"
    by (rule chat_ok_delivered)
  obtain new where "ch_log c' = ch_log c @ new" using chat_log_grows [OF assms(4)] by auto
  then show "sends_in_order (-1) (ch_log c') (sent_events (ch_reader c))"
    using o b ok' by (auto simp: chat_ok_def intro: sends_in_order_more)
qed

theorem resume_continues_witness:
  "\<exists>c' :: chat. map se_event (sent_events (ch_reader demo_sent)) = [''stream_start''] \<and>
     map se_event (sent_events (ch_reader c')) = [''done''] \<and>
     sends_in_order (-1) (ch_log c') (sent_events (ch_reader demo_sent) @ sent_events (ch_reader c'))"
proof -
  let ?e = "\<lparr>se_seq = 0, se_event = ''stream_start'', se_payload = [], se_id = ''r:0''\<rparr>"
  let ?c' = "fold (chat_act_step resume_step) (demo_end # replicate 3 (ActRead Proceeds)) (demo_sent\<lparr>ch_reader := start_reader 0\<rparr>)"
  have "rs_anima (ch_stream demo_sent) = ''alice''" "rs_from (ch_stream demo_sent) = ''human''" by code_simp+
  note resumed = handle_resume_own [OF this]
  have pos: "parse_after_seq (se_id ?e) = 0" by code_simp
  have "rtranclp (chat_step tail_step) (new_chat ''r'' ''alice'' ''human'' ''default'' 0) demo_sent"
    unfolding demo_sent_def demo_chat_def by (rule chat_run)
  moreover have "sent_events (ch_reader demo_sent) = [] @ [?e]" by code_simp
  ultimately have a: "sends_in_order (-1) (ch_log ?c') (sent_events (ch_reader demo_sent) @ sent_events (ch_reader ?c'))"
    by (rule resume_continues [OF _ _ resumed [of _ _ _ "se_id ?e", unfolded pos] chat_run])
  have b: "map se_event (sent_events (ch_reader ?c')) = [''done'']" by code_simp
  have c: "map se_event (sent_events (ch_reader demo_sent)) = [''stream_start'']" by code_simp
  show ?thesis by (rule exI [of _ ?c'], rule conjI [OF c conjI [OF b a]])
qed

text \<open>
  C27. A tail never sleeps over an event: while it waits and an event lies behind its position, the notification that wakes
  it has been given, even for an event whose addition raised an exception.
\<close>

theorem no_lost_wakeup:
  assumes "rtranclp (chat_step tail_step) (new_chat rid anima person thread now) c"
    and "rd_pc (ch_reader c) = Waiting seen" "events_after (rd_seq (ch_reader c)) (ch_stream c) \<noteq> []"
  shows "rd_pc (tail_step Proceeds (ch_stream c) (ch_reader c)) = AtStart"
proof -
  have "wakeup_ok c"
    by (rule woken.inv_reachable [OF _ assms(1)]) (simp add: new_chat_def start_reader_def)
  then show ?thesis using assms(2,3) by (auto simp: wakeup_ok_def tail_step_def)
qed

theorem no_lost_wakeup_witness:
  "let c = fold (chat_act_step tail_step) [ActRead Proceeds, ActAdd 0 ''thinking_delta'' [(''text'', JNull)]] demo_chat
   in rd_pc (tail_step Proceeds (ch_stream c) (ch_reader c)) = AtStart \<and> map se_event (ch_log c) = [''thinking_delta'', ''error'']"
proof -
  let ?c = "fold (chat_act_step tail_step) [ActRead Proceeds, ActAdd 0 ''thinking_delta'' [(''text'', JNull)]] demo_chat"
  have "rtranclp (chat_step tail_step) (new_chat ''r'' ''alice'' ''human'' ''default'' 0) ?c"
    unfolding demo_chat_def by (rule chat_run)
  moreover have "rd_pc (ch_reader ?c) = Waiting 0" by code_simp
  moreover have "events_after (rd_seq (ch_reader ?c)) (ch_stream ?c) \<noteq> []" by code_simp
  moreover have "map se_event (ch_log ?c) = [''thinking_delta'', ''error'']" by code_simp
  ultimately show ?thesis using no_lost_wakeup unfolding Let_def by blast
qed

text \<open>
  The tail of a completed stream ends within a bounded number of steps, and by then the client has every event that was
  in the buffer.
\<close>

theorem tail_finishes:
  assumes "rtranclp (chat_step tail_step) (new_chat rid anima person thread now) c"
    and "rs_complete (ch_stream c)" "\<And>b. rd_pc (ch_reader c) \<noteq> Ended b"
  shows "\<exists>n \<le> length (pending (rd_pc (ch_reader c))) + length (rs_events (ch_stream c)) + 6.
    let r = (tail_alone (ch_stream c) ^^ n) (ch_reader c)
    in rd_pc r = Ended False \<and> set (rs_events (ch_stream c)) \<subseteq> set (sent_events r)"
proof -
  let ?s = "ch_stream c" and ?r = "ch_reader c"
  have ok: "chat_ok (-1) c" by (rule tail.chats.inv_reachable [OF new_chat_init assms(1)])
  then have b: "buffer_ok (ch_log c) ?s" and o: "sends_in_order (-1) (ch_log c) (sent_events ?r @ pending (rd_pc ?r))"
    and q: "rd_seq ?r = reached (-1) (sent_events ?r)"
    by (simp_all add: chat_ok_def reader_ok_def)
  let ?k = "reached (-1) (sent_events ?r @ pending (rd_pc ?r))"
  have "x \<in> set (sent_events ?r @ pending (rd_pc ?r) @ events_after ?k ?s)" if x: "x \<in> set (rs_events ?s)" for x
  proof -
    have "x \<in> set (events_after (-1) ?s)" using x by (simp add: events_after_def)
    then have "x \<in> set (ch_log c)" "\<not> fell_out (ch_log c) x"
      using set_events_after [OF b, of x "-1"] by (simp_all add: fell_out_def)
    then show ?thesis
      using o x by (cases "int (se_seq x) \<le> ?k") (auto simp: sends_in_order_def events_after_def)
  qed
  then show ?thesis
    using tail_alone_ends [OF assms(3,2) b] by (auto simp: q reached_again Let_def)
qed

theorem tail_finishes_witness:
  "let c = chat_act_step tail_step demo_end demo_chat
   in \<exists>n \<le> 7. rd_pc ((tail_alone (ch_stream c) ^^ n) (ch_reader c)) = Ended False"
proof -
  let ?c = "fold (chat_act_step tail_step) [demo_end] demo_chat"
  have "rtranclp (chat_step tail_step) (new_chat ''r'' ''alice'' ''human'' ''default'' 0) ?c"
    unfolding demo_chat_def by (rule chat_run)
  moreover have "rs_complete (ch_stream ?c)" by code_simp
  moreover have p: "rd_pc (ch_reader ?c) = AtStart" by code_simp
  moreover have l: "length (rs_events (ch_stream ?c)) = 1" by code_simp
  ultimately have "\<exists>n \<le> length (pending (rd_pc (ch_reader ?c))) + length (rs_events (ch_stream ?c)) + 6.
    let r = (tail_alone (ch_stream ?c) ^^ n) (ch_reader ?c)
    in rd_pc r = Ended False \<and> set (rs_events (ch_stream ?c)) \<subseteq> set (sent_events r)"
    by (intro tail_finishes) auto
  then show ?thesis unfolding p l Let_def by auto
qed

text \<open>
  C26. The active stream of a thread is the stream registered last for that anima and thread, from its registration until it
  is marked complete or expires; nothing that happens to other streams changes it.
\<close>

theorem active_is_latest:
  assumes "rtranclp tracked_step (empty_registry, \<lambda>k. None) (r, l)"
  shows "map_option (\<lambda>s. (rs_id s, rs_created s)) (get_active anima (Some thread) r) = l (anima, thread)"
proof -
  have "tracked (r, l)" by (rule registry.inv_reachable [OF refl assms])
  then have ok: "registry_ok r" "tracks r l" by (simp_all add: tracked_def)
  show ?thesis
  proof (cases "active_id (sr_active r) anima thread")
    case None
    then show ?thesis using ok(2) by (simp add: get_active_thread tracks_def)
  next
    case (Some rid)
    with registry_ok_active [OF ok(1) Some] ok(2) show ?thesis
      by (auto simp: get_active_thread tracks_def)
  qed
qed

theorem active_is_latest_witness:
  "map_option (\<lambda>s. (rs_id s, rs_created s))
     (get_active ''alice'' (Some ''default'') (register ''t'' 7 ''alice'' ''human'' ''default'' empty_registry)) = Some (''t'', 7)"
proof -
  have "tracked_step (empty_registry, \<lambda>k. None)
    (register ''t'' 7 ''alice'' ''human'' ''default'' empty_registry, (\<lambda>k. None)((''alice'', ''default'') \<mapsto> (''t'', 7)))"
    using tracked_step.intros [of "Registers ''t'' 7 ''alice'' ''human'' ''default''" empty_registry]
    by (simp add: empty_registry_def)
  from active_is_latest [OF r_into_rtranclp [where r = tracked_step, OF this], of "''alice''" "''default''"]
  show ?thesis by simp
qed

end
