(* ===== verification/Chat_Producer.thy ===== *)
theory Chat_Producer
  imports Chat_Stream
begin

text \<open>
  The producer of a chat stream: the chunks that an anima process sends (\<^verbatim>\<open>server/routes/chat_chunk_handler.py\<close>), the
  emotion tag and the leaked thinking in its answer (\<^verbatim>\<open>core/emotion_tag.py\<close>, \<^verbatim>\<open>core/execution/base.py\<close>), the summary of
  a tool call (\<^verbatim>\<open>core/execution/_tool_summary.py\<close>) and the task that turns the responses into events and completes the
  stream, with all its exception handlers (\<^verbatim>\<open>_run_producer\<close> of \<^verbatim>\<open>server/routes/chat_producer.py\<close>). The translated
  messages, \<^verbatim>\<open>str\<close> of a value that is no text, and the broadcasts over the WebSocket are arguments.
\<close>

section \<open>Text\<close>

text \<open>\<^verbatim>\<open>str.split()\<close>, \<^verbatim>\<open>str.lstrip\<close>, \<^verbatim>\<open>str.rstrip\<close>.\<close>

function u_words :: "string \<Rightarrow> string \<Rightarrow> string list" where
  "u_words acc [] = (if acc = [] then [] else [rev acc])"
| "u_words acc (c # cs) =
     (if space_at id (c # cs) = 0 then u_words (c # acc) cs
      else (if acc = [] then [] else [rev acc]) @ u_words [] (drop (space_at id (c # cs) - 1) cs))"
  by pat_completeness auto

termination u_words
  by (relation "measure (length \<circ> snd)") auto

definition u_lstrip :: "string \<Rightarrow> string" where
  "u_lstrip s = skip_spaces id s"

definition u_rstrip :: "string \<Rightarrow> string" where
  "u_rstrip s = rev (skip_spaces rev (rev s))"

text \<open>\<^verbatim>\<open>value[:n]\<close>; a dict has no item for a slice.\<close>

fun py_slice :: "nat \<Rightarrow> json \<Rightarrow> py_error + json" where
  "py_slice n (JStr s) = Inr (JStr (u_take n s))"
| "py_slice n (JArr xs) = Inr (JArr (take n xs))"
| "py_slice n (JObj d) = Inl (KeyError ''slice'')"
| "py_slice n _ = Inl (TypeError ''slice'')"

text \<open>\<^verbatim>\<open>d.get(key) or default\<close>.\<close>

definition get_or :: "dict \<Rightarrow> string \<Rightarrow> json \<Rightarrow> json" where
  "get_or d k v = (if dict_truthy d k then get_or_none d k else v)"

lemma skip_spaces_length: "length (skip_spaces dir s) \<le> length s"
proof (induction dir s rule: skip_spaces.induct)
  case (1 dir s)
  then show ?case by (subst skip_spaces.simps) (auto simp: le_diff_conv)
qed

section \<open>The emotion tag\<close>

definition valid_emotions :: "string list" where
  "valid_emotions = [''neutral'', ''smile'', ''laugh'', ''troubled'', ''surprised'', ''thinking'', ''embarrassed'']"

text \<open>A match of \<^verbatim>\<open>_EMOTION_PATTERN\<close> at the head of a text: its group and the rest behind it.\<close>

definition tag_at :: "string \<Rightarrow> (string \<times> string) option" where
  "tag_at t =
     (let a = skip_spaces id (drop 4 t); b = skip_spaces id (drop 8 a)
      in if starts_with t ''<!--'' \<and> starts_with a ''emotion:'' \<and> starts_with b ''{'' \<and> CHR ''}'' \<in> set b
         then let body = takeWhile (\<lambda>c. c \<noteq> CHR ''}'') b @ ''}''; c = skip_spaces id (drop (length body) b)
              in Some (body, if starts_with c ''-->'' then drop 3 c else c)
         else None)"

fun search_tag :: "string \<Rightarrow> string option" where
  "search_tag [] = None"
| "search_tag (c # cs) = (case tag_at (c # cs) of Some (body, _) \<Rightarrow> Some body | None \<Rightarrow> search_tag cs)"

lemma tag_at_shorter: "tag_at t = Some (body, rest) \<Longrightarrow> length rest < length t"
proof -
  assume t: "tag_at t = Some (body, rest)"
  define a where "a = skip_spaces id (drop 4 t)"
  define b where "b = skip_spaces id (drop 8 a)"
  have s: "starts_with t ''<!--''" and r: "length rest \<le> length b"
    using t skip_spaces_length [of id "drop (length body) b"]
    by (auto simp: tag_at_def Let_def a_def [symmetric] b_def [symmetric] split: if_splits)
  have "length b \<le> length t - 4"
    using skip_spaces_length [of id "drop 8 a"] skip_spaces_length [of id "drop 4 t"] by (simp add: a_def b_def)
  moreover have "4 \<le> length t" using s by (cases "4 \<le> length t") (auto simp: starts_with_def dest: arg_cong [of _ _ length])
  ultimately show ?thesis using r by linarith
qed

function sub_tags :: "string \<Rightarrow> string" where
  "sub_tags [] = []"
| "sub_tags (c # cs) = (case tag_at (c # cs) of None \<Rightarrow> c # sub_tags cs | Some (_, rest) \<Rightarrow> sub_tags rest)"
  by pat_completeness auto

termination sub_tags
  by (relation "measure length") (auto dest: tag_at_shorter)

text \<open>\<^verbatim>\<open>_FALLBACK_EMOTION_RE.search(raw).group(1)\<close>.\<close>

definition fallback_at :: "string \<Rightarrow> string option" where
  "fallback_at t =
     (let q = [CHR 0x22]; a = skip_spaces id (drop 9 t); b = skip_spaces id (drop 1 a);
          v = takeWhile (\<lambda>c. c \<noteq> CHR 0x22) (drop 1 b)
      in if starts_with t (q @ ''emotion'' @ q) \<and> starts_with a '':'' \<and> starts_with b q \<and> v \<noteq> []
            \<and> length v < length (drop 1 b)
         then Some v else None)"

fun search_fallback :: "string \<Rightarrow> string option" where
  "search_fallback [] = None"
| "search_fallback (c # cs) = (case fallback_at (c # cs) of Some v \<Rightarrow> Some v | None \<Rightarrow> search_fallback cs)"

text \<open>A list or a dict has no hash: \<^verbatim>\<open>emotion not in VALID_EMOTIONS\<close> raises.\<close>

definition parse_emotion :: "string \<Rightarrow> py_error + string" where
  "parse_emotion raw =
     (let meta = (case loads raw of Some (JObj d) \<Rightarrow> get_or_empty d ''emotion'' | _ \<Rightarrow> JStr []);
          emotion = (if truthy meta then meta else case search_fallback raw of Some v \<Rightarrow> JStr v | None \<Rightarrow> meta)
      in case emotion of
           JStr e \<Rightarrow> Inr (if e \<in> set valid_emotions then e else ''neutral'')
         | JArr xs \<Rightarrow> Inl (TypeError ''unhashable'')
         | JObj d \<Rightarrow> Inl (TypeError ''unhashable'')
         | _ \<Rightarrow> Inr ''neutral'')"

definition parse_emotion_value :: "string \<Rightarrow> py_error + string" where
  "parse_emotion_value response = (case search_tag response of None \<Rightarrow> Inr ''neutral'' | Some body \<Rightarrow> parse_emotion body)"

definition extract_emotion :: "json \<Rightarrow> py_error + string \<times> string" where
  "extract_emotion response =
     (if \<not> truthy response then Inr ([], ''neutral'')
      else case response of
             JStr t \<Rightarrow>
               (case search_tag t of
                  None \<Rightarrow> Inr (t, ''neutral'')
                | Some body \<Rightarrow>
                    (case parse_emotion body of Inl e \<Rightarrow> Inl e | Inr e \<Rightarrow> Inr (u_rstrip (sub_tags t), e)))
           | _ \<Rightarrow> Inl (TypeError ''search''))"

section \<open>Leaked thinking\<close>

definition close_tag :: string where
  "close_tag = ''</think>''"

function remove_close :: "string \<Rightarrow> string" where
  "remove_close [] = []"
| "remove_close (c # cs) =
     (if starts_with (c # cs) close_tag then remove_close (skip_spaces id (drop 8 (c # cs))) else c # remove_close cs)"
  by pat_completeness auto

termination remove_close
  by (relation "measure length") (auto intro: le_less_trans [OF skip_spaces_length])

text \<open>The text before the first closing tag and the text behind it and its white space.\<close>

fun split_close :: "string \<Rightarrow> (string \<times> string) option" where
  "split_close [] = None"
| "split_close (c # cs) =
     (if starts_with (c # cs) close_tag then Some ([], skip_spaces id (drop 8 (c # cs)))
      else map_option (\<lambda>(p, r). (c # p, r)) (split_close cs))"

definition strip_thinking_tags :: "string \<Rightarrow> string \<times> string" where
  "strip_thinking_tags t =
     (case split_close t of
        None \<Rightarrow> ([], t)
      | Some (raw, rest) \<Rightarrow>
          (if starts_with (u_lstrip raw) ''<think>'' then drop 7 (u_lstrip raw) else raw, remove_close rest))"

definition resolve_streamed_leaked_thinking :: "string \<Rightarrow> string \<times> string" where
  "resolve_streamed_leaked_thinking t =
     (let (leaked, clean) = strip_thinking_tags t
      in if leaked \<noteq> [] \<and> \<not> occurs_in ''<think>'' t then ([], remove_close t) else (leaked, clean))"

section \<open>Summaries of tool calls\<close>

text \<open>\<open>py_str\<close> is \<^verbatim>\<open>str(value)\<close> on a value that is no text.\<close>

definition text_of :: "(json \<Rightarrow> string) \<Rightarrow> json \<Rightarrow> string" where
  "text_of py_str v = (case v of JStr s \<Rightarrow> s | _ \<Rightarrow> py_str v)"

definition ellipsis :: string where
  "ellipsis = [CHR 0xE2, CHR 0x80, CHR 0xA6]"

definition arrow :: string where
  "arrow = [CHR 0xE2, CHR 0x86, CHR 0x92, CHR '' '']"

definition generic_part :: "(json \<Rightarrow> string) \<Rightarrow> string \<times> json \<Rightarrow> string list" where
  "generic_part py_str = (\<lambda>(key, value).
     if value \<in> {JNull, JStr [], JArr [], JObj []} then []
     else let t = join_sep '' '' (u_words [] (text_of py_str value))
          in [key @ ''='' @ (if u_length t > 60 then u_take 60 t @ ellipsis else t)])"

definition generic_summary :: "(json \<Rightarrow> string) \<Rightarrow> dict \<Rightarrow> string" where
  "generic_summary py_str args = u_take 120 (join_sep '', '' (concat (map (generic_part py_str) args)))"

definition known_summary :: "(json \<Rightarrow> string) \<Rightarrow> json \<Rightarrow> dict \<Rightarrow> py_error + json" where
  "known_summary py_str tool args =
     (let str = text_of py_str; is = (\<lambda>names. tool \<in> JStr ` set names)
      in if is [''Bash'', ''execute_command''] then py_slice 120 (get_or args ''command'' (JStr []))
         else if is [''Read'', ''read_file'', ''Write'', ''Edit'', ''write_file'', ''edit_file'']
           then Inr (get_or args ''file_path'' (get_or args ''path'' (JStr [])))
         else if is [''Grep'', ''search_files'']
           then Inr (JStr (str (get_or_empty args ''pattern'') @ '' in '' @ str (opt_or (map_of args ''path'') (JStr ''.''))))
         else if is [''Glob'', ''glob_files'']
           then Inr (get_or args ''pattern'' (get_or args ''glob_pattern'' (JStr [])))
         else if is [''Task'', ''Agent''] then py_slice 80 (get_or args ''description'' (JStr []))
         else if is [''send_message''] then Inr (JStr (arrow @ str (get_or_empty args ''to'')))
         else if is [''delegate_task'']
           then (case py_slice 60 (get_or args ''summary'' (get_or_empty args ''instruction'')) of
                   Inl e \<Rightarrow> Inl e
                 | Inr summary \<Rightarrow> Inr (JStr (arrow @ str (get_or_empty args ''name'') @ '': '' @ str summary)))
         else if is [''web_search'', ''x_search'', ''search_memory''] then py_slice 80 (get_or args ''query'' (JStr []))
         else if is [''create_skill''] then Inr (get_or args ''skill_name'' (JStr []))
         else if is [''promote_procedure_to_skill'']
           then Inr (get_or args ''skill_name'' (get_or args ''path'' (JStr [])))
         else if is [''save_memory''] then Inr (get_or_empty args ''category'')
         else if is [''read_channel'', ''post_channel''] then Inr (JStr (''#'' @ str (get_or_empty args ''channel'')))
         else if is [''manage_channel'']
           then Inr (JStr (str (get_or_empty args ''action'') @ '' #'' @ str (get_or_empty args ''channel'')))
         else Inr (JStr (generic_summary py_str args)))"

definition summarize_tool_args :: "(json \<Rightarrow> string) \<Rightarrow> json \<Rightarrow> dict \<Rightarrow> py_error + json" where
  "summarize_tool_args py_str tool args =
     (case known_summary py_str tool args of
        Inl e \<Rightarrow> Inl e
      | Inr v \<Rightarrow> Inr (if truthy v then v else JStr (generic_summary py_str args)))"

definition make_tool_detail_chunk :: "(json \<Rightarrow> string) \<Rightarrow> string \<Rightarrow> json \<Rightarrow> dict \<Rightarrow> py_error + dict option" where
  "make_tool_detail_chunk py_str tool tid args =
     (case summarize_tool_args py_str (JStr tool) args of
        Inl e \<Rightarrow> Inl e
      | Inr detail \<Rightarrow>
          Inr (if truthy detail
               then Some [(''type'', JStr ''tool_detail''), (''tool_id'', tid), (''tool_name'', JStr tool), (''detail'', detail)]
               else None))"

section \<open>Chunks\<close>

text \<open>\<^verbatim>\<open>chunk[key]\<close>.\<close>

definition item :: "dict \<Rightarrow> string \<Rightarrow> py_error + json" where
  "item d k = (case map_of d k of None \<Rightarrow> Inl (KeyError k) | Some v \<Rightarrow> Inr v)"

definition copy_empty :: "dict \<Rightarrow> string list \<Rightarrow> dict" where
  "copy_empty d ks = map (\<lambda>k. (k, get_or_empty d k)) ks"

record chunk_env =
  ce_tr :: "string \<Rightarrow> string"
  ce_str :: "json \<Rightarrow> string"

definition tool_start_payload :: "chunk_env \<Rightarrow> dict \<Rightarrow> py_error + dict" where
  "tool_start_payload env chunk =
     (case (item chunk ''tool_name'', item chunk ''tool_id'') of
        (Inl e, _) \<Rightarrow> Inl e
      | (_, Inl e) \<Rightarrow> Inl e
      | (Inr name, Inr tid) \<Rightarrow>
          let base = [(''tool_name'', name), (''tool_id'', tid)]
          in case map_of chunk ''input'' of
               Some (JObj (x # xs)) \<Rightarrow>
                 (case summarize_tool_args (ce_str env) (if truthy name then name else JStr []) (x # xs) of
                    Inl e \<Rightarrow> Inl e
                  | Inr summary \<Rightarrow>
                      if truthy summary
                      then (case py_slice 200 summary of Inl e \<Rightarrow> Inl e | Inr v \<Rightarrow> Inr (base @ [(''input_summary'', v)]))
                      else Inr base)
             | _ \<Rightarrow> Inr base)"

text \<open>The summaries of a record, cut to 200 characters, in the order the code adds them.\<close>

fun cut_items :: "dict \<Rightarrow> string list \<Rightarrow> py_error + dict" where
  "cut_items d [] = Inr []"
| "cut_items d (k # ks) =
     (if dict_truthy d k
      then (case py_slice 200 (get_or_none d k) of
              Inl e \<Rightarrow> Inl e
            | Inr v \<Rightarrow> (case cut_items d ks of Inl e \<Rightarrow> Inl e | Inr vs \<Rightarrow> Inr ((k, v) # vs)))
      else cut_items d ks)"

definition tool_end_payload :: "dict \<Rightarrow> py_error + dict" where
  "tool_end_payload chunk =
     (case item chunk ''tool_id'' of
        Inl e \<Rightarrow> Inl e
      | Inr tid \<Rightarrow>
          let base = [(''tool_id'', tid), (''tool_name'', get_or_empty chunk ''tool_name'')]
          in case map_of chunk ''record'' of
               Some (JObj rcd) \<Rightarrow>
                 (case cut_items rcd [''result_summary'', ''input_summary''] of
                    Inl e \<Rightarrow> Inl e
                  | Inr cuts \<Rightarrow> Inr (base @ cuts @ (if dict_truthy rcd ''is_error'' then [(''is_error'', JBool True)] else [])))
             | _ \<Rightarrow> Inr base)"

definition cycle_done_payload :: "dict \<Rightarrow> py_error + dict" where
  "cycle_done_payload chunk =
     (case opt_or (map_of chunk ''cycle_result'') (JObj []) of
        JObj cycle \<Rightarrow>
          (case extract_emotion (get_or_empty cycle ''summary'') of
             Inl e \<Rightarrow> Inl e
           | Inr (text, emotion) \<Rightarrow>
               let (leaked, clean) = resolve_streamed_leaked_thinking text;
                   raw0 = get_or cycle ''thinking_text'' (JStr []);
                   raw = (if leaked \<noteq> [] \<and> \<not> truthy raw0 then JStr leaked else raw0);
                   d = dict_pops (AList.update ''emotion'' (JStr emotion)
                         (AList.update ''summary'' (JStr clean) (AList.delete ''thinking_text'' cycle))) [''tool_call_records'']
               in if truthy raw
                  then (case py_slice 5000 raw of Inl e \<Rightarrow> Inl e | Inr v \<Rightarrow> Inr (AList.update ''thinking_summary'' v d))
                  else Inr (AList.update ''thinking_summary'' JNull d))
      | _ \<Rightarrow> Inl (AttributeError ''get''))"

text \<open>The chunks that need no more than a copy of some fields.\<close>

definition zero_or :: "dict \<Rightarrow> string \<Rightarrow> json" where
  "zero_or d k = opt_or (map_of d k) (JInt 0)"

definition plain_event :: "chunk_env \<Rightarrow> string \<Rightarrow> dict \<Rightarrow> (string \<times> dict) option" where
  "plain_event env ty chunk =
     (if ty = ''tool_detail'' then Some (ty, copy_empty chunk [''tool_id'', ''tool_name'', ''detail''])
      else if ty = ''bootstrap_start'' then Some (''bootstrap'', [(''status'', JStr ''started'')])
      else if ty = ''bootstrap_complete'' then Some (''bootstrap'', [(''status'', JStr ''completed'')])
      else if ty = ''bootstrap_busy''
        then Some (''bootstrap'', [(''status'', JStr ''busy''),
               (''message'', opt_or (map_of chunk ''message'') (JStr (ce_tr env ''chat.bootstrap_busy'')))])
      else if ty \<in> {''compression_start'', ''compression_end'', ''heartbeat_relay_done'', ''thinking_start'', ''thinking_end''}
        then Some (ty, [])
      else if ty = ''heartbeat_relay_start''
        then Some (ty, [(''message'', opt_or (map_of chunk ''message'') (JStr (ce_tr env ''chat.heartbeat_processing'')))])
      else if ty \<in> {''heartbeat_relay'', ''thinking_delta''} then Some (ty, copy_empty chunk [''text''])
      else if ty = ''meeting_redirect''
        then Some (ty, copy_empty chunk [''room_id'', ''redirect_id'', ''from'', ''to'', ''content'', ''intent'', ''ts''])
      else if ty = ''context_update''
        then Some (ty, map (\<lambda>k. (k, zero_or chunk k)) [''context_usage_ratio'', ''input_tokens'', ''context_window'', ''threshold''])
      else if ty = ''error''
        then Some (ty, (''message'', opt_or (map_of chunk ''message'') (JStr ''Unknown error'')) #
               (case map_of chunk ''code'' of Some c \<Rightarrow> [(''code'', c)] | None \<Rightarrow> []))
      else None)"

definition chunk_to_event :: "chunk_env \<Rightarrow> dict \<Rightarrow> py_error + (string \<times> dict) option" where
  "chunk_to_event env chunk =
     (case opt_or (map_of chunk ''type'') (JStr ''unknown'') of
        JStr ty \<Rightarrow>
          if ty = ''text_delta''
            then (case item chunk ''text'' of Inl e \<Rightarrow> Inl e | Inr v \<Rightarrow> Inr (Some (ty, [(''text'', v)])))
          else if ty = ''tool_start''
            then (case tool_start_payload env chunk of Inl e \<Rightarrow> Inl e | Inr d \<Rightarrow> Inr (Some (ty, d)))
          else if ty = ''tool_end'' then (case tool_end_payload chunk of Inl e \<Rightarrow> Inl e | Inr d \<Rightarrow> Inr (Some (ty, d)))
          else if ty = ''chain_start''
            then (case item chunk ''chain'' of Inl e \<Rightarrow> Inl e | Inr v \<Rightarrow> Inr (Some (ty, [(''chain'', v)])))
          else if ty = ''cycle_done''
            then (case cycle_done_payload chunk of Inl e \<Rightarrow> Inl e | Inr d \<Rightarrow> Inr (Some (''done'', d)))
          else Inr (plain_event env ty chunk)
      | _ \<Rightarrow> Inr None)"

section \<open>The producer\<close>

text \<open>\<open>pe_ws\<close> is the exception that the WebSocket side effects of a chunk raise, if any.\<close>

datatype prod_exn = PCancelled | PRuntime string | PValue string | PNotFound | PTimeout | POther

fun exn_of :: "py_error \<Rightarrow> prod_exn" where
  "exn_of (ValueError m) = PValue m"
| "exn_of (RuntimeError m) = PRuntime m"
| "exn_of (KeyError m) = PNotFound"
| "exn_of _ = POther"

record ipc_response =
  ir_done :: bool
  ir_chunk :: json
  ir_result :: json

record producer_env =
  pe_chunks :: chunk_env
  pe_ws :: "dict \<Rightarrow> prod_exn option"
  pe_name :: string

text \<open>The payload of the final event; the \<^verbatim>\<open>cycle_result\<close> has at least the two keys set here, so it is never empty.\<close>

definition result_payload :: "json \<Rightarrow> py_error + dict" where
  "result_payload result =
     (case result of
        JObj d \<Rightarrow>
          (case opt_or (map_of d ''cycle_result'') (JObj []) of
             JObj cycle \<Rightarrow>
               (case extract_emotion (opt_or (map_of cycle ''summary'') (get_or_empty d ''response'')) of
                  Inl e \<Rightarrow> Inl e
                | Inr (clean, emotion) \<Rightarrow>
                    Inr (AList.update ''emotion'' (JStr emotion) (AList.update ''summary'' (JStr clean) cycle)))
           | _ \<Rightarrow> Inl (AttributeError ''get''))
      | _ \<Rightarrow> Inl (AttributeError ''get''))"

text \<open>What one response does: the loop goes on, stops (\<^verbatim>\<open>break\<close>) or an exception leaves it; with the stream and \<^verbatim>\<open>stream_done\<close>.\<close>

datatype prod_outcome = Goes response_stream bool | Stops response_stream bool | Fails prod_exn response_stream bool

definition add_then :: "int \<Rightarrow> string \<Rightarrow> dict \<Rightarrow> (response_stream \<Rightarrow> bool \<Rightarrow> prod_outcome) \<Rightarrow> response_stream \<Rightarrow> bool \<Rightarrow> prod_outcome" where
  "add_then ms name payload next s d =
     (case add_event ms name payload s of
        (Some e, s1) \<Rightarrow> Fails (exn_of e) s1 d
      | (None, s1) \<Rightarrow> next s1 (d \<or> name = ''done''))"

definition final_result :: "int \<Rightarrow> json \<Rightarrow> response_stream \<Rightarrow> bool \<Rightarrow> prod_outcome" where
  "final_result ms result s d =
     (case result_payload result of Inl e \<Rightarrow> Fails (exn_of e) s d | Inr p \<Rightarrow> add_then ms ''done'' p Stops s d)"

definition take_chunk :: "producer_env \<Rightarrow> int \<Rightarrow> string \<Rightarrow> response_stream \<Rightarrow> bool \<Rightarrow> prod_outcome" where
  "take_chunk env ms text s d =
     (case loads text of
        None \<Rightarrow> add_then ms ''text_delta'' [(''text'', JStr text)] Goes s d
      | Some (JObj chunk) \<Rightarrow>
          if map_of chunk ''type'' = Some (JStr ''keepalive'') then Goes s d
          else (case pe_ws env chunk of
                  Some x \<Rightarrow> Fails x s d
                | None \<Rightarrow>
                    (case chunk_to_event (pe_chunks env) chunk of
                       Inl e \<Rightarrow> Fails (exn_of e) s d
                     | Inr None \<Rightarrow> Goes s d
                     | Inr (Some (name, payload)) \<Rightarrow> add_then ms name payload Goes s d))
      | Some _ \<Rightarrow> Fails POther s d)"

definition take_response :: "producer_env \<Rightarrow> int \<Rightarrow> ipc_response \<Rightarrow> response_stream \<Rightarrow> bool \<Rightarrow> prod_outcome" where
  "take_response env ms resp s d =
     (if ir_done resp then final_result ms (if truthy (ir_result resp) then ir_result resp else JObj []) s d
      else if truthy (ir_chunk resp)
      then (case ir_chunk resp of JStr text \<Rightarrow> take_chunk env ms text s d | _ \<Rightarrow> Fails POther s d)
      else if truthy (ir_result resp) then final_result ms (ir_result resp) s d
      else Goes s d)"

text \<open>The responses with the clock readings, and how the iteration over them ends.\<close>

fun producer_loop ::
  "producer_env \<Rightarrow> (int \<times> ipc_response) list \<Rightarrow> prod_exn option \<Rightarrow> response_stream \<Rightarrow> bool \<Rightarrow> prod_outcome" where
  "producer_loop env [] ending s d = (case ending of None \<Rightarrow> Stops s d | Some x \<Rightarrow> Fails x s d)"
| "producer_loop env ((ms, resp) # rs) ending s d =
     (case take_response env ms resp s d of Goes s1 d1 \<Rightarrow> producer_loop env rs ending s1 d1 | o' \<Rightarrow> o')"

text \<open>The exception handlers; the re-raised cancellation adds no event.\<close>

definition error_payload :: "string \<Rightarrow> string \<Rightarrow> dict" where
  "error_payload code message = [(''code'', JStr code), (''message'', JStr message)]"

definition runtime_error :: "(string \<Rightarrow> string) \<Rightarrow> string \<Rightarrow> dict" where
  "runtime_error tr m =
     (if occurs_in ''Process restarting'' m then error_payload ''ANIMA_RESTARTING'' (tr ''chat.anima_restarting'')
      else if occurs_in ''Not connected'' m then error_payload ''ANIMA_UNAVAILABLE'' (tr ''chat.anima_unavailable'')
      else if occurs_in ''Connection closed during stream'' m then error_payload ''CONNECTION_LOST'' (tr ''chat.connection_lost'')
      else if occurs_in ''IPC protocol error'' m then error_payload ''IPC_PROTOCOL_ERROR'' (tr ''chat.communication_error'')
      else error_payload ''STREAM_ERROR'' (tr ''chat.internal_error''))"

fun exn_payload :: "producer_env \<Rightarrow> prod_exn \<Rightarrow> dict option" where
  "exn_payload env PCancelled = None"
| "exn_payload env (PRuntime m) = Some (runtime_error (ce_tr (pe_chunks env)) m)"
| "exn_payload env (PValue m) = Some (error_payload ''IPC_ERROR'' m)"
| "exn_payload env PNotFound = Some (error_payload ''ANIMA_NOT_FOUND'' (''Anima not found: '' @ pe_name env))"
| "exn_payload env PTimeout = Some (error_payload ''IPC_TIMEOUT'' (ce_tr (pe_chunks env) ''chat.timeout''))"
| "exn_payload env POther = Some stream_error"

text \<open>
  The end of the producer: a missing \<open>done\<close> or an exception becomes an \<open>error\<close> event, and the stream is marked complete
  in the registry as it is then. The stream object itself is completed only if the registry still holds it.
\<close>

definition close_outcome :: "producer_env \<Rightarrow> int \<Rightarrow> prod_outcome \<Rightarrow> response_stream \<times> bool" where
  "close_outcome env ms o' =
     (case o' of
        Fails x s d \<Rightarrow>
          (case exn_payload env x of None \<Rightarrow> (s, False) | Some p \<Rightarrow> (snd (add_event ms ''error'' p s), False))
      | Stops s d \<Rightarrow>
          (if d then s
           else snd (add_event ms ''error''
                  (error_payload ''STREAM_INCOMPLETE'' (ce_tr (pe_chunks env) ''chat.stream_incomplete'')) s), d)
      | Goes s d \<Rightarrow> (s, d))"

definition complete_stream :: "bool \<Rightarrow> response_stream \<Rightarrow> stream_registry \<Rightarrow> response_stream \<times> stream_registry" where
  "complete_stream d s r =
     (case get_stream (rs_id s) r of
        None \<Rightarrow> (s, mark_complete (rs_id s) d r)
      | Some _ \<Rightarrow> (finish_stream d s, mark_complete (rs_id s) d (on_stream (rs_id s) (\<lambda>_. s) r)))"

text \<open>
  \<^verbatim>\<open>_run_producer\<close> on a stream: \<open>greeting\<close> is an exception of the first broadcast, \<open>ending\<close> that of the request (or of
  reading the configuration), \<open>r\<close> the registry at the end.
\<close>

definition run_producer ::
  "producer_env \<Rightarrow> prod_exn option \<Rightarrow> (int \<times> ipc_response) list \<Rightarrow> prod_exn option \<Rightarrow> int \<Rightarrow>
   response_stream \<Rightarrow> stream_registry \<Rightarrow> response_stream \<times> stream_registry" where
  "run_producer env greeting resps ending ms s r =
     (let o' = (case greeting of
                  Some x \<Rightarrow> Fails x s False
                | None \<Rightarrow> producer_loop env resps ending
                            (snd (add_event 0 ''stream_start'' [(''response_id'', JStr (rs_id s))] s)) False);
          (s1, d) = close_outcome env ms o'
      in complete_stream d s1 r)"

section \<open>What the producer adds\<close>

text \<open>
  \<open>stream_grows s new s'\<close>: from \<open>s\<close> to \<open>s'\<close> exactly the events \<open>new\<close> were appended, whatever the log was before.
\<close>

definition stream_grows :: "response_stream \<Rightarrow> sse_event list \<Rightarrow> response_stream \<Rightarrow> bool" where
  "stream_grows s new s' = (rs_id s' = rs_id s \<and> (\<forall>hist. buffer_ok hist s \<longrightarrow> buffer_ok (hist @ new) s'))"

lemma stream_grows_refl [simp]: "stream_grows s [] s"
  by (simp add: stream_grows_def)

lemma stream_grows_trans: "stream_grows s new s' \<Longrightarrow> stream_grows s' new' s'' \<Longrightarrow> stream_grows s (new @ new') s''"
  unfolding stream_grows_def append_assoc [symmetric] by metis

lemma grows_add: "stream_grows s [make_event name payload s] (snd (add_event ms name payload s))"
  by (simp add: stream_grows_def add_event_keeps buffer_ok_add)

lemma grows_finish: "stream_grows s new s' \<Longrightarrow> stream_grows s new (finish_stream d s')"
  by (simp add: stream_grows_def) (simp add: finish_stream_def)

lemma se_event_make [simp]: "se_event (make_event name payload s) = name"
  by (simp add: make_event_def)

fun out_stream :: "prod_outcome \<Rightarrow> response_stream" where
  "out_stream (Goes s d) = s"
| "out_stream (Stops s d) = s"
| "out_stream (Fails x s d) = s"

fun out_done :: "prod_outcome \<Rightarrow> bool" where
  "out_done (Goes s d) = d"
| "out_done (Stops s d) = d"
| "out_done (Fails x s d) = d"

text \<open>Only a \<open>done\<close> event completes a stream by itself.\<close>

lemma add_event_complete:
  "rs_complete (snd (add_event ms name payload s)) \<Longrightarrow> rs_complete s \<or> name = ''done''"
  by (auto simp: add_event_def Let_def track_event_def push_event_def split: option.splits sum.splits if_splits)

text \<open>An outcome adds events, and \<^verbatim>\<open>stream_done\<close> and the stream's completion become true with a \<open>done\<close> event only.\<close>

definition adds_events :: "response_stream \<Rightarrow> bool \<Rightarrow> prod_outcome \<Rightarrow> bool" where
  "adds_events s d o' =
     (\<exists>new. stream_grows s new (out_stream o') \<and> (out_done o' \<longrightarrow> d \<or> ''done'' \<in> se_event ` set new) \<and>
            (rs_complete (out_stream o') \<longrightarrow> rs_complete s \<or> ''done'' \<in> se_event ` set new))"

lemma adds_events_refl: "out_stream o' = s \<Longrightarrow> out_done o' = d \<Longrightarrow> adds_events s d o'"
  unfolding adds_events_def by (intro exI [of _ "[]"]) simp

lemma adds_events_trans: "adds_events s d o1 \<Longrightarrow> adds_events (out_stream o1) (out_done o1) o2 \<Longrightarrow> adds_events s d o2"
  unfolding adds_events_def by (fastforce intro: stream_grows_trans)

lemma add_then_adds:
  assumes "\<And>s' d'. out_stream (next s' d') = s' \<and> out_done (next s' d') = d'"
  shows "adds_events s d (add_then ms name payload next s d)"
  unfolding adds_events_def
proof (intro exI [of _ "[make_event name payload s]"] conjI impI)
  show "stream_grows s [make_event name payload s] (out_stream (add_then ms name payload next s d))"
    using grows_add [of s name payload ms] assms
    by (cases "add_event ms name payload s") (auto simp: add_then_def split: option.split)
  show "d \<or> ''done'' \<in> se_event ` set [make_event name payload s]" if "out_done (add_then ms name payload next s d)"
    using that assms by (auto simp: add_then_def split: prod.splits option.splits)
  show "rs_complete s \<or> ''done'' \<in> se_event ` set [make_event name payload s]"
    if "rs_complete (out_stream (add_then ms name payload next s d))"
  proof -
    have "out_stream (add_then ms name payload next s d) = snd (add_event ms name payload s)"
      using assms by (cases "add_event ms name payload s") (auto simp: add_then_def split: option.split)
    with that add_event_complete [of ms name payload s] show ?thesis by auto
  qed
qed

lemma final_result_adds: "adds_events s d (final_result ms result s d)"
  by (auto simp: final_result_def intro: adds_events_refl add_then_adds split: sum.split)

lemma take_chunk_adds: "adds_events s d (take_chunk env ms text s d)"
  by (auto simp: take_chunk_def intro: adds_events_refl add_then_adds split: option.split json.split sum.split)

lemma take_response_adds: "adds_events s d (take_response env ms resp s d)"
  by (auto simp: take_response_def intro: adds_events_refl final_result_adds take_chunk_adds split: json.split)

lemma producer_loop_adds: "adds_events s d (producer_loop env rs ending s d)"
proof (induction env rs ending s d rule: producer_loop.induct)
  case (1 env ending s d)
  then show ?case by (auto intro: adds_events_refl split: option.split)
next
  case (2 env ms resp rs ending s d)
  show ?case
  proof (cases "take_response env ms resp s d")
    case (Goes s1 d1)
    then show ?thesis
      using 2 [OF Goes] take_response_adds [of s d env ms resp] by (auto intro: adds_events_trans)
  qed (use take_response_adds [of s d env ms resp] in simp_all)
qed

lemma producer_loop_ends: "producer_loop env rs ending s d \<noteq> Goes s' d'"
  by (induction env rs ending s d rule: producer_loop.induct) (auto split: option.split prod_outcome.split)

text \<open>
  How a stream is closed: with \<open>done\<close> after a \<open>done\<close> event, otherwise after an \<open>error\<close> event, or silently when the
  producer was cancelled.
\<close>

definition closed_well :: "sse_event list \<Rightarrow> bool \<Rightarrow> bool \<Rightarrow> bool" where
  "closed_well new d cancelled =
     (if d then ''done'' \<in> se_event ` set new else cancelled \<or> (new \<noteq> [] \<and> se_event (last new) = ''error''))"

fun was_cancelled :: "prod_outcome \<Rightarrow> bool" where
  "was_cancelled (Fails x s d) = (x = PCancelled)"
| "was_cancelled _ = False"

lemma close_outcome_well:
  assumes "adds_events s False o'" "\<And>s' d'. o' \<noteq> Goes s' d'" "close_outcome env ms o' = (s1, d)"
  shows "\<exists>new. stream_grows s new s1 \<and> closed_well new d (was_cancelled o')"
proof -
  obtain new where new: "stream_grows s new (out_stream o')" "out_done o' \<longrightarrow> ''done'' \<in> se_event ` set new"
    using assms(1) by (auto simp: adds_events_def)
  show ?thesis
  proof (cases o')
    case (Goes s' d')
    then show ?thesis using assms(2) by simp
  next
    case (Stops s' d')
    show ?thesis
    proof (cases d')
      case True
      then show ?thesis using assms(3) new Stops by (auto simp: close_outcome_def closed_well_def)
    next
      case False
      then show ?thesis
        using assms(3) new(1) Stops stream_grows_trans [OF new(1), unfolded Stops out_stream.simps, OF grows_add]
        by (fastforce simp: close_outcome_def closed_well_def)
    qed
  next
    case (Fails x s' d')
    show ?thesis
    proof (cases "exn_payload env x")
      case None
      then have "x = PCancelled" by (cases x) auto
      then show ?thesis using assms(3) new(1) Fails None by (auto simp: close_outcome_def closed_well_def)
    next
      case (Some p)
      then show ?thesis
        using assms(3) Fails stream_grows_trans [OF new(1), unfolded Fails out_stream.simps, OF grows_add]
        by (fastforce simp: close_outcome_def closed_well_def)
    qed
  qed
qed

text \<open>Only a cancellation from outside is one: no exception of the producer's own work is mistaken for it.\<close>

lemma exn_of_not_cancelled: "exn_of e \<noteq> PCancelled"
  by (cases e) auto

lemma add_then_cancelled:
  "(\<And>s' d'. \<not> was_cancelled (next s' d')) \<Longrightarrow> \<not> was_cancelled (add_then ms name payload next s d)"
  by (auto simp: add_then_def exn_of_not_cancelled split: prod.split option.split)

lemma final_result_cancelled: "\<not> was_cancelled (final_result ms result s d)"
  by (auto simp: final_result_def exn_of_not_cancelled add_then_cancelled split: sum.split)

lemma take_response_cancelled:
  "was_cancelled (take_response env ms resp s d) \<Longrightarrow> \<exists>c. pe_ws env c = Some PCancelled"
  by (auto simp: take_response_def take_chunk_def final_result_cancelled add_then_cancelled exn_of_not_cancelled
      split: if_splits json.splits option.splits sum.splits)

lemma producer_loop_cancelled:
  "was_cancelled (producer_loop env rs ending s d) \<Longrightarrow> ending = Some PCancelled \<or> (\<exists>c. pe_ws env c = Some PCancelled)"
proof (induction env rs ending s d rule: producer_loop.induct)
  case (2 env ms resp rs ending s d)
  show ?case
  proof (cases "take_response env ms resp s d")
    case (Goes s1 d1)
    then show ?thesis using 2 by simp
  qed (use 2 take_response_cancelled [of env ms resp s d] in auto)
qed (auto split: option.splits)

lemma complete_stream_done:
  "get_stream (rs_id s) r \<noteq> None \<Longrightarrow>
   complete_stream d s r = (finish_stream d s, snd (complete_stream d s r)) \<and>
   get_stream (rs_id s) (snd (complete_stream d s r)) = Some (finish_stream d s)"
  by (auto simp: complete_stream_def get_stream_def mark_complete_def on_stream_def update_conv')

lemma finish_stream_simps [simp]: "rs_complete (finish_stream d s)" "rs_done (finish_stream d s) = d"
  "rs_id (finish_stream d s) = rs_id s"
  by (simp_all add: finish_stream_def)

section \<open>Streams that the registry has dropped\<close>

text \<open>
  A stream that expired while its client was connected is never completed: \<^verbatim>\<open>cleanup\<close> cancels the producer, whose
  handler calls \<^verbatim>\<open>mark_complete\<close>, which no longer finds the stream. The tail of the client then never ends by itself.
\<close>

lemma expired_never_completes:
  assumes "get_stream (rs_id s) r = None" "\<not> rs_complete s"
  shows "\<not> rs_complete (fst (run_producer env None [] (Some PCancelled) ms s r))"
proof -
  have "\<not> rs_complete (snd (add_event 0 ''stream_start'' payload s))" for payload
    using assms(2) by (simp add: add_event_def Let_def track_event_def delta_names_def)
  then show ?thesis
    using assms(1) by (simp add: run_producer_def close_outcome_def complete_stream_def add_event_keeps)
qed

lemma tail_waits_forever:
  "\<not> rs_complete s \<Longrightarrow> rd_pc r \<noteq> Ended False \<Longrightarrow> rd_pc ((tail_alone s ^^ n) r) \<noteq> Ended False"
  using tail_ends_drained(3) by (induction n) (auto simp: tail_alone_def)

text \<open>A chunk without its text is reported as a missing anima.\<close>

lemma missing_text_blames_anima:
  "pe_ws env = (\<lambda>c. None) \<Longrightarrow>
   take_chunk env ms (CHR ''{'' # dump_str ''type'' @ '':'' @ dump_str ''text_delta'' @ ''}'') s d = Fails PNotFound s d"
proof -
  assume ws: "pe_ws env = (\<lambda>c. None)"
  have "loads (CHR ''{'' # dump_str ''type'' @ '':'' @ dump_str ''text_delta'' @ ''}'') =
      Some (JObj [(''type'', JStr ''text_delta'')])"
    by code_simp
  then show ?thesis by (simp add: take_chunk_def ws chunk_to_event_def item_def)
qed

text \<open>An emotion that the model writes as a list raises, and the answer is lost to an internal error.\<close>

lemma list_emotion_raises:
  "extract_emotion (JStr (''hi <!-- emotion: {'' @ dump_str ''emotion'' @ '': ['' @ dump_str ''smile'' @ '']} -->'')) =
     Inl (TypeError ''unhashable'')"
  by code_simp

text \<open>A chunk for the detail of a tool call becomes an event with the same detail.\<close>

lemma detail_chunk_event:
  "make_tool_detail_chunk py_str tool tid args = Inr (Some chunk) \<Longrightarrow>
   \<exists>detail. truthy detail \<and> chunk_to_event env chunk =
     Inr (Some (''tool_detail'', [(''tool_id'', tid), (''tool_name'', JStr tool), (''detail'', detail)]))"
  by (auto simp: make_tool_detail_chunk_def chunk_to_event_def plain_event_def copy_empty_def get_or_empty_def
      split: sum.splits if_splits)

section \<open>Stray tags\<close>

lemma remove_close_split: "split_close t = Some (p, rest) \<Longrightarrow> remove_close t = p @ remove_close rest"
  by (induction t arbitrary: p) (auto split: if_splits)

lemma remove_close_none: "split_close t = None \<Longrightarrow> remove_close t = t"
  by (induction t) (auto split: if_splits)

lemma starts_with_append: "starts_with s pat \<Longrightarrow> starts_with (s @ r) pat"
proof -
  assume p: "starts_with s pat"
  then have "length pat \<le> length s" by (metis length_take min.cobounded1 starts_with_def)
  then show ?thesis using p by (simp add: starts_with_def)
qed

lemma occurs_in_more: "occurs_in pat s \<Longrightarrow> occurs_in pat (s @ r)"
proof (induction s)
  case Nil
  then show ?case by (cases r) (simp_all add: starts_with_def)
next
  case (Cons c s)
  then show ?case using starts_with_append [of "c # s" pat r] by auto
qed

lemma occurs_in_append: "occurs_in pat s \<Longrightarrow> occurs_in pat (q @ s @ r)"
  by (induction q) (simp_all add: occurs_in_more)

lemma occurs_at_start: "starts_with s pat \<Longrightarrow> occurs_in pat s"
  by (cases s) (auto simp: starts_with_def)

lemma skip_spaces_suffix: "\<exists>q. s = q @ skip_spaces dir s"
proof (induction dir s rule: skip_spaces.induct)
  case (1 dir s)
  show ?case
  proof (cases "space_at dir s = 0")
    case True
    then show ?thesis by (subst skip_spaces.simps) simp
  next
    case False
    with 1 obtain q where "drop (space_at dir s) s = q @ skip_spaces dir (drop (space_at dir s) s)" by blast
    then have "s = (take (space_at dir s) s @ q) @ skip_spaces dir (drop (space_at dir s) s)"
      by (metis append.assoc append_take_drop_id)
    moreover have "skip_spaces dir s = skip_spaces dir (drop (space_at dir s) s)"
      using False by (subst skip_spaces.simps) simp
    ultimately show ?thesis by metis
  qed
qed

lemma split_close_prefix: "split_close t = Some (p, rest) \<Longrightarrow> \<exists>r. t = p @ r"
  by (induction t arbitrary: p) (auto split: if_splits)

text \<open>A leading opening tag before the first closing one is an opening tag of the text.\<close>

lemma opening_occurs:
  assumes "split_close t = Some (p, rest)" "starts_with (u_lstrip p) ''<think>''"
  shows "occurs_in ''<think>'' t"
proof -
  obtain r where "t = p @ r" using split_close_prefix [OF assms(1)] by blast
  moreover obtain q where "p = q @ u_lstrip p" using skip_spaces_suffix [of p id] by (auto simp: u_lstrip_def)
  ultimately have "t = q @ u_lstrip p @ r" by (metis append.assoc)
  then show ?thesis using occurs_in_append [OF occurs_at_start [OF assms(2)], of q r] by simp
qed

section \<open>The end of a stream\<close>

lemma producer_ends:
  assumes "get_stream (rs_id s) r \<noteq> None" "buffer_ok hist s"
    and "run_producer env greeting resps ending ms s r = (s', r')"
  shows "rs_complete s' \<and> get_stream (rs_id s) r' = Some s' \<and>
    (\<exists>new. buffer_ok (hist @ new) s' \<and>
       closed_well new (rs_done s') (Some PCancelled \<in> {greeting, ending} \<or> (\<exists>c. pe_ws env c = Some PCancelled)))"
proof -
  let ?start = "snd (add_event 0 ''stream_start'' [(''response_id'', JStr (rs_id s))] s)"
  define o' where "o' = (case greeting of Some x \<Rightarrow> Fails x s False | None \<Rightarrow> producer_loop env resps ending ?start False)"
  have adds: "adds_events s False o'"
  proof (cases greeting)
    case None
    have "adds_events s False (Goes ?start False)"
      unfolding adds_events_def by (intro exI) (auto intro: grows_add dest: add_event_complete)
    then show ?thesis
      using None producer_loop_adds [of ?start False env resps ending] by (auto simp: o'_def intro: adds_events_trans)
  qed (simp add: o'_def adds_events_refl)
  have ends: "o' \<noteq> Goes s1 d1" for s1 d1
    by (simp add: o'_def producer_loop_ends split: option.split)
  have cancelled: "Some PCancelled \<in> {greeting, ending} \<or> (\<exists>c. pe_ws env c = Some PCancelled)" if "was_cancelled o'"
    using that producer_loop_cancelled [of env resps ending ?start False] by (auto simp: o'_def split: option.splits)
  obtain s1 d where c: "close_outcome env ms o' = (s1, d)" by (cases "close_outcome env ms o'")
  obtain new where new: "stream_grows s new s1" "closed_well new d (was_cancelled o')"
    using close_outcome_well [OF adds ends c] by blast
  have id: "rs_id s1 = rs_id s" using new(1) by (simp add: stream_grows_def)
  have "complete_stream d s1 r = (s', r')"
    using assms(3) c by (simp add: run_producer_def o'_def Let_def)
  then have s': "s' = finish_stream d s1" "get_stream (rs_id s) r' = Some s'"
    using complete_stream_done [of s1 r d] assms(1) by (auto simp: id)
  moreover have "closed_well new d (Some PCancelled \<in> {greeting, ending} \<or> (\<exists>c. pe_ws env c = Some PCancelled))"
    using new(2) cancelled by (auto simp: closed_well_def split: if_splits)
  ultimately show ?thesis
    using new(1) assms(2) by (auto simp: stream_grows_def)
qed

section \<open>Producer and tail together\<close>

text \<open>
  The steps of \<^verbatim>\<open>_run_producer\<close> between which other tasks run, and those of the tail: the producer starts (or fails in its
  first broadcast), takes a response (closing the stream when that ends the loop), sees the end of the responses, and marks
  the stream as complete, with the flag whether the stream is still registered. A step in another phase does nothing.
\<close>

datatype live_phase = PhStart | PhLoop bool | PhClose bool | PhOver bool

record live_chat =
  lv_stream :: response_stream
  lv_phase :: live_phase
  lv_reader :: reader

datatype live_action =
    DoStart
  | DoGreet int prod_exn
  | DoTake int int ipc_response
  | DoEnd int "prod_exn option"
  | DoComplete bool
  | DoRead wake

definition close_live :: "producer_env \<Rightarrow> int \<Rightarrow> prod_outcome \<Rightarrow> live_chat \<Rightarrow> live_chat" where
  "close_live env ms o' c =
     (case o' of
        Goes s d \<Rightarrow> c\<lparr>lv_stream := s, lv_phase := PhLoop d\<rparr>
      | _ \<Rightarrow> (case close_outcome env ms o' of (s, d) \<Rightarrow> c\<lparr>lv_stream := s, lv_phase := PhClose d\<rparr>))"

fun live_do :: "producer_env \<Rightarrow> live_action \<Rightarrow> live_chat \<Rightarrow> live_chat" where
  "live_do env DoStart c =
     (if lv_phase c = PhStart
      then c\<lparr>lv_stream := snd (add_event 0 ''stream_start'' [(''response_id'', JStr (rs_id (lv_stream c)))] (lv_stream c)),
             lv_phase := PhLoop False\<rparr>
      else c)"
| "live_do env (DoGreet ms x) c =
     (if lv_phase c = PhStart then close_live env ms (Fails x (lv_stream c) False) c else c)"
| "live_do env (DoTake ms ms' resp) c =
     (case lv_phase c of PhLoop d \<Rightarrow> close_live env ms' (take_response env ms resp (lv_stream c) d) c | _ \<Rightarrow> c)"
| "live_do env (DoEnd ms ending) c =
     (case lv_phase c of
        PhLoop d \<Rightarrow> close_live env ms (case ending of None \<Rightarrow> Stops (lv_stream c) d | Some x \<Rightarrow> Fails x (lv_stream c) d) c
      | _ \<Rightarrow> c)"
| "live_do env (DoComplete reg) c =
     (case lv_phase c of
        PhClose d \<Rightarrow> c\<lparr>lv_stream := (if reg then finish_stream d (lv_stream c) else lv_stream c), lv_phase := PhOver reg\<rparr>
      | _ \<Rightarrow> c)"
| "live_do env (DoRead w) c = c\<lparr>lv_reader := tail_step w (lv_stream c) (lv_reader c)\<rparr>"

definition new_live :: "string \<Rightarrow> string \<Rightarrow> string \<Rightarrow> string \<Rightarrow> rat \<Rightarrow> live_chat" where
  "new_live rid anima person thread now =
     \<lparr>lv_stream = new_stream rid anima person thread now, lv_phase = PhStart, lv_reader = start_reader (-1)\<rparr>"

fun cancels :: "live_action \<Rightarrow> bool" where
  "cancels (DoGreet ms x) = (x = PCancelled)"
| "cancels (DoEnd ms ending) = (ending = Some PCancelled)"
| "cancels _ = False"

text \<open>Without a reader the steps are those of \<open>run_producer\<close>.\<close>

lemma fold_stuck: "\<forall>a \<in> set acts. f a c = c \<Longrightarrow> fold f acts c = c"
  by (induction acts) auto

lemma live_loop:
  assumes "lv_phase c = PhLoop d" "producer_loop env resps ending (lv_stream c) d = o'" "close_outcome env ms o' = (s1, d1)"
  shows "fold (live_do env) (map (\<lambda>(t, resp). DoTake t ms resp) resps @ [DoEnd ms ending]) c = c\<lparr>lv_stream := s1, lv_phase := PhClose d1\<rparr>"
  using assms
proof (induction resps arbitrary: c d)
  case Nil
  then show ?case by (auto simp: close_live_def split: option.splits)
next
  case (Cons r resps)
  obtain t resp where r: "r = (t, resp)" by (cases r)
  have stuck: "fold (live_do env) (map (\<lambda>(t, resp). DoTake t ms resp) resps @ [DoEnd ms ending]) c' = c'"
    if "lv_phase c' = PhClose d'" for c' d'
    using that by (intro fold_stuck) auto
  have head: "fold (live_do env) (map (\<lambda>(t, resp). DoTake t ms resp) (r # resps) @ [DoEnd ms ending]) c =
      fold (live_do env) (map (\<lambda>(t, resp). DoTake t ms resp) resps @ [DoEnd ms ending]) (live_do env (DoTake t ms resp) c)"
    by (simp add: r)
  show ?case
  proof (cases "take_response env t resp (lv_stream c) d")
    case (Goes s2 d2)
    with Cons.prems r Cons.IH [of "c\<lparr>lv_stream := s2, lv_phase := PhLoop d2\<rparr>" d2] show ?thesis
      by (simp add: close_live_def)
  next
    case (Stops s2 d2)
    with Cons.prems r have "o' = Stops s2 d2" by simp
    with Cons.prems Stops have "live_do env (DoTake t ms resp) c = c\<lparr>lv_stream := s1, lv_phase := PhClose d1\<rparr>"
      by (simp add: close_live_def)
    then show ?thesis unfolding head by (simp only:) (rule stuck, simp)
  next
    case (Fails x s2 d2)
    with Cons.prems r have "o' = Fails x s2 d2" by simp
    with Cons.prems Fails have "live_do env (DoTake t ms resp) c = c\<lparr>lv_stream := s1, lv_phase := PhClose d1\<rparr>"
      by (simp add: close_live_def)
    then show ?thesis unfolding head by (simp only:) (rule stuck, simp)
  qed
qed

lemma live_runs_producer:
  assumes "get_stream (rs_id (lv_stream c)) r \<noteq> None" "lv_phase c = PhStart"
  shows "lv_stream (fold (live_do env) ([DoStart] @ (map (\<lambda>(t, resp). DoTake t ms resp) resps @ [DoEnd ms ending]) @ [DoComplete True]) c) =
         fst (run_producer env None resps ending ms (lv_stream c) r)"
proof -
  let ?s = "snd (add_event 0 ''stream_start'' [(''response_id'', JStr (rs_id (lv_stream c)))] (lv_stream c))"
  let ?c = "c\<lparr>lv_stream := ?s, lv_phase := PhLoop False\<rparr>"
  obtain s1 d1 where close: "close_outcome env ms (producer_loop env resps ending ?s False) = (s1, d1)"
    by (cases "close_outcome env ms (producer_loop env resps ending ?s False)")
  have loop: "fold (live_do env) (map (\<lambda>(t, resp). DoTake t ms resp) resps @ [DoEnd ms ending]) ?c = ?c\<lparr>lv_stream := s1, lv_phase := PhClose d1\<rparr>"
    by (rule live_loop [OF _ _ close]) simp_all
  have grow: "\<exists>new. stream_grows (lv_stream c) new s1"
  proof -
    have "adds_events ?s False (producer_loop env resps ending ?s False)" by (rule producer_loop_adds)
    from close_outcome_well [OF this producer_loop_ends close] obtain new where "stream_grows ?s new s1" by blast
    then show ?thesis using grows_add stream_grows_trans by blast
  qed
  then have "rs_id s1 = rs_id (lv_stream c)" by (auto simp: stream_grows_def)
  then have "fst (run_producer env None resps ending ms (lv_stream c) r) = finish_stream d1 s1"
    using close assms(1) complete_stream_done [of s1 r d1] by (simp add: run_producer_def) (metis fst_conv)
  moreover have "fold (live_do env) ([DoStart] @ (map (\<lambda>(t, resp). DoTake t ms resp) resps @ [DoEnd ms ending]) @ [DoComplete True]) c =
      live_do env (DoComplete True) (?c\<lparr>lv_stream := s1, lv_phase := PhClose d1\<rparr>)"
  proof -
    have "fold f ([x] @ ys @ [z]) u = f z (fold f ys (f x u))" for f :: "live_action \<Rightarrow> live_chat \<Rightarrow> live_chat" and x ys z u
      by simp
    moreover have "live_do env DoStart c = ?c" using assms(2) by simp
    ultimately show ?thesis using loop by metis
  qed
  ultimately show ?thesis by simp
qed

text \<open>
  The invariant: the stream and the tail agree with one log, and the log tells why the stream is complete or about to be.
\<close>

definition answered :: "sse_event list \<Rightarrow> bool" where
  "answered hist = (''done'' \<in> se_event ` set hist \<or> hist \<noteq> [] \<and> se_event (last hist) = ''error'')"

definition phase_ok :: "sse_event list \<Rightarrow> response_stream \<Rightarrow> live_phase \<Rightarrow> bool" where
  "phase_ok hist s ph =
     (case ph of
        PhStart \<Rightarrow> \<not> rs_complete s
      | PhLoop d \<Rightarrow> (d \<or> rs_complete s \<longrightarrow> ''done'' \<in> se_event ` set hist)
      | PhClose d \<Rightarrow> answered hist
      | PhOver reg \<Rightarrow> answered hist \<and> (reg \<longrightarrow> rs_complete s))"

definition live_ok :: "live_chat \<Rightarrow> bool" where
  "live_ok c =
     (\<exists>hist. chat_ok (-1) \<lparr>ch_stream = lv_stream c, ch_log = hist, ch_reader = lv_reader c\<rparr> \<and> phase_ok hist (lv_stream c) (lv_phase c))"

lemma chat_ok_grows:
  assumes "chat_ok k \<lparr>ch_stream = s, ch_log = hist, ch_reader = r\<rparr>" "stream_grows s new s'"
  shows "chat_ok k \<lparr>ch_stream = s', ch_log = hist @ new, ch_reader = r\<rparr>"
proof -
  have "buffer_ok hist s" using assms(1) by (simp add: chat_ok_def)
  moreover from this assms(2) have "buffer_ok (hist @ new) s'" by (simp add: stream_grows_def)
  ultimately show ?thesis
    using assms(1) by (auto simp: chat_ok_def reader_ok_def intro: sends_in_order_more)
qed

lemma close_live_ok:
  assumes ok: "chat_ok (-1) \<lparr>ch_stream = lv_stream c, ch_log = hist, ch_reader = lv_reader c\<rparr>"
    and ph: "d \<or> rs_complete (lv_stream c) \<longrightarrow> ''done'' \<in> se_event ` set hist"
    and adds: "adds_events (lv_stream c) d o'" and live: "\<not> was_cancelled o'"
  shows "live_ok (close_live env ms o' c)"
proof -
  obtain new where new: "stream_grows (lv_stream c) new (out_stream o')" "out_done o' \<longrightarrow> d \<or> ''done'' \<in> se_event ` set new"
      "rs_complete (out_stream o') \<longrightarrow> rs_complete (lv_stream c) \<or> ''done'' \<in> se_event ` set new"
    using adds by (auto simp: adds_events_def)
  note grown = chat_ok_grows [OF ok new(1)]
  have fin: "out_done o' \<or> rs_complete (out_stream o') \<longrightarrow> ''done'' \<in> se_event ` set (hist @ new)"
    using new(2,3) ph by auto
  have err: "\<exists>hist'. chat_ok (-1) \<lparr>ch_stream = snd (add_event ms ''error'' p (out_stream o')), ch_log = hist', ch_reader = lv_reader c\<rparr> \<and> answered hist'" for p
    using chat_ok_grows [OF grown grows_add, of ms "''error''" p]
    by (intro exI [of _ "(hist @ new) @ [make_event ''error'' p (out_stream o')]"]) (simp add: answered_def)
  show ?thesis
  proof (cases o')
    case (Goes s' d')
    with grown fin show ?thesis by (auto simp: close_live_def live_ok_def phase_ok_def)
  next
    case (Stops s' d')
    with grown fin err show ?thesis
      by (auto simp: close_live_def close_outcome_def live_ok_def phase_ok_def answered_def)
  next
    case (Fails x s' d')
    then obtain p where "exn_payload env x = Some p" using live by (cases x) auto
    with Fails err show ?thesis
      by (auto simp: close_live_def close_outcome_def live_ok_def phase_ok_def)
  qed
qed

lemma live_do_ok:
  assumes ok: "live_ok c" and a: "\<not> cancels a" and ws: "\<And>k. pe_ws env k \<noteq> Some PCancelled"
  shows "live_ok (live_do env a c)"
proof -
  obtain hist where hist: "chat_ok (-1) \<lparr>ch_stream = lv_stream c, ch_log = hist, ch_reader = lv_reader c\<rparr>"
    and ph: "phase_ok hist (lv_stream c) (lv_phase c)"
    using ok by (auto simp: live_ok_def)
  show ?thesis
  proof (cases a)
    case DoStart
    let ?s = "lv_stream c" and ?p = "[(''response_id'', JStr (rs_id (lv_stream c)))]"
    have "\<not> rs_complete (snd (add_event 0 ''stream_start'' ?p ?s))" if "lv_phase c = PhStart"
      using add_event_complete [of 0 "''stream_start''" ?p ?s] ph that by (auto simp: phase_ok_def)
    with DoStart ok show ?thesis
      using chat_ok_grows [OF hist grows_add, of 0 "''stream_start''" ?p] by (auto simp: live_ok_def phase_ok_def)
  next
    case (DoGreet ms x)
    have "adds_events (lv_stream c) False (Fails x (lv_stream c) False)" by (simp add: adds_events_refl)
    with DoGreet ok a ph show ?thesis
      using close_live_ok [OF hist, of False "Fails x (lv_stream c) False"] by (auto simp: phase_ok_def)
  next
    case (DoTake ms ms' resp)
    show ?thesis
    proof (cases "lv_phase c")
      case (PhLoop d)
      have "live_ok (close_live env ms' (take_response env ms resp (lv_stream c) d) c)"
      proof (rule close_live_ok [OF hist _ take_response_adds])
        show "d \<or> rs_complete (lv_stream c) \<longrightarrow> ''done'' \<in> se_event ` set hist" using ph PhLoop by (simp add: phase_ok_def)
        show "\<not> was_cancelled (take_response env ms resp (lv_stream c) d)" using take_response_cancelled ws by blast
      qed
      with PhLoop DoTake show ?thesis by simp
    qed (use ok DoTake in simp_all)
  next
    case (DoEnd ms ending)
    show ?thesis
    proof (cases "lv_phase c")
      case (PhLoop d)
      have "live_ok (close_live env ms (case ending of None \<Rightarrow> Stops (lv_stream c) d | Some x \<Rightarrow> Fails x (lv_stream c) d) c)"
      proof (rule close_live_ok [OF hist])
        show "d \<or> rs_complete (lv_stream c) \<longrightarrow> ''done'' \<in> se_event ` set hist" using ph PhLoop by (simp add: phase_ok_def)
        show "adds_events (lv_stream c) d (case ending of None \<Rightarrow> Stops (lv_stream c) d | Some x \<Rightarrow> Fails x (lv_stream c) d)"
          by (auto intro: adds_events_refl split: option.split)
        show "\<not> was_cancelled (case ending of None \<Rightarrow> Stops (lv_stream c) d | Some x \<Rightarrow> Fails x (lv_stream c) d)"
          using a DoEnd by (auto split: option.split)
      qed
      with PhLoop DoEnd show ?thesis by simp
    qed (use ok DoEnd in simp_all)
  next
    case (DoComplete reg)
    with ok hist ph show ?thesis
      by (auto simp: live_ok_def phase_ok_def chat_ok_def split: live_phase.splits)
  next
    case (DoRead w)
    with hist ph show ?thesis
      using reader_move_ok [OF tail.moves] by (auto simp: live_ok_def chat_ok_def)
  qed
qed

lemma live_run_ok:
  assumes "\<forall>a \<in> set acts. \<not> cancels a" "\<And>k. pe_ws env k \<noteq> Some PCancelled"
  shows "live_ok (fold (live_do env) acts (new_live rid anima person thread now))"
proof -
  have start: "live_ok (new_live rid anima person thread now)"
  proof -
    have "chat_ok (-1) \<lparr>ch_stream = new_stream rid anima person thread now, ch_log = [], ch_reader = start_reader (-1)\<rparr>"
      by (simp add: chat_ok_def reader_ok_def) (simp add: start_reader_def)
    moreover have "\<not> rs_complete (new_stream rid anima person thread now)" by (simp add: new_stream_def)
    ultimately show ?thesis by (auto simp: live_ok_def new_live_def phase_ok_def)
  qed
  have "live_ok (fold (live_do env) acts c)" if "live_ok c" for c
    using that assms(1)
  proof (induction acts arbitrary: c)
    case (Cons a acts)
    then show ?case using live_do_ok [OF Cons.prems(1) _ assms(2)] by simp
  qed simp
  from this [OF start] show ?thesis .
qed

section \<open>A concrete producer\<close>

definition demo_producer :: producer_env where
  "demo_producer =
     \<lparr>pe_chunks = \<lparr>ce_tr = (\<lambda>k. k), ce_str = (\<lambda>v. ''?'')\<rparr>, pe_ws = (\<lambda>c. None), pe_name = ''alice''\<rparr>"

definition demo_answer :: "(int \<times> ipc_response) list" where
  "demo_answer =
     [(1, \<lparr>ir_done = False, ir_chunk = JStr ''hi'', ir_result = JNull\<rparr>),
      (2, \<lparr>ir_done = True, ir_chunk = JNull, ir_result = JObj [(''response'', JStr ''hi'')]\<rparr>)]"

definition demo_new_stream :: response_stream where
  "demo_new_stream = new_stream ''t'' ''alice'' ''human'' ''default'' 0"

definition demo_registry :: stream_registry where
  "demo_registry = register ''t'' 0 ''alice'' ''human'' ''default'' empty_registry"

lemma demo_registered: "get_stream (rs_id demo_new_stream) demo_registry \<noteq> None"
  by code_simp

lemma demo_buffer: "buffer_ok [] demo_new_stream"
  by (simp add: demo_new_stream_def)

section \<open>Properties\<close>

text \<open>
  C24. Whatever the anima process sends and however the connection ends, the producer leaves its registered stream complete:
  marked as done only after a \<open>done\<close> event, otherwise with an \<open>error\<close> event as its last one, unless the producer was
  cancelled. Together with the tail's properties: every client gets an answer or an error.
\<close>

theorem producer_completes:
  assumes "get_stream (rs_id s) r \<noteq> None" "buffer_ok hist s"
    and "run_producer env greeting resps ending ms s r = (s', r')"
  shows "rs_complete s' \<and> get_stream (rs_id s) r' = Some s' \<and>
    (\<exists>new. buffer_ok (hist @ new) s' \<and>
       closed_well new (rs_done s') (Some PCancelled \<in> {greeting, ending} \<or> (\<exists>c. pe_ws env c = Some PCancelled)))"
  using producer_ends [OF assms] .

theorem producer_completes_witness:
  "let (s', r') = run_producer demo_producer None demo_answer None 3 demo_new_stream demo_registry
   in rs_complete s' \<and> get_stream ''t'' r' = Some s' \<and> map se_event (rs_events s') = [''stream_start'', ''text_delta'', ''done'']"
proof -
  obtain s' r' where run: "run_producer demo_producer None demo_answer None 3 demo_new_stream demo_registry = (s', r')"
    by (cases "run_producer demo_producer None demo_answer None 3 demo_new_stream demo_registry")
  have "map se_event (rs_events (fst (run_producer demo_producer None demo_answer None 3 demo_new_stream demo_registry))) =
      [''stream_start'', ''text_delta'', ''done'']"
    by code_simp
  moreover have "rs_id demo_new_stream = ''t''" by code_simp
  ultimately show ?thesis
    using producer_completes [OF demo_registered demo_buffer run] by (simp add: run)
qed

text \<open>
  C28. A client that stays connected gets the end of its answer. The producer (not cancelled) and the tail run together, in
  any interleaving of their steps. When the tail ends by itself, it has sent every event that the stream had by then (up to
  2000 events), numbered without gaps, and among them a \<open>done\<close> event, or an \<open>error\<close> event as the last one; it may end
  before later events when the anima reported \<open>done\<close> early. And once the stream is complete, the tail ends by itself within
  finitely many of its own steps; a producer that is over has completed its stream if that was still registered.
\<close>

theorem answer_reaches_client:
  assumes c: "c = fold (live_do env) acts (new_live rid anima person thread now)"
    and "\<forall>a \<in> set acts. \<not> cancels a" "\<And>k. pe_ws env k \<noteq> Some PCancelled"
  shows "(rd_pc (tail_step w (lv_stream c) (lv_reader c)) = Ended False \<and> rd_pc (lv_reader c) \<noteq> Ended False \<and>
          rs_seq (lv_stream c) \<le> max_events \<longrightarrow>
            (let out = sent_events (tail_step w (lv_stream c) (lv_reader c))
             in map se_seq out = [0 ..< rs_seq (lv_stream c)] \<and>
                (''done'' \<in> se_event ` set out \<or> out \<noteq> [] \<and> se_event (last out) = ''error''))) \<and>
         (rs_complete (lv_stream c) \<and> (\<forall>b. rd_pc (lv_reader c) \<noteq> Ended b) \<longrightarrow>
            (\<exists>n. rd_pc ((tail_alone (lv_stream c) ^^ n) (lv_reader c)) = Ended False)) \<and>
         (lv_phase c = PhOver True \<longrightarrow> rs_complete (lv_stream c))"
proof -
  obtain hist where ok: "chat_ok (-1) \<lparr>ch_stream = lv_stream c, ch_log = hist, ch_reader = lv_reader c\<rparr>"
    and ph: "phase_ok hist (lv_stream c) (lv_phase c)"
    using live_run_ok [OF assms(2,3)] unfolding c live_ok_def by blast
  let ?r = "lv_reader c" and ?s = "lv_stream c"
  let ?out = "sent_events (tail_step w ?s ?r)"
  have b: "buffer_ok hist ?s" using ok by (simp add: chat_ok_def)
  have len: "rs_seq ?s = length hist" "map se_seq hist = [0 ..< length hist]" using b by (simp_all add: buffer_ok_def)
  have "map se_seq ?out = [0 ..< rs_seq ?s] \<and> (''done'' \<in> se_event ` set ?out \<or> ?out \<noteq> [] \<and> se_event (last ?out) = ''error'')"
    if e: "rd_pc (tail_step w ?s ?r) = Ended False" "rd_pc ?r \<noteq> Ended False" and short: "rs_seq ?s \<le> max_events"
  proof -
    have "?out = hist"
      using tail_ends_complete [OF ok, of w] e short len(1) by simp
    moreover have "rs_complete ?s" by (rule tail_ends_drained(3) [OF e])
    ultimately show ?thesis
      using ph len by (auto simp: phase_ok_def answered_def split: live_phase.splits)
  qed
  moreover have "\<exists>n. rd_pc ((tail_alone ?s ^^ n) ?r) = Ended False" if "rs_complete ?s" "\<forall>b. rd_pc ?r \<noteq> Ended b"
    using tail_alone_ends [OF _ that(1) b, of ?r] that(2) by auto
  moreover have "rs_complete ?s" if "lv_phase c = PhOver True"
    using ph that by (simp add: phase_ok_def)
  ultimately show ?thesis by (simp add: Let_def)
qed

definition demo_live :: live_chat where
  "demo_live = fold (live_do demo_producer)
     [DoStart, DoRead Proceeds, DoTake 2 3 (snd (demo_answer ! 1)), DoRead Proceeds, DoRead Proceeds, DoComplete True,
      DoRead Proceeds, DoRead Proceeds, DoRead Proceeds, DoRead Proceeds, DoRead Proceeds]
     (new_live ''t'' ''alice'' ''human'' ''default'' 0)"

theorem answer_reaches_client_witness:
  "rd_pc (tail_step Proceeds (lv_stream demo_live) (lv_reader demo_live)) = Ended False \<and>
   (let out = sent_events (tail_step Proceeds (lv_stream demo_live) (lv_reader demo_live))
    in ''done'' \<in> se_event ` set out \<or> out \<noteq> [] \<and> se_event (last out) = ''error'')"
proof -
  have facts: "rd_pc (tail_step Proceeds (lv_stream demo_live) (lv_reader demo_live)) = Ended False"
      "rd_pc (lv_reader demo_live) \<noteq> Ended False" "rs_seq (lv_stream demo_live) \<le> max_events"
    by code_simp+
  have "\<forall>a \<in> set [DoStart, DoRead Proceeds, DoTake 2 3 (snd (demo_answer ! 1)), DoRead Proceeds, DoRead Proceeds, DoComplete True,
      DoRead Proceeds, DoRead Proceeds, DoRead Proceeds, DoRead Proceeds, DoRead Proceeds]. \<not> cancels a"
    by simp
  moreover have "pe_ws demo_producer k \<noteq> Some PCancelled" for k
    by (simp add: demo_producer_def)
  ultimately show ?thesis
    using answer_reaches_client [OF demo_live_def, where w = Proceeds] facts by (simp add: Let_def)
qed

text \<open>
  A stray closing tag never deletes answer text: without an opening tag the answer keeps every character but the
  closing tags and the white space behind them, and nothing counts as thinking.
\<close>

theorem orphan_tag_keeps_answer:
  assumes "\<not> occurs_in ''<think>'' t"
  shows "resolve_streamed_leaked_thinking t = ([], remove_close t)"
proof (cases "split_close t")
  case None
  then show ?thesis by (simp add: resolve_streamed_leaked_thinking_def strip_thinking_tags_def remove_close_none)
next
  case (Some pr)
  then obtain p rest where pr: "split_close t = Some (p, rest)" by (cases pr) auto
  then show ?thesis
    using assms opening_occurs [OF pr] remove_close_split [OF pr]
    by (auto simp: resolve_streamed_leaked_thinking_def strip_thinking_tags_def)
qed

theorem orphan_tag_keeps_answer_witness:
  "resolve_streamed_leaked_thinking ''Done.</think> Bye'' = ([], ''Done.Bye'')"
proof -
  have "\<not> occurs_in ''<think>'' ''Done.</think> Bye''" by code_simp
  from orphan_tag_keeps_answer [OF this]
  have "resolve_streamed_leaked_thinking ''Done.</think> Bye'' = ([], remove_close ''Done.</think> Bye'')" .
  moreover have "remove_close ''Done.</think> Bye'' = ''Done.Bye''" by code_simp
  ultimately show ?thesis by simp
qed

text \<open>The emotion of an answer is always one of the seven that the client knows.\<close>

lemma emotion_value_agrees:
  "extract_emotion (JStr response) = Inr (t, e) \<Longrightarrow> parse_emotion_value response = Inr e"
  by (auto simp: extract_emotion_def parse_emotion_value_def split: if_splits option.splits sum.splits)

lemma emotion_is_valid: "extract_emotion response = Inr (t, e) \<Longrightarrow> e \<in> set valid_emotions"
  by (auto simp: extract_emotion_def parse_emotion_def Let_def valid_emotions_def
      split: if_splits json.splits option.splits sum.splits)

end
