(* ===== verification/Spec2Isabelle.thy ===== *)
theory Spec2Isabelle
  imports Task_Store_Props Task_Dag Store_Transaction Task_Store_Read Task_Board Task_Queue Task_Dispatch
    Rate_Guard Activity_Log Cascade_Limiter Inbox_Limiter Loop_Guards Cron_Schedule Processing_Lease
    Json_Text Streaming_Journal Background_Tasks File_Access Org_Chart Delegation Process_Health Ipc_Duplex
    Chat_Stream Chat_Producer
begin

text \<open>
  Verification of AnimaWorks: an organisation of agents (animas), each a process with its own directory, that delegate
  tasks to each other, run tools, keep logs and are supervised by one server. The development models the deterministic
  core below the language models: what is stored, who may do what, what runs when, and what survives a crash.

  \<^bold>\<open>The parts and how they interact.\<close> A supervisor anima calls \<^verbatim>\<open>delegate_task\<close>; the handler checks the chain of
  supervision and the company boundary and publishes a row in the task store (SQLite). The owner's process claims the
  row as an attempt, runs it, and finishes it; wakeups tell the waiting owner. Batches carry dependencies and run in
  topological order. The board shows the rows with presentation metadata. Tool calls pass the file access policy, long
  ones become background tasks, output is streamed through a write-ahead journal, and everything is logged. Limiters
  bound messages, calls to models and the tool loop. The server pings the processes over line-based messages, restarts
  those that fail and reconciles them with the disk; it passes the answers of the animas on to the chat clients as streams.

  \<^bold>\<open>Theories, sources and what is shown.\<close>
  \<^item> \<open>Anima_Prelude\<close>: JSON values, Python's truth test, dictionaries as association lists, exceptions, keyed tables,
    and the interfaces that the components interpret: \<open>step_invariant\<close> (reachable states of a step relation),
    \<open>simulation\<close> (refinement), \<open>window_limit\<close> (sliding windows).
  \<^item> \<open>Task_Store\<close>, \<open>Task_Store_Inv\<close>, \<open>Task_Store_Props\<close>, \<open>Task_Store_Read\<close>, \<open>Store_Transaction\<close>
    (\<^verbatim>\<open>core/taskboard/tasks.py\<close>): tables as a record of lists, one definition per operation, the step relation
    \<open>store_step\<close>. The invariant \<open>store_inv\<close> holds in every reachable database; a claim succeeds exactly when its guards
    hold; at most one attempt of a task is live; a stale attempt leaves the row of its task as it is (re-adding a task by
    a name that an alias redirects is excluded, since the code then checks another row); a cancellation sticks until an
    update without a running attempt reopens the task; publication is idempotent; a wakeup is sent for every unfinished attempt; a transaction is all or nothing.
  \<^item> \<open>Task_Dag\<close> (\<^verbatim>\<open>core/supervisor/pending_executor.py\<close>): the order of a batch is a topological one, and exists exactly
    for acyclic batches.
  \<^item> \<open>Task_Board\<close> (\<^verbatim>\<open>core/taskboard/models.py\<close>, \<^verbatim>\<open>store.py\<close>, \<^verbatim>\<open>projector.py\<close>): metadata with an audit log that can be
    replayed, and the projection: what a row of the board shows of a task and its metadata, and which rows the filter
    hides. The clock readings of one call coincide.
  \<^item> \<open>Task_Queue\<close> (\<^verbatim>\<open>core/memory/task_queue.py\<close>) and \<open>Task_Dispatch\<close> (\<^verbatim>\<open>core/tasks_dispatch.py\<close>): the task API over
    the interface \<open>task_ledger\<close>, validated batches, atomic publication and retries.
  \<^item> \<open>Org_Chart\<close> (\<^verbatim>\<open>core/tooling/org_helpers.py\<close>, \<^verbatim>\<open>handler_subordinate_control.py\<close>, \<^verbatim>\<open>core/company.py\<close>): the search for
    descendants is the transitive closure, control calls stay below the caller, the company boundary fails closed.
  \<^item> \<open>Delegation\<close> (\<^verbatim>\<open>core/tooling/handler_delegation.py\<close>): the effect of a delegation on store and board, and that a
    refused one changes nothing.
  \<^item> \<open>File_Access\<close> (\<^verbatim>\<open>core/file_access_policy.py\<close>, \<^verbatim>\<open>core/tooling/handler_perms.py\<close>): where an anima without a deny
    root may write according to the charter, a bound on where it may write, and that a denied root overrides every grant.
  \<^item> \<open>Process_Health\<close> (\<^verbatim>\<open>core/supervisor/process_handle.py\<close>, \<^verbatim>\<open>_mgr_health.py\<close>, \<^verbatim>\<open>manager.py\<close>, \<^verbatim>\<open>_mgr_reconcile.py\<close>):
    progress protects from a kill, lost pings lead to one, crash loops end, processes follow the disk. Stopping a process
    may fail, and the code goes on. A loop of crashes starts a process at most once per retry of its budget; the events
    that refill the budget (a stable uptime, a repair, the recovery of a process that was given up) are steps of their own
    in the statement. A disabled anima is stopped by a reconciliation that can read the status files and that neither a
    bootstrap, a repair nor a shutdown puts off.
  \<^item> \<open>Json_Text\<close>, \<open>Streaming_Journal\<close> (\<^verbatim>\<open>core/memory/streaming_journal.py\<close>): JSON as text with Python's decoder, and a
    journal whose recovery after a crash at any point gives a prefix of what was streamed (a simulation by a log), for texts without the three
    line separators that the journal writes unescaped and its reader splits at; a lemma shows what is lost with them.
  \<^item> \<open>Json_Dump\<close>, \<open>Ipc_Duplex\<close> (\<^verbatim>\<open>core/supervisor/ipc_v2.py\<close> and the handshake in \<^verbatim>\<open>task_runner_supervisor.py\<close>): nested JSON
    as text and back, and the duplex protocol between an anima and its task runners as two endpoints with queues: frames
    round-trip, are well typed when decoded, arrive once and in order, and the send window holds against any peer.
    Sending is one step: an acknowledgement that arrives while the sender waits in \<^verbatim>\<open>drain()\<close> is outside the model.
  \<^item> \<open>Chat_Stream\<close>, \<open>Chat_Producer\<close> (\<^verbatim>\<open>server/stream_registry.py\<close>, \<^verbatim>\<open>server/routes/chat_producer.py\<close>, \<^verbatim>\<open>chat_resume.py\<close>,
    \<^verbatim>\<open>chat_chunk_handler.py\<close>, \<^verbatim>\<open>core/emotion_tag.py\<close>): the answer to a chat message as a bounded buffer of events, written by
    a producer and read by clients that may reconnect. Under any interleaving a connected client gets every event once
    and in order, a resumed one continues where it stopped, no wake-up is lost, every producer ends its stream with a
    \<open>done\<close> or \<open>error\<close> event, the whole answer reaches a client whose tail runs beside the producer until one of these
    events, as long as the buffer of 2000 events is not exceeded, and the registry finds the latest stream of each thread.
  \<^item> \<open>Background_Tasks\<close> (\<^verbatim>\<open>core/background.py\<close>): results stay retrievable, eviction is invisible.
  \<^item> \<open>Activity_Log\<close> (\<^verbatim>\<open>core/memory/activity.py\<close> and its parts), \<open>Cascade_Limiter\<close> (\<^verbatim>\<open>core/cascade_limiter.py\<close>),
    \<open>Inbox_Limiter\<close> (\<^verbatim>\<open>core/supervisor/inbox_rate_limiter.py\<close>: one handler at a time, and unread messages are taken up
    by a handler or a timer unless a handler died before its \<^verbatim>\<open>try\<close>), \<open>Rate_Guard\<close> and \<open>Loop_Guards\<close> (\<^verbatim>\<open>core/execution\<close>),
    \<open>Cron_Schedule\<close> (\<^verbatim>\<open>core/schedule_parser.py\<close>), \<open>Processing_Lease\<close> (\<^verbatim>\<open>core/platform/processing_lease.py\<close>).

  \<^bold>\<open>Conventions.\<close> Exceptions are values (\<open>Inl\<close>). Objects that the code shares live in a heap of addresses
  (\<open>Background_Tasks\<close>, \<open>Process_Health\<close>). What a function cannot compute is an argument: the clock, fresh identifiers,
  \<^verbatim>\<open>fromisoformat\<close>, the file system's answers, the outcome of a message, of a tool call or of a process start; what an
  operation reads after an \<^verbatim>\<open>await\<close> is an argument of its own, so that other tasks may have run in between. Times are
  rational seconds. Recursion that is not structural has a termination proof; the JSON decoder runs on fuel, one more
  than the length of the text, which is enough because every call consumes a character (\<open>loads_dumps\<close> shows it).

  \<^bold>\<open>Not modelled.\<close> Sessions of language models and their adapters, embeddings and ranking, external services, the
  browser and command-line clients, and configuration files: their behaviour is that of code outside the repository or
  of text. The schedulers and the task runner call the modelled operations in an order that the step relations leave
  open. Concurrency inside one SQLite transaction is excluded by its lock, which \<open>Store_Transaction\<close> models.
\<close>

end
